(* ===== verification/Sekai_Prelude.thy ===== *)
theory Sekai_Prelude
  imports Main "HOL-Library.Word" "HOL-Library.List_Lexorder" "HOL-Library.Product_Lexorder"
begin

unbundle bit_operations_syntax

section \<open>Shared vocabulary of the development\<close>

text \<open>
  This theory holds what every component uses: the result type and its sequencing, the
  fixed-width integers, big-endian and little-endian byte strings, and text.

  \<^item> \<open>Result<T, E>\<close> of the code is \<open>'e + 'a\<close>: \<open>Inl\<close> is \<open>Err\<close>, \<open>Inr\<close> is
    \<open>Ok\<close>. \<open>bindE\<close> is the \<open>?\<close> operator, \<open>mapE\<close> is \<open>collect::<Result<Vec<_>, _>>\<close>,
    \<open>ok_or\<close> and \<open>map_err\<close> carry the names of the standard library.
  \<^item> Unsigned integers are words. \<open>i32\<close> is a wrapper around a 32-bit word that is
    ordered by its signed value, as the derived \<open>Ord\<close> of the code orders it.
    A \<open>usize\<close> that counts elements in memory is a \<open>nat\<close>: it cannot reach \<open>2 ^ 64\<close>.
  \<^item> A \<open>[u8; 32]\<close> digest is the 256-bit word its bytes spell in big-endian order.
    \<open>hash_bytes_list\<close> gives the bytes; \<open>hash_order_is_byte_order\<close> shows that the
    numeric order of the word is the lexicographic order of the array.
  \<^item> A Rust string is the list of its Unicode scalar values. \<open>byte_len\<close> is its length in
    UTF-8 bytes, which is what \<open>str::len\<close> counts.
\<close>

named_theorems result_simps \<open>unfolding of the result sequencing\<close>

subsection \<open>Results\<close>

type_synonym ('e, 'a) result = "'e + 'a"

definition bindE :: "('e, 'a) result \<Rightarrow> ('a \<Rightarrow> ('e, 'b) result) \<Rightarrow> ('e, 'b) result" where
  "bindE m f = (case m of Inl e \<Rightarrow> Inl e | Inr x \<Rightarrow> f x)"

definition map_err :: "('e \<Rightarrow> 'f) \<Rightarrow> ('e, 'a) result \<Rightarrow> ('f, 'a) result" where
  "map_err h m = (case m of Inl e \<Rightarrow> Inl (h e) | Inr x \<Rightarrow> Inr x)"

definition ok_or :: "'e \<Rightarrow> 'a option \<Rightarrow> ('e, 'a) result" where
  "ok_or e x = (case x of None \<Rightarrow> Inl e | Some v \<Rightarrow> Inr v)"

fun mapE :: "('a \<Rightarrow> ('e, 'b) result) \<Rightarrow> 'a list \<Rightarrow> ('e, 'b list) result" where
  "mapE f [] = Inr []"
| "mapE f (x # xs) = bindE (f x) (\<lambda>y. bindE (mapE f xs) (\<lambda>ys. Inr (y # ys)))"

definition is_ok :: "('e, 'a) result \<Rightarrow> bool" where
  "is_ok m = (case m of Inl _ \<Rightarrow> False | Inr _ \<Rightarrow> True)"

lemma bindE_simps [simp, result_simps]:
  "bindE (Inl e) f = Inl e"
  "bindE (Inr x) f = f x"
  by (simp_all add: bindE_def)

lemma map_err_simps [simp, result_simps]:
  "map_err h (Inl e) = Inl (h e)"
  "map_err h (Inr x) = Inr x"
  by (simp_all add: map_err_def)

lemma ok_or_simps [simp, result_simps]:
  "ok_or e None = Inl e"
  "ok_or e (Some x) = Inr x"
  by (simp_all add: ok_or_def)

lemma is_ok_simps [simp]:
  "\<not> is_ok (Inl e)"
  "is_ok (Inr x)"
  by (simp_all add: is_ok_def)

lemma is_ok_iff: "is_ok m \<longleftrightarrow> (\<exists>x. m = Inr x)"
  by (cases m) simp_all

lemma bindE_eq_Inr: "bindE m f = Inr y \<longleftrightarrow> (\<exists>x. m = Inr x \<and> f x = Inr y)"
  by (cases m) simp_all

lemma bindE_eq_Inl: "bindE m f = Inl e \<longleftrightarrow> m = Inl e \<or> (\<exists>x. m = Inr x \<and> f x = Inl e)"
  by (cases m) simp_all

lemma map_err_eq_Inr: "map_err h m = Inr y \<longleftrightarrow> m = Inr y"
  by (cases m) simp_all

lemma ok_or_eq_Inr: "ok_or e x = Inr v \<longleftrightarrow> x = Some v"
  by (cases x) simp_all

lemma find_append_cases:
  "find P (xs @ ys) = (case find P xs of Some x \<Rightarrow> Some x | None \<Rightarrow> find P ys)"
  by (induction xs) auto

lemma bindE_cong:
  "m = m' \<Longrightarrow> (\<And>x. m' = Inr x \<Longrightarrow> f x = g x) \<Longrightarrow> bindE m f = bindE m' g"
  by (cases m') simp_all

lemma bindE_assoc: "bindE (bindE m f) g = bindE m (\<lambda>x. bindE (f x) g)"
  by (cases m) simp_all

lemma mapE_eq_Inr: "mapE f xs = Inr ys \<longleftrightarrow> list_all2 (\<lambda>x y. f x = Inr y) xs ys"
proof (induction xs arbitrary: ys)
  case Nil
  then show ?case by (cases ys) auto
next
  case (Cons x xs)
  then show ?case by (cases ys) (auto simp: bindE_eq_Inr)
qed

lemma mapE_all_ok: "(\<And>x. x \<in> set xs \<Longrightarrow> f x = Inr (g x)) \<Longrightarrow> mapE f xs = Inr (map g xs)"
  by (induction xs) simp_all

lemma mapE_length: "mapE f xs = Inr ys \<Longrightarrow> length ys = length xs"
  by (simp add: mapE_eq_Inr list_all2_lengthD)

subsection \<open>Fixed-width integers\<close>

type_synonym u8 = "8 word"
type_synonym u16 = "16 word"
type_synonym u32 = "32 word"
type_synonym u64 = "64 word"
type_synonym usize = nat
type_synonym bytes = "u8 list"

abbreviation i32_min :: int where "i32_min \<equiv> - 2147483648"
abbreviation i32_max :: int where "i32_max \<equiv> 2147483647"

datatype i32 = I32 "32 word"

primrec sval :: "i32 \<Rightarrow> int" where
  "sval (I32 w) = sint w"

primrec raw32 :: "i32 \<Rightarrow> u32" where
  "raw32 (I32 w) = w"

definition i32_of :: "int \<Rightarrow> i32" where
  "i32_of k = I32 (word_of_int k)"

definition in_i32 :: "int \<Rightarrow> bool" where
  "in_i32 k \<longleftrightarrow> i32_min \<le> k \<and> k \<le> i32_max"

text \<open>\<open>i32::try_from\<close>, \<open>checked_add\<close>, \<open>checked_sub\<close>, \<open>checked_mul\<close>, \<open>saturating_add\<close>.\<close>

definition i32_try :: "int \<Rightarrow> i32 option" where
  "i32_try k = (if in_i32 k then Some (i32_of k) else None)"

definition i32_saturate :: "int \<Rightarrow> i32" where
  "i32_saturate k = i32_of (max i32_min (min i32_max k))"

lemma sval_bounds: "i32_min \<le> sval a" "sval a \<le> i32_max"
proof -
  obtain w where a: "a = I32 w" by (cases a)
  show "i32_min \<le> sval a" using sint_ge [of w] by (simp add: a)
  show "sval a \<le> i32_max" using sint_lt [of w] by (simp add: a)
qed

lemma in_i32_sval [simp]: "in_i32 (sval a)"
  by (simp add: in_i32_def sval_bounds)

lemma sval_i32_of: "in_i32 k \<Longrightarrow> sval (i32_of k) = k"
  by (simp add: i32_of_def in_i32_def signed_of_int signed_take_bit_int_eq_self)

lemma i32_of_sval [simp]: "i32_of (sval a) = a"
  by (cases a) (simp add: i32_of_def)

lemma sval_inject [simp]: "sval a = sval b \<longleftrightarrow> a = b"
  by (metis i32_of_sval)

lemma i32_try_sval [simp]: "i32_try (sval a) = Some a"
  by (simp add: i32_try_def)

lemma i32_try_eq_Some: "i32_try k = Some a \<longleftrightarrow> k = sval a"
  by (auto simp: i32_try_def sval_i32_of)

lemma i32_try_None: "i32_try k = None \<longleftrightarrow> \<not> in_i32 k"
  by (simp add: i32_try_def)

instantiation i32 :: linorder
begin

definition less_eq_i32 :: "i32 \<Rightarrow> i32 \<Rightarrow> bool" where
  "less_eq_i32 a b \<longleftrightarrow> sval a \<le> sval b"

definition less_i32 :: "i32 \<Rightarrow> i32 \<Rightarrow> bool" where
  "less_i32 a b \<longleftrightarrow> sval a < sval b"

instance
  by intro_classes (auto simp: less_eq_i32_def less_i32_def simp flip: sval_inject)

end

lemmas i32_order = less_eq_i32_def less_i32_def

subsection \<open>Byte strings\<close>

text \<open>\<open>be_bytes n v\<close> is the \<open>n\<close>-byte big-endian spelling of \<open>v\<close>, \<open>from_be\<close> reads it back.\<close>

fun be_bytes :: "nat \<Rightarrow> nat \<Rightarrow> bytes" where
  "be_bytes 0 v = []"
| "be_bytes (Suc k) v = be_bytes k (v div 256) @ [of_nat v]"

definition from_be :: "bytes \<Rightarrow> nat" where
  "from_be bs = foldl (\<lambda>acc b. acc * 256 + unat b) 0 bs"

definition le_bytes :: "nat \<Rightarrow> nat \<Rightarrow> bytes" where
  "le_bytes k v = rev (be_bytes k v)"

definition from_le :: "bytes \<Rightarrow> nat" where
  "from_le bs = from_be (rev bs)"

lemma from_be_simps [simp]:
  "from_be [] = 0"
  "from_be (bs @ [b]) = from_be bs * 256 + unat b"
  by (simp_all add: from_be_def)

lemma length_be_bytes [simp]: "length (be_bytes k v) = k"
  by (induction k arbitrary: v) simp_all

lemma unat_u8_less [simp]: "unat (b :: u8) < 256"
  using unsigned_less [of b] by simp

lemma unat_u8_of_nat: "unat (of_nat v :: u8) = v mod 256"
  by (simp add: unat_of_nat)

lemma from_be_be_bytes: "from_be (be_bytes k v) = v mod 256 ^ k"
proof (induction k arbitrary: v)
  case 0
  then show ?case by simp
next
  case (Suc k)
  have "v mod 256 ^ Suc k = 256 * (v div 256 mod 256 ^ k) + v mod 256"
    by (simp add: mod_mult2_eq)
  with Suc show ?case by (simp add: unat_u8_of_nat)
qed

lemma from_be_bound: "from_be bs < 256 ^ length bs"
proof (induction bs rule: rev_induct)
  case Nil
  then show ?case by simp
next
  case (snoc b bs)
  have "from_be bs * 256 + unat b < (from_be bs + 1) * 256"
    by (simp add: add_mult_distrib)
  also have "\<dots> \<le> 256 ^ length bs * 256"
    using snoc by (intro mult_le_mono) simp_all
  finally show ?case by simp
qed

lemma be_bytes_from_be: "be_bytes (length bs) (from_be bs) = bs"
proof (induction bs rule: rev_induct)
  case Nil
  then show ?case by simp
next
  case (snoc b bs)
  have "(from_be bs * 256 + unat b) div 256 = from_be bs" by simp
  moreover have "(of_nat (from_be bs * 256 + unat b) :: u8) = b"
    by (simp only: word_unat_eq_iff unat_u8_of_nat) simp
  ultimately show ?case using snoc by (simp del: of_nat_add)
qed

lemma from_be_inject: "length xs = length ys \<Longrightarrow> from_be xs = from_be ys \<longleftrightarrow> xs = ys"
  by (metis be_bytes_from_be)

lemma be_bytes_inject:
  "u < 256 ^ k \<Longrightarrow> v < 256 ^ k \<Longrightarrow> be_bytes k u = be_bytes k v \<longleftrightarrow> u = v"
  by (metis from_be_be_bytes mod_less)

text \<open>The numeric order of equally long big-endian strings is their lexicographic order.\<close>

lemma from_be_Cons: "from_be (b # bs) = unat b * 256 ^ length bs + from_be bs"
proof (induction bs rule: rev_induct)
  case Nil
  then show ?case by (simp add: from_be_def)
next
  case (snoc c bs)
  have "from_be (b # bs @ [c]) = from_be (b # bs) * 256 + unat c"
    using from_be_simps(2) [of "b # bs" c] by simp
  with snoc show ?case by (simp add: algebra_simps)
qed

lemma list_Cons_less: "(x # xs) < (y # ys) \<longleftrightarrow> x < y \<or> x = y \<and> xs < ys"
  for x y :: "'a::linorder"
  by (simp add: list_less_def)

lemma from_be_less_iff:
  "length xs = length ys \<Longrightarrow> from_be xs < from_be ys \<longleftrightarrow> xs < ys"
proof (induction xs ys rule: list_induct2)
  case Nil
  then show ?case by (simp add: list_less_def)
next
  case (Cons x xs y ys)
  let ?B = "256 ^ length ys :: nat"
  have bx: "from_be xs < ?B" and by': "from_be ys < ?B"
    using from_be_bound [of xs] from_be_bound [of ys] Cons.hyps by simp_all
  consider "unat x < unat y" | "unat x = unat y" | "unat y < unat x" by linarith
  then show ?case
  proof cases
    case 1
    have "unat x * ?B + from_be xs < (unat x + 1) * ?B" using bx by simp
    also have "\<dots> \<le> unat y * ?B" using 1 by (intro mult_le_mono1) simp
    finally show ?thesis
      using 1 by (simp add: from_be_Cons Cons.hyps list_Cons_less word_less_nat_alt)
  next
    case 2
    then have "x = y" by (simp only: word_unat_eq_iff)
    with Cons show ?thesis by (simp add: from_be_Cons list_Cons_less)
  next
    case 3
    have "unat y * ?B + from_be ys < (unat y + 1) * ?B" using by' by simp
    also have "\<dots> \<le> unat x * ?B" using 3 by (intro mult_le_mono1) simp
    finally show ?thesis
      using 3 by (auto simp add: from_be_Cons Cons.hyps list_Cons_less word_less_nat_alt)
  qed
qed

lemma from_le_le_bytes: "from_le (le_bytes k v) = v mod 256 ^ k"
  by (simp add: from_le_def le_bytes_def from_be_be_bytes)

lemma length_le_bytes [simp]: "length (le_bytes k v) = k"
  by (simp add: le_bytes_def)

subsection \<open>Digests\<close>

type_synonym hash32 = "256 word"

definition hash_bytes_list :: "hash32 \<Rightarrow> bytes" where
  "hash_bytes_list h = be_bytes 32 (unat h)"

definition hash_of_bytes :: "bytes \<Rightarrow> hash32" where
  "hash_of_bytes bs = of_nat (from_be bs)"

lemma pow_256_32: "(256 :: nat) ^ 32 = 2 ^ 256"
  by simp

lemma unat_hash_less: "unat (h :: hash32) < 256 ^ 32"
  using unsigned_less [of h] by (simp only: pow_256_32) simp

lemma length_hash_bytes_list [simp]: "length (hash_bytes_list h) = 32"
  by (simp add: hash_bytes_list_def)

lemma hash_of_bytes_list [simp]: "hash_of_bytes (hash_bytes_list h) = h"
  by (simp add: hash_of_bytes_def hash_bytes_list_def from_be_be_bytes
      mod_less [OF unat_hash_less] del: power_numeral)

lemma hash_bytes_list_inject [simp]: "hash_bytes_list a = hash_bytes_list b \<longleftrightarrow> a = b"
  by (metis hash_of_bytes_list)

lemma hash_bytes_list_of_bytes:
  assumes "length bs = 32"
  shows "hash_bytes_list (hash_of_bytes bs) = bs"
proof -
  have "from_be bs < 2 ^ 256"
    using from_be_bound [of bs] assms by (simp only: pow_256_32)
  then have "unat (of_nat (from_be bs) :: hash32) = from_be bs"
    by (simp add: unat_of_nat)
  then show ?thesis
    using be_bytes_from_be [of bs] assms
    by (simp add: hash_bytes_list_def hash_of_bytes_def)
qed

lemma hash_order_is_byte_order: "a < b \<longleftrightarrow> hash_bytes_list a < hash_bytes_list b"
proof -
  have "from_be (hash_bytes_list h) = unat h" for h
    by (simp add: hash_bytes_list_def from_be_be_bytes mod_less [OF unat_hash_less]
        del: power_numeral)
  then show ?thesis
    using from_be_less_iff [of "hash_bytes_list a" "hash_bytes_list b"]
    by (simp add: word_less_nat_alt)
qed

subsection \<open>Text\<close>

type_synonym uchar = nat
type_synonym rstr = "uchar list"

definition lit :: "string \<Rightarrow> rstr" where
  "lit s = map of_char s"

definition utf8_len :: "uchar \<Rightarrow> nat" where
  "utf8_len c = (if c < 128 then 1 else if c < 2048 then 2 else if c < 65536 then 3 else 4)"

definition byte_len :: "rstr \<Rightarrow> nat" where
  "byte_len s = sum_list (map utf8_len s)"

text \<open>\<open>str::as_bytes\<close>: the UTF-8 encoding.\<close>

definition utf8_char :: "uchar \<Rightarrow> bytes" where
  "utf8_char c =
     (if c < 128 then [of_nat c]
      else if c < 2048 then [of_nat (192 + c div 64), of_nat (128 + c mod 64)]
      else if c < 65536 then
        [of_nat (224 + c div 4096), of_nat (128 + c div 64 mod 64), of_nat (128 + c mod 64)]
      else [of_nat (240 + c div 262144), of_nat (128 + c div 4096 mod 64),
            of_nat (128 + c div 64 mod 64), of_nat (128 + c mod 64)])"

definition as_bytes :: "rstr \<Rightarrow> bytes" where
  "as_bytes s = concat (map utf8_char s)"

definition is_ascii_digit :: "uchar \<Rightarrow> bool" where
  "is_ascii_digit c \<longleftrightarrow> 48 \<le> c \<and> c \<le> 57"

definition is_ascii_alphabetic :: "uchar \<Rightarrow> bool" where
  "is_ascii_alphabetic c \<longleftrightarrow> 65 \<le> c \<and> c \<le> 90 \<or> 97 \<le> c \<and> c \<le> 122"

definition is_ascii_alphanumeric :: "uchar \<Rightarrow> bool" where
  "is_ascii_alphanumeric c \<longleftrightarrow> is_ascii_digit c \<or> is_ascii_alphabetic c"

definition ascii_lower :: "uchar \<Rightarrow> uchar" where
  "ascii_lower c = (if 65 \<le> c \<and> c \<le> 90 then c + 32 else c)"

definition to_ascii_lowercase :: "rstr \<Rightarrow> rstr" where
  "to_ascii_lowercase s = map ascii_lower s"

definition eq_ignore_ascii_case :: "rstr \<Rightarrow> rstr \<Rightarrow> bool" where
  "eq_ignore_ascii_case a b \<longleftrightarrow> to_ascii_lowercase a = to_ascii_lowercase b"

lemma length_utf8_char: "length (utf8_char c) = utf8_len c"
  by (simp add: utf8_char_def utf8_len_def)

lemma length_as_bytes: "length (as_bytes s) = byte_len s"
  by (induction s) (simp_all add: as_bytes_def byte_len_def length_utf8_char)

lemma as_bytes_ascii: "\<forall>c \<in> set s. c < 128 \<Longrightarrow> as_bytes s = map of_nat s"
  by (induction s) (simp_all add: as_bytes_def utf8_char_def)

text \<open>\<open>str::split\<close> on one character: never empty, keeps empty pieces.\<close>

fun split_on :: "uchar \<Rightarrow> rstr \<Rightarrow> rstr list" where
  "split_on d [] = [[]]"
| "split_on d (c # cs) =
     (if c = d then [] # split_on d cs
      else (case split_on d cs of [] \<Rightarrow> [[c]] | p # ps \<Rightarrow> (c # p) # ps))"

lemma split_on_not_Nil [simp]: "split_on d s \<noteq> []"
  by (induction s) (auto split: list.splits)

lemma split_on_no_sep: "d \<notin> set s \<Longrightarrow> split_on d s = [s]"
  by (induction s) auto

lemma split_on_append:
  "d \<notin> set a \<Longrightarrow> split_on d (a @ d # b) = a # split_on d b"
  by (induction a) auto

subsection \<open>Decimal numbers\<close>

text \<open>
  \<open>parse_i32\<close> is the standard library's \<open>i32::from_str\<close>: one optional sign, at least one ASCII
  digit, nothing else, and an error outside the range. \<open>show_i32\<close> is its \<open>Display\<close>.
\<close>

fun digits_val :: "nat \<Rightarrow> rstr \<Rightarrow> nat option" where
  "digits_val acc [] = Some acc"
| "digits_val acc (c # cs) =
     (if is_ascii_digit c then digits_val (acc * 10 + (c - 48)) cs else None)"

definition parse_digits :: "rstr \<Rightarrow> nat option" where
  "parse_digits s = (if s = [] then None else digits_val 0 s)"

definition parse_i32 :: "rstr \<Rightarrow> i32 option" where
  "parse_i32 s =
     (case s of
        [] \<Rightarrow> None
      | c # cs \<Rightarrow>
          if c = 45 then Option.bind (parse_digits cs) (\<lambda>n. i32_try (- int n))
          else if c = 43 then Option.bind (parse_digits cs) (\<lambda>n. i32_try (int n))
          else Option.bind (parse_digits s) (\<lambda>n. i32_try (int n)))"

fun show_nat :: "nat \<Rightarrow> rstr" where
  "show_nat n = (if n < 10 then [48 + n] else show_nat (n div 10) @ [48 + n mod 10])"

declare show_nat.simps [simp del]

definition show_i32 :: "i32 \<Rightarrow> rstr" where
  "show_i32 a = (if sval a < 0 then 45 # show_nat (nat (- sval a)) else show_nat (nat (sval a)))"

lemma digits_val_append:
  "digits_val acc (xs @ ys) = Option.bind (digits_val acc xs) (\<lambda>a. digits_val a ys)"
  by (induction xs arbitrary: acc) auto

lemma digits_val_show_nat: "digits_val 0 (show_nat n) = Some n"
proof (induction n rule: show_nat.induct)
  case (1 n)
  show ?case
  proof (cases "n < 10")
    case True
    then show ?thesis by (subst show_nat.simps) (simp add: is_ascii_digit_def)
  next
    case False
    with 1 show ?thesis
      by (subst show_nat.simps) (simp add: digits_val_append is_ascii_digit_def)
  qed
qed

lemma show_nat_not_Nil [simp]: "show_nat n \<noteq> []"
  by (subst show_nat.simps) simp

lemma show_nat_digits: "c \<in> set (show_nat n) \<Longrightarrow> is_ascii_digit c"
proof (induction n rule: show_nat.induct)
  case (1 n)
  show ?case
  proof (cases "n < 10")
    case True
    with 1 show ?thesis by (subst (asm) show_nat.simps) (simp add: is_ascii_digit_def)
  next
    case False
    with 1 show ?thesis
      by (subst (asm) (2) show_nat.simps) (auto simp: is_ascii_digit_def)
  qed
qed

lemma parse_digits_show_nat [simp]: "parse_digits (show_nat n) = Some n"
  by (simp add: parse_digits_def digits_val_show_nat)

lemma show_nat_head:
  "\<exists>c cs. show_nat n = c # cs \<and> is_ascii_digit c"
proof -
  obtain c cs where "show_nat n = c # cs" using show_nat_not_Nil [of n] by (cases "show_nat n") auto
  then show ?thesis using show_nat_digits [of c n] by simp
qed

lemma parse_show_i32: "parse_i32 (show_i32 a) = Some a"
proof (cases "sval a < 0")
  case True
  then show ?thesis by (simp add: parse_i32_def show_i32_def)
next
  case False
  obtain c cs where s: "show_nat (nat (sval a)) = c # cs" and d: "is_ascii_digit c"
    using show_nat_head by blast
  then have "parse_i32 (c # cs) = Option.bind (parse_digits (c # cs)) (\<lambda>n. i32_try (int n))"
    by (simp add: parse_i32_def is_ascii_digit_def)
  also have "\<dots> = Some a"
    using False by (simp flip: s)
  finally show ?thesis using False s by (simp add: show_i32_def)
qed

subsection \<open>Searching a list\<close>

lemma find_Some_mem: "find P xs = Some x \<Longrightarrow> x \<in> set xs \<and> P x"
  by (induction xs) (auto split: if_splits)

end
