(* ===== verification/Codes.thy ===== *)
theory Codes
  imports Sekai_Prelude
begin

section \<open>Dimension and region-family codes\<close>

text \<open>
  \<open>crates/util/src/dimension.rs\<close> and \<open>crates/util/src/region_kind.rs\<close>. A dimension is a
  newtype over an \<open>i32\<close> code; the vanilla trio are three constants. A region family is one of
  three constructors with codes 0, 1 and 2. Both have a \<open>FromStr\<close> and a \<open>Display\<close>; the lemmas
  show that what is displayed parses back to the same value, for every dimension code.
\<close>

subsection \<open>Dimensions\<close>

datatype dimension = Dimension (raw: i32)

instantiation dimension :: linorder
begin

definition less_eq_dimension :: "dimension \<Rightarrow> dimension \<Rightarrow> bool" where
  "less_eq_dimension a b \<longleftrightarrow> raw a \<le> raw b"

definition less_dimension :: "dimension \<Rightarrow> dimension \<Rightarrow> bool" where
  "less_dimension a b \<longleftrightarrow> raw a < raw b"

instance
  by intro_classes (auto simp: less_eq_dimension_def less_dimension_def dimension.expand)

end

definition OVERWORLD :: dimension where
  "OVERWORLD = Dimension (i32_of (- 817260936))"

definition NETHER :: dimension where
  "NETHER = Dimension (i32_of 285963005)"

definition END_DIM :: dimension where
  "END_DIM = Dimension (i32_of (- 1750732570))"

datatype parse_code_error = ParseCodeError

definition dimension_from_str :: "rstr \<Rightarrow> (parse_code_error, dimension) result" where
  "dimension_from_str s =
     (let t = to_ascii_lowercase s in
      if t \<in> {lit ''ow'', lit ''overworld'', lit ''0''} then Inr OVERWORLD
      else if t \<in> {lit ''ne'', lit ''nether'', lit ''the_nether'', lit ''dim-1'', lit ''1''}
        then Inr NETHER
      else if t \<in> {lit ''end'', lit ''the_end'', lit ''dim1'', lit ''2''} then Inr END_DIM
      else (case parse_i32 t of Some k \<Rightarrow> Inr (Dimension k) | None \<Rightarrow> Inl ParseCodeError))"

definition dimension_display :: "dimension \<Rightarrow> rstr" where
  "dimension_display d =
     (if d = OVERWORLD then lit ''overworld''
      else if d = NETHER then lit ''nether''
      else if d = END_DIM then lit ''end''
      else show_i32 (raw d))"

subsection \<open>Region families\<close>

datatype region_kind = Region | Entities | Poi

definition all_region_kinds :: "region_kind list" where
  "all_region_kinds = [Region, Entities, Poi]"

datatype unknown_region_kind = UnknownRegionKind

definition region_kind_new :: "i32 \<Rightarrow> (unknown_region_kind, region_kind) result" where
  "region_kind_new k =
     (if sval k = 0 then Inr Region
      else if sval k = 1 then Inr Entities
      else if sval k = 2 then Inr Poi
      else Inl UnknownRegionKind)"

fun region_kind_raw :: "region_kind \<Rightarrow> u8" where
  "region_kind_raw Region = 0"
| "region_kind_raw Entities = 1"
| "region_kind_raw Poi = 2"

definition region_kind_from_str :: "rstr \<Rightarrow> (unknown_region_kind, region_kind) result" where
  "region_kind_from_str s =
     (let t = to_ascii_lowercase s in
      if t \<in> {lit ''region'', lit ''0''} then Inr Region
      else if t \<in> {lit ''entities'', lit ''1''} then Inr Entities
      else if t \<in> {lit ''poi'', lit ''2''} then Inr Poi
      else Inl UnknownRegionKind)"

fun region_kind_display :: "region_kind \<Rightarrow> rstr" where
  "region_kind_display Region = lit ''region''"
| "region_kind_display Entities = lit ''entities''"
| "region_kind_display Poi = lit ''poi''"

instantiation region_kind :: linorder
begin

definition less_eq_region_kind :: "region_kind \<Rightarrow> region_kind \<Rightarrow> bool" where
  "less_eq_region_kind a b \<longleftrightarrow> region_kind_raw a \<le> region_kind_raw b"

definition less_region_kind :: "region_kind \<Rightarrow> region_kind \<Rightarrow> bool" where
  "less_region_kind a b \<longleftrightarrow> region_kind_raw a < region_kind_raw b"

instance
proof
  fix a b :: region_kind
  show "a \<le> b \<Longrightarrow> b \<le> a \<Longrightarrow> a = b"
    by (cases a; cases b) (simp_all add: less_eq_region_kind_def word_le_nat_alt)
qed (auto simp: less_eq_region_kind_def less_region_kind_def)

end

lemma region_kind_raw_inject [simp]: "region_kind_raw a = region_kind_raw b \<longleftrightarrow> a = b"
  by (cases a; cases b) simp_all

lemma region_kind_new_raw: "region_kind_new (i32_of (uint (region_kind_raw k))) = Inr k"
  by (cases k) (simp_all add: region_kind_new_def sval_i32_of in_i32_def)

lemma region_kind_new_eq_Inr:
  "region_kind_new i = Inr k \<longleftrightarrow> sval i = uint (region_kind_raw k)"
  by (cases k) (auto simp: region_kind_new_def)

lemma region_kind_from_str_display: "region_kind_from_str (region_kind_display k) = Inr k"
  by (cases k) (simp_all add: region_kind_from_str_def lit_def to_ascii_lowercase_def
      ascii_lower_def of_char_def)

subsection \<open>Display and parse agree\<close>

text \<open>Digits and a leading minus are what a decimal code shows; lower-casing keeps them.\<close>

lemma ascii_lower_digit: "is_ascii_digit c \<Longrightarrow> ascii_lower c = c"
  by (simp add: is_ascii_digit_def ascii_lower_def)

lemma lower_show_nat [simp]: "to_ascii_lowercase (show_nat n) = show_nat n"
  by (simp add: to_ascii_lowercase_def map_idI ascii_lower_digit show_nat_digits)

lemma lower_show_i32 [simp]: "to_ascii_lowercase (show_i32 a) = show_i32 a"
proof -
  have "to_ascii_lowercase (45 # s) = 45 # to_ascii_lowercase s" for s
    by (simp add: to_ascii_lowercase_def ascii_lower_def)
  then show ?thesis by (simp add: show_i32_def)
qed

lemma show_i32_head:
  "\<exists>c cs. show_i32 a = c # cs \<and> (c = 45 \<or> is_ascii_digit c)"
  using show_nat_head [of "nat (sval a)"] by (auto simp: show_i32_def)

text \<open>
  The aliases \<open>0\<close>, \<open>1\<close> and \<open>2\<close> name the trio, so a dimension whose code is one of these
  three numbers displays as a string that parses to a different dimension.
\<close>

definition shadowed_code :: "dimension \<Rightarrow> bool" where
  "shadowed_code d \<longleftrightarrow> sval (raw d) \<in> {0, 1, 2}"

lemma show_nat_small: "n < 10 \<Longrightarrow> show_nat n = [48 + n]"
  by (subst show_nat.simps) simp

lemma show_i32_one_char:
  "show_i32 a = [48 + n] \<Longrightarrow> n < 10 \<Longrightarrow> sval a = int n"
proof -
  assume s: "show_i32 a = [48 + n]" and n: "n < 10"
  have "parse_i32 [48 + n] = Some a" using parse_show_i32 [of a] s by simp
  moreover have "parse_i32 [48 + n] = i32_try (int n)"
    using n by (simp add: parse_i32_def parse_digits_def is_ascii_digit_def)
  ultimately show ?thesis by (simp add: i32_try_eq_Some)
qed

lemma show_i32_not_alias:
  assumes "\<not> shadowed_code d"
  shows "show_i32 (raw d) \<notin> {lit ''ow'', lit ''overworld'', lit ''0''}"
    and "show_i32 (raw d) \<notin> {lit ''ne'', lit ''nether'', lit ''the_nether'', lit ''dim-1'', lit ''1''}"
    and "show_i32 (raw d) \<notin> {lit ''end'', lit ''the_end'', lit ''dim1'', lit ''2''}"
proof -
  obtain c cs where s: "show_i32 (raw d) = c # cs" and c: "c = 45 \<or> is_ascii_digit c"
    using show_i32_head by blast
  have n: "show_i32 (raw d) \<noteq> [48 + n]" if "n < 3" for n
    using show_i32_one_char [of "raw d" n] that assms by (auto simp: shadowed_code_def)
  show "show_i32 (raw d) \<notin> {lit ''ow'', lit ''overworld'', lit ''0''}"
    using s c n [of 0] by (auto simp: lit_def of_char_def is_ascii_digit_def)
  show "show_i32 (raw d) \<notin> {lit ''ne'', lit ''nether'', lit ''the_nether'', lit ''dim-1'', lit ''1''}"
    using s c n [of 1] by (auto simp: lit_def of_char_def is_ascii_digit_def)
  show "show_i32 (raw d) \<notin> {lit ''end'', lit ''the_end'', lit ''dim1'', lit ''2''}"
    using s c n [of 2] by (auto simp: lit_def of_char_def is_ascii_digit_def)
qed

lemma dimension_from_str_trio:
  "dimension_from_str (lit ''overworld'') = Inr OVERWORLD"
  "dimension_from_str (lit ''nether'') = Inr NETHER"
  "dimension_from_str (lit ''end'') = Inr END_DIM"
  by (simp_all add: dimension_from_str_def lit_def of_char_def to_ascii_lowercase_def
      ascii_lower_def)

text \<open>A dimension prints as a name or a code that parses back to it, except for the codes whose
  digits the parser reads as aliases of the named dimensions.\<close>

lemma dimension_display_roundtrip:
  "dimension_from_str (dimension_display d) = Inr d \<longleftrightarrow> \<not> shadowed_code d"
proof (cases "d \<in> {OVERWORLD, NETHER, END_DIM}")
  case True
  then have "\<not> shadowed_code d"
    by (auto simp: shadowed_code_def OVERWORLD_def NETHER_def END_DIM_def sval_i32_of in_i32_def)
  moreover have "dimension_from_str (dimension_display d) = Inr d"
    using True by (auto simp: dimension_display_def dimension_from_str_trio)
  ultimately show ?thesis by simp
next
  case False
  then have disp: "dimension_display d = show_i32 (raw d)"
    by (auto simp: dimension_display_def)
  show ?thesis
  proof (cases "shadowed_code d")
    case True
    then have "i32_of (sval (raw d)) \<in> i32_of ` {0, 1, 2}"
      unfolding shadowed_code_def by (rule imageI)
    then have "raw d \<in> {i32_of 0, i32_of 1, i32_of 2}" by simp
    then have "show_i32 (raw d) \<in> {lit ''0'', lit ''1'', lit ''2''}"
      by (auto simp: show_i32_def sval_i32_of in_i32_def show_nat_small lit_def of_char_def)
    then have "dimension_from_str (show_i32 (raw d)) \<in> {Inr OVERWORLD, Inr NETHER, Inr END_DIM}"
      by (auto simp: dimension_from_str_def lit_def of_char_def to_ascii_lowercase_def
          ascii_lower_def)
    with False disp True show ?thesis by auto
  next
    case nsh: False
    then show ?thesis
      using show_i32_not_alias [OF nsh] by (simp add: disp dimension_from_str_def parse_show_i32)
  qed
qed

end
