(* ===== verification/Coords.thy ===== *)
theory Coords
  imports Codes "HOL-Library.Option_ord"
begin

section \<open>Chunk identities, region identities and history records\<close>

text \<open>
  \<open>crates/util/src/chunk_coord.rs\<close>, \<open>region.rs\<close>, \<open>history.rs\<close>, \<open>gc.rs\<close> and the commit record
  of \<open>commit.rs\<close>. The types that key ordered maps and sets are datatypes with the code's field
  order, so that the derived lexicographic \<open>Ord\<close> is an instance of \<open>linorder\<close>; the other
  structs are records. The lemmas place a chunk inside the 32 by 32 square of its region.
\<close>

subsection \<open>Chunk coordinates\<close>

datatype chunk_coord =
  ChunkCoord (coord_dim: dimension) (coord_kind: region_kind) (coord_x: i32) (coord_z: i32)

definition coord_key :: "chunk_coord \<Rightarrow> dimension \<times> region_kind \<times> i32 \<times> i32" where
  "coord_key c = (coord_dim c, coord_kind c, coord_x c, coord_z c)"

lemma coord_key_inject [simp]: "coord_key a = coord_key b \<longleftrightarrow> a = b"
  by (cases a; cases b) (simp add: coord_key_def)

instantiation chunk_coord :: linorder
begin

definition less_eq_chunk_coord :: "chunk_coord \<Rightarrow> chunk_coord \<Rightarrow> bool" where
  "less_eq_chunk_coord a b \<longleftrightarrow> coord_key a \<le> coord_key b"

definition less_chunk_coord :: "chunk_coord \<Rightarrow> chunk_coord \<Rightarrow> bool" where
  "less_chunk_coord a b \<longleftrightarrow> coord_key a < coord_key b"

instance
proof
  fix a b :: chunk_coord
  show "a \<le> b \<Longrightarrow> b \<le> a \<Longrightarrow> a = b"
    using order_antisym [of "coord_key a" "coord_key b"]
    by (simp add: less_eq_chunk_coord_def)
  show "(a < b) = (a \<le> b \<and> \<not> b \<le> a)"
    by (simp only: less_eq_chunk_coord_def less_chunk_coord_def less_le_not_le)
qed (auto simp: less_eq_chunk_coord_def)

end

text \<open>\<open>div_euclid\<close> by the positive 32 rounds down, as \<open>div\<close> on \<open>int\<close> does; it stays in range.\<close>

definition div_euclid32 :: "i32 \<Rightarrow> i32" where
  "div_euclid32 a = i32_of (sval a div 32)"

definition region_x :: "chunk_coord \<Rightarrow> i32" where
  "region_x c = div_euclid32 (coord_x c)"

definition region_z :: "chunk_coord \<Rightarrow> i32" where
  "region_z c = div_euclid32 (coord_z c)"

definition chunk_coord_display :: "chunk_coord \<Rightarrow> rstr" where
  "chunk_coord_display c =
     dimension_display (coord_dim c) @ lit ''/'' @ region_kind_display (coord_kind c) @ lit '' ''
       @ show_i32 (coord_x c) @ lit '','' @ show_i32 (coord_z c)"

lemma sval_div_euclid32 [simp]: "sval (div_euclid32 a) = sval a div 32"
proof -
  have "in_i32 (sval a div 32)"
    using sval_bounds [of a] by (auto simp: in_i32_def)
  then show ?thesis by (simp add: div_euclid32_def sval_i32_of)
qed

lemma div_euclid32_span:
  "32 * sval (div_euclid32 a) \<le> sval a" "sval a \<le> 32 * sval (div_euclid32 a) + 31"
  by simp_all

subsection \<open>Region identities\<close>

datatype region_key =
  RegionKey (key_dim: dimension) (key_kind: region_kind) (key_rx: i32) (key_rz: i32)

definition region_key_tuple :: "region_key \<Rightarrow> dimension \<times> region_kind \<times> i32 \<times> i32" where
  "region_key_tuple k = (key_dim k, key_kind k, key_rx k, key_rz k)"

lemma region_key_tuple_inject [simp]: "region_key_tuple a = region_key_tuple b \<longleftrightarrow> a = b"
  by (cases a; cases b) (simp add: region_key_tuple_def)

instantiation region_key :: linorder
begin

definition less_eq_region_key :: "region_key \<Rightarrow> region_key \<Rightarrow> bool" where
  "less_eq_region_key a b \<longleftrightarrow> region_key_tuple a \<le> region_key_tuple b"

definition less_region_key :: "region_key \<Rightarrow> region_key \<Rightarrow> bool" where
  "less_region_key a b \<longleftrightarrow> region_key_tuple a < region_key_tuple b"

instance
proof
  fix a b :: region_key
  show "a \<le> b \<Longrightarrow> b \<le> a \<Longrightarrow> a = b"
    using order_antisym [of "region_key_tuple a" "region_key_tuple b"]
    by (simp add: less_eq_region_key_def)
  show "(a < b) = (a \<le> b \<and> \<not> b \<le> a)"
    by (simp only: less_eq_region_key_def less_region_key_def less_le_not_le)
qed (auto simp: less_eq_region_key_def)

end

definition region_key_of :: "chunk_coord \<Rightarrow> region_key" where
  "region_key_of c = RegionKey (coord_dim c) (coord_kind c) (region_x c) (region_z c)"

lemma region_key_of_sel [simp]:
  "key_dim (region_key_of c) = coord_dim c"
  "key_kind (region_key_of c) = coord_kind c"
  "key_rx (region_key_of c) = region_x c"
  "key_rz (region_key_of c) = region_z c"
  by (simp_all add: region_key_of_def)

subsection \<open>Records of the history\<close>

type_synonym commit_id = hash32
type_synonym chunk_hash = hash32

record region_fingerprint =
  fp_key :: region_key
  fp_mtime_ms :: "u64 option"
  fp_size :: u64
  fp_content_hash :: hash32

datatype commit_entry = CommitEntry (entry_coord: chunk_coord) (entry_blob: "chunk_hash option")

definition commit_entry_key :: "commit_entry \<Rightarrow> chunk_coord \<times> chunk_hash option" where
  "commit_entry_key e = (entry_coord e, entry_blob e)"

lemma commit_entry_key_inject [simp]: "commit_entry_key a = commit_entry_key b \<longleftrightarrow> a = b"
  by (cases a; cases b) (simp add: commit_entry_key_def)

instantiation commit_entry :: linorder
begin

definition less_eq_commit_entry :: "commit_entry \<Rightarrow> commit_entry \<Rightarrow> bool" where
  "less_eq_commit_entry a b \<longleftrightarrow> commit_entry_key a \<le> commit_entry_key b"

definition less_commit_entry :: "commit_entry \<Rightarrow> commit_entry \<Rightarrow> bool" where
  "less_commit_entry a b \<longleftrightarrow> commit_entry_key a < commit_entry_key b"

instance
proof
  fix a b :: commit_entry
  show "a \<le> b \<Longrightarrow> b \<le> a \<Longrightarrow> a = b"
    using order_antisym [of "commit_entry_key a" "commit_entry_key b"]
    by (simp add: less_eq_commit_entry_def)
  show "(a < b) = (a \<le> b \<and> \<not> b \<le> a)"
    by (simp only: less_eq_commit_entry_def less_commit_entry_def less_le_not_le)
qed (auto simp: less_eq_commit_entry_def)

end

record apply_outcome =
  ao_id :: commit_id

record fold_outcome =
  fo_folded :: usize
  fo_dropped :: usize

record history_entry =
  he_coord :: chunk_coord
  he_commit :: commit_id
  he_blob :: "chunk_hash option"

definition history_entry_new ::
  "chunk_coord \<Rightarrow> commit_id \<Rightarrow> chunk_hash option \<Rightarrow> history_entry" where
  "history_entry_new c i b = \<lparr>he_coord = c, he_commit = i, he_blob = b\<rparr>"

definition is_tombstone :: "history_entry \<Rightarrow> bool" where
  "is_tombstone e \<longleftrightarrow> he_blob e = None"

record commit =
  c_id :: commit_id
  c_created_at_ms :: u64
  c_parents :: "commit_id list"

definition commit_new :: "commit_id \<Rightarrow> u64 \<Rightarrow> commit_id list \<Rightarrow> commit" where
  "commit_new i t ps = \<lparr>c_id = i, c_created_at_ms = t, c_parents = ps\<rparr>"

definition is_root :: "commit \<Rightarrow> bool" where
  "is_root c \<longleftrightarrow> c_parents c = []"

record gc_plan_rec =
  gp_orphans :: "chunk_hash list"
  gp_examined :: usize

definition gc_plan_new :: "chunk_hash list \<Rightarrow> usize \<Rightarrow> gc_plan_rec" where
  "gc_plan_new os n = \<lparr>gp_orphans = os, gp_examined = n\<rparr>"

definition into_orphans :: "gc_plan_rec \<Rightarrow> chunk_hash list" where
  "into_orphans p = gp_orphans p"

end
