(* ===== verification/Anvil_Layout.thy ===== *)
theory Anvil_Layout
  imports Coords
begin

section \<open>Sectors and slots of a region file\<close>

text \<open>
  \<open>crates/anvil/src/region.rs\<close> and \<open>error.rs\<close>: the constants of the Anvil format, the parser of
  region file names, and the map between the 1024 table slots of a region and the chunk coordinates
  it holds. The lemmas show that a region exists exactly when all its chunk columns are addressable,
  that slots and coordinates are inverse to each other, and which coordinates a region accepts.
  A slot, a sector number and a sector count are naturals: the table entries bound them below 2 to
  the 24.
\<close>

datatype anvil_error =
    BadFilename rstr
  | CoordinateOverflow i32 i32
  | TruncatedFile nat
  | CorruptEntry nat u32 u32
  | CorruptChunk nat u32
  | EmptyPayload
  | ChunkTooLarge usize
  | ImageTooLarge nat
  | WrongRegion i32 i32 i32 i32
  | UnknownCompression u8
  | CustomCompression
  | ExternalBody u8
  | AeGzip
  | AeZlib
  | AeLz4
  | OutputTooLarge

definition SECTOR_LEN :: nat where "SECTOR_LEN = 4096"
definition HEADER_LEN :: nat where "HEADER_LEN = 8192"
definition TABLE_ENTRIES :: nat where "TABLE_ENTRIES = 1024"
definition ROW_WIDTH :: int where "ROW_WIDTH = 32"
definition FIRST_DATA_SECTOR :: nat where "FIRST_DATA_SECTOR = 2"
definition MAX_SECTORS_PER_CHUNK :: nat where "MAX_SECTORS_PER_CHUNK = 255"
definition MAX_SECTOR_OFFSET :: nat where "MAX_SECTOR_OFFSET = 0xFFFFFF"

lemmas layout_consts = SECTOR_LEN_def HEADER_LEN_def TABLE_ENTRIES_def ROW_WIDTH_def
  FIRST_DATA_SECTOR_def MAX_SECTORS_PER_CHUNK_def MAX_SECTOR_OFFSET_def

subsection \<open>File names\<close>

definition strip_suffix :: "rstr \<Rightarrow> rstr \<Rightarrow> rstr option" where
  "strip_suffix suf s =
     (if length suf \<le> length s \<and> drop (length s - length suf) s = suf
      then Some (take (length s - length suf) s) else None)"

definition parse_region_name :: "rstr \<Rightarrow> (anvil_error, i32 \<times> i32) result" where
  "parse_region_name file_name =
     (let bad = BadFilename file_name in
      bindE (ok_or bad (strip_suffix (lit ''.mca'') file_name)) (\<lambda>stem.
        let parts = split_on 46 stem;
            tag = (case parts of t # _ \<Rightarrow> Some t | _ \<Rightarrow> None);
            x = (case parts of _ # x # _ \<Rightarrow> Some x | _ \<Rightarrow> None);
            z = (case parts of _ # _ # z # _ \<Rightarrow> Some z | _ \<Rightarrow> None)
        in if tag \<noteq> Some (lit ''r'') \<or> length parts > 3 then Inl bad
           else bindE (ok_or bad (Option.bind x parse_i32)) (\<lambda>x'.
                bindE (ok_or bad (Option.bind z parse_i32)) (\<lambda>z'.
                  Inr (x', z')))))"

definition region_file_name :: "i32 \<Rightarrow> i32 \<Rightarrow> rstr" where
  "region_file_name x z = lit ''r.'' @ show_i32 x @ lit ''.'' @ show_i32 z @ lit ''.mca''"

subsection \<open>Region origins and slots\<close>

record region_loc =
  loc_region_x :: i32
  loc_region_z :: i32
  loc_base_x :: i32
  loc_base_z :: i32

definition checked_i32 :: "int \<Rightarrow> i32 option" where
  "checked_i32 v = i32_try v"

definition base_coord :: "i32 \<Rightarrow> i32 option" where
  "base_coord region =
     Option.bind (checked_i32 (sval region * ROW_WIDTH)) (\<lambda>base.
       map_option (\<lambda>_. base) (checked_i32 (sval base + (ROW_WIDTH - 1))))"

definition base_coords :: "i32 \<Rightarrow> i32 \<Rightarrow> (anvil_error, i32 \<times> i32) result" where
  "base_coords rx rz =
     bindE (ok_or (CoordinateOverflow rx rz) (base_coord rx)) (\<lambda>bx.
     bindE (ok_or (CoordinateOverflow rx rz) (base_coord rz)) (\<lambda>bz.
       Inr (bx, bz)))"

definition region_loc_new :: "i32 \<Rightarrow> i32 \<Rightarrow> (anvil_error, region_loc) result" where
  "region_loc_new rx rz =
     bindE (base_coords rx rz) (\<lambda>(bx, bz).
       Inr \<lparr>loc_region_x = rx, loc_region_z = rz, loc_base_x = bx, loc_base_z = bz\<rparr>)"

definition slot_of :: "region_loc \<Rightarrow> i32 \<Rightarrow> i32 \<Rightarrow> (anvil_error, nat) result" where
  "slot_of loc x z =
     (let wrong = WrongRegion (loc_region_x loc) (loc_region_z loc) x z in
      bindE (ok_or wrong (checked_i32 (sval x - sval (loc_base_x loc)))) (\<lambda>dx.
      bindE (ok_or wrong (checked_i32 (sval z - sval (loc_base_z loc)))) (\<lambda>dz.
        if \<not> (0 \<le> sval dx \<and> sval dx < ROW_WIDTH) \<or> \<not> (0 \<le> sval dz \<and> sval dz < ROW_WIDTH)
        then Inl wrong
        else Inr (nat (sval dx + ROW_WIDTH * sval dz)))))"

definition coord_at :: "region_loc \<Rightarrow> nat \<Rightarrow> i32 \<times> i32" where
  "coord_at loc index =
     (i32_of (sval (loc_base_x loc) + int index mod ROW_WIDTH),
      i32_of (sval (loc_base_z loc) + int index div ROW_WIDTH))"

subsection \<open>Lengths\<close>

definition check_image_len :: "nat \<Rightarrow> (anvil_error, unit) result" where
  "check_image_len n =
     (if n = 0 then Inr () else if n < HEADER_LEN then Inl (TruncatedFile n) else Inr ())"

definition sectors_for :: "usize \<Rightarrow> (anvil_error, nat) result" where
  "sectors_for payload_len =
     (let sectors = (payload_len + 4 + SECTOR_LEN - 1) div SECTOR_LEN
      in if sectors > MAX_SECTORS_PER_CHUNK then Inl (ChunkTooLarge payload_len) else Inr sectors)"

subsection \<open>Names parse back\<close>

lemma show_i32_chars: "c \<in> set (show_i32 a) \<Longrightarrow> c = 45 \<or> is_ascii_digit c"
  using show_nat_digits by (auto simp: show_i32_def split: if_splits)

lemma no_dot_show_i32: "46 \<notin> set (show_i32 a)"
  using show_i32_chars [of 46 a] by (auto simp: is_ascii_digit_def)

lemma strip_suffix_append [simp]: "strip_suffix suf (s @ suf) = Some s"
  by (simp add: strip_suffix_def)

lemma parse_region_file_name: "parse_region_name (region_file_name x z) = Inr (x, z)"
proof -
  let ?stem = "lit ''r'' @ 46 # show_i32 x @ 46 # show_i32 z"
  have name: "region_file_name x z = ?stem @ lit ''.mca''"
    by (simp add: region_file_name_def lit_def)
  have r: "46 \<notin> set (lit ''r'')" by (simp add: lit_def)
  have "split_on 46 ?stem = [lit ''r'', show_i32 x, show_i32 z]"
    by (simp only: split_on_append [OF r] split_on_append [OF no_dot_show_i32] split_on_no_sep [OF no_dot_show_i32])
  then show ?thesis
    unfolding name parse_region_name_def by (simp only: strip_suffix_append) (simp add: parse_show_i32)
qed

subsection \<open>Which regions and coordinates exist\<close>

definition region_fits :: "i32 \<Rightarrow> bool" where
  "region_fits r \<longleftrightarrow> - 67108864 \<le> sval r \<and> sval r \<le> 67108863"

lemma base_coord_eq:
  "base_coord r = (if region_fits r then Some (i32_of (32 * sval r)) else None)"
proof (cases "region_fits r")
  case True
  then have "i32_try (sval r * 32) = Some (i32_of (32 * sval r))" "sval (i32_of (32 * sval r)) = 32 * sval r"
    by (auto simp: region_fits_def i32_try_eq_Some sval_i32_of in_i32_def)
  moreover have "in_i32 (32 * sval r + 31)" using True by (auto simp: region_fits_def in_i32_def)
  then have "i32_try (32 * sval r + 31) \<noteq> None" by (simp add: i32_try_None)
  ultimately show ?thesis using True by (auto simp: base_coord_def checked_i32_def ROW_WIDTH_def)
next
  case False
  have "Option.bind (i32_try (sval r * 32)) (\<lambda>b. map_option (\<lambda>_. b) (i32_try (sval b + 31))) = None"
  proof (cases "i32_try (sval r * 32)")
    case (Some b)
    then have b: "sval b = 32 * sval r" "in_i32 (sval r * 32)" by (auto simp: i32_try_eq_Some)
    then have "\<not> in_i32 (sval b + 31)" using False by (auto simp: region_fits_def in_i32_def)
    then show ?thesis using Some by (simp add: i32_try_None [symmetric])
  qed simp
  with False show ?thesis by (simp add: base_coord_def checked_i32_def ROW_WIDTH_def)
qed

definition wf_loc :: "region_loc \<Rightarrow> bool" where
  "wf_loc loc \<longleftrightarrow> region_fits (loc_region_x loc) \<and> region_fits (loc_region_z loc)
     \<and> sval (loc_base_x loc) = 32 * sval (loc_region_x loc)
     \<and> sval (loc_base_z loc) = 32 * sval (loc_region_z loc)"

lemma sval_base: "region_fits r \<Longrightarrow> sval (i32_of (32 * sval r)) = 32 * sval r"
  by (auto simp: region_fits_def sval_i32_of in_i32_def)

lemma region_loc_new_iff:
  "(\<exists>loc. region_loc_new rx rz = Inr loc) \<longleftrightarrow> region_fits rx \<and> region_fits rz"
  by (simp add: region_loc_new_def base_coords_def base_coord_eq)

lemma region_loc_new_wf: "region_loc_new rx rz = Inr loc \<Longrightarrow> wf_loc loc \<and> loc_region_x loc = rx \<and> loc_region_z loc = rz"
  by (auto simp: region_loc_new_def base_coords_def base_coord_eq wf_loc_def sval_base split: if_splits)

lemma slot_of_eq:
  assumes "wf_loc loc"
  shows "slot_of loc x z =
    (if sval x div 32 = sval (loc_region_x loc) \<and> sval z div 32 = sval (loc_region_z loc)
     then Inr (nat (sval x mod 32 + 32 * (sval z mod 32)))
     else Inl (WrongRegion (loc_region_x loc) (loc_region_z loc) x z))"
proof -
  have d: "checked_i32 v = (if in_i32 v then Some (i32_of v) else None)" for v
    by (auto simp: checked_i32_def i32_try_None i32_try_eq_Some sval_i32_of)
  have bx: "sval (loc_base_x loc) = 32 * sval (loc_region_x loc)" and bz: "sval (loc_base_z loc) = 32 * sval (loc_region_z loc)"
    using assms by (simp_all add: wf_loc_def)
  define dx dz where "dx = sval x - 32 * sval (loc_region_x loc)" and "dz = sval z - 32 * sval (loc_region_z loc)"
  have inside: "sval a div 32 = r \<longleftrightarrow> 0 \<le> sval a - 32 * r \<and> sval a - 32 * r < 32" for a r by auto
  have small: "0 \<le> (k :: int) \<Longrightarrow> k < 32 \<Longrightarrow> in_i32 k" for k by (simp add: in_i32_def)
  have m: "sval a mod 32 = sval a - 32 * r" if "0 \<le> sval a - 32 * r \<and> sval a - 32 * r < 32" for a r
    using that inside [of a r] by (simp add: minus_div_mult_eq_mod [symmetric] mult.commute)
  show ?thesis
  proof (cases "(0 \<le> dx \<and> dx < 32) \<and> (0 \<le> dz \<and> dz < 32)")
    case True
    then show ?thesis
      using m [of x "sval (loc_region_x loc)"] m [of z "sval (loc_region_z loc)"]
      by (simp add: slot_of_def Let_def d bx bz inside small sval_i32_of ROW_WIDTH_def flip: dx_def dz_def)
  next
    case False
    then have "\<not> (sval x div 32 = sval (loc_region_x loc) \<and> sval z div 32 = sval (loc_region_z loc))"
      by (simp add: inside dx_def dz_def)
    moreover have "slot_of loc x z = Inl (WrongRegion (loc_region_x loc) (loc_region_z loc) x z)"
      using False by (auto simp: slot_of_def Let_def d bx bz sval_i32_of ROW_WIDTH_def simp flip: dx_def dz_def)
    ultimately show ?thesis by simp
  qed
qed

lemma slot_of_bound: "wf_loc loc \<Longrightarrow> slot_of loc x z = Inr s \<Longrightarrow> s < TABLE_ENTRIES"
proof -
  assume "wf_loc loc" "slot_of loc x z = Inr s"
  then have "s = nat (sval x mod 32 + 32 * (sval z mod 32))" by (simp add: slot_of_eq split: if_splits)
  moreover have "sval x mod 32 < 32" "sval z mod 32 < 32" by simp_all
  ultimately show "s < TABLE_ENTRIES" by (simp add: TABLE_ENTRIES_def)
qed

lemma coord_at_slot:
  assumes "wf_loc loc" "s < TABLE_ENTRIES"
  shows "slot_of loc (fst (coord_at loc s)) (snd (coord_at loc s)) = Inr s"
    and "sval (fst (coord_at loc s)) = 32 * sval (loc_region_x loc) + int s mod 32"
    and "sval (snd (coord_at loc s)) = 32 * sval (loc_region_z loc) + int s div 32"
proof -
  have s: "0 \<le> int s mod 32" "int s mod 32 < 32" "0 \<le> int s div 32" "int s div 32 < 32"
    using assms(2) by (auto simp: TABLE_ENTRIES_def)
  show x: "sval (fst (coord_at loc s)) = 32 * sval (loc_region_x loc) + int s mod 32"
    and z: "sval (snd (coord_at loc s)) = 32 * sval (loc_region_z loc) + int s div 32"
    using assms(1) s by (auto simp: coord_at_def wf_loc_def region_fits_def ROW_WIDTH_def intro!: sval_i32_of simp: in_i32_def)
  have "int s mod 32 + 32 * (int s div 32) = int s" by simp
  then show "slot_of loc (fst (coord_at loc s)) (snd (coord_at loc s)) = Inr s"
    using s by (simp add: slot_of_eq [OF assms(1)] x z)
qed

lemma slot_coord_at:
  assumes "wf_loc loc" "slot_of loc x z = Inr s"
  shows "coord_at loc s = (x, z)"
proof -
  have s: "sval x div 32 = sval (loc_region_x loc)" "sval z div 32 = sval (loc_region_z loc)"
      "s = nat (sval x mod 32 + 32 * (sval z mod 32))"
    using assms by (simp_all add: slot_of_eq split: if_splits)
  have "0 \<le> sval x mod 32" "sval x mod 32 < 32" "0 \<le> sval z mod 32" by simp_all
  then have "int s mod 32 = sval x mod 32" "int s div 32 = sval z mod 32" using s(3) by simp_all
  moreover have "sval x = 32 * (sval x div 32) + sval x mod 32" "sval z = 32 * (sval z div 32) + sval z mod 32" by simp_all
  ultimately have "sval (fst (coord_at loc s)) = sval x" "sval (snd (coord_at loc s)) = sval z"
    using coord_at_slot(2,3) [OF assms(1) slot_of_bound [OF assms]] s(1,2) by simp_all
  then show ?thesis by (simp add: prod_eq_iff)
qed

text \<open>The chunk at a coordinate lies in the region that \<open>region_key_of\<close> names.\<close>

lemma slot_of_region_key:
  assumes "wf_loc loc"
  shows "(\<exists>s. slot_of loc (coord_x c) (coord_z c) = Inr s)
    \<longleftrightarrow> key_rx (region_key_of c) = loc_region_x loc \<and> key_rz (region_key_of c) = loc_region_z loc"
  by (auto simp: slot_of_eq [OF assms] region_x_def region_z_def simp flip: sval_inject)

lemma sectors_for_ok:
  assumes "sectors_for n = Inr s"
  shows "n + 4 \<le> s * SECTOR_LEN" "0 < s" "s \<le> 255" "s * SECTOR_LEN < n + 4 + SECTOR_LEN"
  using assms by (auto simp: sectors_for_def Let_def layout_consts split: if_splits)

lemma sectors_for_iff: "(\<exists>s. sectors_for n = Inr s) \<longleftrightarrow> n \<le> 1044476"
  by (auto simp: sectors_for_def Let_def layout_consts)

end
