(* ===== verification/Loops.thy ===== *)
theory Loops
  imports Sekai_Prelude
begin

section \<open>Fallible loops and visitors\<close>

text \<open>
  \<open>foldE\<close> is a \<open>for\<close> loop whose body may return early with \<open>?\<close>. A visit of a port
  (\<open>visit_commits\<close>, \<open>visit_commit_chunks\<close>, ...) hands decoded rows one by one to a
  \<open>FnMut(&T) -> bool\<close> and stops when it answers \<open>false\<close>; a row that does not decode ends the visit
  with an error, and is reached only when every visitor call before it answered \<open>true\<close>. So a visit
  is the rows it would hand out and the error that ends it; \<open>run_visit\<close> threads the state the
  visitor captures.
\<close>

primrec foldE :: "('a \<Rightarrow> 's \<Rightarrow> ('e, 's) result) \<Rightarrow> 'a list \<Rightarrow> 's \<Rightarrow> ('e, 's) result" where
  "foldE f [] s = Inr s"
| "foldE f (x # xs) s = bindE (f x s) (foldE f xs)"

lemma foldE_append: "foldE f (xs @ ys) s = bindE (foldE f xs s) (foldE f ys)"
proof (induction xs arbitrary: s)
  case (Cons x xs)
  then show ?case by (cases "f x s") simp_all
qed simp

lemma foldE_map: "foldE f (map g xs) = foldE (\<lambda>x. f (g x)) xs"
proof (induction xs)
  case (Cons x xs)
  show ?case by (rule ext) (simp add: Cons.IH)
qed (rule ext, simp)

lemma foldE_invariant:
  assumes "foldE f xs s = Inr t" "P s"
    and "\<And>x s t. x \<in> set xs \<Longrightarrow> P s \<Longrightarrow> f x s = Inr t \<Longrightarrow> P t"
  shows "P t"
  using assms by (induction xs arbitrary: s) (auto simp: bindE_eq_Inr)

lemma foldE_ok:
  assumes "\<And>x s. x \<in> set xs \<Longrightarrow> P s \<Longrightarrow> \<exists>t. f x s = Inr t \<and> P t" "P s"
  shows "\<exists>t. foldE f xs s = Inr t \<and> P t"
  using assms
proof (induction xs arbitrary: s)
  case (Cons x xs)
  then obtain t where "f x s = Inr t" "P t" by force
  with Cons show ?case by simp
qed simp

lemma foldE_pure: "(\<And>x s. x \<in> set xs \<Longrightarrow> f x s = Inr (g x s)) \<Longrightarrow> foldE f xs s = Inr (fold g xs s)"
  by (induction xs arbitrary: s) simp_all

subsection \<open>Visits\<close>

type_synonym ('e, 'a) visit = "'a list \<times> 'e option"

primrec decode_visit :: "('r \<Rightarrow> ('e, 'a) result) \<Rightarrow> 'r list \<Rightarrow> ('e, 'a) visit" where
  "decode_visit f [] = ([], None)"
| "decode_visit f (r # rs) =
     (case f r of
        Inl e \<Rightarrow> ([], Some e)
      | Inr a \<Rightarrow> (case decode_visit f rs of (as, e) \<Rightarrow> (a # as, e)))"

definition failed_visit :: "'e \<Rightarrow> ('e, 'a) visit" where
  "failed_visit e = ([], Some e)"

primrec run_rows :: "('s \<Rightarrow> 'a \<Rightarrow> bool \<times> 's) \<Rightarrow> 'e option \<Rightarrow> 'a list \<Rightarrow> 's \<Rightarrow> ('e, 's) result" where
  "run_rows v err [] s = (case err of None \<Rightarrow> Inr s | Some e \<Rightarrow> Inl e)"
| "run_rows v err (a # as) s =
     (case v s a of (go_on, s') \<Rightarrow> if go_on then run_rows v err as s' else Inr s')"

definition run_visit ::
  "('s \<Rightarrow> 'a \<Rightarrow> bool \<times> 's) \<Rightarrow> ('e, 'a) visit \<Rightarrow> 's \<Rightarrow> ('e, 's) result" where
  "run_visit v vis s = run_rows v (snd vis) (fst vis) s"

text \<open>The two visitors most callers pass: push every row, and update a state on every row.\<close>

definition visit_each :: "('s \<Rightarrow> 'a \<Rightarrow> 's) \<Rightarrow> ('e, 'a) visit \<Rightarrow> 's \<Rightarrow> ('e, 's) result" where
  "visit_each f vis s = run_visit (\<lambda>s a. (True, f s a)) vis s"

definition visit_all :: "('e, 'a) visit \<Rightarrow> ('e, 'a list) result" where
  "visit_all vis = visit_each (\<lambda>out a. out @ [a]) vis []"

lemma run_rows_each:
  "run_rows (\<lambda>s a. (True, f s a)) err as s
     = (case err of None \<Rightarrow> Inr (foldl f s as) | Some e \<Rightarrow> Inl e)"
  by (induction as arbitrary: s) (auto split: option.splits)

lemma visit_each_eq:
  "visit_each f vis s = (case snd vis of None \<Rightarrow> Inr (foldl f s (fst vis)) | Some e \<Rightarrow> Inl e)"
  by (simp add: visit_each_def run_visit_def run_rows_each)

lemma foldl_push: "foldl (\<lambda>out a. out @ [a]) out as = out @ as"
  by (induction as arbitrary: out) simp_all

lemma visit_all_eq: "visit_all vis = (case snd vis of None \<Rightarrow> Inr (fst vis) | Some e \<Rightarrow> Inl e)"
  by (cases "snd vis") (simp_all add: visit_all_def visit_each_eq foldl_push)

lemma visit_all_simps [simp]:
  "visit_all (as, None) = Inr as"
  "visit_all (as, Some e) = Inl e"
  by (simp_all add: visit_all_eq)

lemma decode_visit_ok: "(\<And>r. r \<in> set rs \<Longrightarrow> f r = Inr (g r)) \<Longrightarrow> decode_visit f rs = (map g rs, None)"
  by (induction rs) simp_all

lemma visit_all_decode: "visit_all (decode_visit f rs) = mapE f rs"
proof (induction rs)
  case (Cons r rs)
  show ?case
  proof (cases "f r")
    case (Inr a)
    obtain as e where "decode_visit f rs = (as, e)" by fastforce
    then show ?thesis using Inr by (cases e) (simp_all flip: Cons.IH)
  qed simp
qed simp

lemma failed_visit_simps [simp]:
  "visit_all (failed_visit e) = Inl e"
  "visit_each f (failed_visit e) s = Inl e"
  by (simp_all add: failed_visit_def visit_all_eq visit_each_eq)


end
