(* ===== verification/Anvil_Reader.thy ===== *)
theory Anvil_Reader
  imports Anvil_Layout Loops
begin

section \<open>Reading a region image\<close>

text \<open>
  \<open>crates/anvil/src/reader.rs\<close>: the location table, the bounds checks of an entry and of its
  payload, the lookup of one chunk and the walk over all of them. The iterator is its state
  (next slot, done) and its step function. The lemmas show that no read leaves the image or the
  sectors of the entry, that the iterator yields the present chunks in table order and is fused,
  and that \<open>chunk_payload\<close> finds at a coordinate exactly what the walk yields there.
\<close>

text \<open>\<open>slice.get(a..b)\<close>.\<close>

definition slice_get :: "'a list \<Rightarrow> nat \<Rightarrow> nat \<Rightarrow> 'a list option" where
  "slice_get xs a b = (if a \<le> b \<and> b \<le> length xs then Some (take (b - a) (drop a xs)) else None)"

definition checked_mul_u64 :: "nat \<Rightarrow> nat \<Rightarrow> nat option" where
  "checked_mul_u64 a b = (if a * b < 2 ^ 64 then Some (a * b) else None)"

definition saturate :: "nat \<Rightarrow> u32" where
  "saturate v = (if v < 2 ^ 32 then of_nat v else 0xFFFFFFFF)"

record chunk =
  ch_x :: i32
  ch_z :: i32
  ch_kind :: region_kind
  ch_payload :: bytes

definition chunk_new :: "region_kind \<Rightarrow> i32 \<Rightarrow> i32 \<Rightarrow> bytes \<Rightarrow> chunk" where
  "chunk_new k x z p = \<lparr>ch_x = x, ch_z = z, ch_kind = k, ch_payload = p\<rparr>"

record region_image =
  ri_loc :: region_loc
  ri_kind :: region_kind
  ri_bytes :: bytes

definition from_bytes_with_kind ::
  "bytes \<Rightarrow> i32 \<Rightarrow> i32 \<Rightarrow> region_kind \<Rightarrow> (anvil_error, region_image) result" where
  "from_bytes_with_kind bs rx rz kind =
     bindE (check_image_len (length bs)) (\<lambda>_.
     bindE (region_loc_new rx rz) (\<lambda>loc.
       Inr \<lparr>ri_loc = loc, ri_kind = kind, ri_bytes = bs\<rparr>))"

definition from_bytes :: "bytes \<Rightarrow> i32 \<Rightarrow> i32 \<Rightarrow> (anvil_error, region_image) result" where
  "from_bytes bs rx rz = from_bytes_with_kind bs rx rz Region"

definition corrupt_entry :: "nat \<Rightarrow> nat \<Rightarrow> nat \<Rightarrow> anvil_error" where
  "corrupt_entry index offset sectors = CorruptEntry index (saturate offset) (saturate sectors)"

definition entry :: "region_image \<Rightarrow> nat \<Rightarrow> (anvil_error, nat \<times> nat) result" where
  "entry img index =
     bindE (ok_or (CorruptEntry index 0 0) (slice_get (ri_bytes img) (index * 4) (index * 4 + 4))) (\<lambda>bs.
       let e = (of_nat (from_be bs) :: u32) in Inr (unat (drop_bit 8 e), unat (e AND 0xFF)))"

definition sector_payload :: "region_image \<Rightarrow> nat \<Rightarrow> nat \<Rightarrow> nat \<Rightarrow> (anvil_error, bytes) result" where
  "sector_payload img index offset sectors =
     bindE (ok_or (corrupt_entry index offset sectors) (checked_mul_u64 offset SECTOR_LEN)) (\<lambda>base.
     bindE (ok_or (CorruptChunk index 0) (slice_get (ri_bytes img) base (base + 4))) (\<lambda>len_bytes.
       let len = (of_nat (from_be len_bytes) :: u32) in
       bindE (ok_or (CorruptChunk index len) (checked_mul_u64 sectors SECTOR_LEN)) (\<lambda>capacity.
         if unat len = 0 \<or> unat len + 4 > capacity then Inl (CorruptChunk index len)
         else ok_or (CorruptChunk index len)
                (slice_get (ri_bytes img) (base + 4) (base + 4 + unat len)))))"

definition chunk_at :: "region_image \<Rightarrow> nat \<Rightarrow> (anvil_error, chunk option) result" where
  "chunk_at img index =
     (if ri_bytes img = [] then Inr None
      else bindE (entry img index) (\<lambda>(offset, sectors).
        if offset = 0 \<and> sectors = 0 then Inr None
        else if offset < FIRST_DATA_SECTOR \<or> sectors = 0 then Inl (corrupt_entry index offset sectors)
        else bindE (ok_or (corrupt_entry index offset sectors) (checked_mul_u64 offset SECTOR_LEN)) (\<lambda>start.
          if start \<ge> length (ri_bytes img) then Inl (corrupt_entry index offset sectors)
          else bindE (sector_payload img index offset sectors) (\<lambda>payload.
            case coord_at (ri_loc img) index of
              (x, z) \<Rightarrow> Inr (Some (chunk_new (ri_kind img) x z payload))))))"

definition chunk_payload :: "region_image \<Rightarrow> i32 \<Rightarrow> i32 \<Rightarrow> (anvil_error, bytes option) result" where
  "chunk_payload img x z =
     (if ri_bytes img = [] then Inr None
      else (case slot_of (ri_loc img) x z of
              Inl _ \<Rightarrow> Inr None
            | Inr index \<Rightarrow>
                bindE (entry img index) (\<lambda>(offset, sectors).
                  if offset = 0 \<and> sectors = 0 then Inr None
                  else bindE (ok_or (corrupt_entry index offset sectors) (checked_mul_u64 offset SECTOR_LEN)) (\<lambda>start.
                    if offset < FIRST_DATA_SECTOR \<or> sectors = 0 \<or> start \<ge> length (ri_bytes img)
                    then Inl (corrupt_entry index offset sectors)
                    else bindE (sector_payload img index offset sectors) (\<lambda>payload. Inr (Some payload))))))"

subsection \<open>The iterator\<close>

record iter_state =
  it_next :: nat
  it_done :: bool

definition iter_start :: iter_state where
  "iter_start = \<lparr>it_next = 0, it_done = False\<rparr>"

text \<open>The \<open>while\<close> loop of \<open>next\<close>; the \<open>nat\<close> is the number of slots left.\<close>

primrec iter_scan ::
  "region_image \<Rightarrow> nat \<Rightarrow> (anvil_error, chunk) result option \<times> iter_state" where
  "iter_scan img 0 = (None, \<lparr>it_next = TABLE_ENTRIES, it_done = True\<rparr>)"
| "iter_scan img (Suc left) =
     (let index = TABLE_ENTRIES - Suc left in
      case chunk_at img index of
        Inr None \<Rightarrow> iter_scan img left
      | Inr (Some c) \<Rightarrow> (Some (Inr c), \<lparr>it_next = index + 1, it_done = False\<rparr>)
      | Inl e \<Rightarrow> (Some (Inl e), \<lparr>it_next = index + 1, it_done = True\<rparr>))"

definition iter_next ::
  "region_image \<Rightarrow> iter_state \<Rightarrow> (anvil_error, chunk) result option \<times> iter_state" where
  "iter_next img st =
     (if it_done st then (None, st)
      else if ri_bytes img = [] then (None, st\<lparr>it_done := True\<rparr>)
      else iter_scan img (TABLE_ENTRIES - it_next st))"

definition size_hint :: "region_image \<Rightarrow> iter_state \<Rightarrow> nat \<times> nat option" where
  "size_hint img st =
     (0, Some (if it_done st \<or> ri_bytes img = [] then 0 else TABLE_ENTRIES - it_next st))"

text \<open>
  \<open>for item in self.iter()\<close>: \<open>next\<close> until it answers \<open>None\<close>, at most one call more than
  there are slots; and \<open>visit_chunks\<close>, which stops at the first error.
\<close>

primrec iter_items :: "region_image \<Rightarrow> nat \<Rightarrow> iter_state \<Rightarrow> (anvil_error, chunk) result list" where
  "iter_items img 0 st = []"
| "iter_items img (Suc fuel) st =
     (case iter_next img st of (None, _) \<Rightarrow> [] | (Some item, st') \<Rightarrow> item # iter_items img fuel st')"

definition image_items :: "region_image \<Rightarrow> (anvil_error, chunk) result list" where
  "image_items img = iter_items img (TABLE_ENTRIES + 1) iter_start"

primrec visit_items ::
  "('s \<Rightarrow> chunk \<Rightarrow> bool \<times> 's) \<Rightarrow> (anvil_error, chunk) result list \<Rightarrow> 's \<Rightarrow> (anvil_error, 's) result" where
  "visit_items v [] s = Inr s"
| "visit_items v (item # items) s =
     bindE item (\<lambda>c. case v s c of (go_on, s') \<Rightarrow> if go_on then visit_items v items s' else Inr s')"

definition visit_chunks ::
  "region_image \<Rightarrow> ('s \<Rightarrow> chunk \<Rightarrow> bool \<times> 's) \<Rightarrow> 's \<Rightarrow> (anvil_error, 's) result" where
  "visit_chunks img v s = visit_items v (image_items img) s"

subsection \<open>Bounds\<close>

lemma slice_get_eq_Some:
  "slice_get xs a b = Some ys \<longleftrightarrow> a \<le> b \<and> b \<le> length xs \<and> ys = take (b - a) (drop a xs)"
  by (auto simp: slice_get_def)

lemma entry_bounds:
  assumes "entry img index = Inr (offset, sectors)"
  shows "offset < 2 ^ 24" "sectors < 256"
proof -
  obtain bs where "offset = unat (drop_bit 8 (of_nat (from_be bs) :: u32))" "sectors = unat ((of_nat (from_be bs) :: u32) AND 0xFF)"
    using assms by (auto simp: entry_def bindE_eq_Inr Let_def)
  moreover have "unat (drop_bit 8 (w :: u32)) < 2 ^ 24" for w
  proof -
    have "unat w < 2 ^ 32" using unsigned_less [of w, where ?'a = nat] by simp
    then have "unat w div 2 ^ 8 < 2 ^ 24" by (simp add: less_mult_imp_div_less)
    then show ?thesis by (simp only: unat_drop_bit_eq) (simp add: drop_bit_eq_div)
  qed
  moreover have "unat ((w :: u32) AND 0xFF) < 256" for w
  proof -
    have "w AND 0xFF = take_bit 8 w" by (simp add: take_bit_eq_mask mask_eq_exp_minus_1)
    then show ?thesis by (simp add: unsigned_take_bit_eq) (simp add: take_bit_eq_mod)
  qed
  ultimately show "offset < 2 ^ 24" "sectors < 256" by simp_all
qed

text \<open>What a payload read answers: a part of the image inside the sectors of its entry.\<close>

lemma sector_payload_ok:
  assumes "sector_payload img index offset sectors = Inr p"
  shows "p \<noteq> []" "length p + 4 \<le> sectors * SECTOR_LEN"
    "p = take (length p) (drop (offset * SECTOR_LEN + 4) (ri_bytes img))"
    "offset * SECTOR_LEN + 4 + length p \<le> length (ri_bytes img)"
    "from_be (take 4 (drop (offset * SECTOR_LEN) (ri_bytes img))) = length p"
proof -
  let ?base = "offset * SECTOR_LEN"
  let ?lb = "take 4 (drop ?base (ri_bytes img))"
  let ?len = "unat (of_nat (from_be ?lb) :: u32)"
  have s: "?base + 4 \<le> length (ri_bytes img)" "0 < ?len" "?len + 4 \<le> sectors * SECTOR_LEN"
      "?base + 4 + ?len \<le> length (ri_bytes img)" "p = take ?len (drop (?base + 4) (ri_bytes img))"
    using assms
    by (auto simp: sector_payload_def bindE_eq_Inr ok_or_eq_Inr checked_mul_u64_def slice_get_eq_Some Let_def
        split: if_splits)
  have "length ?lb = 4" using s(1) by simp
  then have "from_be ?lb < 256 ^ 4" using from_be_bound [of ?lb] by simp
  then have "?len = from_be ?lb" by (simp add: unat_of_nat take_bit_eq_mod)
  moreover have len: "length p = ?len" using s(4,5) by simp
  ultimately show "from_be ?lb = length p" by simp
  show "p \<noteq> []" "length p + 4 \<le> sectors * SECTOR_LEN"
    "p = take (length p) (drop (?base + 4) (ri_bytes img))" "?base + 4 + length p \<le> length (ri_bytes img)"
    using s len by auto
qed

lemma sector_payload_intro:
  assumes "offset < 2 ^ 24" "sectors < 256" "p \<noteq> []" "length p + 4 \<le> sectors * SECTOR_LEN"
    and "take (length p + 4) (drop (offset * SECTOR_LEN) (ri_bytes img)) = be_bytes 4 (length p) @ p"
  shows "sector_payload img index offset sectors = Inr p"
proof -
  let ?base = "offset * SECTOR_LEN"
  have "length (take (length p + 4) (drop ?base (ri_bytes img))) = length p + 4" using assms(5) by simp
  then have fit: "?base + 4 + length p \<le> length (ri_bytes img)" by (simp add: min_def split: if_splits)
  have small: "length p < 2 ^ 32" using assms(2,4) by (simp add: SECTOR_LEN_def)
  have lb: "take 4 (drop ?base (ri_bytes img)) = be_bytes 4 (length p)"
    using arg_cong [OF assms(5), of "take 4"] by (simp add: min_def)
  have body: "take (length p) (drop (?base + 4) (ri_bytes img)) = p"
    using arg_cong [OF assms(5), of "drop 4"] by (simp add: drop_take add.commute)
  have "unat (of_nat (length p) :: u32) = length p" using small by (simp add: unat_of_nat take_bit_eq_mod)
  moreover have "from_be (be_bytes 4 (length p)) = length p" using small by (simp add: from_be_be_bytes)
  moreover have "checked_mul_u64 offset SECTOR_LEN = Some ?base" "checked_mul_u64 sectors SECTOR_LEN = Some (sectors * SECTOR_LEN)"
    using assms(1,2) by (simp_all add: checked_mul_u64_def SECTOR_LEN_def)
  ultimately show ?thesis
    using fit assms(3,4) by (simp add: sector_payload_def slice_get_def lb body Let_def)
qed

subsection \<open>The walk\<close>

text \<open>The items of the walk: the present chunks from a slot on, up to and with the first error.\<close>

primrec present_items :: "region_image \<Rightarrow> nat \<Rightarrow> (anvil_error, chunk) result list" where
  "present_items img 0 = []"
| "present_items img (Suc left) =
     (case chunk_at img (TABLE_ENTRIES - Suc left) of
        Inr None \<Rightarrow> present_items img left
      | Inr (Some c) \<Rightarrow> Inr c # present_items img left
      | Inl e \<Rightarrow> [Inl e])"

lemma iter_scan_items:
  "left \<le> TABLE_ENTRIES \<Longrightarrow>
   (case iter_scan img left of (None, _) \<Rightarrow> present_items img left = []
    | (Some item, st) \<Rightarrow> present_items img left = item # (if it_done st then [] else present_items img (TABLE_ENTRIES - it_next st))
        \<and> (it_done st \<longleftrightarrow> (\<exists>e. item = Inl e)) \<and> TABLE_ENTRIES - left < it_next st \<and> it_next st \<le> TABLE_ENTRIES)"
proof (induction left)
  case (Suc left)
  then show ?case
    by (auto simp: Let_def split: sum.splits option.splits prod.splits)
qed simp

lemma iter_items_present:
  assumes "ri_bytes img \<noteq> []"
  shows "it_next st \<le> TABLE_ENTRIES \<Longrightarrow> TABLE_ENTRIES - it_next st < fuel
    \<Longrightarrow> iter_items img fuel st = (if it_done st then [] else present_items img (TABLE_ENTRIES - it_next st))"
proof (induction fuel arbitrary: st)
  case (Suc fuel)
  show ?case
  proof (cases "it_done st")
    case True
    then show ?thesis by (simp add: iter_next_def)
  next
    case False
    let ?left = "TABLE_ENTRIES - it_next st"
    have step: "iter_next img st = iter_scan img ?left" using assms False by (simp add: iter_next_def)
    obtain item st' where sc: "iter_scan img ?left = (item, st')" by fastforce
    note items = iter_scan_items [of ?left img, unfolded sc]
    show ?thesis
    proof (cases item)
      case None
      then show ?thesis using False step sc items by simp
    next
      case (Some x)
      then have "iter_items img fuel st' = (if it_done st' then [] else present_items img (TABLE_ENTRIES - it_next st'))"
        using items Suc.prems by (intro Suc.IH) auto
      then show ?thesis using False Some step sc items by simp
    qed
  qed
qed simp

lemma image_items_present: "ri_bytes img \<noteq> [] \<Longrightarrow> image_items img = present_items img TABLE_ENTRIES"
  using iter_items_present [of img iter_start "TABLE_ENTRIES + 1"] by (simp add: image_items_def iter_start_def)

lemma image_items_empty: "ri_bytes img = [] \<Longrightarrow> image_items img = []"
  by (simp add: image_items_def iter_next_def iter_start_def)

text \<open>Once the iterator has answered \<open>None\<close> it answers \<open>None\<close> for ever.\<close>

lemma iter_scan_None_done: "iter_scan img left = (None, st) \<Longrightarrow> it_done st"
  by (induction left) (auto simp: Let_def split: sum.splits option.splits)

lemma iter_fused: "iter_next img st = (None, st') \<Longrightarrow> iter_next img st' = (None, st')"
  by (auto simp: iter_next_def iter_scan_None_done split: if_splits)

text \<open>The slots left after the current one, as the list of what they hold.\<close>

lemma present_items_ok:
  assumes "left \<le> TABLE_ENTRIES" "\<And>i. TABLE_ENTRIES - left \<le> i \<Longrightarrow> i < TABLE_ENTRIES \<Longrightarrow> chunk_at img i = Inr (f i)"
  shows "present_items img left = map Inr (List.map_filter f [TABLE_ENTRIES - left..<TABLE_ENTRIES])"
  using assms
proof (induction left)
  case (Suc left)
  have up: "[TABLE_ENTRIES - Suc left..<TABLE_ENTRIES] = (TABLE_ENTRIES - Suc left) # [TABLE_ENTRIES - left..<TABLE_ENTRIES]"
    using Suc.prems(1) upt_conv_Cons [of "TABLE_ENTRIES - Suc left" TABLE_ENTRIES] by (simp add: Suc_diff_Suc)
  have IH: "present_items img left = map Inr (List.map_filter f [TABLE_ENTRIES - left..<TABLE_ENTRIES])"
    using Suc.prems by (intro Suc.IH) auto
  show ?case
    using Suc.prems IH unfolding up by (auto simp: List.map_filter_def split: option.split)
qed (simp add: List.map_filter_def)

text \<open>The lookup of a coordinate answers what the walk reads in its slot.\<close>

lemma chunk_payload_slot:
  assumes "slot_of (ri_loc img) x z = Inr s"
  shows "chunk_payload img x z = bindE (chunk_at img s) (\<lambda>c. Inr (map_option ch_payload c))"
proof (cases "entry img s")
  case (Inr os)
  obtain offset sectors where os: "os = (offset, sectors)" by (cases os)
  have "checked_mul_u64 offset SECTOR_LEN = Some (offset * SECTOR_LEN)"
    using entry_bounds(1) [of img s offset sectors] Inr os by (simp add: checked_mul_u64_def SECTOR_LEN_def)
  then show ?thesis
    using assms Inr os
    by (auto simp: chunk_payload_def chunk_at_def chunk_new_def bindE_def split: sum.split prod.split)
qed (simp add: assms chunk_payload_def chunk_at_def)

lemma chunk_payload_outside:
  "slot_of (ri_loc img) x z = Inl e \<Longrightarrow> chunk_payload img x z = Inr None"
  by (simp add: chunk_payload_def)

end
