(* ===== verification/Ordered_Map.thy ===== *)
theory Ordered_Map
  imports Sekai_Prelude
begin

section \<open>Ordered maps\<close>

text \<open>
  A \<open>BTreeMap\<close> of the code, and the \<open>Vec\<close> kept sorted by \<open>binary_search_by_key\<close> in the region
  writer, is the list of its entries in strictly ascending key order. The locale
  \<open>ordered_map\<close> states what the code relies on of such a map; the facts its users need are
  proved there and instantiated for the sorted lists.
\<close>

type_synonym ('k, 'v) omap = "('k \<times> 'v) list"

definition om_ok :: "('k :: linorder, 'v) omap \<Rightarrow> bool" where
  "om_ok m \<longleftrightarrow> sorted_wrt (<) (map fst m)"

definition om_get :: "'k \<Rightarrow> ('k, 'v) omap \<Rightarrow> 'v option" where
  "om_get k m = map_of m k"

fun om_put :: "'k :: linorder \<Rightarrow> 'v \<Rightarrow> ('k, 'v) omap \<Rightarrow> ('k, 'v) omap" where
  "om_put k v [] = [(k, v)]"
| "om_put k v ((j, w) # m) =
     (if k < j then (k, v) # (j, w) # m
      else if k = j then (k, v) # m
      else (j, w) # om_put k v m)"

definition om_del :: "'k \<Rightarrow> ('k, 'v) omap \<Rightarrow> ('k, 'v) omap" where
  "om_del k m = filter (\<lambda>e. fst e \<noteq> k) m"

text \<open>\<open>entry(k).or_default()\<close> with an update of the value found.\<close>

definition om_upd :: "'k :: linorder \<Rightarrow> ('v option \<Rightarrow> 'v) \<Rightarrow> ('k, 'v) omap \<Rightarrow> ('k, 'v) omap" where
  "om_upd k f m = om_put k (f (om_get k m)) m"

definition om_of_list :: "('k :: linorder \<times> 'v) list \<Rightarrow> ('k, 'v) omap" where
  "om_of_list kvs = fold (\<lambda>(k, v). om_put k v) kvs []"

subsection \<open>The interface\<close>

locale ordered_map =
  fixes ok :: "'m \<Rightarrow> bool"
    and get :: "'k :: linorder \<Rightarrow> 'm \<Rightarrow> 'v option"
    and put :: "'k \<Rightarrow> 'v \<Rightarrow> 'm \<Rightarrow> 'm"
    and del :: "'k \<Rightarrow> 'm \<Rightarrow> 'm"
    and entries :: "'m \<Rightarrow> ('k \<times> 'v) list"
  assumes ok_put: "ok m \<Longrightarrow> ok (put k v m)"
    and ok_del: "ok m \<Longrightarrow> ok (del k m)"
    and get_put: "ok m \<Longrightarrow> get j (put k v m) = (if j = k then Some v else get j m)"
    and get_del: "ok m \<Longrightarrow> get j (del k m) = (if j = k then None else get j m)"
    and entries_sorted: "ok m \<Longrightarrow> sorted_wrt (<) (map fst (entries m))"
    and entries_get: "ok m \<Longrightarrow> map_of (entries m) k = get k m"
begin

definition put_all :: "('k \<times> 'v) list \<Rightarrow> 'm \<Rightarrow> 'm" where
  "put_all kvs m = fold (\<lambda>(k, v). put k v) kvs m"

lemma ok_put_all: "ok m \<Longrightarrow> ok (put_all kvs m)"
  by (induction kvs arbitrary: m) (auto simp: put_all_def ok_put)

lemma get_put_all:
  "ok m \<Longrightarrow> get k (put_all kvs m) = (case map_of (rev kvs) k of Some v \<Rightarrow> Some v | None \<Rightarrow> get k m)"
proof (induction kvs arbitrary: m)
  case (Cons e kvs)
  obtain j v where "e = (j, v)" by (cases e)
  with Cons show ?case
    by (simp add: put_all_def ok_put get_put map_add_def split: option.split)
qed (simp add: put_all_def)

lemma entries_distinct: "ok m \<Longrightarrow> distinct (map fst (entries m))"
  using entries_sorted strict_sorted_iff by blast

lemma entries_mem: "ok m \<Longrightarrow> (k, v) \<in> set (entries m) \<longleftrightarrow> get k m = Some v"
  using entries_distinct [of m] entries_get [of m k] map_of_eq_Some_iff by metis

lemma entries_eq:
  assumes "ok m" "ok n" "\<And>k. get k m = get k n"
  shows "entries m = entries n"
proof -
  have set_eq: "set (entries m) = set (entries n)"
    using assms entries_mem by (metis (no_types, lifting) prod.exhaust subsetI subset_antisym)
  show ?thesis
  proof (rule map_sorted_distinct_set_unique [of fst])
    show "inj_on fst (set (entries m) \<union> set (entries n))"
      using entries_distinct [OF assms(1)] set_eq by (simp add: distinct_map)
    show "sorted (map fst (entries m))" "sorted (map fst (entries n))"
      using entries_sorted [OF assms(1)] entries_sorted [OF assms(2)] by (simp_all add: strict_sorted_iff)
    show "distinct (map fst (entries m))" "distinct (map fst (entries n))"
      using entries_distinct assms by blast+
  qed (rule set_eq)
qed

end

subsection \<open>Sorted lists provide it\<close>

lemma om_put_keys: "set (map fst (om_put k v m)) = insert k (set (map fst m))"
  by (induction k v m rule: om_put.induct) auto

lemma om_ok_put: "om_ok m \<Longrightarrow> om_ok (om_put k v m)"
proof (induction k v m rule: om_put.induct)
  case (2 k v j w m)
  have keys: "fst ` set (om_put k v m) = insert k (fst ` set m)"
    using om_put_keys [of k v m] by simp
  from 2 show ?case by (force simp: om_ok_def keys)
qed (simp add: om_ok_def)

lemma om_get_put: "om_ok m \<Longrightarrow> om_get j (om_put k v m) = (if j = k then Some v else om_get j m)"
  by (induction k v m rule: om_put.induct) (auto simp: om_ok_def om_get_def)

lemma om_ok_del: "om_ok m \<Longrightarrow> om_ok (om_del k m)"
  by (simp add: om_ok_def om_del_def sorted_wrt_map sorted_wrt_filter)

lemma om_get_del: "om_get j (om_del k m) = (if j = k then None else om_get j m)"
  by (induction m) (auto simp: om_get_def om_del_def)

interpretation om: ordered_map om_ok om_get om_put om_del "\<lambda>m. m"
  by unfold_locales
    (auto simp: om_ok_put om_ok_del om_get_put om_get_del, auto simp: om_ok_def om_get_def)

lemma om_ok_Nil [simp]: "om_ok []"
  by (simp add: om_ok_def)

lemma om_get_Nil [simp]: "om_get k [] = None"
  by (simp add: om_get_def)

lemma om_of_list_put_all: "om_of_list kvs = om.put_all kvs []"
  by (simp add: om_of_list_def om.put_all_def)

lemma om_ok_of_list [simp]: "om_ok (om_of_list kvs)"
  by (simp add: om_of_list_put_all om.ok_put_all)

lemma om_get_of_list: "om_get k (om_of_list kvs) = map_of (rev kvs) k"
  by (simp add: om_of_list_put_all om.get_put_all split: option.split)

lemma om_ok_upd: "om_ok m \<Longrightarrow> om_ok (om_upd k f m)"
  by (simp add: om_upd_def om_ok_put)

lemma om_get_upd: "om_ok m \<Longrightarrow> om_get j (om_upd k f m) = (if j = k then Some (f (om_get k m)) else om_get j m)"
  by (simp add: om_upd_def om_get_put)

end
