(* ===== verification/Anvil_Writer.thy ===== *)
theory Anvil_Writer
  imports Anvil_Reader Ordered_Map
begin

section \<open>Building a region image\<close>

text \<open>
  \<open>crates/anvil/src/writer.rs\<close>. The staged chunks are a vector kept sorted by slot with
  \<open>binary_search_by_key\<close>, which is an ordered map from slots to payloads. \<open>builder_image\<close> lays
  the runs out one after the other behind the header. The lemmas show that a builder reached by
  staging and removing always builds, and that the image read back yields exactly what was staged.
\<close>

record region_builder =
  rb_loc :: region_loc
  rb_timestamp :: u32
  rb_staged :: "(nat, bytes) omap"

definition builder_new :: "i32 \<Rightarrow> i32 \<Rightarrow> u32 \<Rightarrow> (anvil_error, region_builder) result" where
  "builder_new rx rz ts =
     bindE (region_loc_new rx rz) (\<lambda>loc. Inr \<lparr>rb_loc = loc, rb_timestamp = ts, rb_staged = []\<rparr>)"

definition stage_chunk :: "i32 \<Rightarrow> i32 \<Rightarrow> bytes \<Rightarrow> region_builder \<Rightarrow> (anvil_error, region_builder) result" where
  "stage_chunk x z payload b =
     (if payload = [] then Inl EmptyPayload
      else bindE (sectors_for (length payload)) (\<lambda>_.
           bindE (slot_of (rb_loc b) x z) (\<lambda>slot.
             Inr (b\<lparr>rb_staged := om_put slot payload (rb_staged b)\<rparr>))))"

definition remove_chunk :: "i32 \<Rightarrow> i32 \<Rightarrow> region_builder \<Rightarrow> (anvil_error, region_builder) result" where
  "remove_chunk x z b =
     bindE (slot_of (rb_loc b) x z) (\<lambda>slot. Inr (b\<lparr>rb_staged := om_del slot (rb_staged b)\<rparr>))"

text \<open>\<open>image[at..at + n].copy_from_slice(bs)\<close>.\<close>

definition write_at :: "'a list \<Rightarrow> nat \<Rightarrow> 'a list \<Rightarrow> 'a list" where
  "write_at xs at bs = take at xs @ bs @ drop (at + length bs) xs"

definition u32_try :: "nat \<Rightarrow> u32 option" where
  "u32_try v = (if v < 2 ^ 32 then Some (of_nat v) else None)"

definition place_chunk ::
  "u32 \<Rightarrow> nat \<times> bytes \<Rightarrow> bytes \<times> nat \<Rightarrow> (anvil_error, bytes \<times> nat) result" where
  "place_chunk ts = (\<lambda>(slot, payload) (image, offset).
     bindE (sectors_for (length payload)) (\<lambda>sectors.
       if offset + sectors > MAX_SECTOR_OFFSET then Inl (ImageTooLarge offset)
       else bindE (ok_or (ImageTooLarge offset) (u32_try offset)) (\<lambda>offset_u32.
            bindE (ok_or (ImageTooLarge offset) (u32_try sectors)) (\<lambda>sectors_u32.
              let entry = push_bit 8 offset_u32 OR sectors_u32;
                  entry_at = slot * 4;
                  image1 = write_at image entry_at (be_bytes 4 (unat entry));
                  image2 = write_at image1 (SECTOR_LEN + entry_at) (be_bytes 4 (unat ts))
              in bindE (ok_or (ChunkTooLarge (length payload)) (u32_try (length payload))) (\<lambda>payload_len.
                   let allocation = sectors * SECTOR_LEN; stored_len = length payload + 4
                   in Inr (image2 @ be_bytes 4 (unat payload_len) @ payload @ replicate (allocation - stored_len) 0,
                           offset + sectors))))))"

definition builder_image :: "region_builder \<Rightarrow> (anvil_error, bytes) result" where
  "builder_image b =
     bindE (foldE (place_chunk (rb_timestamp b)) (rb_staged b) (replicate HEADER_LEN 0, FIRST_DATA_SECTOR))
       (\<lambda>(image, _). Inr image)"

subsection \<open>Slices of a written list\<close>

lemma length_write_at [simp]: "at + length bs \<le> length xs \<Longrightarrow> length (write_at xs at bs) = length xs"
  by (simp add: write_at_def)

lemma take_drop_write_other:
  assumes "at + length bs \<le> length xs" "a + n \<le> at \<or> at + length bs \<le> a"
  shows "take n (drop a (write_at xs at bs)) = take n (drop a xs)"
proof (rule nth_equalityI)
  show "length (take n (drop a (write_at xs at bs))) = length (take n (drop a xs))"
    using assms(1) by simp
  fix i
  assume "i < length (take n (drop a (write_at xs at bs)))"
  then have i: "i < n" "a + i < length xs" using assms(1) by auto
  have "write_at xs at bs ! (a + i) = xs ! (a + i)"
    using assms i by (auto simp: write_at_def nth_append add.commute)
  then show "take n (drop a (write_at xs at bs)) ! i = take n (drop a xs) ! i"
    using i assms(1) by simp
qed

lemma take_drop_write_same:
  "at \<le> length xs \<Longrightarrow> take (length bs) (drop at (write_at xs at bs)) = bs"
  by (simp add: write_at_def)

lemma take_drop_append: "a + n \<le> length xs \<Longrightarrow> take n (drop a (xs @ ys)) = take n (drop a xs)"
  by simp

subsection \<open>A run in an image\<close>

definition run_at :: "bytes \<Rightarrow> nat \<Rightarrow> bytes \<Rightarrow> nat \<Rightarrow> nat \<Rightarrow> bool" where
  "run_at img slot p offset sectors \<longleftrightarrow>
     FIRST_DATA_SECTOR \<le> offset \<and> offset < 2 ^ 24 \<and> sectors_for (length p) = Inr sectors
     \<and> (offset + sectors) * SECTOR_LEN \<le> length img
     \<and> take 4 (drop (slot * 4) img) = be_bytes 4 (offset * 256 + sectors)
     \<and> take (length p + 4) (drop (offset * SECTOR_LEN) img) = be_bytes 4 (length p) @ p"

definition blank_at :: "bytes \<Rightarrow> nat \<Rightarrow> bool" where
  "blank_at img slot \<longleftrightarrow> HEADER_LEN \<le> length img \<and> take 4 (drop (slot * 4) img) = [0, 0, 0, 0]"

lemma entry_word:
  assumes "offset < 2 ^ 24" "sectors < 256"
  shows "unat (push_bit 8 (of_nat offset :: u32) OR of_nat sectors) = offset * 256 + sectors"
proof -
  have "unat (take_bit 8 (of_nat sectors :: u32)) = unat (of_nat sectors :: u32)"
    using assms(2) by (simp only: unsigned_take_bit_eq) (simp add: unat_of_nat take_bit_eq_mod)
  then have w: "of_nat sectors = take_bit 8 (of_nat sectors :: u32)" by (simp only: word_unat_eq_iff)
  have "push_bit 8 (of_nat offset :: u32) OR take_bit 8 (of_nat sectors) = push_bit 8 (of_nat offset) + take_bit 8 (of_nat sectors)"
    by (rule disjunctive_add [symmetric]) (auto simp: bit_push_bit_iff bit_take_bit_iff)
  then have "push_bit 8 (of_nat offset :: u32) OR of_nat sectors = push_bit 8 (of_nat offset) + of_nat sectors"
    by (simp only: w [symmetric])
  also have "\<dots> = of_nat (offset * 256 + sectors)" by (simp add: push_bit_eq_mult mult.commute)
  finally have "push_bit 8 (of_nat offset :: u32) OR of_nat sectors = of_nat (offset * 256 + sectors)" .
  moreover have "offset * 256 + sectors < 2 ^ 32" using assms by simp
  ultimately show ?thesis by (simp add: unat_of_nat take_bit_eq_mod del: of_nat_add of_nat_mult)
qed

lemma entry_decode:
  assumes "e < 2 ^ 32"
  shows "unat (drop_bit 8 (of_nat e :: u32)) = e div 256" "unat ((of_nat e :: u32) AND 0xFF) = e mod 256"
proof -
  have u: "unat (of_nat e :: u32) = e" using assms by (simp add: unat_of_nat take_bit_eq_mod)
  show "unat (drop_bit 8 (of_nat e :: u32)) = e div 256"
    by (simp only: unat_drop_bit_eq u) (simp add: drop_bit_eq_div)
  have "(of_nat e :: u32) AND 0xFF = take_bit 8 (of_nat e)" by (simp add: take_bit_eq_mask mask_eq_exp_minus_1)
  then show "unat ((of_nat e :: u32) AND 0xFF) = e mod 256"
    by (simp only: unsigned_take_bit_eq u) (simp add: take_bit_eq_mod)
qed

lemma chunk_at_run:
  assumes run: "run_at (ri_bytes img) slot p offset sectors" and p: "p \<noteq> []" and slot: "slot < TABLE_ENTRIES"
  shows "chunk_at img slot = Inr (Some (chunk_new (ri_kind img) (fst (coord_at (ri_loc img) slot)) (snd (coord_at (ri_loc img) slot)) p))"
proof -
  have s: "sectors < 256" "0 < sectors" "length p + 4 \<le> sectors * SECTOR_LEN"
    using sectors_for_ok [of "length p" sectors] run by (simp_all add: run_at_def)
  have r: "2 \<le> offset" "offset < 2 ^ 24" "(offset + sectors) * SECTOR_LEN \<le> length (ri_bytes img)"
      "take 4 (drop (slot * 4) (ri_bytes img)) = be_bytes 4 (offset * 256 + sectors)"
    using run by (simp_all add: run_at_def FIRST_DATA_SECTOR_def)
  have big: "slot * 4 + 4 \<le> length (ri_bytes img)" using slot r(1,3) by (simp add: layout_consts)
  have e: "from_be (be_bytes 4 (offset * 256 + sectors)) = offset * 256 + sectors"
    using r(2) s(1) by (simp add: from_be_be_bytes)
  have "offset * 256 + sectors < 2 ^ 32" using r(2) s(1) by simp
  then have entry: "entry img slot = Inr (offset, sectors)"
    using big s(1) by (simp add: entry_def slice_get_def r(4) e Let_def entry_decode del: of_nat_add of_nat_mult)
  have payload: "sector_payload img slot offset sectors = Inr p"
    using run s p by (intro sector_payload_intro) (simp_all add: run_at_def)
  have "offset * SECTOR_LEN < length (ri_bytes img)" "ri_bytes img \<noteq> []"
    using r(1,3) s(2) by (auto simp: SECTOR_LEN_def)
  moreover have "checked_mul_u64 offset SECTOR_LEN = Some (offset * SECTOR_LEN)"
    using r(2) by (simp add: checked_mul_u64_def SECTOR_LEN_def)
  ultimately show ?thesis
    using entry payload r(1) s(2) by (simp add: chunk_at_def FIRST_DATA_SECTOR_def split: prod.split)
qed

lemma chunk_at_blank:
  assumes "blank_at (ri_bytes img) slot" "slot < TABLE_ENTRIES"
  shows "chunk_at img slot = Inr None"
proof -
  have "slot * 4 + 4 \<le> length (ri_bytes img)" using assms by (simp add: blank_at_def layout_consts)
  moreover have "from_be [0, 0, 0, 0] = 0" by (simp add: from_be_def)
  ultimately have "entry img slot = Inr (0, 0)"
    using assms(1) by (simp add: entry_def slice_get_def blank_at_def Let_def)
  then show ?thesis by (simp add: chunk_at_def)
qed

subsection \<open>The loop\<close>

definition layout_ok :: "(nat \<times> bytes) list \<Rightarrow> bytes \<times> nat \<Rightarrow> bool" where
  "layout_ok ready st \<longleftrightarrow>
     (case st of (img, offset) \<Rightarrow>
        FIRST_DATA_SECTOR \<le> offset \<and> length img = offset * SECTOR_LEN
        \<and> offset \<le> FIRST_DATA_SECTOR + 255 * length ready
        \<and> (\<forall>(s, p) \<in> set ready. \<exists>o' k. run_at img s p o' k)
        \<and> (\<forall>s < TABLE_ENTRIES. s \<notin> fst ` set ready \<longrightarrow> blank_at img s))"

definition stageable :: "nat \<times> bytes \<Rightarrow> bool" where
  "stageable e \<longleftrightarrow> fst e < TABLE_ENTRIES \<and> snd e \<noteq> [] \<and> (\<exists>k. sectors_for (length (snd e)) = Inr k)"

lemma place_chunk_step:
  assumes ok: "layout_ok ready st" and e: "stageable (slot, p)" "slot \<notin> fst ` set ready"
    and slots: "\<forall>d \<in> set ready. fst d < TABLE_ENTRIES" and few: "length ready < TABLE_ENTRIES"
  shows "\<exists>st'. place_chunk ts (slot, p) st = Inr st' \<and> layout_ok (ready @ [(slot, p)]) st'"
proof -
  obtain img offset where st: "st = (img, offset)" by (cases st)
  obtain k where k: "sectors_for (length p) = Inr k" using e(1) by (auto simp: stageable_def)
  note kb = sectors_for_ok [OF k]
  have o: "2 \<le> offset" "length img = offset * 4096" "offset \<le> 2 + 255 * length ready"
    using ok by (simp_all add: st layout_ok_def FIRST_DATA_SECTOR_def SECTOR_LEN_def)
  have ob: "offset + k \<le> 0xFFFFFF" "offset < 2 ^ 24" using o(3) few kb(3) by (simp_all add: TABLE_ENTRIES_def)
  have slot: "slot < 1024" using e(1) by (simp add: stageable_def TABLE_ENTRIES_def)
  define img1 where "img1 = write_at img (slot * 4) (be_bytes 4 (offset * 256 + k))"
  define img2 where "img2 = write_at img1 (4096 + slot * 4) (be_bytes 4 (unat ts))"
  define img3 where "img3 = img2 @ be_bytes 4 (length p) @ p @ replicate (k * 4096 - (length p + 4)) 0"
  have plen: "length p < 2 ^ 32" using kb(1,3) by (simp add: SECTOR_LEN_def)
  then have pu: "unat (of_nat (length p) :: u32) = length p" by (simp add: unat_of_nat take_bit_eq_mod)
  have place: "place_chunk ts (slot, p) st = Inr (img3, offset + k)"
    using ob kb(3) plen
    by (simp add: st place_chunk_def k MAX_SECTOR_OFFSET_def u32_try_def Let_def entry_word pu SECTOR_LEN_def
        img1_def img2_def img3_def)
  have len1: "length img1 = length img" using o slot by (simp add: img1_def)
  have len2: "length img2 = length img" using o slot len1 by (simp add: img2_def)
  have len3: "length img3 = (offset + k) * 4096"
    using kb(1) o(2) len2 by (simp add: img3_def SECTOR_LEN_def algebra_simps)
  have keep: "take n (drop a img3) = take n (drop a img)"
    if "a + n \<le> length img" "a + n \<le> slot * 4 \<or> slot * 4 + 4 \<le> a" "a + n \<le> 4096 + slot * 4 \<or> 4100 + slot * 4 \<le> a" for a n
  proof -
    have "take n (drop a img3) = take n (drop a img2)"
      unfolding img3_def using that(1) len2 by (intro take_drop_append) simp
    also have "\<dots> = take n (drop a img1)"
      unfolding img2_def using that(3) len1 o slot by (intro take_drop_write_other) auto
    also have "\<dots> = take n (drop a img)"
      unfolding img1_def using that(2) o slot by (intro take_drop_write_other) auto
    finally show ?thesis .
  qed
  have old: "\<exists>o' k. run_at img3 s q o' k" if mem: "(s, q) \<in> set ready" for s q
  proof -
    obtain o' k' where run: "run_at img s q o' k'" using ok mem by (force simp: st layout_ok_def)
    have s: "s < 1024" "s \<noteq> slot" using slots e(2) mem by (force simp: TABLE_ENTRIES_def)+
    have r: "2 \<le> o'" "(o' + k') * 4096 \<le> length img" "length q + 4 \<le> k' * 4096"
      using run sectors_for_ok(1) [of "length q" k'] by (simp_all add: run_at_def FIRST_DATA_SECTOR_def SECTOR_LEN_def)
    have "take 4 (drop (s * 4) img3) = take 4 (drop (s * 4) img)" using s slot o(1,2) by (intro keep) auto
    moreover have "take (length q + 4) (drop (o' * 4096) img3) = take (length q + 4) (drop (o' * 4096) img)"
      using r slot by (intro keep) (auto simp: algebra_simps)
    ultimately have "run_at img3 s q o' k'"
      using run len2 r(2) by (simp add: run_at_def SECTOR_LEN_def img3_def)
    then show ?thesis by blast
  qed
  have "take 4 (drop (slot * 4) img1) = be_bytes 4 (offset * 256 + k)"
    unfolding img1_def using take_drop_write_same [of "slot * 4" img "be_bytes 4 (offset * 256 + k)"] o slot by simp
  then have head: "take 4 (drop (slot * 4) img3) = be_bytes 4 (offset * 256 + k)"
    unfolding img3_def img2_def
    using o slot len1 by (subst take_drop_append, simp, subst take_drop_write_other) simp_all
  have "drop (offset * 4096) img3 = be_bytes 4 (length p) @ p @ replicate (k * 4096 - (length p + 4)) 0"
    using o(2) len2 by (simp add: img3_def)
  then have "run_at img3 slot p offset k"
    using o ob k kb(2) head len3 by (simp add: run_at_def FIRST_DATA_SECTOR_def SECTOR_LEN_def)
  moreover have "blank_at img3 s" if "s < TABLE_ENTRIES" "s \<notin> fst ` set (ready @ [(slot, p)])" for s
  proof -
    have "blank_at img s" "s \<noteq> slot" using ok that by (auto simp: st layout_ok_def)
    moreover have "take 4 (drop (s * 4) img3) = take 4 (drop (s * 4) img)"
      using that(1) \<open>s \<noteq> slot\<close> slot o(1,2) by (intro keep) (auto simp: TABLE_ENTRIES_def)
    ultimately show ?thesis using len3 o(1,2) by (simp add: blank_at_def HEADER_LEN_def)
  qed
  ultimately have "layout_ok (ready @ [(slot, p)]) (img3, offset + k)"
    using old len3 o kb(3) by (auto simp: layout_ok_def FIRST_DATA_SECTOR_def SECTOR_LEN_def)
  with place show ?thesis by blast
qed

lemma place_all:
  assumes "layout_ok ready st" "\<forall>e \<in> set (ready @ es). stageable e" "distinct (map fst (ready @ es))"
  shows "\<exists>st'. foldE (place_chunk ts) es st = Inr st' \<and> layout_ok (ready @ es) st'"
  using assms
proof (induction es arbitrary: ready st)
  case (Cons e es)
  obtain slot p where e: "e = (slot, p)" by (cases e)
  have "set (map fst (ready @ e # es)) \<subseteq> {..<TABLE_ENTRIES}"
    using Cons.prems(2) by (auto simp: stageable_def)
  then have "card (set (map fst (ready @ e # es))) \<le> TABLE_ENTRIES"
    using card_mono [of "{..<TABLE_ENTRIES}"] by fastforce
  then have "length (ready @ e # es) \<le> TABLE_ENTRIES"
    using distinct_card [OF Cons.prems(3)] by (simp only: length_map)
  then have few: "length ready < TABLE_ENTRIES" by simp
  have "\<exists>st'. place_chunk ts (slot, p) st = Inr st' \<and> layout_ok (ready @ [(slot, p)]) st'"
    using Cons.prems few e by (intro place_chunk_step) (auto simp: stageable_def)
  then obtain st1 where st1: "place_chunk ts e st = Inr st1" "layout_ok (ready @ [e]) st1" unfolding e by blast
  have "\<exists>st'. foldE (place_chunk ts) es st1 = Inr st' \<and> layout_ok ((ready @ [e]) @ es) st'"
    using Cons.prems st1(2) by (intro Cons.IH) simp_all
  with st1(1) show ?case by simp
qed simp

subsection \<open>Builders\<close>

definition wf_builder :: "region_builder \<Rightarrow> bool" where
  "wf_builder b \<longleftrightarrow> wf_loc (rb_loc b) \<and> om_ok (rb_staged b) \<and> (\<forall>e \<in> set (rb_staged b). stageable e)"

lemma wf_builder_new: "builder_new rx rz ts = Inr b \<Longrightarrow> wf_builder b \<and> loc_region_x (rb_loc b) = rx \<and> loc_region_z (rb_loc b) = rz"
  by (auto simp: builder_new_def bindE_eq_Inr wf_builder_def dest: region_loc_new_wf)

lemma om_put_mem: "e \<in> set (om_put k v m) \<Longrightarrow> e = (k, v) \<or> e \<in> set m"
  by (induction k v m rule: om_put.induct) (auto split: if_splits)

lemma wf_builder_stage:
  assumes "wf_builder b" "stage_chunk x z p b = Inr b'"
  shows "wf_builder b' \<and> rb_loc b' = rb_loc b \<and> rb_timestamp b' = rb_timestamp b
    \<and> (\<exists>s. slot_of (rb_loc b) x z = Inr s
          \<and> (\<forall>k. om_get k (rb_staged b') = (if k = s then Some p else om_get k (rb_staged b))))"
proof -
  obtain s n where s: "p \<noteq> []" "sectors_for (length p) = Inr n" "slot_of (rb_loc b) x z = Inr s"
      "b' = b\<lparr>rb_staged := om_put s p (rb_staged b)\<rparr>"
    using assms(2) by (auto simp: stage_chunk_def bindE_eq_Inr split: if_splits)
  have "s < TABLE_ENTRIES" using assms(1) slot_of_bound [OF _ s(3)] by (simp add: wf_builder_def)
  then have "stageable (s, p)" using s(1,2) by (simp add: stageable_def)
  then show ?thesis
    using assms(1) s(3,4) by (auto simp: wf_builder_def om_ok_put om_get_put dest!: om_put_mem)
qed

lemma stage_chunk_iff:
  assumes "wf_loc (rb_loc b)"
  shows "(\<exists>b'. stage_chunk x z p b = Inr b') \<longleftrightarrow> p \<noteq> [] \<and> length p \<le> 1044476
    \<and> sval x div 32 = sval (loc_region_x (rb_loc b)) \<and> sval z div 32 = sval (loc_region_z (rb_loc b))"
proof -
  have "(\<exists>b'. stage_chunk x z p b = Inr b') \<longleftrightarrow>
      p \<noteq> [] \<and> (\<exists>n. sectors_for (length p) = Inr n) \<and> (\<exists>s. slot_of (rb_loc b) x z = Inr s)"
    by (auto simp: stage_chunk_def bindE_eq_Inr)
  then show ?thesis by (simp add: sectors_for_iff slot_of_eq [OF assms])
qed

lemma wf_builder_remove:
  assumes "wf_builder b" "remove_chunk x z b = Inr b'"
  shows "wf_builder b' \<and> rb_loc b' = rb_loc b
    \<and> (\<exists>s. slot_of (rb_loc b) x z = Inr s
          \<and> (\<forall>k. om_get k (rb_staged b') = (if k = s then None else om_get k (rb_staged b))))"
  using assms
  by (auto simp: remove_chunk_def bindE_eq_Inr wf_builder_def om_ok_del om_get_del) (simp add: om_del_def)

lemma builder_image_layout:
  assumes "wf_builder b"
  shows "\<exists>img offset. builder_image b = Inr img \<and> layout_ok (rb_staged b) (img, offset)"
proof -
  have r4: "replicate 4 (0 :: u8) = [0, 0, 0, 0]" by (simp add: numeral_eq_Suc)
  have z: "take 4 (drop (s * 4) (replicate 8192 (0 :: u8))) = [0, 0, 0, 0]" if "s < 1024" for s
  proof -
    have "min 4 (8192 - s * 4) = 4" using that by simp
    then show ?thesis by (simp only: drop_replicate take_replicate r4)
  qed
  have "layout_ok [] (replicate HEADER_LEN 0, FIRST_DATA_SECTOR)"
    by (auto simp: layout_ok_def blank_at_def layout_consts z simp del: take_replicate drop_replicate)
  then have "\<exists>st'. foldE (place_chunk (rb_timestamp b)) (rb_staged b) (replicate HEADER_LEN 0, FIRST_DATA_SECTOR)
      = Inr st' \<and> layout_ok ([] @ rb_staged b) st'"
    using assms by (intro place_all) (auto simp: wf_builder_def om_ok_def strict_sorted_iff)
  then show ?thesis by (auto simp: builder_image_def)
qed

text \<open>Reading back what was built.\<close>

lemma built_chunk_at:
  assumes wf: "wf_builder b" and img: "builder_image b = Inr img" and s: "s < TABLE_ENTRIES"
    and ri: "ri_bytes ri = img"
  shows "chunk_at ri s = Inr (map_option (\<lambda>p. chunk_new (ri_kind ri) (fst (coord_at (ri_loc ri) s)) (snd (coord_at (ri_loc ri) s)) p)
           (om_get s (rb_staged b)))"
proof -
  obtain offset where ok: "layout_ok (rb_staged b) (img, offset)" using builder_image_layout [OF wf] img by auto
  show ?thesis
  proof (cases "om_get s (rb_staged b)")
    case None
    then have "s \<notin> fst ` set (rb_staged b)" by (simp add: om_get_def map_of_eq_None_iff)
    then have "blank_at img s" using ok s by (simp add: layout_ok_def)
    then show ?thesis using None s ri by (simp add: chunk_at_blank)
  next
    case (Some p)
    then have mem: "(s, p) \<in> set (rb_staged b)" by (simp add: om_get_def map_of_SomeD)
    then obtain o' k where "run_at img s p o' k" using ok by (force simp: layout_ok_def)
    moreover have "p \<noteq> []" using wf mem by (force simp: wf_builder_def stageable_def)
    ultimately show ?thesis using Some s ri by (simp add: chunk_at_run)
  qed
qed

lemma built_image_len:
  assumes "wf_builder b" "builder_image b = Inr img"
  shows "HEADER_LEN \<le> length img" "length img mod SECTOR_LEN = 0" "length img \<le> 1069555712"
proof -
  obtain offset where ok: "layout_ok (rb_staged b) (img, offset)" using builder_image_layout [OF assms(1)] assms(2) by auto
  have "set (map fst (rb_staged b)) \<subseteq> {..<TABLE_ENTRIES}" "distinct (map fst (rb_staged b))"
    using assms(1) by (auto simp: wf_builder_def stageable_def om_ok_def strict_sorted_iff)
  moreover from this have "card (set (map fst (rb_staged b))) \<le> card {..<TABLE_ENTRIES}" by (intro card_mono) auto
  ultimately have "length (rb_staged b) \<le> 1024"
    using distinct_card [of "map fst (rb_staged b)"] by (simp only: length_map card_lessThan TABLE_ENTRIES_def)
  then have "offset \<le> 261122" using ok by (simp add: layout_ok_def FIRST_DATA_SECTOR_def)
  then show "HEADER_LEN \<le> length img" "length img mod SECTOR_LEN = 0" "length img \<le> 1069555712"
    using ok by (simp_all add: layout_ok_def layout_consts)
qed

lemma map_filter_cong: "(\<And>x. x \<in> set xs \<Longrightarrow> g x = h x) \<Longrightarrow> List.map_filter g xs = List.map_filter h xs"
  by (induction xs) (auto simp: List.map_filter_def split: option.split)

lemma map_filter_om:
  assumes "om_ok m" "\<forall>e \<in> set m. fst e < n"
  shows "List.map_filter (\<lambda>s. map_option (f s) (om_get s m)) [0..<n] = map (\<lambda>(s, v). f s v) m"
  using assms
proof (induction n arbitrary: m)
  case 0
  then show ?case by (cases m) (auto simp: List.map_filter_def)
next
  case (Suc n)
  have mf: "List.map_filter g (xs @ ys) = List.map_filter g xs @ List.map_filter g ys" for g :: "nat \<Rightarrow> 'c option" and xs ys
    by (simp add: List.map_filter_def)
  show ?case
  proof (cases m rule: rev_cases)
    case Nil
    then show ?thesis by (simp add: List.map_filter_def)
  next
    case (snoc m' e)
    obtain k v where e: "e = (k, v)" by (cases e)
    have m': "om_ok m'" "\<forall>d \<in> set m'. fst d < k" "k \<le> n"
      using Suc.prems by (auto simp: snoc e om_ok_def sorted_wrt_append)
    show ?thesis
    proof (cases "k = n")
      case True
      have "om_get s m = om_get s m'" if "s < n" for s
        using that True by (simp add: snoc e om_get_def map_add_def split: option.split)
      then have "List.map_filter (\<lambda>s. map_option (f s) (om_get s m)) [0..<n]
          = List.map_filter (\<lambda>s. map_option (f s) (om_get s m')) [0..<n]"
        by (intro map_filter_cong) simp
      moreover have "om_get n m = Some v"
      proof -
        have "map_of m' n = None" using m'(2) True by (auto simp: map_of_eq_None_iff)
        then show ?thesis by (simp add: snoc e True om_get_def map_add_def)
      qed
      moreover have "List.map_filter (\<lambda>s. map_option (f s) (om_get s m')) [0..<n] = map (\<lambda>(s, v). f s v) m'"
        using m' True by (intro Suc.IH) auto
      ultimately show ?thesis by (simp add: mf snoc e True List.map_filter_def)
    next
      case False
      then have lt: "\<forall>d \<in> set m. fst d < n" using m' by (auto simp: snoc e)
      then have "om_get n m = None" by (auto simp: om_get_def map_of_eq_None_iff)
      then show ?thesis
        using Suc.IH [OF Suc.prems(1) lt] by (simp add: mf)
    qed
  qed
qed

lemma built_items:
  assumes wf: "wf_builder b" and img: "builder_image b = Inr img"
    and ri: "ri_bytes ri = img"
  shows "image_items ri = map (\<lambda>(s, p). Inr (chunk_new (ri_kind ri) (fst (coord_at (ri_loc ri) s)) (snd (coord_at (ri_loc ri) s)) p)) (rb_staged b)"
proof -
  have ne: "ri_bytes ri \<noteq> []" using built_image_len(1) [OF wf img] ri by (auto simp: HEADER_LEN_def)
  have "image_items ri = present_items ri TABLE_ENTRIES" by (rule image_items_present [OF ne])
  also have "\<dots> = map Inr (List.map_filter
      (\<lambda>s. map_option (\<lambda>p. chunk_new (ri_kind ri) (fst (coord_at (ri_loc ri) s)) (snd (coord_at (ri_loc ri) s)) p)
         (om_get s (rb_staged b))) [TABLE_ENTRIES - TABLE_ENTRIES..<TABLE_ENTRIES])"
    using built_chunk_at [OF wf img _ ri] by (intro present_items_ok) auto
  also have "\<dots> = map Inr (map (\<lambda>(s, p). chunk_new (ri_kind ri) (fst (coord_at (ri_loc ri) s)) (snd (coord_at (ri_loc ri) s)) p) (rb_staged b))"
    using wf by (simp, subst map_filter_om) (auto simp: wf_builder_def stageable_def)
  finally show ?thesis by (simp add: case_prod_unfold)
qed

lemma built_payload:
  assumes wf: "wf_builder b" and img: "builder_image b = Inr img"
    and ri: "ri_bytes ri = img" "ri_loc ri = rb_loc b"
  shows "chunk_payload ri x z = Inr (case slot_of (rb_loc b) x z of Inl _ \<Rightarrow> None | Inr s \<Rightarrow> om_get s (rb_staged b))"
proof (cases "slot_of (rb_loc b) x z")
  case (Inl e)
  then show ?thesis using ri(2) by (simp add: chunk_payload_outside)
next
  case (Inr s)
  have "s < TABLE_ENTRIES" using wf slot_of_bound [OF _ Inr] by (simp add: wf_builder_def)
  then show ?thesis
    using Inr ri by (simp add: chunk_payload_slot built_chunk_at [OF wf img] option.map_comp comp_def chunk_new_def option.map_ident)
qed

end
