(* ===== verification/World_Port.thy ===== *)
theory World_Port
  imports Anvil_Writer
begin

section \<open>Access to a world\<close>

text \<open>
  \<open>crates/world/src/tree.rs\<close>, \<open>region.rs\<close> and \<open>error.rs\<close>: the traits \<open>WorldTree\<close>, \<open>RegionFile\<close> and
  \<open>Region\<close> as one record of operations over a world \<open>'w\<close> and handles \<open>'r\<close> to its region files, and
  what their documentation promises as the locale \<open>world_tree\<close>. Locks are left out: an operation of
  the model runs on a world nobody else changes, which is what the lock is for. Paths are lists of
  components.
\<close>

type_synonym host_path = "rstr list"

datatype world_error =
    WeIo host_path
  | WeAnvil anvil_error
  | WeRegionFile host_path anvil_error
  | WeWorldLocked host_path
  | WeUnknownRegionPath dimension region_kind i32 i32
  | WeAmbiguousRegion dimension region_kind i32 i32 host_path host_path

text \<open>\<open>Region\<close>: what a visit of the chunks reports, and the lookup of one payload.\<close>

record world_image =
  wi_chunks :: "(world_error, chunk) visit"
  wi_payload :: "i32 \<Rightarrow> i32 \<Rightarrow> (world_error, bytes option) result"

record ('w, 'r) world_port =
  wp_is_empty :: "'w \<Rightarrow> (world_error, bool) result"
  wp_get_dims :: "'w \<Rightarrow> (world_error, dimension list) result"
  wp_get_regions :: "'w \<Rightarrow> dimension \<Rightarrow> region_kind \<Rightarrow> (world_error, (region_key \<times> 'r) list) result"
  wp_derive_region :: "'w \<Rightarrow> region_key \<Rightarrow> (world_error, 'r) result"
  wp_sibling_region :: "'w \<Rightarrow> 'r \<Rightarrow> region_key \<Rightarrow> (world_error, 'r) result"
  wp_read :: "'w \<Rightarrow> 'r \<Rightarrow> region_key \<Rightarrow> (world_error, world_image) result"
  wp_size :: "'w \<Rightarrow> 'r \<Rightarrow> (world_error, u64) result"
  wp_exists :: "'w \<Rightarrow> 'r \<Rightarrow> bool"
  wp_write :: "'r \<Rightarrow> bytes \<Rightarrow> 'w \<Rightarrow> (world_error, 'w) result"
  wp_remove :: "'r \<Rightarrow> 'w \<Rightarrow> (world_error, 'w) result"

text \<open>What an image answers for the bytes of a region file, errors carrying the file.\<close>

definition image_answers :: "host_path \<Rightarrow> region_image \<Rightarrow> world_image" where
  "image_answers p img =
     \<lparr>wi_chunks = decode_visit (map_err (WeRegionFile p)) (image_items img),
      wi_payload = (\<lambda>x z. map_err (WeRegionFile p) (chunk_payload img x z))\<rparr>"

definition key_image :: "region_key \<Rightarrow> bytes \<Rightarrow> (anvil_error, region_image) result" where
  "key_image k bs = from_bytes_with_kind bs (key_rx k) (key_rz k) (key_kind k)"

text \<open>
  The promises. \<open>files\<close> is the content of a world by region identity, \<open>dims\<close> its dimensions, and
  \<open>names w k r\<close> says that \<open>r\<close> is a handle of the region \<open>k\<close>: the file discovery observed, or the place
  of a file that does not exist yet.
\<close>

locale world_tree =
  fixes port :: "('w, 'r) world_port"
    and valid :: "'w \<Rightarrow> bool"
    and dims :: "'w \<Rightarrow> dimension set"
    and files :: "'w \<Rightarrow> region_key \<Rightarrow> bytes option"
    and names :: "'w \<Rightarrow> region_key \<Rightarrow> 'r \<Rightarrow> bool"
  assumes finite_files: "valid w \<Longrightarrow> finite (dom (files w))"
    and file_dim: "valid w \<Longrightarrow> files w k = Some bs \<Longrightarrow> key_dim k \<in> dims w"
    and get_dims: "valid w \<Longrightarrow> \<exists>ds. wp_get_dims port w = Inr ds \<and> distinct ds \<and> set ds = dims w"
    and get_regions:
      "valid w \<Longrightarrow> \<exists>rs. wp_get_regions port w d kd = Inr rs \<and> distinct (map fst rs)
         \<and> (\<forall>k. k \<in> fst ` set rs \<longleftrightarrow> files w k \<noteq> None \<and> key_dim k = d \<and> key_kind k = kd)
         \<and> (\<forall>(k, r) \<in> set rs. names w k r)"
    and derive_ok:
      "valid w \<Longrightarrow> key_dim k \<in> dims w
         \<Longrightarrow> \<exists>r. wp_derive_region port w k = Inr r \<and> (files w k = None \<longrightarrow> names w k r)"
    and derive_outside:
      "valid w \<Longrightarrow> key_dim k \<notin> dims w
         \<Longrightarrow> wp_derive_region port w k = Inl (WeUnknownRegionPath (key_dim k) (key_kind k) (key_rx k) (key_rz k))"
    and sibling_ok:
      "valid w \<Longrightarrow> names w j r \<Longrightarrow> key_dim j = key_dim k \<Longrightarrow> key_kind j = key_kind k
         \<Longrightarrow> \<exists>s. wp_sibling_region port w r k = Inr s \<and> (files w k = None \<longrightarrow> names w k s)"
    and read_ok:
      "valid w \<Longrightarrow> names w k r \<Longrightarrow> files w k = Some bs \<Longrightarrow> key_image k bs = Inr img
         \<Longrightarrow> \<exists>p. wp_read port w r k = Inr (image_answers p img)"
    and read_bad:
      "valid w \<Longrightarrow> names w k r \<Longrightarrow> files w k = Some bs \<Longrightarrow> key_image k bs = Inl e
         \<Longrightarrow> \<exists>p. wp_read port w r k = Inl (WeRegionFile p e)"
    and size_ok: "valid w \<Longrightarrow> names w k r \<Longrightarrow> files w k = Some bs \<Longrightarrow> wp_size port w r = Inr (of_nat (length bs))"
    and exists_iff: "valid w \<Longrightarrow> names w k r \<Longrightarrow> wp_exists port w r \<longleftrightarrow> files w k \<noteq> None"
    and write_ok:
      "valid w \<Longrightarrow> names w k r \<Longrightarrow> \<exists>w'. wp_write port r bs w = Inr w' \<and> valid w' \<and> dims w' = dims w
         \<and> files w' = (files w)(k \<mapsto> bs) \<and> (\<forall>j s. names w j s \<longrightarrow> j \<noteq> k \<or> s = r \<longrightarrow> names w' j s)"
    and remove_ok:
      "valid w \<Longrightarrow> names w k r \<Longrightarrow> files w k \<noteq> None \<Longrightarrow> \<exists>w'. wp_remove port r w = Inr w' \<and> valid w'
         \<and> dims w' = dims w \<and> files w' = (files w)(k := None) \<and> (\<forall>j s. names w j s \<longrightarrow> names w' j s)"

end
