(* ===== verification/World_Host.thy ===== *)
theory World_Host
  imports World_Port
begin

section \<open>The host world tree\<close>

text \<open>
  \<open>crates/world/src/tree/hostworld.rs\<close> over a file system that holds regular files by path; a
  directory exists where a file below it does, and the one directory the code asks about, the root,
  has a flag. Failures of the operating system are not modelled, names that are not Unicode are the
  ones the code skips. A host world is valid when no two files of a directory spell one region: the
  state in which discovery answers at all.
\<close>

record host_world =
  hw_root :: host_path
  hw_dirs :: "(dimension, host_path) omap"
  hw_root_is_dir :: bool
  hw_files :: "(host_path, bytes) omap"

fun kind_dir :: "region_kind \<Rightarrow> rstr" where
  "kind_dir Region = lit ''region''"
| "kind_dir Entities = lit ''entities''"
| "kind_dir Poi = lit ''poi''"

subsection \<open>Layouts of fresh output trees\<close>

definition legacy_dirs :: "host_path \<Rightarrow> (dimension, host_path) omap" where
  "legacy_dirs root =
     om_of_list [(OVERWORLD, root), (NETHER, root @ [lit ''DIM-1'']), (END_DIM, root @ [lit ''DIM1''])]"

definition dimensions_dirs :: "host_path \<Rightarrow> (dimension, host_path) omap" where
  "dimensions_dirs root =
     (let minecraft = root @ [lit ''dimensions'', lit ''minecraft''] in
      om_of_list [(OVERWORLD, minecraft @ [lit ''overworld'']), (NETHER, minecraft @ [lit ''the_nether'']),
        (END_DIM, minecraft @ [lit ''the_end''])])"

definition bukkit_dirs :: "host_path \<Rightarrow> rstr \<Rightarrow> (dimension, host_path) omap" where
  "bukkit_dirs root base =
     om_of_list [(OVERWORLD, root @ [base]), (NETHER, root @ [base @ lit ''_nether'', lit ''DIM-1'']),
       (END_DIM, root @ [base @ lit ''_the_end'', lit ''DIM1''])]"

subsection \<open>Operations\<close>

definition check_root :: "host_world \<Rightarrow> (world_error, unit) result" where
  "check_root w = (if hw_root_is_dir w then Inr () else Inl (WeIo (hw_root w)))"

definition host_is_empty :: "host_world \<Rightarrow> (world_error, bool) result" where
  "host_is_empty w =
     Inr (\<forall>(_, dir) \<in> set (hw_dirs w). \<forall>(p, _) \<in> set (hw_files w). \<not> (length dir < length p \<and> take (length dir) p = dir))"

definition host_get_dims :: "host_world \<Rightarrow> (world_error, dimension list) result" where
  "host_get_dims w = bindE (check_root w) (\<lambda>_. Inr (map fst (hw_dirs w)))"

text \<open>The entries of one directory, by name.\<close>

definition read_dir :: "host_world \<Rightarrow> host_path \<Rightarrow> host_path list" where
  "read_dir w dir = filter (\<lambda>p. p \<noteq> [] \<and> butlast p = dir) (map fst (hw_files w))"

definition host_entry ::
  "dimension \<Rightarrow> region_kind \<Rightarrow> host_path \<Rightarrow> (i32 \<times> i32, host_path) omap
     \<Rightarrow> (world_error, (i32 \<times> i32, host_path) omap) result" where
  "host_entry dim kind p regions =
     (case parse_region_name (last p) of
        Inl _ \<Rightarrow> Inr regions
      | Inr (rx, rz) \<Rightarrow>
          (case om_get (rx, rz) regions of
             Some previous \<Rightarrow> Inl (WeAmbiguousRegion dim kind rx rz previous p)
           | None \<Rightarrow> Inr (om_put (rx, rz) p regions)))"

definition host_get_regions ::
  "host_world \<Rightarrow> dimension \<Rightarrow> region_kind \<Rightarrow> (world_error, (region_key \<times> host_path) list) result" where
  "host_get_regions w dim kind =
     (case om_get dim (hw_dirs w) of
        None \<Rightarrow> Inr []
      | Some dir \<Rightarrow>
          bindE (foldE (host_entry dim kind) (read_dir w (dir @ [kind_dir kind])) []) (\<lambda>regions.
            Inr (map (\<lambda>((rx, rz), p). (RegionKey dim kind rx rz, p)) regions)))"

definition unknown_region :: "region_key \<Rightarrow> world_error" where
  "unknown_region k = WeUnknownRegionPath (key_dim k) (key_kind k) (key_rx k) (key_rz k)"

definition host_derive_region :: "host_world \<Rightarrow> region_key \<Rightarrow> (world_error, host_path) result" where
  "host_derive_region w k =
     bindE (ok_or (unknown_region k) (om_get (key_dim k) (hw_dirs w))) (\<lambda>root.
       Inr (root @ [kind_dir (key_kind k), region_file_name (key_rx k) (key_rz k)]))"

definition host_sibling_region :: "host_world \<Rightarrow> host_path \<Rightarrow> region_key \<Rightarrow> (world_error, host_path) result" where
  "host_sibling_region w r k = Inr (butlast r @ [region_file_name (key_rx k) (key_rz k)])"

definition host_read :: "host_world \<Rightarrow> host_path \<Rightarrow> region_key \<Rightarrow> (world_error, world_image) result" where
  "host_read w r k =
     (let spelled = (if r = [] then None else (case parse_region_name (last r) of Inl _ \<Rightarrow> None | Inr xz \<Rightarrow> Some xz))
      in if spelled \<noteq> Some (key_rx k, key_rz k) then Inl (unknown_region k)
         else bindE (ok_or (WeIo r) (om_get r (hw_files w))) (\<lambda>bs.
              bindE (map_err (WeRegionFile r) (from_bytes_with_kind bs (key_rx k) (key_rz k) (key_kind k))) (\<lambda>image.
                Inr (image_answers r image))))"

definition host_size :: "host_world \<Rightarrow> host_path \<Rightarrow> (world_error, u64) result" where
  "host_size w r = bindE (ok_or (WeIo r) (om_get r (hw_files w))) (\<lambda>bs. Inr (of_nat (length bs)))"

definition host_exists :: "host_world \<Rightarrow> host_path \<Rightarrow> bool" where
  "host_exists w r \<longleftrightarrow> om_get r (hw_files w) \<noteq> None"

definition host_write :: "host_path \<Rightarrow> bytes \<Rightarrow> host_world \<Rightarrow> (world_error, host_world) result" where
  "host_write r img w = Inr (w\<lparr>hw_files := om_put r img (hw_files w)\<rparr>)"

definition host_remove :: "host_path \<Rightarrow> host_world \<Rightarrow> (world_error, host_world) result" where
  "host_remove r w =
     (if om_get r (hw_files w) = None then Inl (WeIo r) else Inr (w\<lparr>hw_files := om_del r (hw_files w)\<rparr>))"

definition host_port :: "(host_world, host_path) world_port" where
  "host_port =
     \<lparr>wp_is_empty = host_is_empty, wp_get_dims = host_get_dims, wp_get_regions = host_get_regions,
      wp_derive_region = host_derive_region, wp_sibling_region = host_sibling_region, wp_read = host_read,
      wp_size = host_size, wp_exists = host_exists, wp_write = host_write, wp_remove = host_remove\<rparr>"

lemma host_port_sel [simp]:
  "wp_is_empty host_port = host_is_empty" "wp_get_dims host_port = host_get_dims"
  "wp_get_regions host_port = host_get_regions" "wp_derive_region host_port = host_derive_region"
  "wp_sibling_region host_port = host_sibling_region" "wp_read host_port = host_read"
  "wp_size host_port = host_size" "wp_exists host_port = host_exists"
  "wp_write host_port = host_write" "wp_remove host_port = host_remove"
  by (simp_all add: host_port_def)

subsection \<open>The regions a file system holds\<close>

definition spells :: "host_world \<Rightarrow> region_key \<Rightarrow> host_path \<Rightarrow> bool" where
  "spells w k p \<longleftrightarrow>
     (case om_get (key_dim k) (hw_dirs w) of
        None \<Rightarrow> False
      | Some dir \<Rightarrow> p \<noteq> [] \<and> butlast p = dir @ [kind_dir (key_kind k)]
          \<and> parse_region_name (last p) = Inr (key_rx k, key_rz k))"

definition host_find :: "host_world \<Rightarrow> region_key \<Rightarrow> host_path option" where
  "host_find w k = find (spells w k) (map fst (hw_files w))"

definition host_files :: "host_world \<Rightarrow> region_key \<Rightarrow> bytes option" where
  "host_files w k = Option.bind (host_find w k) (\<lambda>p. om_get p (hw_files w))"

definition host_dims :: "host_world \<Rightarrow> dimension set" where
  "host_dims w = set (map fst (hw_dirs w))"

definition host_names :: "host_world \<Rightarrow> region_key \<Rightarrow> host_path \<Rightarrow> bool" where
  "host_names w k p \<longleftrightarrow> spells w k p \<and> (host_find w k = None \<or> host_find w k = Some p)"

definition host_valid :: "host_world \<Rightarrow> bool" where
  "host_valid w \<longleftrightarrow> om_ok (hw_dirs w) \<and> om_ok (hw_files w) \<and> hw_root_is_dir w \<and> distinct (map snd (hw_dirs w))
     \<and> (\<forall>p \<in> set (map fst (hw_files w)). \<forall>q \<in> set (map fst (hw_files w)).
          p \<noteq> [] \<longrightarrow> q \<noteq> [] \<longrightarrow> butlast p = butlast q \<longrightarrow> is_ok (parse_region_name (last p))
            \<longrightarrow> parse_region_name (last p) = parse_region_name (last q) \<longrightarrow> p = q)"

lemma kind_dir_inject [simp]: "kind_dir a = kind_dir b \<longleftrightarrow> a = b"
  by (cases a; cases b) (simp_all add: lit_def)

text \<open>A path spells at most one region.\<close>

lemma spells_key:
  assumes "host_valid w" "spells w j p" "spells w k p"
  shows "j = k"
proof -
  obtain d e where d: "om_get (key_dim j) (hw_dirs w) = Some d" "om_get (key_dim k) (hw_dirs w) = Some e"
      "d @ [kind_dir (key_kind j)] = e @ [kind_dir (key_kind k)]"
      "(key_rx j, key_rz j) = (key_rx k, key_rz k)"
    using assms(2,3) by (auto simp: spells_def split: option.splits)
  have "distinct (map snd (hw_dirs w))" using assms(1) by (simp add: host_valid_def)
  moreover have "(key_dim j, d) \<in> set (hw_dirs w)" "(key_dim k, e) \<in> set (hw_dirs w)"
    using d(1,2) by (auto simp: om_get_def dest: map_of_SomeD)
  ultimately have "key_dim j = key_dim k"
    using d(3) by (auto simp: distinct_map dest!: inj_onD [where x = "(key_dim j, d)" and y = "(key_dim k, e)"])
  then show ?thesis using d(3,4) by (cases j; cases k) simp
qed

lemma host_keys_distinct: "host_valid w \<Longrightarrow> distinct (map fst (hw_files w))"
  by (simp add: host_valid_def om_ok_def strict_sorted_iff)

lemma host_keys_mem: "p \<in> set (map fst (hw_files w)) \<longleftrightarrow> om_get p (hw_files w) \<noteq> None"
  by (force simp: om_get_def map_of_eq_None_iff)

lemma spelled_once:
  assumes "host_valid w" "spells w k p" "spells w k q" "om_get p (hw_files w) \<noteq> None" "om_get q (hw_files w) \<noteq> None"
  shows "p = q"
proof -
  have "p \<noteq> []" "q \<noteq> []" "butlast p = butlast q" "parse_region_name (last p) = Inr (key_rx k, key_rz k)"
    "parse_region_name (last q) = Inr (key_rx k, key_rz k)"
    using assms(2,3) by (auto simp: spells_def split: option.splits)
  moreover have "p \<in> set (map fst (hw_files w))" "q \<in> set (map fst (hw_files w))"
    using assms(4,5) by (simp_all only: host_keys_mem not_False_eq_True)
  ultimately show ?thesis using assms(1) unfolding host_valid_def by (metis is_ok_simps(2))
qed

lemma host_find_Some:
  assumes "host_valid w"
  shows "host_find w k = Some p \<longleftrightarrow> spells w k p \<and> om_get p (hw_files w) \<noteq> None"
proof -
  have found: "spells w k q \<and> om_get q (hw_files w) \<noteq> None" if "host_find w k = Some q" for q
    using find_Some_mem [OF that [unfolded host_find_def]] host_keys_mem by blast
  have "host_find w k = Some p" if p: "spells w k p" "om_get p (hw_files w) \<noteq> None"
  proof (cases "host_find w k")
    case None
    then have "\<not> (\<exists>x. x \<in> set (map fst (hw_files w)) \<and> spells w k x)"
      unfolding host_find_def find_None_iff .
    then show ?thesis using p host_keys_mem by blast
  next
    case (Some q)
    then show ?thesis using found [OF Some] spelled_once [OF assms p(1) _ p(2)] by blast
  qed
  then show ?thesis using found by blast
qed

lemma host_find_None:
  assumes "host_valid w"
  shows "host_find w k = None \<longleftrightarrow> (\<forall>p. spells w k p \<longrightarrow> om_get p (hw_files w) = None)"
proof (cases "host_find w k")
  case None
  then show ?thesis using host_find_Some [OF assms, of k] by (metis option.distinct(1))
next
  case (Some q)
  then show ?thesis using host_find_Some [OF assms, of k q] by auto
qed

lemma host_files_find:
  assumes "host_valid w"
  shows "host_files w k = None \<longleftrightarrow> host_find w k = None"
    and "host_files w k = Some bs \<longleftrightarrow> (\<exists>p. host_find w k = Some p \<and> om_get p (hw_files w) = Some bs)"
proof -
  have "om_get p (hw_files w) \<noteq> None" if "host_find w k = Some p" for p
    using that host_find_Some [OF assms] by blast
  then show "host_files w k = None \<longleftrightarrow> host_find w k = None"
    by (cases "host_find w k") (simp_all add: host_files_def)
  show "host_files w k = Some bs \<longleftrightarrow> (\<exists>p. host_find w k = Some p \<and> om_get p (hw_files w) = Some bs)"
    by (cases "host_find w k") (simp_all add: host_files_def)
qed

lemma host_names_spelled: "host_valid w \<Longrightarrow> spells w k p \<Longrightarrow> host_files w k = None \<Longrightarrow> host_names w k p"
  by (simp add: host_names_def host_files_find)

lemma host_names_file:
  assumes "host_valid w" "host_names w k p"
  shows "host_files w k = om_get p (hw_files w)"
proof (cases "host_find w k")
  case None
  then show ?thesis
    using assms(2) host_find_None [OF assms(1), of k] by (simp add: host_names_def host_files_def)
qed (use assms(2) in \<open>simp add: host_names_def host_files_def\<close>)

subsection \<open>Discovery\<close>

lemma host_entries:
  assumes "distinct ps" "om_ok g"
    and "\<And>p q. p \<in> set ps \<Longrightarrow> q \<in> set ps \<Longrightarrow> is_ok (parse_region_name (last p))
      \<Longrightarrow> parse_region_name (last p) = parse_region_name (last q) \<Longrightarrow> p = q"
    and "\<And>p xz. p \<in> set ps \<Longrightarrow> parse_region_name (last p) = Inr xz \<Longrightarrow> om_get xz g = None"
  shows "\<exists>g'. foldE (host_entry dim kind) ps g = Inr g' \<and> om_ok g'
    \<and> (\<forall>xz p. om_get xz g' = Some p \<longleftrightarrow> om_get xz g = Some p \<or> p \<in> set ps \<and> parse_region_name (last p) = Inr xz)"
  using assms
proof (induction ps arbitrary: g)
  case Nil
  then show ?case by simp
next
  case (Cons p ps)
  show ?case
  proof (cases "parse_region_name (last p)")
    case (Inl e)
    have "\<exists>g'. foldE (host_entry dim kind) ps g = Inr g' \<and> om_ok g'
      \<and> (\<forall>xz q. om_get xz g' = Some q \<longleftrightarrow> om_get xz g = Some q \<or> q \<in> set ps \<and> parse_region_name (last q) = Inr xz)"
    proof (rule Cons.IH)
      show "om_get xz g = None" if "q \<in> set ps" "parse_region_name (last q) = Inr xz" for q xz
        using Cons.prems(4) [of q xz] that by simp
      show "p1 = q1" if "p1 \<in> set ps" "q1 \<in> set ps" "is_ok (parse_region_name (last p1))"
        "parse_region_name (last p1) = parse_region_name (last q1)" for p1 q1
        using Cons.prems(3) [of p1 q1] that by simp
    qed (use Cons.prems(1,2) in simp_all)
    then obtain g' where "foldE (host_entry dim kind) ps g = Inr g'" "om_ok g'"
      "\<forall>xz q. om_get xz g' = Some q \<longleftrightarrow> om_get xz g = Some q \<or> q \<in> set ps \<and> parse_region_name (last q) = Inr xz"
      by blast
    moreover have "host_entry dim kind p g = Inr g" using Inl by (simp add: host_entry_def)
    ultimately show ?thesis using Inl by (intro exI [of _ g']) auto
  next
    case (Inr xz)
    have none: "om_get xz g = None" using Cons.prems(4) [of p xz] Inr by simp
    have step: "host_entry dim kind p g = Inr (om_put xz p g)"
      using Inr none by (cases xz) (simp add: host_entry_def)
    have "\<exists>g'. foldE (host_entry dim kind) ps (om_put xz p g) = Inr g' \<and> om_ok g'
      \<and> (\<forall>yz q. om_get yz g' = Some q \<longleftrightarrow> om_get yz (om_put xz p g) = Some q \<or> q \<in> set ps \<and> parse_region_name (last q) = Inr yz)"
    proof (rule Cons.IH)
      fix q yz
      assume q: "q \<in> set ps" "parse_region_name (last q) = Inr yz"
      have "yz \<noteq> xz"
      proof
        assume "yz = xz"
        then have "p = q" using Cons.prems(3) [of p q] q Inr by simp
        then show False using Cons.prems(1) q(1) by simp
      qed
      then show "om_get yz (om_put xz p g) = None"
        using Cons.prems(2) Cons.prems(4) [of q yz] q by (simp add: om_get_put)
      
    next
      show "p1 = q1" if "p1 \<in> set ps" "q1 \<in> set ps" "is_ok (parse_region_name (last p1))"
        "parse_region_name (last p1) = parse_region_name (last q1)" for p1 q1
        using Cons.prems(3) [of p1 q1] that by simp
    qed (use Cons.prems(1,2) in \<open>simp_all add: om_ok_put\<close>)
    then obtain g' where "foldE (host_entry dim kind) ps (om_put xz p g) = Inr g'" "om_ok g'"
      "\<forall>yz q. om_get yz g' = Some q \<longleftrightarrow> om_get yz (om_put xz p g) = Some q \<or> q \<in> set ps \<and> parse_region_name (last q) = Inr yz"
      by blast
    then show ?thesis
      using step Inr none Cons.prems(2) by (intro exI [of _ g']) (auto simp: om_get_put)
  qed
qed

lemma host_get_regions_spec:
  assumes w: "host_valid w"
  shows "\<exists>rs. host_get_regions w d kd = Inr rs \<and> distinct (map fst rs)
    \<and> (\<forall>k r. (k, r) \<in> set rs \<longleftrightarrow> key_dim k = d \<and> key_kind k = kd \<and> host_find w k = Some r)"
proof (cases "om_get d (hw_dirs w)")
  case None
  have "host_find w k \<noteq> Some r" if "key_dim k = d" for k r
    using that None host_find_Some [OF w, of k r] by (simp add: spells_def)
  then show ?thesis using None by (auto simp: host_get_regions_def)
next
  case (Some dir)
  let ?ps = "read_dir w (dir @ [kind_dir kd])"
  have ps: "p \<in> set ?ps \<longleftrightarrow> p \<noteq> [] \<and> butlast p = dir @ [kind_dir kd] \<and> om_get p (hw_files w) \<noteq> None" for p
    unfolding read_dir_def using host_keys_mem [of p w] by auto
  have dist: "distinct ?ps" using host_keys_distinct [OF w] by (simp add: read_dir_def)
  have uniq: "p = q" if pq: "p \<in> set ?ps" "q \<in> set ?ps" "is_ok (parse_region_name (last p))"
      "parse_region_name (last p) = parse_region_name (last q)" for p q
  proof -
    obtain x z where "parse_region_name (last p) = Inr (x, z)" using pq(3) by (auto simp: is_ok_iff)
    moreover have "p \<noteq> [] \<and> butlast p = dir @ [kind_dir kd] \<and> om_get p (hw_files w) \<noteq> None"
      "q \<noteq> [] \<and> butlast q = dir @ [kind_dir kd] \<and> om_get q (hw_files w) \<noteq> None"
      using pq(1,2) unfolding ps by blast+
    ultimately show ?thesis
      using spelled_once [OF w, of "RegionKey d kd x z" p q] pq(4) Some by (simp add: spells_def)
  qed
  have "\<exists>g. foldE (host_entry d kd) ?ps [] = Inr g \<and> om_ok g
      \<and> (\<forall>xz p. om_get xz g = Some p \<longleftrightarrow> om_get xz [] = Some p \<or> p \<in> set ?ps \<and> parse_region_name (last p) = Inr xz)"
  proof (rule host_entries [OF dist om_ok_Nil])
    show "p = q" if "p \<in> set ?ps" "q \<in> set ?ps" "is_ok (parse_region_name (last p))"
      "parse_region_name (last p) = parse_region_name (last q)" for p q
      using that by (rule uniq)
  qed simp
  then obtain g where g: "foldE (host_entry d kd) ?ps [] = Inr g" "om_ok g"
      "\<And>xz p. om_get xz g = Some p \<longleftrightarrow> p \<in> set ?ps \<and> parse_region_name (last p) = Inr xz"
    unfolding om_get_Nil by blast
  let ?rs = "map (\<lambda>((rx, rz), p). (RegionKey d kd rx rz, p)) g"
  have "map fst ?rs = map (\<lambda>(rx, rz). RegionKey d kd rx rz) (map fst g)" by (simp add: case_prod_unfold)
  moreover have "inj (\<lambda>(rx, rz). RegionKey d kd rx rz)" by (auto intro: injI)
  moreover have "distinct (map fst g)" using g(2) by (simp add: om_ok_def strict_sorted_iff)
  ultimately have "distinct (map fst ?rs)" by (simp only: distinct_map) (blast intro: inj_on_subset)
  moreover have "(k, r) \<in> set ?rs \<longleftrightarrow> key_dim k = d \<and> key_kind k = kd \<and> host_find w k = Some r" for k r
  proof -
    have "(k, r) \<in> set ?rs \<longleftrightarrow> key_dim k = d \<and> key_kind k = kd \<and> om_get (key_rx k, key_rz k) g = Some r"
      using om.entries_mem [OF g(2), of "(key_rx k, key_rz k)" r] by (cases k) force
    also have "\<dots> \<longleftrightarrow> key_dim k = d \<and> key_kind k = kd \<and> spells w k r \<and> om_get r (hw_files w) \<noteq> None"
      using Some by (auto simp: g(3) ps spells_def)
    finally show ?thesis by (simp only: host_find_Some [OF w])
  qed
  ultimately show ?thesis using g(1) Some by (simp add: host_get_regions_def) 
qed

text \<open>Two spellings of one region are refused, whatever else the directory holds.\<close>

lemma host_refuses_ambiguity:
  assumes "om_get d (hw_dirs w) = Some dir" "distinct ps" "ps = read_dir w (dir @ [kind_dir kd])"
    and "p \<in> set ps" "q \<in> set ps" "p \<noteq> q"
    and "parse_region_name (last p) = Inr (x, z)" "parse_region_name (last q) = Inr (x, z)"
  shows "\<exists>a b rx rz. host_get_regions w d kd = Inl (WeAmbiguousRegion d kd rx rz a b)"
proof -
  have "\<exists>a b rx rz. foldE (host_entry d kd) qs g = Inl (WeAmbiguousRegion d kd rx rz a b)"
    if "distinct qs" "(p \<in> set qs \<and> q \<in> set qs) \<or> (om_get (x, z) g \<noteq> None \<and> (p \<in> set qs \<or> q \<in> set qs))" "om_ok g" for qs g
    using that
  proof (induction qs arbitrary: g)
    case (Cons r qs)
    show ?case
    proof (cases "host_entry d kd r g")
      case (Inl e)
      then show ?thesis by (auto simp: host_entry_def split: sum.splits prod.splits option.splits)
    next
      case (Inr g')
      then have g': "om_ok g'" "om_get (x, z) g \<noteq> None \<Longrightarrow> om_get (x, z) g' \<noteq> None"
        "r \<in> {p, q} \<Longrightarrow> om_get (x, z) g = None \<and> om_get (x, z) g' \<noteq> None"
        using Cons.prems(3) assms(7,8)
        by (auto simp: host_entry_def om_ok_put om_get_put split: sum.splits prod.splits option.splits)
      have "(p \<in> set qs \<and> q \<in> set qs) \<or> (om_get (x, z) g' \<noteq> None \<and> (p \<in> set qs \<or> q \<in> set qs))"
        using Cons.prems(1,2) g'(2,3) assms(6) by auto
      then show ?thesis using Inr Cons.IH [OF _ _ g'(1)] Cons.prems(1) by simp
    qed
  qed simp
  from this [OF assms(2), of "[]"] obtain a b rx rz where
    "foldE (host_entry d kd) ps [] = Inl (WeAmbiguousRegion d kd rx rz a b)"
    using assms(4,5) by auto
  then show ?thesis using assms(1) by (simp add: host_get_regions_def flip: assms(3))
qed

subsection \<open>Writing and removing\<close>

lemma spells_files [simp]: "spells (w\<lparr>hw_files := f\<rparr>) = spells w"
  by (intro ext) (simp add: spells_def)

lemma host_dims_files [simp]: "host_dims (w\<lparr>hw_files := f\<rparr>) = host_dims w"
  by (simp add: host_dims_def)

lemma host_valid_iff:
  "host_valid w \<longleftrightarrow> om_ok (hw_dirs w) \<and> om_ok (hw_files w) \<and> hw_root_is_dir w \<and> distinct (map snd (hw_dirs w))
     \<and> (\<forall>p q. om_get p (hw_files w) \<noteq> None \<longrightarrow> om_get q (hw_files w) \<noteq> None \<longrightarrow> p \<noteq> [] \<longrightarrow> q \<noteq> []
          \<longrightarrow> butlast p = butlast q \<longrightarrow> is_ok (parse_region_name (last p))
          \<longrightarrow> parse_region_name (last p) = parse_region_name (last q) \<longrightarrow> p = q)"
  unfolding host_valid_def Ball_def host_keys_mem by blast

lemma host_valid_unique:
  assumes "host_valid w" "om_get p (hw_files w) \<noteq> None" "om_get q (hw_files w) \<noteq> None" "p \<noteq> []" "q \<noteq> []"
    "butlast p = butlast q" "is_ok (parse_region_name (last p))" "parse_region_name (last p) = parse_region_name (last q)"
  shows "p = q"
  using assms unfolding host_valid_iff by blast

lemma host_find_same:
  assumes "host_valid w" "host_valid w'" "hw_dirs w' = hw_dirs w"
    and "\<And>p. spells w k p \<Longrightarrow> om_get p (hw_files w') = om_get p (hw_files w)"
  shows "host_find w' k = host_find w k" "host_files w' k = host_files w k"
proof -
  have sp: "spells w' k p \<longleftrightarrow> spells w k p" for p by (simp add: spells_def assms(3))
  have "host_find w' k = Some p \<longleftrightarrow> host_find w k = Some p" for p
    unfolding host_find_Some [OF assms(1)] host_find_Some [OF assms(2)] sp
    using assms(4) [of p] by (cases "spells w k p") simp_all
  then show find: "host_find w' k = host_find w k" by (cases "host_find w k"; cases "host_find w' k") auto
  show "host_files w' k = host_files w k"
  proof (cases "host_find w k")
    case (Some p)
    then have "spells w k p" using host_find_Some [OF assms(1)] by blast
    then show ?thesis using Some find assms(4) by (simp add: host_files_def)
  qed (simp add: find host_files_def)
qed

lemma host_write_ok:
  fixes bs :: bytes
  assumes w: "host_valid w" and n: "host_names w k r"
  defines "w' \<equiv> w\<lparr>hw_files := om_put r bs (hw_files w)\<rparr>"
  shows "host_valid w'" "host_files w' = (host_files w)(k \<mapsto> bs)"
    "host_names w j s \<Longrightarrow> j \<noteq> k \<or> s = r \<Longrightarrow> host_names w' j s"
proof -
  have ok: "om_ok (hw_files w)" using w by (simp add: host_valid_def)
  have get: "om_get p (hw_files w') = (if p = r then Some bs else om_get p (hw_files w))" for p
    by (simp add: w'_def om_get_put [OF ok])
  have sp: "spells w' = spells w" "hw_dirs w' = hw_dirs w" by (simp_all add: w'_def)
  have r: "spells w k r" using n by (simp add: host_names_def)
  have only: "q = r" if "om_get q (hw_files w) \<noteq> None" "spells w k q" for q
  proof -
    have "host_find w k = Some q" using that host_find_Some [OF w] by blast
    then show ?thesis using n by (simp add: host_names_def)
  qed
  have parts: "r \<noteq> []" "parse_region_name (last r) = Inr (key_rx k, key_rz k)"
    using r by (auto simp: spells_def split: option.splits)
  have uniq: "p = q" if pq: "om_get p (hw_files w') \<noteq> None" "om_get q (hw_files w') \<noteq> None" "p \<noteq> []" "q \<noteq> []"
      "butlast p = butlast q" "is_ok (parse_region_name (last p))" "parse_region_name (last p) = parse_region_name (last q)" for p q
  proof -
    have sk: "spells w k x" if "x \<noteq> []" "butlast x = butlast r" "parse_region_name (last x) = parse_region_name (last r)" for x
      using that r parts(1) by (simp add: spells_def split: option.splits)
    have mine: "x = r" if "x \<noteq> []" "butlast x = butlast r" "parse_region_name (last x) = parse_region_name (last r)"
      "om_get x (hw_files w') \<noteq> None" for x
      using only [of x] sk [OF that(1-3)] that(4) unfolding get by (simp split: if_splits)
    show ?thesis
    proof (cases "p = r \<or> q = r")
      case True
      then show ?thesis
      proof
        assume "p = r"
        then show ?thesis using mine [OF pq(4)] pq(2,5,7) by simp
      next
        assume "q = r"
        then show ?thesis using mine [OF pq(3)] pq(1,5,7) by simp
      qed
    next
      case False
      then have "om_get p (hw_files w) \<noteq> None" "om_get q (hw_files w) \<noteq> None" using pq(1,2) get by simp_all
      then show ?thesis using host_valid_unique [OF w] pq(3-7) by blast
    qed
  qed
  show v: "host_valid w'"
    unfolding host_valid_iff using uniq w ok by (auto simp: w'_def host_valid_def om_ok_put)
  have fk: "host_find w' k = Some r" using host_find_Some [OF v] r get by (simp add: sp)
  have other: "host_find w' j = host_find w j" "host_files w' j = host_files w j" if "j \<noteq> k" for j
  proof -
    have "om_get p (hw_files w') = om_get p (hw_files w)" if "spells w j p" for p
      using that r spells_key [OF w, of j p k] \<open>j \<noteq> k\<close> by (auto simp: get)
    then show "host_find w' j = host_find w j" "host_files w' j = host_files w j"
      using host_find_same [OF w v sp(2)] by blast+
  qed
  have "host_files w' k = Some bs" using fk get by (simp add: host_files_def)
  then show "host_files w' = (host_files w)(k \<mapsto> bs)" using other by (auto simp: fun_eq_iff)
  show "host_names w' j s" if "host_names w j s" "j \<noteq> k \<or> s = r"
    using that fk other [of j] by (cases "j = k") (simp_all add: host_names_def sp)
qed

lemma host_remove_ok:
  assumes w: "host_valid w" and n: "host_names w k r" and some: "host_files w k \<noteq> None"
  defines "w' \<equiv> w\<lparr>hw_files := om_del r (hw_files w)\<rparr>"
  shows "host_valid w'" "host_files w' = (host_files w)(k := None)" "host_names w j s \<Longrightarrow> host_names w' j s"
proof -
  have get: "om_get p (hw_files w') = (if p = r then None else om_get p (hw_files w))" for p
    by (simp add: w'_def om_get_del)
  have sp: "spells w' = spells w" "hw_dirs w' = hw_dirs w" by (simp_all add: w'_def)
  have r: "spells w k r" "host_find w k = Some r"
    using n some host_files_find(1) [OF w] by (auto simp: host_names_def)
  show v: "host_valid w'"
    unfolding host_valid_iff
  proof (intro conjI allI impI)
    fix p q
    assume pq: "om_get p (hw_files w') \<noteq> None" "om_get q (hw_files w') \<noteq> None" "p \<noteq> []" "q \<noteq> []" "butlast p = butlast q"
      "is_ok (parse_region_name (last p))" "parse_region_name (last p) = parse_region_name (last q)"
    have "om_get p (hw_files w) \<noteq> None" "om_get q (hw_files w) \<noteq> None"
      using pq(1,2) unfolding get by (simp_all split: if_splits)
    then show "p = q" using host_valid_unique [OF w] pq(3-7) by blast
  qed (use w in \<open>simp_all add: w'_def host_valid_def om_ok_del\<close>)
  have fk: "host_find w' k = None"
    unfolding host_find_None [OF v] sp
  proof (intro allI impI)
    fix p
    assume p: "spells w k p"
    show "om_get p (hw_files w') = None"
    proof (cases "om_get p (hw_files w) = None")
      case False
      then have "p = r" using host_find_Some [OF w, of k p] p r(2) by simp
      then show ?thesis by (simp add: get)
    qed (simp add: get)
  qed
  have other: "host_find w' j = host_find w j" "host_files w' j = host_files w j" if "j \<noteq> k" for j
  proof -
    have "om_get p (hw_files w') = om_get p (hw_files w)" if "spells w j p" for p
      using that r(1) spells_key [OF w, of j p k] \<open>j \<noteq> k\<close> by (auto simp: get)
    then show "host_find w' j = host_find w j" "host_files w' j = host_files w j"
      using host_find_same [OF w v sp(2)] by blast+
  qed
  have "host_files w' k = None" using fk by (simp add: host_files_def)
  then show "host_files w' = (host_files w)(k := None)" using other by (auto simp: fun_eq_iff)
  show "host_names w' j s" if "host_names w j s"
    using that fk other [of j] by (cases "j = k") (simp_all add: host_names_def sp)
qed

subsection \<open>The host tree keeps the promises\<close>

lemma host_derive_spells:
  assumes "om_get (key_dim k) (hw_dirs w) = Some dir"
  shows "spells w k (dir @ [kind_dir (key_kind k), region_file_name (key_rx k) (key_rz k)])"
  using assms by (simp add: spells_def butlast_append parse_region_file_name)

lemma host_sibling_spells:
  assumes "spells w j r" "key_dim j = key_dim k" "key_kind j = key_kind k"
  shows "spells w k (butlast r @ [region_file_name (key_rx k) (key_rz k)])"
  using assms by (auto simp: spells_def parse_region_file_name split: option.splits)

lemma host_dims_get: "d \<in> host_dims w \<longleftrightarrow> om_get d (hw_dirs w) \<noteq> None"
  by (force simp: host_dims_def om_get_def map_of_eq_None_iff)

lemma host_files_dim:
  assumes "host_valid w" "host_files w k = Some bs"
  shows "key_dim k \<in> host_dims w"
proof -
  obtain p where "host_find w k = Some p" using assms host_files_find(2) by blast
  then have "spells w k p" using host_find_Some [OF assms(1)] by blast
  then show ?thesis by (auto simp: host_dims_get spells_def split: option.splits)
qed

lemma host_files_finite:
  assumes "host_valid w"
  shows "finite (dom (host_files w))"
proof -
  have "inj_on (host_find w) (dom (host_files w))"
  proof (rule inj_onI)
    fix j k
    assume jk: "j \<in> dom (host_files w)" "k \<in> dom (host_files w)" "host_find w j = host_find w k"
    then obtain p where "host_find w j = Some p" using host_files_find(2) [OF assms] by blast
    moreover from this have "host_find w k = Some p" using jk(3) by simp
    ultimately have "spells w j p" "spells w k p" using host_find_Some [OF assms] by blast+
    then show "j = k" by (rule spells_key [OF assms])
  qed
  moreover have "host_find w ` dom (host_files w) \<subseteq> Some ` set (map fst (hw_files w))"
  proof
    fix x
    assume "x \<in> host_find w ` dom (host_files w)"
    then obtain k p where "x = Some p" "host_find w k = Some p" using host_files_find(2) [OF assms] by blast
    then show "x \<in> Some ` set (map fst (hw_files w))" using host_find_Some [OF assms, of k p] host_keys_mem [of p w] by blast
  qed
  then have "finite (host_find w ` dom (host_files w))" by (rule finite_subset) simp
  ultimately show ?thesis by (rule finite_imageD [rotated])
qed

lemma host_read_names:
  assumes "host_valid w" "host_names w k r" "host_files w k = Some bs"
  shows "host_read w r k = bindE (map_err (WeRegionFile r) (key_image k bs)) (\<lambda>img. Inr (image_answers r img))"
proof -
  have "om_get r (hw_files w) = Some bs" using host_names_file [OF assms(1,2)] assms(3) by simp
  moreover have "r \<noteq> []" "parse_region_name (last r) = Inr (key_rx k, key_rz k)"
    using assms(2) by (auto simp: host_names_def spells_def split: option.splits)
  ultimately show ?thesis by (simp add: host_read_def key_image_def Let_def)
qed

interpretation hw: world_tree host_port host_valid host_dims host_files host_names
proof
  fix w :: host_world and k :: region_key and j d kd r bs img e
  assume w: "host_valid w"
  show "finite (dom (host_files w))" by (rule host_files_finite [OF w])
  show "key_dim k \<in> host_dims w" if "host_files w k = Some bs" using host_files_dim [OF w that] .
  have "distinct (map fst (hw_dirs w))" using w by (simp add: host_valid_def om_ok_def strict_sorted_iff)
  then show "\<exists>ds. wp_get_dims host_port w = Inr ds \<and> distinct ds \<and> set ds = host_dims w"
    using w by (simp add: host_get_dims_def check_root_def host_valid_def host_dims_def)
  obtain rs where rs: "host_get_regions w d kd = Inr rs" "distinct (map fst rs)"
      "\<And>k r. (k, r) \<in> set rs \<longleftrightarrow> key_dim k = d \<and> key_kind k = kd \<and> host_find w k = Some r"
    using host_get_regions_spec [OF w] by blast
  have "k \<in> fst ` set rs \<longleftrightarrow> (\<exists>r. (k, r) \<in> set rs)" for k by force
  then have "k \<in> fst ` set rs \<longleftrightarrow> host_files w k \<noteq> None \<and> key_dim k = d \<and> key_kind k = kd" for k
    using rs(3) host_files_find(1) [OF w] by auto
  moreover have "host_names w k r" if "(k, r) \<in> set rs" for k r
    using that host_find_Some [OF w] by (simp add: rs(3) host_names_def)
  ultimately show "\<exists>rs. wp_get_regions host_port w d kd = Inr rs \<and> distinct (map fst rs)
         \<and> (\<forall>k. k \<in> fst ` set rs \<longleftrightarrow> host_files w k \<noteq> None \<and> key_dim k = d \<and> key_kind k = kd)
         \<and> (\<forall>(k, r) \<in> set rs. host_names w k r)"
    using rs(1,2) by auto
  show "\<exists>r. wp_derive_region host_port w k = Inr r \<and> (host_files w k = None \<longrightarrow> host_names w k r)"
    if "key_dim k \<in> host_dims w"
    using that host_derive_spells host_names_spelled [OF w] by (auto simp: host_dims_get host_derive_region_def)
  show "wp_derive_region host_port w k = Inl (WeUnknownRegionPath (key_dim k) (key_kind k) (key_rx k) (key_rz k))"
    if "key_dim k \<notin> host_dims w"
    using that by (simp add: host_dims_get host_derive_region_def unknown_region_def)
  show "\<exists>s. wp_sibling_region host_port w r k = Inr s \<and> (host_files w k = None \<longrightarrow> host_names w k s)"
    if "host_names w j r" "key_dim j = key_dim k" "key_kind j = key_kind k"
    using host_sibling_spells [OF _ that(2,3)] that(1) host_names_spelled [OF w]
    by (auto simp: host_sibling_region_def host_names_def)
  show "\<exists>p. wp_read host_port w r k = Inr (image_answers p img)"
    if "host_names w k r" "host_files w k = Some bs" "key_image k bs = Inr img"
    using host_read_names [OF w that(1,2)] that(3) by auto
  show "\<exists>p. wp_read host_port w r k = Inl (WeRegionFile p e)"
    if "host_names w k r" "host_files w k = Some bs" "key_image k bs = Inl e"
    using host_read_names [OF w that(1,2)] that(3) by auto
  show "wp_size host_port w r = Inr (of_nat (length bs))" if "host_names w k r" "host_files w k = Some bs"
    using host_names_file [OF w that(1), symmetric] that(2) by (simp add: host_size_def)
  show "wp_exists host_port w r \<longleftrightarrow> host_files w k \<noteq> None" if "host_names w k r"
    using host_names_file [OF w that] by (simp add: host_exists_def)
  show "\<exists>w'. wp_write host_port r bs w = Inr w' \<and> host_valid w' \<and> host_dims w' = host_dims w
         \<and> host_files w' = (host_files w)(k \<mapsto> bs) \<and> (\<forall>j s. host_names w j s \<longrightarrow> j \<noteq> k \<or> s = r \<longrightarrow> host_names w' j s)"
    if "host_names w k r"
    using host_write_ok [OF w that, where bs = bs] by (simp add: host_write_def)
  show "\<exists>w'. wp_remove host_port r w = Inr w' \<and> host_valid w' \<and> host_dims w' = host_dims w
         \<and> host_files w' = (host_files w)(k := None) \<and> (\<forall>j s. host_names w j s \<longrightarrow> host_names w' j s)"
    if "host_names w k r" "host_files w k \<noteq> None"
    using host_remove_ok [OF w that] host_names_file [OF w that(1)] that(2) by (simp add: host_remove_def)
qed

text \<open>The layouts of fresh output trees are valid worlds: no two dimensions share a directory.\<close>

lemma fresh_layouts_valid:
  "dirs \<in> {legacy_dirs root, dimensions_dirs root, bukkit_dirs root base}
    \<Longrightarrow> host_valid \<lparr>hw_root = root, hw_dirs = dirs, hw_root_is_dir = True, hw_files = []\<rparr>"
proof -
  have ne: "Dimension (i32_of a) \<noteq> Dimension (i32_of b)" if "in_i32 a" "in_i32 b" "a \<noteq> b" for a b
    using that by (metis dimension.inject sval_i32_of)
  have trio: "OVERWORLD \<noteq> NETHER" "OVERWORLD \<noteq> END_DIM" "NETHER \<noteq> END_DIM"
    unfolding OVERWORLD_def NETHER_def END_DIM_def by (rule ne; simp add: in_i32_def)+
  assume "dirs \<in> {legacy_dirs root, dimensions_dirs root, bukkit_dirs root base}"
  then obtain a b c where "dirs = om_of_list [(OVERWORLD, a), (NETHER, b), (END_DIM, c)]" "distinct [a, b, c]"
    by (auto simp: legacy_dirs_def dimensions_dirs_def bukkit_dirs_def Let_def lit_def of_char_def)
  moreover from this(1) have "om_ok dirs" by simp
  ultimately show ?thesis
    using trio by (auto simp: host_valid_def om_of_list_def)
qed

end
