(* ===== verification/Names.thy ===== *)
theory Names
  imports Coords
begin

section \<open>Ref names and scope names\<close>

text \<open>
  \<open>crates/util/src/name.rs\<close>, the name types of \<open>refs.rs\<close> and \<open>named_scope.rs\<close>, and their
  errors in \<open>error.rs\<close>. A raw name is checked rule by rule in the code's order; the payload of
  an error is the payload the code gives it. The two rule texts of \<open>BadPath\<close> are the two
  constructors of \<open>bad_path\<close>. \<open>valid_name\<close> states the grammar without an order of checks, and
  the lemmas show that the checks accept exactly that grammar.
\<close>

subsection \<open>The shared grammar\<close>

definition NAME_MAX_LEN :: nat where
  "NAME_MAX_LEN = 64"

datatype bad_path = EmptyComponent | DotSegment

datatype name_rule = NrEmpty | NrTooLong | NrBadChar uchar | NrBadPath bad_path

definition name_char :: "uchar \<Rightarrow> bool" where
  "name_char c \<longleftrightarrow> is_ascii_alphanumeric c \<or> c = 46 \<or> c = 95 \<or> c = 45 \<or> c = 47"

definition contains_double_slash :: "rstr \<Rightarrow> bool" where
  "contains_double_slash s \<longleftrightarrow> (\<exists>i \<in> set [0..<length s - 1]. s ! i = 47 \<and> s ! Suc i = 47)"

definition name_check :: "rstr \<Rightarrow> (name_rule, unit) result" where
  "name_check s =
     (if s = [] then Inl NrEmpty
      else if byte_len s > NAME_MAX_LEN then Inl NrTooLong
      else (case find (\<lambda>c. \<not> name_char c) s of
          Some c \<Rightarrow> Inl (NrBadChar c)
        | None \<Rightarrow>
            if hd s = 47 \<or> last s = 47 \<or> contains_double_slash s then Inl (NrBadPath EmptyComponent)
            else if (\<exists>p \<in> set (split_on 47 s). p = [46] \<or> p = [46, 46])
              then Inl (NrBadPath DotSegment)
            else Inr ()))"

definition valid_name :: "rstr \<Rightarrow> bool" where
  "valid_name s \<longleftrightarrow>
     0 < length s \<and> length s \<le> 64 \<and> (\<forall>c \<in> set s. name_char c)
     \<and> (\<forall>p \<in> set (split_on 47 s). p \<noteq> [] \<and> p \<noteq> [46] \<and> p \<noteq> [46, 46])"

lemma byte_len_Cons: "byte_len (c # s) = utf8_len c + byte_len s"
  by (simp add: byte_len_def)

lemma byte_len_ascii: "\<forall>c \<in> set s. c < 128 \<Longrightarrow> byte_len s = length s"
  by (induction s) (simp_all add: byte_len_def utf8_len_def)

lemma length_le_byte_len: "length s \<le> byte_len s"
proof (induction s)
  case (Cons c s)
  then show ?case by (auto simp: byte_len_Cons utf8_len_def)
qed (simp add: byte_len_def)

lemma name_char_ascii: "name_char c \<Longrightarrow> c < 128"
  by (auto simp: name_char_def is_ascii_alphanumeric_def is_ascii_digit_def
      is_ascii_alphabetic_def)

text \<open>An empty component is a slash at an end or next to another slash.\<close>

lemma double_slash_Cons:
  "contains_double_slash (c # s) \<longleftrightarrow> (c = 47 \<and> s \<noteq> [] \<and> hd s = 47) \<or> contains_double_slash s"
proof (cases s)
  case Nil
  then show ?thesis by (simp add: contains_double_slash_def)
next
  case (Cons d t)
  have "(\<exists>i<Suc n. P i) \<longleftrightarrow> P 0 \<or> (\<exists>i<n. P (Suc i))" for n and P :: "nat \<Rightarrow> bool"
    using less_Suc_eq_0_disj by auto
  then show ?thesis
    using Cons by (simp add: contains_double_slash_def Bex_def del: upt_Suc)
qed

lemma split_first_empty_iff: "hd (split_on 47 s) = [] \<longleftrightarrow> s = [] \<or> hd s = 47"
  by (cases s) (auto split: list.splits)

lemma split_rest_empty_iff:
  "[] \<in> set (tl (split_on 47 s)) \<longleftrightarrow> s \<noteq> [] \<and> (last s = 47 \<or> contains_double_slash s)"
proof (induction s)
  case Nil
  then show ?case by simp
next
  case (Cons c s)
  obtain p ps where sp: "split_on 47 s = p # ps"
    using split_on_not_Nil [of 47 s] by (cases "split_on 47 s") auto
  have first: "p = [] \<longleftrightarrow> s = [] \<or> hd s = 47"
    using split_first_empty_iff [of s] sp by simp
  have nil: "\<not> contains_double_slash []"
    by (simp add: contains_double_slash_def)
  show ?case
    using Cons.IH first nil by (cases "s = []") (auto simp: sp double_slash_Cons)
qed

lemma split_has_empty_iff:
  "[] \<in> set (split_on 47 s) \<longleftrightarrow>
     s = [] \<or> hd s = 47 \<or> last s = 47 \<or> contains_double_slash s"
proof -
  obtain p ps where sp: "split_on 47 s = p # ps"
    using split_on_not_Nil [of 47 s] by (cases "split_on 47 s") auto
  then show ?thesis
    using split_first_empty_iff [of s] split_rest_empty_iff [of s] by auto
qed

lemma name_check_ok_iff: "name_check s = Inr () \<longleftrightarrow> valid_name s"
proof (cases "s \<noteq> [] \<and> (\<forall>c \<in> set s. name_char c)")
  case True
  then have "\<forall>c \<in> set s. c < 128" using name_char_ascii by blast
  then have "byte_len s = length s" by (rule byte_len_ascii)
  moreover have "find (\<lambda>c. \<not> name_char c) s = None" using True by (simp add: find_None_iff)
  moreover have "[] \<in> set (split_on 47 s) \<longleftrightarrow> hd s = 47 \<or> last s = 47 \<or> contains_double_slash s"
    using True by (simp add: split_has_empty_iff)
  ultimately show ?thesis
    using True by (auto simp: name_check_def valid_name_def NAME_MAX_LEN_def)
next
  case False
  then have "s = [] \<or> find (\<lambda>c. \<not> name_char c) s \<noteq> None" by (auto simp: find_None_iff)
  with False show ?thesis by (auto simp: name_check_def valid_name_def split: option.splits)
qed

text \<open>
  The length rule is read first: an over-long name reports \<open>TooLong\<close> whatever characters it
  holds, and a bad character is the first one in the string.
\<close>

lemma name_check_too_long: "byte_len s > 64 \<Longrightarrow> name_check s = Inl NrTooLong"
  by (auto simp: name_check_def NAME_MAX_LEN_def byte_len_def)

lemma name_check_bad_char:
  "name_check s = Inl (NrBadChar c) \<Longrightarrow>
     \<exists>i < length s. s ! i = c \<and> \<not> name_char c \<and> (\<forall>j < i. name_char (s ! j))"
  by (auto simp: name_check_def find_Some_iff split: if_splits option.splits)

subsection \<open>Ref names\<close>

datatype ref_name = RefName (ref_str: rstr)

definition REF_RESERVED :: rstr where
  "REF_RESERVED = lit ''HEAD''"

definition DEFAULT_REF_NAME :: rstr where
  "DEFAULT_REF_NAME = lit ''main''"

datatype ref_name_error =
    RefEmpty | RefTooLong usize | RefBadChar uchar | RefBadPath bad_path | RefNumeric
  | RefReserved rstr

fun ref_rule_error :: "name_rule \<Rightarrow> ref_name_error" where
  "ref_rule_error NrEmpty = RefEmpty"
| "ref_rule_error NrTooLong = RefTooLong NAME_MAX_LEN"
| "ref_rule_error (NrBadChar c) = RefBadChar c"
| "ref_rule_error (NrBadPath r) = RefBadPath r"

definition ref_name_parse :: "rstr \<Rightarrow> (ref_name_error, ref_name) result" where
  "ref_name_parse s =
     bindE (map_err ref_rule_error (name_check s)) (\<lambda>_.
       if list_all is_ascii_digit s then Inl RefNumeric
       else if eq_ignore_ascii_case s REF_RESERVED then Inl (RefReserved REF_RESERVED)
       else Inr (RefName s))"

definition valid_ref_name :: "rstr \<Rightarrow> bool" where
  "valid_ref_name s \<longleftrightarrow>
     valid_name s \<and> (\<exists>c \<in> set s. \<not> is_ascii_digit c) \<and> to_ascii_lowercase s \<noteq> lit ''head''"

lemma lower_reserved: "to_ascii_lowercase REF_RESERVED = lit ''head''"
  by (simp add: REF_RESERVED_def to_ascii_lowercase_def lit_def ascii_lower_def of_char_def)

lemma ref_name_parse_ok_iff:
  "ref_name_parse s = Inr n \<longleftrightarrow> valid_ref_name s \<and> n = RefName s"
  by (auto simp: ref_name_parse_def valid_ref_name_def bindE_eq_Inr map_err_eq_Inr
      name_check_ok_iff list_all_iff eq_ignore_ascii_case_def lower_reserved split: if_splits)

instantiation ref_name :: linorder
begin

definition less_eq_ref_name :: "ref_name \<Rightarrow> ref_name \<Rightarrow> bool" where
  "less_eq_ref_name a b \<longleftrightarrow> ref_str a \<le> ref_str b"

definition less_ref_name :: "ref_name \<Rightarrow> ref_name \<Rightarrow> bool" where
  "less_ref_name a b \<longleftrightarrow> ref_str a < ref_str b"

instance
  by intro_classes (auto simp: less_eq_ref_name_def less_ref_name_def ref_name.expand)

end

record commit_ref =
  cr_name :: ref_name
  cr_commit :: "commit_id option"
  cr_active :: bool
  cr_created_at_ms :: u64

definition commit_ref_new ::
  "ref_name \<Rightarrow> commit_id option \<Rightarrow> bool \<Rightarrow> u64 \<Rightarrow> commit_ref" where
  "commit_ref_new n c a t =
     \<lparr>cr_name = n, cr_commit = c, cr_active = a, cr_created_at_ms = t\<rparr>"

definition is_unborn :: "commit_ref \<Rightarrow> bool" where
  "is_unborn r \<longleftrightarrow> cr_commit r = None"

subsection \<open>Scope names\<close>

datatype scope_name = ScopeName (scope_str: rstr)

datatype scope_name_error =
    ScEmpty | ScTooLong usize | ScBadChar uchar | ScBadPath bad_path

fun scope_rule_error :: "name_rule \<Rightarrow> scope_name_error" where
  "scope_rule_error NrEmpty = ScEmpty"
| "scope_rule_error NrTooLong = ScTooLong NAME_MAX_LEN"
| "scope_rule_error (NrBadChar c) = ScBadChar c"
| "scope_rule_error (NrBadPath r) = ScBadPath r"

definition scope_name_parse :: "rstr \<Rightarrow> (scope_name_error, scope_name) result" where
  "scope_name_parse s =
     bindE (map_err scope_rule_error (name_check s)) (\<lambda>_. Inr (ScopeName s))"

lemma scope_name_parse_ok_iff:
  "scope_name_parse s = Inr n \<longleftrightarrow> valid_name s \<and> n = ScopeName s"
  by (auto simp: scope_name_parse_def bindE_eq_Inr map_err_eq_Inr name_check_ok_iff)

end
