(* ===== verification/Scopes.thy ===== *)
theory Scopes
  imports Names
begin

section \<open>Rectangles, areas, scopes and named scopes\<close>

text \<open>
  \<open>crates/util/src/scope.rs\<close> and \<open>named_scope.rs\<close>. A scope is a filter over chunk
  coordinates and over region files. The lemmas relate the two filters: a region file that holds
  an in-scope chunk matches the scope, and a covered region file holds in-scope chunks only. The
  spans of absurd region coordinates clamp to the chunk range of an \<open>i32\<close>.
\<close>

subsection \<open>Rectangles\<close>

datatype rect = Rect (x0: i32) (z0: i32) (x1: i32) (z1: i32)

definition rect_key :: "rect \<Rightarrow> i32 \<times> i32 \<times> i32 \<times> i32" where
  "rect_key r = (x0 r, z0 r, x1 r, z1 r)"

lemma rect_key_inject [simp]: "rect_key a = rect_key b \<longleftrightarrow> a = b"
  by (cases a; cases b) (simp add: rect_key_def)

instantiation rect :: linorder
begin

definition less_eq_rect :: "rect \<Rightarrow> rect \<Rightarrow> bool" where
  "less_eq_rect a b \<longleftrightarrow> rect_key a \<le> rect_key b"

definition less_rect :: "rect \<Rightarrow> rect \<Rightarrow> bool" where
  "less_rect a b \<longleftrightarrow> rect_key a < rect_key b"

instance
proof
  fix a b :: rect
  show "a \<le> b \<Longrightarrow> b \<le> a \<Longrightarrow> a = b"
    using order_antisym [of "rect_key a" "rect_key b"] by (simp add: less_eq_rect_def)
  show "(a < b) = (a \<le> b \<and> \<not> b \<le> a)"
    by (simp only: less_eq_rect_def less_rect_def less_le_not_le)
qed (auto simp: less_eq_rect_def)

end

definition rect_new :: "i32 \<Rightarrow> i32 \<Rightarrow> i32 \<Rightarrow> i32 \<Rightarrow> rect" where
  "rect_new ax az bx bz =
     Rect (if ax \<le> bx then ax else bx) (if az \<le> bz then az else bz)
          (if ax \<le> bx then bx else ax) (if az \<le> bz then bz else az)"

text \<open>\<open>i32::MAX / 32\<close> and \<open>i32::MIN / 32\<close> truncate towards zero.\<close>

definition MAX_REGION :: i32 where
  "MAX_REGION = i32_of 67108863"

definition MIN_REGION :: i32 where
  "MIN_REGION = i32_of (- 67108864)"

definition clamp_region :: "i32 \<Rightarrow> i32" where
  "clamp_region r = (if r > MAX_REGION then MAX_REGION else if r < MIN_REGION then MIN_REGION else r)"

definition region_first :: "i32 \<Rightarrow> i32" where
  "region_first r = i32_of (sval (clamp_region r) * 32)"

definition region_last :: "i32 \<Rightarrow> i32" where
  "region_last r = i32_saturate (sval (region_first r) + 31)"

definition rect_region :: "i32 \<Rightarrow> i32 \<Rightarrow> rect" where
  "rect_region rx rz = Rect (region_first rx) (region_first rz) (region_last rx) (region_last rz)"

definition rect_contains :: "rect \<Rightarrow> i32 \<Rightarrow> i32 \<Rightarrow> bool" where
  "rect_contains r x z \<longleftrightarrow> x0 r \<le> x \<and> x \<le> x1 r \<and> z0 r \<le> z \<and> z \<le> z1 r"

definition rect_overlaps_region :: "rect \<Rightarrow> i32 \<Rightarrow> i32 \<Rightarrow> bool" where
  "rect_overlaps_region r rx rz \<longleftrightarrow>
     x0 r \<le> region_last rx \<and> region_first rx \<le> x1 r
     \<and> z0 r \<le> region_last rz \<and> region_first rz \<le> z1 r"

definition rect_covers_region :: "rect \<Rightarrow> i32 \<Rightarrow> i32 \<Rightarrow> bool" where
  "rect_covers_region r rx rz \<longleftrightarrow>
     x0 r \<le> region_first rx \<and> region_last rx \<le> x1 r
     \<and> z0 r \<le> region_first rz \<and> region_last rz \<le> z1 r"

lemma sval_clamp: "sval (clamp_region r) = max (- 67108864) (min 67108863 (sval r))"
  by (auto simp: clamp_region_def MAX_REGION_def MIN_REGION_def sval_i32_of in_i32_def
      less_i32_def)

lemma sval_region_first: "sval (region_first r) = 32 * max (- 67108864) (min 67108863 (sval r))"
  by (simp add: region_first_def sval_clamp sval_i32_of in_i32_def)

lemma sval_region_last:
  "sval (region_last r) = 32 * max (- 67108864) (min 67108863 (sval r)) + 31"
  by (simp add: region_last_def i32_saturate_def sval_region_first sval_i32_of in_i32_def)

lemmas region_spans = sval_region_first sval_region_last less_eq_i32_def

text \<open>No clamping happens for the region that owns a chunk.\<close>

lemma clamp_owner: "sval (clamp_region (div_euclid32 a)) = sval a div 32"
  using sval_bounds [of a] by (simp add: sval_clamp max_def min_def) linarith

lemma region_first_owner: "sval (region_first (div_euclid32 a)) = 32 * (sval a div 32)"
  using clamp_owner [of a] by (simp add: sval_region_first sval_clamp)

lemma region_last_owner: "sval (region_last (div_euclid32 a)) = 32 * (sval a div 32) + 31"
  using clamp_owner [of a] by (simp add: sval_region_last sval_clamp)

lemma owner_span:
  "region_first (div_euclid32 a) \<le> a" "a \<le> region_last (div_euclid32 a)"
  using region_first_owner [of a] region_last_owner [of a]
  by (simp_all add: less_eq_i32_def)

lemma rect_contains_overlaps:
  assumes "rect_contains r x z"
  shows "rect_overlaps_region r (div_euclid32 x) (div_euclid32 z)"
  using assms owner_span [of x] owner_span [of z]
  unfolding rect_contains_def rect_overlaps_region_def by (meson order_trans)

lemma rect_covers_contains:
  assumes "rect_covers_region r (div_euclid32 x) (div_euclid32 z)"
  shows "rect_contains r x z"
  using assms owner_span [of x] owner_span [of z]
  unfolding rect_contains_def rect_covers_region_def by (meson order_trans)

lemma rect_region_contains_iff:
  assumes "in_i32 (32 * sval rx)" "in_i32 (32 * sval rz)"
  shows "rect_contains (rect_region rx rz) x z \<longleftrightarrow> div_euclid32 x = rx \<and> div_euclid32 z = rz"
proof -
  have span: "region_first r \<le> a \<and> a \<le> region_last r \<longleftrightarrow> div_euclid32 a = r"
    if "in_i32 (32 * sval r)" for r a
  proof -
    have "max (- 67108864) (min 67108863 (sval r)) = sval r"
      using that by (simp add: in_i32_def)
    then have "region_first r \<le> a \<and> a \<le> region_last r \<longleftrightarrow> sval a div 32 = sval r"
      by (simp add: region_spans) linarith
    then show ?thesis by (simp flip: sval_inject)
  qed
  show ?thesis
    using span [OF assms(1), of x] span [OF assms(2), of z]
    by (auto simp: rect_contains_def rect_region_def)
qed

lemma rect_new_normal: "x0 (rect_new a b c d) \<le> x1 (rect_new a b c d)"
  "z0 (rect_new a b c d) \<le> z1 (rect_new a b c d)"
  by (auto simp: rect_new_def)

lemma rect_new_corners:
  "rect_contains (rect_new ax az bx bz) x z \<longleftrightarrow>
     min ax bx \<le> x \<and> x \<le> max ax bx \<and> min az bz \<le> z \<and> z \<le> max az bz"
  by (auto simp: rect_contains_def rect_new_def min_def max_def)

lemma rect_new_id: "x0 r \<le> x1 r \<Longrightarrow> z0 r \<le> z1 r \<Longrightarrow> rect_new (x0 r) (z0 r) (x1 r) (z1 r) = r"
  by (cases r) (simp add: rect_new_def)

subsection \<open>Areas\<close>

datatype area = AreaAll | AreaRect rect | AreaChunks "chunk_coord list"

fun area_contains :: "area \<Rightarrow> chunk_coord \<Rightarrow> bool" where
  "area_contains AreaAll c = True"
| "area_contains (AreaRect r) c = rect_contains r (coord_x c) (coord_z c)"
| "area_contains (AreaChunks cs) c = (c \<in> set cs)"

fun area_matches_region :: "area \<Rightarrow> region_key \<Rightarrow> bool" where
  "area_matches_region AreaAll k = True"
| "area_matches_region (AreaRect r) k = rect_overlaps_region r (key_rx k) (key_rz k)"
| "area_matches_region (AreaChunks cs) k =
     (\<exists>c \<in> set cs. region_x c = key_rx k \<and> region_z c = key_rz k)"

fun area_covers_region :: "area \<Rightarrow> region_key \<Rightarrow> bool" where
  "area_covers_region AreaAll k = True"
| "area_covers_region (AreaRect r) k = rect_covers_region r (key_rx k) (key_rz k)"
| "area_covers_region (AreaChunks cs) k = False"

lemma area_contains_matches: "area_contains a c \<Longrightarrow> area_matches_region a (region_key_of c)"
  by (cases a) (auto simp: region_x_def region_z_def rect_contains_overlaps)

lemma area_covers_contains: "area_covers_region a (region_key_of c) \<Longrightarrow> area_contains a c"
  by (cases a) (auto simp: region_x_def region_z_def rect_covers_contains)

subsection \<open>Scopes\<close>

datatype scope =
    World
  | Kinds "region_kind list"
  | Select "region_kind list" "(dimension \<times> area) list"

definition all_kinds :: "region_kind list" where
  "all_kinds = all_region_kinds"

definition scope_dimension :: "dimension \<Rightarrow> scope" where
  "scope_dimension d = Select all_kinds [(d, AreaAll)]"

fun scope_contains :: "scope \<Rightarrow> chunk_coord \<Rightarrow> bool" where
  "scope_contains World c = True"
| "scope_contains (Kinds ks) c = (coord_kind c \<in> set ks)"
| "scope_contains (Select ks as) c =
     (coord_kind c \<in> set ks \<and> (\<exists>(d, a) \<in> set as. d = coord_dim c \<and> area_contains a c))"

fun scope_matches_region :: "scope \<Rightarrow> region_key \<Rightarrow> bool" where
  "scope_matches_region World k = True"
| "scope_matches_region (Kinds ks) k = (key_kind k \<in> set ks)"
| "scope_matches_region (Select ks as) k =
     (key_kind k \<in> set ks \<and> (\<exists>(d, a) \<in> set as. d = key_dim k \<and> area_matches_region a k))"

fun scope_covers_region :: "scope \<Rightarrow> region_key \<Rightarrow> bool" where
  "scope_covers_region World k = True"
| "scope_covers_region (Kinds ks) k = (key_kind k \<in> set ks)"
| "scope_covers_region (Select ks as) k =
     (key_kind k \<in> set ks \<and> (\<exists>(d, a) \<in> set as. d = key_dim k \<and> area_covers_region a k))"

lemma scope_contains_matches:
  "scope_contains s c \<Longrightarrow> scope_matches_region s (region_key_of c)"
  by (cases s) (auto intro!: bexI area_contains_matches)

lemma scope_covers_contains:
  "scope_covers_region s (region_key_of c) \<Longrightarrow> scope_contains s c"
  by (cases s) (auto intro!: bexI area_covers_contains)

lemma all_kinds_complete [simp]: "k \<in> set all_kinds"
  by (cases k) (simp_all add: all_kinds_def all_region_kinds_def)

subsection \<open>Named scopes\<close>

datatype named_scope_error = NoAreas

record named_scope =
  ns_name :: scope_name
  ns_areas :: "(dimension \<times> rect) list"
  ns_created_at_ms :: u64

definition named_scope_new ::
  "scope_name \<Rightarrow> (dimension \<times> rect) list \<Rightarrow> u64 \<Rightarrow> (named_scope_error, named_scope) result" where
  "named_scope_new n as t =
     (if as = [] then Inl NoAreas
      else
        let normal = map (\<lambda>(d, r). (d, rect_new (x0 r) (z0 r) (x1 r) (z1 r))) as
        in Inr \<lparr>ns_name = n, ns_areas = remdups_adj (sort normal), ns_created_at_ms = t\<rparr>)"

definition to_scope :: "named_scope \<Rightarrow> scope" where
  "to_scope s = Select all_kinds (map (\<lambda>(d, r). (d, AreaRect r)) (ns_areas s))"

text \<open>The one spelling of a selection: sorted, without duplicates, minima first, not empty.\<close>

definition normal_areas :: "(dimension \<times> rect) list \<Rightarrow> bool" where
  "normal_areas as \<longleftrightarrow>
     as \<noteq> [] \<and> sorted as \<and> distinct as \<and> (\<forall>(d, r) \<in> set as. x0 r \<le> x1 r \<and> z0 r \<le> z1 r)"

lemma sorted_remdups_adj_strict:
  "sorted xs \<Longrightarrow> sorted (remdups_adj xs) \<and> distinct (remdups_adj xs)"
proof (induction xs rule: remdups_adj.induct)
  case (3 x y xs)
  then show ?case by (cases "x = y") auto
qed simp_all

lemma sort_eq_Nil_iff [simp]: "sort xs = [] \<longleftrightarrow> xs = []"
  by (metis length_sort length_0_conv)

lemma named_scope_new_ok:
  "as \<noteq> [] \<Longrightarrow> \<exists>s. named_scope_new n as t = Inr s \<and> normal_areas (ns_areas s)
     \<and> ns_name s = n \<and> ns_created_at_ms s = t
     \<and> set (ns_areas s) = (\<lambda>(d, r). (d, rect_new (x0 r) (z0 r) (x1 r) (z1 r))) ` set as"
  by (auto simp: named_scope_new_def normal_areas_def sorted_remdups_adj_strict Let_def
      rect_new_normal)

lemma named_scope_new_normal:
  assumes "normal_areas as"
  shows "named_scope_new n as t = Inr \<lparr>ns_name = n, ns_areas = as, ns_created_at_ms = t\<rparr>"
proof -
  have "map (\<lambda>(d, r). (d, rect_new (x0 r) (z0 r) (x1 r) (z1 r))) as = as"
    using assms by (intro map_idI) (auto simp: normal_areas_def rect_new_id)
  moreover have "sort as = as" using assms by (simp add: normal_areas_def sorted_sort_id)
  moreover have "remdups_adj as = as"
    using assms by (simp add: normal_areas_def remdups_adj_distinct)
  ultimately show ?thesis using assms by (simp add: named_scope_new_def normal_areas_def)
qed

lemma to_scope_contains:
  "scope_contains (to_scope s) c \<longleftrightarrow>
     (\<exists>(d, r) \<in> set (ns_areas s). d = coord_dim c \<and> rect_contains r (coord_x c) (coord_z c))"
proof -
  have "(\<exists>(d, a) \<in> set (map (\<lambda>(d, r). (d, AreaRect r)) as). d = coord_dim c \<and> area_contains a c)
      \<longleftrightarrow> (\<exists>(d, r) \<in> set as. d = coord_dim c \<and> rect_contains r (coord_x c) (coord_z c))" for as
    by (induction as) auto
  then show ?thesis by (simp add: to_scope_def del: set_map)
qed

end
