(* ===== verification/Storage_Api.thy ===== *)
theory Storage_Api
  imports Scopes
begin

section \<open>Storage errors and backend selection\<close>

text \<open>
  \<open>crates/storage/src/api.rs\<close>. \<open>storage_error\<close> has the code's variants; a backend failure
  carries which database constraint failed, because constraint failures are the only engine
  errors the model can produce (I/O and locking failures of the engine are not modelled).
  \<open>parse_backend_url\<close> splits a store URL; the lemmas say which URLs are accepted and that a
  rebuilt URL parses back.
\<close>

datatype db_failure =
    PrimaryKeyViolation | ForeignKeyViolation | UniqueViolation | CheckViolation | RowNotFound

datatype storage_error =
    StIo rstr
  | BlobMissing rstr
  | UnsupportedBackend rstr
  | EmptyStorePath
  | StoreMissing rstr
  | InvalidHashLength usize
  | InvalidHistoryValue string int
  | InvalidRefName rstr
  | InvalidScopeName rstr
  | EmptyScope rstr
  | UnknownRef rstr
  | ActiveRefProtected rstr
  | NoActiveRef
  | NotContinuing commit_id
  | StUnknownRegionKind i32
  | InvalidTimestamp u64
  | ClockBeforeEpoch
  | ClockOutOfRange
  | InvalidSize u64
  | InvalidRetirement commit_id commit_id
  | UnrelatedRetirement commit_id commit_id
  | StUnknownCommit commit_id
  | UnsupportedSchema int int
  | Backend string db_failure

datatype backend_kind = Sqlite | Mysql | Postgres

text \<open>\<open>str::split_once("://")\<close>: the text before and after the first occurrence.\<close>

fun split_once_url :: "rstr \<Rightarrow> (rstr \<times> rstr) option" where
  "split_once_url s =
     (case s of
        [] \<Rightarrow> None
      | c # cs \<Rightarrow>
          if take 3 s = [58, 47, 47] then Some ([], drop 3 s)
          else map_option (\<lambda>(a, b). (c # a, b)) (split_once_url cs))"

declare split_once_url.simps [simp del]

definition parse_backend_url :: "rstr \<Rightarrow> (storage_error, backend_kind \<times> rstr) result" where
  "parse_backend_url url =
     (let selected =
        (case split_once_url url of
           Some (scheme, rest) \<Rightarrow>
             if scheme = lit ''sqlite'' then Some (Sqlite, rest)
             else if scheme = lit ''mysql'' then Some (Mysql, rest)
             else if scheme = lit ''postgres'' then Some (Postgres, rest)
             else None
         | None \<Rightarrow> Some (Sqlite, url))
      in case selected of
           Some (k, rest) \<Rightarrow> if rest = [] then Inl EmptyStorePath else Inr (k, rest)
         | None \<Rightarrow> Inl (UnsupportedBackend url))"

fun scheme_of :: "backend_kind \<Rightarrow> rstr" where
  "scheme_of Sqlite = lit ''sqlite''"
| "scheme_of Mysql = lit ''mysql''"
| "scheme_of Postgres = lit ''postgres''"

definition backend_url :: "backend_kind \<Rightarrow> rstr \<Rightarrow> rstr" where
  "backend_url k rest = scheme_of k @ [58, 47, 47] @ rest"

lemma split_once_url_no_colon:
  "58 \<notin> set a \<Longrightarrow> split_once_url (a @ [58, 47, 47] @ rest) = Some (a, rest)"
proof (induction a)
  case Nil
  then show ?case by (subst split_once_url.simps) simp
next
  case (Cons c a)
  then show ?case by (subst split_once_url.simps) simp
qed

lemma split_once_url_join: "split_once_url s = Some (a, b) \<Longrightarrow> s = a @ [58, 47, 47] @ b"
proof (induction s arbitrary: a b rule: split_once_url.induct)
  case (1 s)
  show ?case
  proof (cases s)
    case Nil
    with 1 show ?thesis by (simp add: split_once_url.simps)
  next
    case (Cons c cs)
    show ?thesis
    proof (cases "take 3 s = [58, 47, 47]")
      case True
      then have "split_once_url s = Some ([], drop 3 s)"
        using Cons by (subst split_once_url.simps) simp
      then show ?thesis using "1.prems" True append_take_drop_id [of 3 s] by simp
    next
      case False
      then have "split_once_url s = map_option (\<lambda>(a, b). (c # a, b)) (split_once_url cs)"
        using Cons False by (subst split_once_url.simps) auto
      then obtain a' where "split_once_url cs = Some (a', b)" "a = c # a'"
        using "1.prems" by (cases "split_once_url cs") auto
      then show ?thesis using "1.IH" [OF Cons False] Cons by simp
    qed
  qed
qed

lemma scheme_no_colon: "58 \<notin> set (scheme_of k)"
  by (cases k) (simp_all add: lit_def of_char_def)

lemma parse_backend_url_scheme:
  "rest \<noteq> [] \<Longrightarrow> parse_backend_url (backend_url k rest) = Inr (k, rest)"
  unfolding parse_backend_url_def backend_url_def
  by (subst split_once_url_no_colon [OF scheme_no_colon])
    (cases k; simp add: lit_def of_char_def)

lemma parse_backend_url_not_empty: "parse_backend_url url = Inr (k, rest) \<Longrightarrow> rest \<noteq> []"
  by (auto simp: parse_backend_url_def Let_def split: option.splits prod.splits if_splits)

lemma parse_backend_url_ok:
  assumes "parse_backend_url url = Inr (k, rest)"
  shows "url = backend_url k rest \<or> (k = Sqlite \<and> url = rest \<and> split_once_url url = None)"
proof (cases "split_once_url url")
  case None
  then show ?thesis using assms by (auto simp: parse_backend_url_def split: if_splits)
next
  case (Some ab)
  then obtain a b where ab: "split_once_url url = Some (a, b)" by (cases ab) auto
  then have "url = a @ [58, 47, 47] @ b" by (rule split_once_url_join)
  moreover have "a = scheme_of k \<and> b = rest"
    using assms ab by (auto simp: parse_backend_url_def split: if_splits)
  ultimately show ?thesis by (simp add: backend_url_def)
qed

subsection \<open>The store handle\<close>

record ('m, 'b) store =
  store_meta :: 'm
  store_blob :: 'b

definition store_new :: "'m \<Rightarrow> 'b \<Rightarrow> ('m, 'b) store" where
  "store_new m b = \<lparr>store_meta = m, store_blob = b\<rparr>"

definition blob_and_meta :: "('m, 'b) store \<Rightarrow> 'b \<times> 'm" where
  "blob_and_meta s = (store_blob s, store_meta s)"

end
