(* ===== verification/Commit_Hash.thy ===== *)
theory Commit_Hash
  imports Coords
begin

section \<open>Content-addressed commit identifiers\<close>

text \<open>
  \<open>crates/core/src/commit.rs\<close>. \<open>commit_preimage\<close> is the byte string the code builds, and
  \<open>commit_hash\<close> is its digest. The digest function (Blake3, a crate that is not part of the
  repository) is the parameter \<open>H\<close>. The encoding itself is proved injective on the logical
  content, so two different commits collide only where \<open>H\<close> itself collides.
\<close>

text \<open>\<open>b"sekai-commit-v1\0"\<close>.\<close>

definition DOMAIN :: bytes where
  "DOMAIN = [115, 101, 107, 97, 105, 45, 99, 111, 109, 109, 105, 116, 45, 118, 49, 0]"

definition count_bytes :: "usize \<Rightarrow> bytes" where
  "count_bytes n = be_bytes 8 (min n 18446744073709551615)"

definition optional_blob_bytes :: "chunk_hash option \<Rightarrow> bytes" where
  "optional_blob_bytes b = (case b of Some h \<Rightarrow> 1 # hash_bytes_list h | None \<Rightarrow> [0])"

definition i32_be :: "i32 \<Rightarrow> bytes" where
  "i32_be a = be_bytes 4 (unat (raw32 a))"

definition u64_be :: "u64 \<Rightarrow> bytes" where
  "u64_be t = be_bytes 8 (unat t)"

definition entry_bytes :: "commit_entry \<Rightarrow> bytes" where
  "entry_bytes e =
     (let c = entry_coord e in
        i32_be (raw (coord_dim c)) @ [region_kind_raw (coord_kind c)]
          @ i32_be (coord_x c) @ i32_be (coord_z c) @ optional_blob_bytes (entry_blob e))"

definition sort_dedup :: "'a::linorder list \<Rightarrow> 'a list" where
  "sort_dedup xs = remdups_adj (sort xs)"

definition commit_preimage :: "commit_id list \<Rightarrow> u64 \<Rightarrow> commit_entry list \<Rightarrow> bytes" where
  "commit_preimage parents created_at_ms entries =
     (let sorted_parents = sort_dedup parents; sorted_entries = sort_dedup entries in
        DOMAIN @ count_bytes (length sorted_parents)
          @ concat (map hash_bytes_list sorted_parents)
          @ u64_be created_at_ms
          @ count_bytes (length sorted_entries)
          @ concat (map entry_bytes sorted_entries))"

definition commit_hash ::
  "(bytes \<Rightarrow> hash32) \<Rightarrow> commit_id list \<Rightarrow> u64 \<Rightarrow> commit_entry list \<Rightarrow> commit_id" where
  "commit_hash H parents created_at_ms entries = H (commit_preimage parents created_at_ms entries)"

subsection \<open>The canonical order\<close>

lemma set_sort_dedup [simp]: "set (sort_dedup xs) = set xs"
  by (simp add: sort_dedup_def)

lemma sorted_distinct_remdups_adj: "sorted xs \<Longrightarrow> sorted (remdups_adj xs) \<and> distinct (remdups_adj xs)"
proof (induction xs rule: remdups_adj.induct)
  case (3 x y xs)
  then show ?case by (cases "x = y") auto
qed simp_all

lemma sort_dedup_canonical: "sort_dedup xs = sorted_list_of_set (set xs)"
proof (rule sorted_distinct_set_unique)
  show "sorted (sort_dedup xs)" "distinct (sort_dedup xs)"
    using sorted_distinct_remdups_adj [of "sort xs"] by (simp_all add: sort_dedup_def)
qed simp_all

lemma sort_dedup_eq_iff: "sort_dedup xs = sort_dedup ys \<longleftrightarrow> set xs = set ys"
  by (metis set_sort_dedup sort_dedup_canonical)

lemma commit_preimage_cong:
  "set p = set p' \<Longrightarrow> set e = set e' \<Longrightarrow> commit_preimage p t e = commit_preimage p' t e'"
  by (simp add: commit_preimage_def sort_dedup_canonical)

subsection \<open>The encoding is injective\<close>

lemma length_count_bytes [simp]: "length (count_bytes n) = 8"
  by (simp add: count_bytes_def)

lemma count_bytes_inject:
  assumes "m < 2 ^ 64" "n < 2 ^ 64" "count_bytes m = count_bytes n"
  shows "m = n"
proof -
  have "min m 18446744073709551615 = m" "min n 18446744073709551615 = n"
    using assms(1,2) by simp_all
  then show ?thesis
    using assms be_bytes_inject [of m 8 n] by (simp add: count_bytes_def)
qed

lemma length_i32_be [simp]: "length (i32_be a) = 4"
  by (simp add: i32_be_def)

lemma i32_be_inject [simp]: "i32_be a = i32_be b \<longleftrightarrow> a = b"
proof -
  obtain v w where "a = I32 v" "b = I32 w" by (cases a; cases b)
  then show ?thesis
    using be_bytes_inject [of "unat v" 4 "unat w"] unsigned_less [of v] unsigned_less [of w]
    by (simp add: i32_be_def word_unat_eq_iff)
qed

lemma length_u64_be [simp]: "length (u64_be t) = 8"
  by (simp add: u64_be_def)

lemma u64_be_inject [simp]: "u64_be s = u64_be t \<longleftrightarrow> s = t"
  using be_bytes_inject [of "unat s" 8 "unat t"] unsigned_less [of s] unsigned_less [of t]
  by (simp add: u64_be_def word_unat_eq_iff)

lemma concat_fixed_inject:
  assumes "\<And>x. length (f x) = w" "inj f" "length xs = length ys"
    and "concat (map f xs) @ r = concat (map f ys) @ s"
  shows "xs = ys \<and> r = s"
  using assms(3,4)
proof (induction xs ys rule: list_induct2)
  case Nil
  then show ?case by simp
next
  case (Cons x xs y ys)
  have "f x @ (concat (map f xs) @ r) = f y @ (concat (map f ys) @ s)"
    using Cons.prems by simp
  then have "f x = f y \<and> concat (map f xs) @ r = concat (map f ys) @ s"
    by (simp only: append_eq_append_conv assms(1) simp_thms)
  with Cons.IH assms(2) show ?case by (simp add: inj_eq)
qed

lemma optional_blob_bytes_prefix:
  assumes "optional_blob_bytes a @ r = optional_blob_bytes b @ s"
  shows "a = b \<and> r = s"
proof (cases a; cases b)
  fix h k
  assume ab: "a = Some h" "b = Some k"
  then have "hash_bytes_list h @ r = hash_bytes_list k @ s"
    using assms by (simp add: optional_blob_bytes_def)
  then have "hash_bytes_list h = hash_bytes_list k \<and> r = s"
    by (simp only: append_eq_append_conv length_hash_bytes_list simp_thms)
  with ab show ?thesis by simp
qed (use assms in \<open>simp_all add: optional_blob_bytes_def\<close>)

lemma entry_bytes_prefix:
  assumes "entry_bytes a @ r = entry_bytes b @ s"
  shows "a = b \<and> r = s"
proof -
  obtain ca cb where a: "a = CommitEntry ca (entry_blob a)" "ca = entry_coord a"
    and b: "b = CommitEntry cb (entry_blob b)" "cb = entry_coord b"
    by (cases a; cases b) simp
  have "i32_be (raw (coord_dim ca)) @ [region_kind_raw (coord_kind ca)] @ i32_be (coord_x ca)
        @ i32_be (coord_z ca) @ (optional_blob_bytes (entry_blob a) @ r)
      = i32_be (raw (coord_dim cb)) @ [region_kind_raw (coord_kind cb)] @ i32_be (coord_x cb)
        @ i32_be (coord_z cb) @ (optional_blob_bytes (entry_blob b) @ s)"
    using assms a(2) b(2) by (simp add: entry_bytes_def Let_def)
  then have "raw (coord_dim ca) = raw (coord_dim cb) \<and> coord_kind ca = coord_kind cb
      \<and> coord_x ca = coord_x cb \<and> coord_z ca = coord_z cb
      \<and> optional_blob_bytes (entry_blob a) @ r = optional_blob_bytes (entry_blob b) @ s"
    by (simp only: append_eq_append_conv length_i32_be list.size simp_thms i32_be_inject
        list.inject region_kind_raw_inject)
  then show ?thesis
    using optional_blob_bytes_prefix a b
    by (metis chunk_coord.expand dimension.expand)
qed

lemma concat_entries_inject:
  assumes "length xs = length ys"
    and "concat (map entry_bytes xs) = concat (map entry_bytes ys)"
  shows "xs = ys"
  using assms
proof (induction xs ys rule: list_induct2)
  case (Cons x xs y ys)
  then show ?case
    using entry_bytes_prefix [of x "concat (map entry_bytes xs)" y "concat (map entry_bytes ys)"]
    by simp
qed simp

lemma length_sort_dedup_le: "length (sort_dedup xs) \<le> length xs"
  using remdups_adj_length [of "sort xs"] by (simp add: sort_dedup_def)

lemma commit_preimage_inject:
  assumes small: "length p < 2 ^ 64" "length p' < 2 ^ 64" "length e < 2 ^ 64" "length e' < 2 ^ 64"
    and eq: "commit_preimage p t e = commit_preimage p' t' e'"
  shows "set p = set p' \<and> t = t' \<and> set e = set e'"
proof -
  let ?P = "sort_dedup p" and ?P' = "sort_dedup p'" and ?E = "sort_dedup e" and ?E' = "sort_dedup e'"
  have len: "length ?P < 2 ^ 64" "length ?P' < 2 ^ 64" "length ?E < 2 ^ 64" "length ?E' < 2 ^ 64"
    using small length_sort_dedup_le le_less_trans by blast+
  let ?r = "\<lambda>u E. u64_be u @ (count_bytes (length E) @ concat (map entry_bytes E))"
  have "count_bytes (length ?P) @ (concat (map hash_bytes_list ?P) @ ?r t ?E)
      = count_bytes (length ?P') @ (concat (map hash_bytes_list ?P') @ ?r t' ?E')"
    using eq by (simp add: commit_preimage_def Let_def)
  then have 1: "count_bytes (length ?P) = count_bytes (length ?P')"
    and 2: "concat (map hash_bytes_list ?P) @ ?r t ?E = concat (map hash_bytes_list ?P') @ ?r t' ?E'"
    by (simp_all only: append_eq_append_conv length_count_bytes simp_thms)
  from 1 have "length ?P = length ?P'" by (rule count_bytes_inject [OF len(1,2)])
  then have P: "?P = ?P'" and rest: "?r t ?E = ?r t' ?E'"
    using concat_fixed_inject [OF length_hash_bytes_list _ _ 2] by (simp_all add: inj_def)
  from rest have t: "t = t'"
    and E: "count_bytes (length ?E) @ concat (map entry_bytes ?E)
      = count_bytes (length ?E') @ concat (map entry_bytes ?E')"
    by (simp_all only: append_eq_append_conv length_u64_be simp_thms u64_be_inject)
  from E have 3: "count_bytes (length ?E) = count_bytes (length ?E')"
    and 4: "concat (map entry_bytes ?E) = concat (map entry_bytes ?E')"
    by (simp_all only: append_eq_append_conv length_count_bytes simp_thms)
  have "length ?E = length ?E'" using count_bytes_inject [OF len(3,4) 3] .
  then have "?E = ?E'" using 4 by (rule concat_entries_inject)
  with P t show ?thesis by (simp add: sort_dedup_eq_iff)
qed

end
