(* ===== verification/Meta_Tables.thy ===== *)
theory Meta_Tables
  imports Storage_Api Commit_Hash
begin

section \<open>The tables of the metadata database\<close>

text \<open>
  \<open>crates/storage-sqlite/schema/sqlite.sql\<close> and the row codecs of \<open>meta.rs\<close>. A table is the list
  of its rows; a row holds the raw column values of the schema (an \<open>INTEGER\<close> is an \<open>int\<close>, a
  \<open>BLOB\<close> a byte list, a \<open>TEXT\<close> a string), so a stored value that the domain types cannot
  represent is a value of the model and every decoder has its error branch. The surrogate key
  of \<open>scope_areas\<close> is left out: nothing reads it. \<open>wf_*\<close> say which rows decode; the lemmas show
  that what the store writes is well-formed and decodes to what was written.
\<close>

subsection \<open>Rows\<close>

record commit_row =
  cm_seq :: int
  cm_id :: bytes
  cm_created_at_ms :: int

record history_row =
  hr_commit :: bytes
  hr_seq :: int
  hr_dim :: int
  hr_kind :: int
  hr_cx :: int
  hr_cz :: int
  hr_blob :: "bytes option"

record ref_row =
  rr_name :: rstr
  rr_commit :: "bytes option"
  rr_active :: int
  rr_created_at_ms :: int

record scope_row =
  sr_id :: int
  sr_name :: rstr
  sr_created_at_ms :: int

record area_row =
  ar_scope :: int
  ar_dim :: int
  ar_x0 :: int
  ar_z0 :: int
  ar_x1 :: int
  ar_z1 :: int

text \<open>
  \<open>commits_autoinc\<close> and \<open>scopes_autoinc\<close> are the \<open>AUTOINCREMENT\<close> high-water marks: the largest
  key ever given out, so a deleted row's key is never reused.
\<close>

record meta_db =
  t_commits :: "commit_row list"
  t_parents :: "(bytes \<times> bytes) list"
  t_history :: "history_row list"
  t_refs :: "ref_row list"
  t_scopes :: "scope_row list"
  t_areas :: "area_row list"
  commits_autoinc :: int
  scopes_autoinc :: int
  user_version :: int

type_synonym coord_cols = "int \<times> int \<times> int \<times> int"

definition hr_coord :: "history_row \<Rightarrow> coord_cols" where
  "hr_coord r = (hr_dim r, hr_kind r, hr_cx r, hr_cz r)"

definition coord_cols :: "chunk_coord \<Rightarrow> coord_cols" where
  "coord_cols c =
     (sval (raw (coord_dim c)), uint (region_kind_raw (coord_kind c)), sval (coord_x c),
      sval (coord_z c))"

lemma coord_cols_inject [simp]: "coord_cols a = coord_cols b \<longleftrightarrow> a = b"
  by (cases a; cases b) (auto simp: coord_cols_def dimension.expand simp flip: word_uint_eq_iff)

subsection \<open>Column conversions\<close>

definition i64_to_i32 :: "int \<Rightarrow> string \<Rightarrow> (storage_error, i32) result" where
  "i64_to_i32 v col = ok_or (InvalidHistoryValue col v) (i32_try v)"

definition i64_to_u64 :: "int \<Rightarrow> string \<Rightarrow> (storage_error, u64) result" where
  "i64_to_u64 v col = (if 0 \<le> v then Inr (word_of_int v) else Inl (InvalidHistoryValue col v))"

definition hash32_of :: "bytes \<Rightarrow> (storage_error, hash32) result" where
  "hash32_of bs = (if length bs = 32 then Inr (hash_of_bytes bs) else Inl (InvalidHashLength (length bs)))"

definition commit_id_from_blob :: "bytes \<Rightarrow> (storage_error, commit_id) result" where
  "commit_id_from_blob bs = hash32_of bs"

definition commit_param :: "commit_id \<Rightarrow> bytes" where
  "commit_param i = hash_bytes_list i"

definition kind_col :: "int \<Rightarrow> string \<Rightarrow> (storage_error, region_kind) result" where
  "kind_col v col =
     bindE (i64_to_i32 v col) (\<lambda>k. map_err (\<lambda>_. StUnknownRegionKind k) (region_kind_new k))"

definition hash_col :: "bytes option \<Rightarrow> (storage_error, chunk_hash option) result" where
  "hash_col v =
     (case v of None \<Rightarrow> Inr None | Some bs \<Rightarrow> bindE (hash32_of bs) (\<lambda>h. Inr (Some h)))"

definition millis_col :: "int \<Rightarrow> (storage_error, u64) result" where
  "millis_col v = i64_to_u64 v ''created_at_ms''"

definition millis_param :: "u64 \<Rightarrow> (storage_error, int) result" where
  "millis_param ms =
     (if uint ms \<le> 9223372036854775807 then Inr (uint ms) else Inl (InvalidTimestamp ms))"

text \<open>
  The clock of \<open>now_ms\<close>: a reading before the epoch is \<open>None\<close>, otherwise the whole number of
  milliseconds, which the code narrows from \<open>u128\<close> to \<open>u64\<close> and then to \<open>i64\<close>.
\<close>

definition now_ms :: "nat option \<Rightarrow> (storage_error, int) result" where
  "now_ms clock =
     bindE (ok_or ClockBeforeEpoch clock) (\<lambda>millis.
       if millis > 18446744073709551615 then Inl ClockOutOfRange
       else if millis > 9223372036854775807 then Inl (InvalidTimestamp (of_nat millis))
       else Inr (int millis))"

subsection \<open>Row codecs\<close>

definition decode_history :: "history_row \<Rightarrow> (storage_error, history_entry) result" where
  "decode_history r =
     bindE (i64_to_i32 (hr_dim r) ''dim'') (\<lambda>d.
     bindE (kind_col (hr_kind r) ''kind'') (\<lambda>k.
     bindE (i64_to_i32 (hr_cx r) ''cx'') (\<lambda>x.
     bindE (i64_to_i32 (hr_cz r) ''cz'') (\<lambda>z.
     bindE (hash_col (hr_blob r)) (\<lambda>b.
     bindE (commit_id_from_blob (hr_commit r)) (\<lambda>i.
       Inr (history_entry_new (ChunkCoord (Dimension d) k x z) i b)))))))"

text \<open>The columns \<open>INSERT_CHUNK_SQL\<close> binds.\<close>

definition history_row_of :: "commit_id \<Rightarrow> int \<Rightarrow> chunk_coord \<Rightarrow> chunk_hash option \<Rightarrow> history_row" where
  "history_row_of i seq c b =
     \<lparr>hr_commit = commit_param i, hr_seq = seq, hr_dim = sval (raw (coord_dim c)),
      hr_kind = uint (region_kind_raw (coord_kind c)), hr_cx = sval (coord_x c),
      hr_cz = sval (coord_z c), hr_blob = map_option hash_bytes_list b\<rparr>"

definition decode_ref :: "ref_row \<Rightarrow> (storage_error, commit_ref) result" where
  "decode_ref r =
     bindE (map_err (\<lambda>_. InvalidRefName (rr_name r)) (ref_name_parse (rr_name r))) (\<lambda>n.
     bindE (case rr_commit r of None \<Rightarrow> Inr None
            | Some bs \<Rightarrow> bindE (commit_id_from_blob bs) (\<lambda>i. Inr (Some i))) (\<lambda>c.
     bindE (if rr_active r = 0 then Inr False
            else if rr_active r = 1 then Inr True
            else Inl (InvalidHistoryValue ''active'' (rr_active r))) (\<lambda>a.
     bindE (millis_col (rr_created_at_ms r)) (\<lambda>t.
       Inr (commit_ref_new n c a t)))))"

definition decode_commit :: "commit_row \<Rightarrow> commit_id list \<Rightarrow> (storage_error, commit) result" where
  "decode_commit r parents =
     bindE (commit_id_from_blob (cm_id r)) (\<lambda>i.
     bindE (millis_col (cm_created_at_ms r)) (\<lambda>t.
       Inr (commit_new i t parents)))"

subsection \<open>Rows that decode\<close>

definition wf_blob32 :: "bytes option \<Rightarrow> bool" where
  "wf_blob32 b \<longleftrightarrow> (case b of None \<Rightarrow> True | Some bs \<Rightarrow> length bs = 32)"

definition wf_history_row :: "history_row \<Rightarrow> bool" where
  "wf_history_row r \<longleftrightarrow>
     in_i32 (hr_dim r) \<and> hr_kind r \<in> {0, 1, 2} \<and> in_i32 (hr_cx r) \<and> in_i32 (hr_cz r)
     \<and> wf_blob32 (hr_blob r) \<and> length (hr_commit r) = 32"

definition wf_commit_row :: "commit_row \<Rightarrow> bool" where
  "wf_commit_row r \<longleftrightarrow> length (cm_id r) = 32 \<and> 0 \<le> cm_created_at_ms r"

definition wf_ref_row :: "ref_row \<Rightarrow> bool" where
  "wf_ref_row r \<longleftrightarrow>
     valid_ref_name (rr_name r) \<and> wf_blob32 (rr_commit r) \<and> rr_active r \<in> {0, 1}
     \<and> 0 \<le> rr_created_at_ms r"

lemma commit_param_inject [simp]: "commit_param a = commit_param b \<longleftrightarrow> a = b"
  by (simp add: commit_param_def)

lemma length_commit_param [simp]: "length (commit_param i) = 32"
  by (simp add: commit_param_def)

lemma commit_id_from_blob_param [simp]: "commit_id_from_blob (commit_param i) = Inr i"
  by (simp add: commit_id_from_blob_def hash32_of_def commit_param_def)

lemma commit_id_from_blob_wf:
  "length bs = 32 \<Longrightarrow> commit_id_from_blob bs = Inr (hash_of_bytes bs)"
  by (simp add: commit_id_from_blob_def hash32_of_def)

lemma commit_param_of_bytes: "length bs = 32 \<Longrightarrow> commit_param (hash_of_bytes bs) = bs"
  by (simp add: commit_param_def hash_bytes_list_of_bytes)

lemma commit_id_from_blob_ok: "commit_id_from_blob bs = Inr i \<longleftrightarrow> bs = commit_param i"
  by (auto simp: commit_id_from_blob_def hash32_of_def commit_param_def hash_bytes_list_of_bytes)

lemma region_kind_new_code: "region_kind_new (i32_of (uint (region_kind_raw k))) = Inr k"
  by (rule region_kind_new_raw)

lemma kind_col_raw [simp]: "kind_col (uint (region_kind_raw k)) col = Inr k"
  by (cases k) (simp_all add: kind_col_def i64_to_i32_def i32_try_def in_i32_def
      region_kind_new_def sval_i32_of)

lemma kind_col_ok: "kind_col v col = Inr k \<longleftrightarrow> v = uint (region_kind_raw k)"
proof
  assume "kind_col v col = Inr k"
  then obtain a where "i32_try v = Some a" "region_kind_new a = Inr k"
    by (auto simp: kind_col_def i64_to_i32_def bindE_eq_Inr ok_or_eq_Inr map_err_eq_Inr)
  then show "v = uint (region_kind_raw k)"
    by (simp add: i32_try_eq_Some region_kind_new_eq_Inr)
qed simp

lemma i64_to_i32_sval [simp]: "i64_to_i32 (sval a) col = Inr a"
  by (simp add: i64_to_i32_def)

lemma i64_to_i32_ok: "i64_to_i32 v col = Inr a \<longleftrightarrow> v = sval a"
  by (simp add: i64_to_i32_def ok_or_eq_Inr i32_try_eq_Some)

lemma hash_col_bytes [simp]: "hash_col (map_option hash_bytes_list b) = Inr b"
  by (cases b) (simp_all add: hash_col_def hash32_of_def)

lemma hash_col_ok: "hash_col v = Inr b \<longleftrightarrow> v = map_option hash_bytes_list b"
  by (cases v; cases b)
    (auto simp: hash_col_def hash32_of_def bindE_eq_Inr hash_bytes_list_of_bytes)

lemma decode_history_row_of [simp]:
  "decode_history (history_row_of i seq c b) = Inr (history_entry_new c i b)"
  by (cases c) (simp add: decode_history_def history_row_of_def)

lemma decode_history_ok:
  "decode_history r = Inr e \<longleftrightarrow>
     hr_coord r = coord_cols (he_coord e) \<and> hr_commit r = commit_param (he_commit e)
     \<and> hr_blob r = map_option hash_bytes_list (he_blob e)"
  (is "?L \<longleftrightarrow> ?R")
proof
  assume ?L
  then show ?R
    by (auto simp: decode_history_def bindE_eq_Inr i64_to_i32_ok kind_col_ok hash_col_ok
        commit_id_from_blob_ok hr_coord_def coord_cols_def history_entry_new_def)
next
  assume ?R
  then show ?L
    by (simp add: decode_history_def hr_coord_def coord_cols_def history_entry_new_def)
qed

lemma decode_history_wf:
  assumes "wf_history_row r"
  shows "\<exists>e. decode_history r = Inr e"
proof -
  have "\<exists>k. hr_kind r = uint (region_kind_raw k)"
    using assms by (auto simp: wf_history_row_def intro: exI [of _ Region] exI [of _ Entities]
        exI [of _ Poi])
  then obtain k where k: "hr_kind r = uint (region_kind_raw k)" ..
  have i32: "\<exists>a. v = sval a" if "in_i32 v" for v
    using sval_i32_of [OF that] by (intro exI [of _ "i32_of v"]) simp
  obtain d x z where ints: "hr_dim r = sval d" "hr_cx r = sval x" "hr_cz r = sval z"
    using assms i32 unfolding wf_history_row_def by blast
  have "\<exists>b. hr_blob r = map_option hash_bytes_list b"
  proof (cases "hr_blob r")
    case None
    then show ?thesis by (intro exI [of _ None]) simp
  next
    case (Some bs)
    then show ?thesis using assms
      by (intro exI [of _ "Some (hash_of_bytes bs)"])
        (simp add: wf_history_row_def wf_blob32_def hash_bytes_list_of_bytes)
  qed
  then obtain b where b: "hr_blob r = map_option hash_bytes_list b" ..
  have "length (hr_commit r) = 32" using assms by (simp add: wf_history_row_def)
  then show ?thesis by (simp add: decode_history_def k ints b commit_id_from_blob_wf)
qed

lemma decode_history_eq_wf: "(\<exists>e. decode_history r = Inr e) \<longleftrightarrow> wf_history_row r"
proof
  assume "\<exists>e. decode_history r = Inr e"
  then obtain e :: history_entry where "hr_coord r = coord_cols (he_coord e)" "hr_commit r = commit_param (he_commit e)"
    "hr_blob r = map_option hash_bytes_list (he_blob e)"
    unfolding decode_history_ok by blast
  then show "wf_history_row r"
    by (cases "coord_kind (he_coord e)"; cases "he_blob e")
      (simp_all add: wf_history_row_def hr_coord_def coord_cols_def wf_blob32_def)
qed (rule decode_history_wf)

lemma wf_history_row_of [simp]: "wf_history_row (history_row_of i s c b)"
  using decode_history_eq_wf decode_history_row_of by blast

lemma hr_of_sel [simp]:
  "hr_commit (history_row_of i s c b) = commit_param i"
  "hr_seq (history_row_of i s c b) = s"
  "hr_coord (history_row_of i s c b) = coord_cols c"
  "hr_blob (history_row_of i s c b) = map_option hash_bytes_list b"
  by (simp_all add: history_row_of_def hr_coord_def coord_cols_def)

lemma millis_col_nonneg: "0 \<le> v \<Longrightarrow> millis_col v = Inr (word_of_int v)"
  by (simp add: millis_col_def i64_to_u64_def)

lemma decode_commit_wf:
  "wf_commit_row r \<Longrightarrow> decode_commit r ps
     = Inr (commit_new (hash_of_bytes (cm_id r)) (word_of_int (cm_created_at_ms r)) ps)"
  by (simp add: decode_commit_def wf_commit_row_def commit_id_from_blob_wf millis_col_nonneg)

lemma millis_param_ok: "millis_param t = Inr v \<Longrightarrow> 0 \<le> v \<and> word_of_int v = t"
  by (auto simp: millis_param_def split: if_splits)

lemma decode_ref_wf:
  assumes "wf_ref_row r"
  shows "decode_ref r = Inr (commit_ref_new (RefName (rr_name r))
     (map_option hash_of_bytes (rr_commit r)) (rr_active r = 1) (word_of_int (rr_created_at_ms r)))"
proof -
  have "ref_name_parse (rr_name r) = Inr (RefName (rr_name r))"
    using assms by (simp add: wf_ref_row_def ref_name_parse_ok_iff)
  moreover have "(case rr_commit r of None \<Rightarrow> Inr None
      | Some bs \<Rightarrow> bindE (commit_id_from_blob bs) (\<lambda>i. Inr (Some i)))
      = Inr (map_option hash_of_bytes (rr_commit r))"
    using assms by (cases "rr_commit r") (simp_all add: wf_ref_row_def wf_blob32_def commit_id_from_blob_wf)
  ultimately show ?thesis
    using assms unfolding decode_ref_def wf_ref_row_def by (auto simp: millis_col_nonneg)
qed

end
