(* ===== verification/History_Graph.thy ===== *)
theory History_Graph
  imports Sekai_Prelude
begin

section \<open>Walking parent links\<close>

text \<open>
  The history graph is a list of edges from a child to a parent. \<open>cte_walk\<close> evaluates the
  recursive common table expression of \<open>ancestor_cte!\<close> in \<open>meta.rs\<close>: a queue of rows to expand
  and the rows already produced, each produced once (\<open>UNION\<close>). It is shown to produce exactly the
  commits reachable through parent links, and contracting a node is shown to keep reachability
  between the others.
\<close>

definition parents_of :: "('a \<times> 'a) list \<Rightarrow> 'a \<Rightarrow> 'a list" where
  "parents_of es x = map snd (filter (\<lambda>e. fst e = x) es)"

lemma set_parents_of [simp]: "set (parents_of es x) = {y. (x, y) \<in> set es}"
  by (force simp: parents_of_def)

definition graph_nodes :: "('a \<times> 'a) list \<Rightarrow> 'a set" where
  "graph_nodes es = fst ` set es \<union> snd ` set es"

lemma finite_graph_nodes [simp]: "finite (graph_nodes es)"
  by (simp add: graph_nodes_def)

lemma parents_of_outside: "x \<notin> graph_nodes es \<Longrightarrow> parents_of es x = []"
  by (force simp: parents_of_def graph_nodes_def filter_empty_conv)

function cte_walk :: "('a \<times> 'a) list \<Rightarrow> 'a list \<Rightarrow> 'a list \<Rightarrow> 'a list" where
  "cte_walk es [] seen = seen"
| "cte_walk es (x # queue) seen =
     (if x \<in> set seen then cte_walk es queue seen
      else cte_walk es (queue @ parents_of es x) (x # seen))"
  by pat_completeness auto
termination
proof (relation "inv_image (less_than <*lex*> less_than)
      (\<lambda>(es, queue, seen). (card (graph_nodes es - set seen), length queue))", goal_cases)
  case 1
  then show ?case by (intro wf_inv_image wf_lex_prod) simp_all
next
  case (2 es x queue seen)
  then show ?case by simp
next
  case (3 es x queue seen)
  show ?case
  proof (cases "x \<in> graph_nodes es")
    case True
    then have "graph_nodes es - insert x (set seen) \<subset> graph_nodes es - set seen"
      using 3 by auto
    then have "card (graph_nodes es - insert x (set seen)) < card (graph_nodes es - set seen)"
      by (rule psubset_card_mono [rotated]) simp
    then show ?thesis by simp
  next
    case False
    then have "graph_nodes es - insert x (set seen) = graph_nodes es - set seen" by auto
    with False show ?thesis by (simp add: parents_of_outside)
  qed
qed

definition ancestors :: "('a \<times> 'a) list \<Rightarrow> 'a \<Rightarrow> 'a list" where
  "ancestors es x = cte_walk es [x] []"

lemma cte_walk_sound:
  "set (cte_walk es queue seen) \<subseteq> set seen \<union> (set es)\<^sup>* `` set queue"
proof (induction es queue seen rule: cte_walk.induct)
  case (2 es x queue seen)
  have step: "(set es)\<^sup>* `` set (parents_of es x) \<subseteq> (set es)\<^sup>* `` {x}"
    by (auto intro: converse_rtrancl_into_rtrancl)
  have split: "(set es)\<^sup>* `` set (x # queue) = (set es)\<^sup>* `` {x} \<union> (set es)\<^sup>* `` set queue"
    by auto
  have app: "(set es)\<^sup>* `` set (queue @ parents_of es x)
      = (set es)\<^sup>* `` set queue \<union> (set es)\<^sup>* `` set (parents_of es x)"
    by (simp only: set_append Image_Un)
  have self: "x \<in> (set es)\<^sup>* `` {x}" by simp
  show ?case
  proof (cases "x \<in> set seen")
    case True
    then show ?thesis using "2.IH"(1) unfolding split by (simp only: cte_walk.simps if_True) blast
  next
    case False
    then show ?thesis using "2.IH"(2) step self unfolding split
      by (simp only: cte_walk.simps if_False app list.set) blast
  qed
qed simp

lemma cte_walk_seen: "set seen \<subseteq> set (cte_walk es queue seen)"
  by (induction es queue seen rule: cte_walk.induct) auto

lemma cte_walk_queue: "set queue \<subseteq> set (cte_walk es queue seen)"
proof (induction es queue seen rule: cte_walk.induct)
  case (2 es x queue seen)
  then show ?case
    using cte_walk_seen [of seen es queue] cte_walk_seen [of "x # seen" es "queue @ parents_of es x"]
    by auto
qed simp

lemma cte_walk_closed:
  "set es `` set seen \<subseteq> set seen \<union> set queue \<Longrightarrow>
     set es `` set (cte_walk es queue seen) \<subseteq> set (cte_walk es queue seen)"
proof (induction es queue seen rule: cte_walk.induct)
  case (2 es x queue seen)
  then show ?case by (cases "x \<in> set seen") (simp_all, blast+)
qed simp

lemma cte_walk_distinct: "distinct seen \<Longrightarrow> distinct (cte_walk es queue seen)"
  by (induction es queue seen rule: cte_walk.induct) auto

lemma set_ancestors: "set (ancestors es x) = {y. (x, y) \<in> (set es)\<^sup>*}"
proof
  show "set (ancestors es x) \<subseteq> {y. (x, y) \<in> (set es)\<^sup>*}"
    using cte_walk_sound [of es "[x]" "[]"] by (auto simp: ancestors_def)
  show "{y. (x, y) \<in> (set es)\<^sup>*} \<subseteq> set (ancestors es x)"
  proof
    fix y
    assume "y \<in> {y. (x, y) \<in> (set es)\<^sup>*}"
    then have "(x, y) \<in> (set es)\<^sup>*" by simp
    then show "y \<in> set (ancestors es x)"
    proof induction
      case base
      then show ?case using cte_walk_queue [of "[x]" es "[]"] by (simp add: ancestors_def)
    next
      case (step y z)
      then show ?case using cte_walk_closed [of es "[]" "[x]"] by (auto simp: ancestors_def)
    qed
  qed
qed

lemma ancestors_refl [simp]: "x \<in> set (ancestors es x)"
  by (simp add: set_ancestors)

lemma ancestors_trans:
  "y \<in> set (ancestors es x) \<Longrightarrow> z \<in> set (ancestors es y) \<Longrightarrow> z \<in> set (ancestors es x)"
  by (auto simp: set_ancestors intro: rtrancl_trans)

lemma distinct_ancestors: "distinct (ancestors es x)"
  by (simp add: ancestors_def cte_walk_distinct)

subsection \<open>Contracting a node\<close>

definition contract :: "('a \<times> 'a) set \<Rightarrow> 'a \<Rightarrow> ('a \<times> 'a) set" where
  "contract E f = {(c, p). c \<noteq> f \<and> p \<noteq> f \<and> ((c, p) \<in> E \<or> ((c, f) \<in> E \<and> (f, p) \<in> E))}"

lemma contract_sound: "(x, y) \<in> (contract E f)\<^sup>* \<Longrightarrow> (x, y) \<in> E\<^sup>*"
proof (induction rule: rtrancl_induct)
  case (step y z)
  then have "(y, z) \<in> E\<^sup>*" by (auto simp: contract_def intro: rtrancl_into_rtrancl)
  with step.IH show ?case by (rule rtrancl_trans)
qed simp

lemma contract_complete_aux:
  assumes "(x, y) \<in> E\<^sup>*" "x \<noteq> f"
  shows "(y \<noteq> f \<longrightarrow> (x, y) \<in> (contract E f)\<^sup>*)
    \<and> (y = f \<longrightarrow> (\<exists>c. c \<noteq> f \<and> (x, c) \<in> (contract E f)\<^sup>* \<and> (c, f) \<in> E))"
  using assms
proof (induction rule: rtrancl_induct)
  case base
  then show ?case by simp
next
  case (step y z)
  show ?case
  proof (cases "y = f")
    case True
    then obtain c where c: "c \<noteq> f" "(x, c) \<in> (contract E f)\<^sup>*" "(c, f) \<in> E"
      using step by blast
    show ?thesis
    proof (cases "z = f")
      case False
      then have "(c, z) \<in> contract E f" using c True step.hyps by (simp add: contract_def)
      with c(2) False show ?thesis by (simp add: rtrancl_into_rtrancl)
    qed (use c in blast)
  next
    case False
    then have xy: "(x, y) \<in> (contract E f)\<^sup>*" using step by blast
    show ?thesis
    proof (cases "z = f")
      case False
      then have "(y, z) \<in> contract E f"
        using \<open>y \<noteq> f\<close> step.hyps by (simp add: contract_def)
      with xy False show ?thesis by (simp add: rtrancl_into_rtrancl)
    qed (use xy False step.hyps in blast)
  qed
qed

lemma contract_reach:
  "x \<noteq> f \<Longrightarrow> y \<noteq> f \<Longrightarrow> (x, y) \<in> (contract E f)\<^sup>* \<longleftrightarrow> (x, y) \<in> E\<^sup>*"
  using contract_complete_aux [of x y E f] contract_sound [of x y E f] by blast

lemma contract_reach_avoids: "(x, y) \<in> (contract E f)\<^sup>* \<Longrightarrow> x \<noteq> f \<Longrightarrow> y \<noteq> f"
  by (induction rule: rtrancl_induct) (auto simp: contract_def)

subsection \<open>Linear histories\<close>

text \<open>Where every commit continues at most one other, the ancestors of a commit form a chain.\<close>

lemma single_valued_chain:
  assumes sv: "single_valued E" and xy: "(x, y) \<in> E\<^sup>*" and xz: "(x, z) \<in> E\<^sup>*"
  shows "(y, z) \<in> E\<^sup>* \<or> (z, y) \<in> E\<^sup>*"
  using single_valued_confluent [OF sv xy xz] .

lemma contract_single_valued: "single_valued E \<Longrightarrow> single_valued (contract E f)"
  by (auto simp: single_valued_def contract_def)

end
