(* ===== verification/Meta_Commits.thy ===== *)
theory Meta_Commits
  imports Loops Meta_Tables History_Graph
begin

section \<open>Commits and chunk rows\<close>

text \<open>
  The commit half of \<open>crates/storage-sqlite/src/meta.rs\<close>: recording commits and rows, and the
  reads over the history graph. An operation that writes returns its answer and the database after
  the transaction commits; on \<open>Inl\<close> the transaction was rolled back, so the caller keeps the
  database it had. A query over the ancestors of a commit evaluates \<open>ancestors\<close>, the walk of
  \<open>ancestor_cte!\<close>. The digest behind \<open>commit_hash\<close> (blake3) is the parameter \<open>H\<close>.
\<close>

definition db_err :: "db_failure \<Rightarrow> storage_error" where
  "db_err f = Backend ''sqlite'' f"

subsection \<open>Opening\<close>

definition SCHEMA_VERSION :: int where
  "SCHEMA_VERSION = 15"

text \<open>A database file that does not exist yet: no table holds a row and \<open>user_version\<close> is 0.\<close>

definition blank_db :: meta_db where
  "blank_db =
     \<lparr>t_commits = [], t_parents = [], t_history = [], t_refs = [], t_scopes = [], t_areas = [],
      commits_autoinc = 0, scopes_autoinc = 0, user_version = 0\<rparr>"

definition meta_open :: "nat option \<Rightarrow> meta_db \<Rightarrow> (storage_error, meta_db) result" where
  "meta_open clock db =
     bindE (if user_version db = 0
            then bindE (now_ms clock) (\<lambda>t.
              Inr (db\<lparr>t_refs := t_refs db
                        @ [\<lparr>rr_name = DEFAULT_REF_NAME, rr_commit = None, rr_active = 1,
                            rr_created_at_ms = t\<rparr>],
                      user_version := SCHEMA_VERSION\<rparr>))
            else Inr db) (\<lambda>db'.
       if user_version db' \<noteq> SCHEMA_VERSION
       then Inl (UnsupportedSchema (user_version db') SCHEMA_VERSION)
       else Inr db')"

subsection \<open>Recording\<close>

definition find_commit :: "meta_db \<Rightarrow> bytes \<Rightarrow> commit_row option" where
  "find_commit db b = find (\<lambda>r. cm_id r = b) (t_commits db)"

definition commit_ids :: "meta_db \<Rightarrow> bytes set" where
  "commit_ids db = cm_id ` set (t_commits db)"

definition select_seq :: "meta_db \<Rightarrow> bytes \<Rightarrow> int option" where
  "select_seq db b = map_option cm_seq (find_commit db b)"

text \<open>\<open>INSERT OR IGNORE\<close> into \<open>commits\<close>: the new database and whether a row was added.\<close>

definition insert_commit_row :: "bytes \<Rightarrow> int \<Rightarrow> meta_db \<Rightarrow> bool \<times> meta_db" where
  "insert_commit_row b t db =
     (if find_commit db b \<noteq> None then (False, db)
      else (True, db\<lparr>t_commits := t_commits db
                        @ [\<lparr>cm_seq = commits_autoinc db + 1, cm_id = b, cm_created_at_ms = t\<rparr>],
                     commits_autoinc := commits_autoinc db + 1\<rparr>))"

text \<open>
  \<open>INSERT OR IGNORE\<close> into \<open>commit_parents\<close>. The conflict clause covers the primary key; a row that
  names no commit still violates a foreign key.
\<close>

definition insert_edge :: "bytes \<Rightarrow> bytes \<Rightarrow> meta_db \<Rightarrow> (storage_error, meta_db) result" where
  "insert_edge c p db =
     (if (c, p) \<in> set (t_parents db) then Inr db
      else if find_commit db c = None \<or> find_commit db p = None
      then Inl (db_err ForeignKeyViolation)
      else Inr (db\<lparr>t_parents := t_parents db @ [(c, p)]\<rparr>))"

definition insert_commit ::
  "commit_id \<Rightarrow> u64 \<Rightarrow> commit_id list \<Rightarrow> meta_db \<Rightarrow> (storage_error, (int \<times> bool) \<times> meta_db) result"
  where
  "insert_commit i t parents db =
     bindE (if parents = [] then Inr []
            else mapE commit_id_from_blob
                   (filter (\<lambda>b. b \<in> set (map commit_param parents)) (map cm_id (t_commits db))))
       (\<lambda>existing.
     bindE (case find (\<lambda>p. p \<notin> set existing) parents of
              Some p \<Rightarrow> Inl (StUnknownCommit p)
            | None \<Rightarrow> Inr ()) (\<lambda>_.
     bindE (millis_param t) (\<lambda>ms.
       case insert_commit_row (commit_param i) ms db of (inserted, db1) \<Rightarrow>
     bindE (ok_or (db_err RowNotFound) (select_seq db1 (commit_param i))) (\<lambda>sq.
     bindE (foldE (\<lambda>p. insert_edge (commit_param i) (commit_param p)) parents db1) (\<lambda>db2.
       Inr ((sq, inserted), db2))))))"

definition create_commit ::
  "(bytes \<Rightarrow> hash32) \<Rightarrow> u64 \<Rightarrow> commit_id list \<Rightarrow> meta_db \<Rightarrow> (storage_error, commit_id \<times> meta_db) result"
  where
  "create_commit H t parents db =
     (let i = commit_hash H parents t [] in
      bindE (insert_commit i t parents db) (\<lambda>(_, db'). Inr (i, db')))"

text \<open>The plain \<open>INSERT\<close> of \<open>INSERT_CHUNK_SQL\<close>: its foreign key and its primary key.\<close>

definition insert_history_row :: "history_row \<Rightarrow> meta_db \<Rightarrow> (storage_error, meta_db) result" where
  "insert_history_row r db =
     (if \<exists>q \<in> set (t_history db). hr_commit q = hr_commit r \<and> hr_coord q = hr_coord r
      then Inl (db_err PrimaryKeyViolation)
      else if find_commit db (hr_commit r) = None then Inl (db_err ForeignKeyViolation)
      else Inr (db\<lparr>t_history := t_history db @ [r]\<rparr>))"

definition record_chunk ::
  "commit_id \<Rightarrow> chunk_coord \<Rightarrow> chunk_hash option \<Rightarrow> meta_db \<Rightarrow> (storage_error, meta_db) result" where
  "record_chunk i c b db =
     bindE (ok_or (StUnknownCommit i) (select_seq db (commit_param i))) (\<lambda>sq.
       insert_history_row (history_row_of i sq c b) db)"

definition is_active_row :: "ref_row \<Rightarrow> bool" where
  "is_active_row r \<longleftrightarrow> rr_active r = 1"

definition apply_commit_incremental ::
  "(bytes \<Rightarrow> hash32) \<Rightarrow> u64 \<Rightarrow> commit_id list \<Rightarrow> commit_entry list \<Rightarrow> meta_db
     \<Rightarrow> (storage_error, apply_outcome \<times> meta_db) result" where
  "apply_commit_incremental H t parents entries db =
     (let commit = commit_hash H parents t entries in
      bindE (ok_or NoActiveRef (find is_active_row (t_refs db))) (\<lambda>active.
      bindE (case rr_commit active of
               None \<Rightarrow> Inr ()
             | Some target \<Rightarrow>
                 bindE (commit_id_from_blob target) (\<lambda>base.
                   if base \<in> set parents then Inr () else Inl (NotContinuing base))) (\<lambda>_.
      bindE (insert_commit commit t parents db) (\<lambda>((sq, inserted), db1).
      bindE (if inserted
             then foldE (\<lambda>e. insert_history_row
                               (history_row_of commit sq (entry_coord e) (entry_blob e))) entries db1
             else Inr db1) (\<lambda>db2.
        let db3 = db2\<lparr>t_refs := map (\<lambda>r. if is_active_row r
                                         then r\<lparr>rr_commit := Some (commit_param commit)\<rparr> else r)
                                  (t_refs db2)\<rparr>;
            moved = length (filter is_active_row (t_refs db2))
        in if moved = 0 then Inl NoActiveRef else Inr (\<lparr>ao_id = commit\<rparr>, db3))))))"

definition apply_commit ::
  "(bytes \<Rightarrow> hash32) \<Rightarrow> u64 \<Rightarrow> commit_id list \<Rightarrow> commit_entry list \<Rightarrow> meta_db
     \<Rightarrow> (storage_error, commit_id \<times> meta_db) result" where
  "apply_commit H t parents entries db =
     bindE (apply_commit_incremental H t parents entries db) (\<lambda>(out, db'). Inr (ao_id out, db'))"

subsection \<open>Reading the graph\<close>

definition commit_parents :: "meta_db \<Rightarrow> commit_id \<Rightarrow> (storage_error, commit_id list) result" where
  "commit_parents db i =
     mapE commit_id_from_blob (sort (parents_of (t_parents db) (commit_param i)))"

definition parent_map ::
  "meta_db \<Rightarrow> (storage_error, commit_id \<Rightarrow> commit_id list option) result" where
  "parent_map db =
     foldE (\<lambda>(cb, pb) m.
       bindE (commit_id_from_blob cb) (\<lambda>c.
       bindE (commit_id_from_blob pb) (\<lambda>p.
         Inr (m(c := Some ((case m c of None \<Rightarrow> [] | Some ps \<Rightarrow> ps) @ [p]))))))
       (sort (t_parents db)) (\<lambda>_. None)"

definition lookup_commit :: "meta_db \<Rightarrow> commit_id \<Rightarrow> (storage_error, commit option) result" where
  "lookup_commit db i =
     (case find_commit db (commit_param i) of
        None \<Rightarrow> Inr None
      | Some r \<Rightarrow>
          bindE (commit_parents db i) (\<lambda>ps. bindE (decode_commit r ps) (\<lambda>c. Inr (Some c))))"

definition commits_by_seq :: "meta_db \<Rightarrow> commit_row list" where
  "commits_by_seq db = sort_key cm_seq (t_commits db)"

definition latest_commit :: "meta_db \<Rightarrow> (storage_error, commit option) result" where
  "latest_commit db =
     (case rev (commits_by_seq db) of
        [] \<Rightarrow> Inr None
      | r # _ \<Rightarrow>
          bindE (commit_id_from_blob (cm_id r)) (\<lambda>i.
          bindE (commit_parents db i) (\<lambda>ps.
          bindE (decode_commit r ps) (\<lambda>c. Inr (Some c)))))"

definition visit_commits :: "meta_db \<Rightarrow> (storage_error, commit) visit" where
  "visit_commits db =
     (let rows = commits_by_seq db in
      case parent_map db of
        Inl e \<Rightarrow> failed_visit e
      | Inr parents \<Rightarrow>
          (case mapE (\<lambda>r. commit_id_from_blob (cm_id r)) rows of
             Inl e \<Rightarrow> failed_visit e
           | Inr ids \<Rightarrow>
               decode_visit (\<lambda>(r, i). decode_commit r (case parents i of None \<Rightarrow> [] | Some ps \<Rightarrow> ps))
                 (zip rows ids)))"

subsection \<open>Reading chunk rows\<close>

text \<open>\<open>ORDER BY seq DESC LIMIT 1\<close>: a row of the largest sequence.\<close>

definition newest :: "history_row list \<Rightarrow> history_row option" where
  "newest rs =
     (case rs of
        [] \<Rightarrow> None
      | r # rs' \<Rightarrow> Some (foldl (\<lambda>b q. if hr_seq b < hr_seq q then q else b) r rs'))"

definition ancestor_rows :: "meta_db \<Rightarrow> bytes \<Rightarrow> history_row list" where
  "ancestor_rows db b =
     filter (\<lambda>r. hr_commit r \<in> set (ancestors (t_parents db) b)) (t_history db)"

definition lookup_row :: "meta_db \<Rightarrow> bytes \<Rightarrow> coord_cols \<Rightarrow> history_row option" where
  "lookup_row db b k = newest (filter (\<lambda>r. hr_coord r = k) (ancestor_rows db b))"

definition lookup_chunk ::
  "meta_db \<Rightarrow> commit_id \<Rightarrow> chunk_coord \<Rightarrow> (storage_error, history_entry option) result" where
  "lookup_chunk db i c =
     (case lookup_row db (commit_param i) (coord_cols c) of
        None \<Rightarrow> Inr None
      | Some r \<Rightarrow> bindE (decode_history r) (\<lambda>e. Inr (Some e)))"

definition effective_rows :: "meta_db \<Rightarrow> bytes \<Rightarrow> history_row list" where
  "effective_rows db b =
     List.map_filter (lookup_row db b) (sort (remdups (map hr_coord (ancestor_rows db b))))"

definition visit_commit_chunks :: "meta_db \<Rightarrow> commit_id \<Rightarrow> (storage_error, history_entry) visit" where
  "visit_commit_chunks db i = decode_visit decode_history (effective_rows db (commit_param i))"

definition fresh_rows :: "meta_db \<Rightarrow> bytes \<Rightarrow> history_row list" where
  "fresh_rows db b = filter (\<lambda>r. hr_commit r = b) (t_history db)"

definition visit_fresh_rows :: "meta_db \<Rightarrow> commit_id \<Rightarrow> (storage_error, history_entry) visit" where
  "visit_fresh_rows db i = decode_visit decode_history (fresh_rows db (commit_param i))"

end
