(* ===== verification/Meta_Invariant.thy ===== *)
theory Meta_Invariant
  imports Meta_Commits
begin

section \<open>The database invariant\<close>

text \<open>
  What the schema and the operations keep true of the tables: the constraints the database
  enforces (unique and primary keys, foreign keys, at most one active ref, ordered area corners)
  and the ones only the code enforces (every stored row decodes, a chunk row carries the sequence
  of its commit, sequences stay below the \<open>AUTOINCREMENT\<close> mark, a scope has an area). Each
  recording operation is shown to preserve it; the functional lemmas say exactly what each
  writes.
\<close>

definition wf_commits :: "meta_db \<Rightarrow> bool" where
  "wf_commits db \<longleftrightarrow>
     distinct (map cm_id (t_commits db)) \<and> distinct (map cm_seq (t_commits db))
     \<and> (\<forall>r \<in> set (t_commits db). wf_commit_row r \<and> cm_seq r \<le> commits_autoinc db)"

definition wf_edges :: "meta_db \<Rightarrow> bool" where
  "wf_edges db \<longleftrightarrow>
     distinct (t_parents db)
     \<and> (\<forall>e \<in> set (t_parents db). fst e \<in> commit_ids db \<and> snd e \<in> commit_ids db)"

definition history_key :: "history_row \<Rightarrow> bytes \<times> coord_cols" where
  "history_key r = (hr_commit r, hr_coord r)"

definition wf_history :: "meta_db \<Rightarrow> bool" where
  "wf_history db \<longleftrightarrow>
     distinct (map history_key (t_history db))
     \<and> (\<forall>r \<in> set (t_history db).
          wf_history_row r \<and> select_seq db (hr_commit r) = Some (hr_seq r))"

definition wf_refs :: "meta_db \<Rightarrow> bool" where
  "wf_refs db \<longleftrightarrow>
     distinct (map rr_name (t_refs db)) \<and> length (filter is_active_row (t_refs db)) \<le> 1
     \<and> (\<forall>r \<in> set (t_refs db).
          wf_ref_row r \<and> (\<forall>b. rr_commit r = Some b \<longrightarrow> b \<in> commit_ids db))"

lemma wf_refs_code [code]:
  "wf_refs db \<longleftrightarrow>
     distinct (map rr_name (t_refs db)) \<and> length (filter is_active_row (t_refs db)) \<le> 1
     \<and> (\<forall>r \<in> set (t_refs db).
          wf_ref_row r \<and> (case rr_commit r of None \<Rightarrow> True | Some b \<Rightarrow> b \<in> commit_ids db))"
  by (auto simp: wf_refs_def split: option.split)

definition wf_area_row :: "area_row \<Rightarrow> bool" where
  "wf_area_row a \<longleftrightarrow>
     in_i32 (ar_dim a) \<and> in_i32 (ar_x0 a) \<and> in_i32 (ar_z0 a) \<and> in_i32 (ar_x1 a) \<and> in_i32 (ar_z1 a)
     \<and> ar_x0 a \<le> ar_x1 a \<and> ar_z0 a \<le> ar_z1 a"

definition wf_scopes :: "meta_db \<Rightarrow> bool" where
  "wf_scopes db \<longleftrightarrow>
     distinct (map sr_name (t_scopes db)) \<and> distinct (map sr_id (t_scopes db))
     \<and> (\<forall>s \<in> set (t_scopes db). valid_name (sr_name s) \<and> 0 \<le> sr_created_at_ms s
          \<and> sr_id s \<le> scopes_autoinc db \<and> (\<exists>a \<in> set (t_areas db). ar_scope a = sr_id s))
     \<and> (\<forall>a \<in> set (t_areas db). wf_area_row a \<and> ar_scope a \<in> sr_id ` set (t_scopes db))"

definition wf_db :: "meta_db \<Rightarrow> bool" where
  "wf_db db \<longleftrightarrow>
     user_version db = SCHEMA_VERSION \<and> wf_commits db \<and> wf_edges db \<and> wf_history db \<and> wf_refs db
     \<and> wf_scopes db"

lemmas wf_parts = wf_commits_def wf_edges_def wf_history_def wf_refs_def wf_scopes_def

subsection \<open>Finding commits\<close>

lemma find_commit_frame [simp]:
  "find_commit (db\<lparr>t_parents := ps\<rparr>) b = find_commit db b"
  "find_commit (db\<lparr>t_history := hs\<rparr>) b = find_commit db b"
  "find_commit (db\<lparr>t_refs := rs\<rparr>) b = find_commit db b"
  "find_commit (db\<lparr>t_scopes := ss\<rparr>) b = find_commit db b"
  "find_commit (db\<lparr>t_areas := as\<rparr>) b = find_commit db b"
  "find_commit (db\<lparr>scopes_autoinc := n\<rparr>) b = find_commit db b"
  "find_commit (db\<lparr>commits_autoinc := n\<rparr>) b = find_commit db b"
  "find_commit (db\<lparr>user_version := n\<rparr>) b = find_commit db b"
  by (simp_all add: find_commit_def)

lemma find_commit_None [simp]: "find_commit db b = None \<longleftrightarrow> b \<notin> commit_ids db"
  by (auto simp: find_commit_def find_None_iff commit_ids_def)

lemma find_commit_mem: "find_commit db b = Some r \<Longrightarrow> r \<in> set (t_commits db) \<and> cm_id r = b"
  by (auto simp: find_commit_def find_Some_iff)

lemma find_commit_Some:
  assumes "wf_commits db"
  shows "find_commit db b = Some r \<longleftrightarrow> r \<in> set (t_commits db) \<and> cm_id r = b"
proof
  assume r: "r \<in> set (t_commits db) \<and> cm_id r = b"
  then have "find_commit db b \<noteq> None" by (auto simp: commit_ids_def)
  then obtain q where q: "find_commit db b = Some q" by blast
  then have "q \<in> set (t_commits db)" "cm_id q = cm_id r" using find_commit_mem r by auto
  moreover have "inj_on cm_id (set (t_commits db))"
    using assms by (simp add: wf_commits_def distinct_map)
  ultimately show "find_commit db b = Some r" using r q by (auto dest: inj_onD)
qed (rule find_commit_mem)

lemma select_seq_frame [simp]:
  "select_seq (db\<lparr>t_parents := ps\<rparr>) b = select_seq db b"
  "select_seq (db\<lparr>t_history := hs\<rparr>) b = select_seq db b"
  "select_seq (db\<lparr>t_refs := rs\<rparr>) b = select_seq db b"
  "select_seq (db\<lparr>t_scopes := ss\<rparr>) b = select_seq db b"
  "select_seq (db\<lparr>t_areas := as\<rparr>) b = select_seq db b"
  "select_seq (db\<lparr>scopes_autoinc := n\<rparr>) b = select_seq db b"
  "select_seq (db\<lparr>commits_autoinc := n\<rparr>) b = select_seq db b"
  "select_seq (db\<lparr>user_version := n\<rparr>) b = select_seq db b"
  by (simp_all add: select_seq_def)

lemma select_seq_None [simp]: "select_seq db b = None \<longleftrightarrow> b \<notin> commit_ids db"
  by (simp add: select_seq_def)

lemma select_seq_row:
  "wf_commits db \<Longrightarrow> select_seq db b = Some s \<longleftrightarrow> (\<exists>r \<in> set (t_commits db). cm_id r = b \<and> cm_seq r = s)"
  by (auto simp: select_seq_def find_commit_Some)

lemma select_seq_inject:
  assumes "wf_commits db" "select_seq db a = Some s" "select_seq db b = Some s"
  shows "a = b"
proof -
  have "inj_on cm_seq (set (t_commits db))" using assms(1) by (simp add: wf_commits_def distinct_map)
  then show ?thesis using assms by (auto simp: select_seq_row dest: inj_onD)
qed

lemma select_seq_ids: "select_seq db b = Some s \<Longrightarrow> b \<in> commit_ids db"
  using select_seq_None [of db b] by force

lemma select_seq_bound: "wf_commits db \<Longrightarrow> select_seq db b = Some s \<Longrightarrow> s \<le> commits_autoinc db"
  by (auto simp: select_seq_row wf_commits_def)

lemma commit_ids_frame [simp]:
  "commit_ids (db\<lparr>t_parents := ps\<rparr>) = commit_ids db"
  "commit_ids (db\<lparr>t_history := hs\<rparr>) = commit_ids db"
  "commit_ids (db\<lparr>t_refs := rs\<rparr>) = commit_ids db"
  "commit_ids (db\<lparr>t_scopes := ss\<rparr>) = commit_ids db"
  "commit_ids (db\<lparr>t_areas := as\<rparr>) = commit_ids db"
  "commit_ids (db\<lparr>scopes_autoinc := n\<rparr>) = commit_ids db"
  "commit_ids (db\<lparr>commits_autoinc := n\<rparr>) = commit_ids db"
  "commit_ids (db\<lparr>user_version := n\<rparr>) = commit_ids db"
  by (simp_all add: commit_ids_def)

lemma commit_ids_param:
  assumes "wf_commits db" "b \<in> commit_ids db"
  obtains i where "b = commit_param i"
proof -
  have "length b = 32" using assms by (auto simp: commit_ids_def wf_commits_def wf_commit_row_def)
  then show thesis using that [of "hash_of_bytes b"] by (simp add: commit_param_of_bytes)
qed

text \<open>What the invariant's parts depend on.\<close>

lemma wf_frame [simp]:
  "wf_commits (db\<lparr>t_parents := ps\<rparr>) = wf_commits db"
  "wf_commits (db\<lparr>t_history := hs\<rparr>) = wf_commits db"
  "wf_commits (db\<lparr>t_refs := rs\<rparr>) = wf_commits db"
  "wf_commits (db\<lparr>t_scopes := ss\<rparr>) = wf_commits db"
  "wf_commits (db\<lparr>t_areas := as\<rparr>) = wf_commits db"
  "wf_commits (db\<lparr>scopes_autoinc := n\<rparr>) = wf_commits db"
  "wf_edges (db\<lparr>t_history := hs\<rparr>) = wf_edges db"
  "wf_edges (db\<lparr>t_refs := rs\<rparr>) = wf_edges db"
  "wf_edges (db\<lparr>t_scopes := ss\<rparr>) = wf_edges db"
  "wf_edges (db\<lparr>t_areas := as\<rparr>) = wf_edges db"
  "wf_edges (db\<lparr>scopes_autoinc := n\<rparr>) = wf_edges db"
  "wf_history (db\<lparr>t_parents := ps\<rparr>) = wf_history db"
  "wf_history (db\<lparr>t_refs := rs\<rparr>) = wf_history db"
  "wf_history (db\<lparr>t_scopes := ss\<rparr>) = wf_history db"
  "wf_history (db\<lparr>t_areas := as\<rparr>) = wf_history db"
  "wf_history (db\<lparr>scopes_autoinc := n\<rparr>) = wf_history db"
  "wf_refs (db\<lparr>t_parents := ps\<rparr>) = wf_refs db"
  "wf_refs (db\<lparr>t_history := hs\<rparr>) = wf_refs db"
  "wf_refs (db\<lparr>t_scopes := ss\<rparr>) = wf_refs db"
  "wf_refs (db\<lparr>t_areas := as\<rparr>) = wf_refs db"
  "wf_refs (db\<lparr>scopes_autoinc := n\<rparr>) = wf_refs db"
  "wf_scopes (db\<lparr>t_parents := ps\<rparr>) = wf_scopes db"
  "wf_scopes (db\<lparr>t_history := hs\<rparr>) = wf_scopes db"
  "wf_scopes (db\<lparr>t_refs := rs\<rparr>) = wf_scopes db"
  "wf_scopes (db\<lparr>t_commits := cs\<rparr>) = wf_scopes db"
  "wf_scopes (db\<lparr>commits_autoinc := n\<rparr>) = wf_scopes db"
  by (simp_all add: wf_parts)

subsection \<open>Inserting a commit\<close>

lemma hash_of_commit_param [simp]: "hash_of_bytes (commit_param i) = i"
  by (simp add: commit_param_def)

text \<open>The database after a genuinely new row, and the edge table after the edges of one child.\<close>

definition with_commit :: "bytes \<Rightarrow> int \<Rightarrow> meta_db \<Rightarrow> meta_db" where
  "with_commit b t db =
     db\<lparr>t_commits := t_commits db
          @ [\<lparr>cm_seq = commits_autoinc db + 1, cm_id = b, cm_created_at_ms = t\<rparr>],
        commits_autoinc := commits_autoinc db + 1\<rparr>"

definition add_edge :: "bytes \<Rightarrow> bytes \<Rightarrow> (bytes \<times> bytes) list \<Rightarrow> (bytes \<times> bytes) list" where
  "add_edge c p es = (if (c, p) \<in> set es then es else es @ [(c, p)])"

definition add_edges :: "bytes \<Rightarrow> bytes list \<Rightarrow> (bytes \<times> bytes) list \<Rightarrow> (bytes \<times> bytes) list" where
  "add_edges c ps es = fold (add_edge c) ps es"

lemma set_add_edges [simp]: "set (add_edges c ps es) = set es \<union> {c} \<times> set ps"
  by (induction ps arbitrary: es) (auto simp: add_edges_def add_edge_def)

lemma distinct_add_edges: "distinct es \<Longrightarrow> distinct (add_edges c ps es)"
  by (induction ps arbitrary: es) (auto simp: add_edges_def add_edge_def)

lemma add_edges_Nil [simp]: "add_edges c [] es = es"
  by (simp add: add_edges_def)

lemma insert_edges:
  assumes "c \<in> commit_ids db" "set ps \<subseteq> commit_ids db"
  shows "foldE (insert_edge c) ps db = Inr (db\<lparr>t_parents := add_edges c ps (t_parents db)\<rparr>)"
  using assms
proof (induction ps arbitrary: db)
  case Nil
  then show ?case by simp
next
  case (Cons p ps)
  then have "insert_edge c p db = Inr (db\<lparr>t_parents := add_edge c p (t_parents db)\<rparr>)"
    by (simp add: insert_edge_def add_edge_def)
  with Cons show ?case by (simp add: add_edges_def)
qed

lemma with_commit_sel [simp]:
  "t_parents (with_commit b t db) = t_parents db"
  "t_history (with_commit b t db) = t_history db"
  "t_refs (with_commit b t db) = t_refs db"
  "t_scopes (with_commit b t db) = t_scopes db"
  "t_areas (with_commit b t db) = t_areas db"
  "user_version (with_commit b t db) = user_version db"
  "commits_autoinc (with_commit b t db) = commits_autoinc db + 1"
  "commit_ids (with_commit b t db) = insert b (commit_ids db)"
  "wf_scopes (with_commit b t db) = wf_scopes db"
  by (simp_all add: with_commit_def commit_ids_def wf_scopes_def)

lemma find_commit_with_commit:
  assumes "b \<notin> commit_ids db"
  shows "find_commit (with_commit b t db) x
     = (if x = b then Some \<lparr>cm_seq = commits_autoinc db + 1, cm_id = b, cm_created_at_ms = t\<rparr>
        else find_commit db x)"
proof -
  have "find_commit (with_commit b t db) x
      = (case find_commit db x of
           Some r \<Rightarrow> Some r
         | None \<Rightarrow> if b = x then Some \<lparr>cm_seq = commits_autoinc db + 1, cm_id = b, cm_created_at_ms = t\<rparr>
                   else None)"
    by (simp add: find_commit_def with_commit_def find_append_cases split: option.split)
  then show ?thesis
    using assms find_commit_None [of db b] by (cases "find_commit db x") (auto simp del: find_commit_None)
qed

lemma select_seq_with_commit:
  "b \<notin> commit_ids db \<Longrightarrow> select_seq (with_commit b t db) x
     = (if x = b then Some (commits_autoinc db + 1) else select_seq db x)"
  by (simp add: select_seq_def find_commit_with_commit)

lemma wf_commits_with_commit:
  assumes "wf_commits db" "b \<notin> commit_ids db" "length b = 32" "0 \<le> t"
  shows "wf_commits (with_commit b t db)"
proof -
  have "cm_seq r \<noteq> commits_autoinc db + 1" if "r \<in> set (t_commits db)" for r
    using assms(1) that by (force simp: wf_commits_def)
  with assms show ?thesis
    by (auto simp: wf_commits_def with_commit_def wf_commit_row_def commit_ids_def)
qed

lemma existing_parents:
  assumes "wf_commits db"
  shows "\<exists>existing.
    (if parents = [] then Inr []
     else mapE commit_id_from_blob
       (filter (\<lambda>b. b \<in> set (map commit_param parents)) (map cm_id (t_commits db)))) = Inr existing
    \<and> (\<forall>p \<in> set parents. p \<in> set existing \<longleftrightarrow> commit_param p \<in> commit_ids db)"
proof (cases "parents = []")
  case False
  let ?bs = "filter (\<lambda>b. b \<in> set (map commit_param parents)) (map cm_id (t_commits db))"
  have "mapE commit_id_from_blob ?bs = Inr (map hash_of_bytes ?bs)"
  proof (rule mapE_all_ok)
    fix b
    assume "b \<in> set ?bs"
    then obtain p where "b = commit_param p" by auto
    then show "commit_id_from_blob b = Inr (hash_of_bytes b)" by (simp add: commit_id_from_blob_wf)
  qed
  moreover have "p \<in> set (map hash_of_bytes ?bs) \<longleftrightarrow> commit_param p \<in> commit_ids db"
    if "p \<in> set parents" for p
  proof
    assume "p \<in> set (map hash_of_bytes ?bs)"
    then obtain b where b: "b \<in> set ?bs" "p = hash_of_bytes b" by auto
    then have "length b = 32" by auto
    with b have "commit_param p = b" by (simp add: commit_param_of_bytes)
    with b show "commit_param p \<in> commit_ids db" by (auto simp: commit_ids_def)
  next
    assume "commit_param p \<in> commit_ids db"
    then have "commit_param p \<in> set ?bs" using that by (auto simp: commit_ids_def)
    then have "hash_of_bytes (commit_param p) \<in> hash_of_bytes ` set ?bs" by (rule imageI)
    then show "p \<in> set (map hash_of_bytes ?bs)" by (simp only: set_map hash_of_commit_param)
  qed
  ultimately show ?thesis
    unfolding if_not_P [OF False] by (intro exI [of _ "map hash_of_bytes ?bs"] conjI ballI)
qed simp

definition missing_parent :: "meta_db \<Rightarrow> commit_id list \<Rightarrow> commit_id option" where
  "missing_parent db parents = find (\<lambda>p. commit_param p \<notin> commit_ids db) parents"

text \<open>What \<open>insert_commit\<close> answers and writes, on every branch.\<close>

lemma insert_commit_eq:
  assumes wf: "wf_commits db"
  shows "insert_commit i t parents db =
    (case missing_parent db parents of
       Some p \<Rightarrow> Inl (StUnknownCommit p)
     | None \<Rightarrow> bindE (millis_param t) (\<lambda>ms.
         let b = commit_param i;
             edges = add_edges b (map commit_param parents) (t_parents db)
         in case select_seq db b of
              Some s \<Rightarrow> Inr ((s, False), db\<lparr>t_parents := edges\<rparr>)
            | None \<Rightarrow> Inr ((commits_autoinc db + 1, True),
                          (with_commit b ms db)\<lparr>t_parents := edges\<rparr>)))"
proof -
  from existing_parents [OF wf, of parents]
  obtain existing where ex: "(if parents = [] then Inr []
     else mapE commit_id_from_blob
       (filter (\<lambda>b. b \<in> set (map commit_param parents)) (map cm_id (t_commits db)))) = Inr existing"
    and iff: "\<forall>p \<in> set parents. p \<in> set existing \<longleftrightarrow> commit_param p \<in> commit_ids db" by blast
  have missing: "find (\<lambda>p. p \<notin> set existing) parents = missing_parent db parents"
    unfolding missing_parent_def using iff by (intro find_cong) simp_all
  show ?thesis
  proof (cases "missing_parent db parents")
    case (Some p)
    then show ?thesis by (simp add: insert_commit_def ex missing)
  next
    case None
    then have ps: "set (map commit_param parents) \<subseteq> commit_ids db"
      by (auto simp: missing_parent_def find_None_iff)
    show ?thesis
    proof (cases "millis_param t")
      case (Inl e)
      then show ?thesis using None by (simp add: insert_commit_def ex missing)
    next
      case (Inr ms)
      let ?b = "commit_param i"
      show ?thesis
      proof (cases "select_seq db ?b")
        case (Some s)
        then have b: "?b \<in> commit_ids db" by (rule select_seq_ids)
        have "foldE (\<lambda>p. insert_edge ?b (commit_param p)) parents db
            = Inr (db\<lparr>t_parents := add_edges ?b (map commit_param parents) (t_parents db)\<rparr>)"
          using insert_edges [OF b ps] by (simp add: foldE_map)
        with None Inr Some b show ?thesis
          by (simp add: insert_commit_def ex missing insert_commit_row_def)
      next
        case new: None
        then have b: "?b \<notin> commit_ids db" by simp
        let ?db = "with_commit ?b ms db"
        have "set (map commit_param parents) \<subseteq> commit_ids ?db" using ps by auto
        then have "foldE (\<lambda>p. insert_edge ?b (commit_param p)) parents ?db
            = Inr (?db\<lparr>t_parents := add_edges ?b (map commit_param parents) (t_parents db)\<rparr>)"
          using insert_edges [of ?b ?db "map commit_param parents"] by (simp add: foldE_map)
        moreover have "insert_commit_row ?b ms db = (True, ?db)"
          using b by (simp add: insert_commit_row_def with_commit_def)
        ultimately show ?thesis
          using None Inr new b
          by (simp add: insert_commit_def ex missing select_seq_with_commit new Let_def)
      qed
    qed
  qed
qed

subsection \<open>Preservation\<close>

lemma wf_dbI:
  "user_version db = SCHEMA_VERSION \<Longrightarrow> wf_commits db \<Longrightarrow> wf_edges db \<Longrightarrow> wf_history db \<Longrightarrow> wf_refs db
     \<Longrightarrow> wf_scopes db \<Longrightarrow> wf_db db"
  by (simp add: wf_db_def)

lemma wf_dbD:
  assumes "wf_db db"
  shows "user_version db = SCHEMA_VERSION" "wf_commits db" "wf_edges db" "wf_history db"
    "wf_refs db" "wf_scopes db"
  using assms by (simp_all add: wf_db_def)

lemma wf_db_edges:
  assumes wf: "wf_db db" and b: "b \<in> commit_ids db" and ps: "set ps \<subseteq> commit_ids db"
  shows "wf_db (db\<lparr>t_parents := add_edges b ps (t_parents db)\<rparr>)"
proof (rule wf_dbI)
  show "wf_edges (db\<lparr>t_parents := add_edges b ps (t_parents db)\<rparr>)"
    using wf_dbD(3) [OF wf] b ps by (auto simp: wf_edges_def distinct_add_edges)
qed (use wf_dbD [OF wf] in simp_all)

lemma wf_db_with_commit:
  assumes wf: "wf_db db" and b: "b \<notin> commit_ids db" "length b = 32" "0 \<le> t"
  shows "wf_db (with_commit b t db)"
proof (rule wf_dbI)
  show "wf_edges (with_commit b t db)"
    using wf_dbD(3) [OF wf] by (auto simp: wf_edges_def)
  show "wf_refs (with_commit b t db)"
    using wf_dbD(5) [OF wf] by (auto simp: wf_refs_def)
  show "wf_history (with_commit b t db)"
    using wf_dbD(4) [OF wf] b(1)
    by (auto simp: wf_history_def select_seq_with_commit dest: select_seq_ids)
qed (use wf_dbD [OF wf] b in \<open>simp_all add: wf_commits_with_commit\<close>)

lemma wf_db_insert_commit:
  assumes wf: "wf_db db" and ok: "insert_commit i t parents db = Inr ((s, new), db')"
  shows "wf_db db' \<and> select_seq db' (commit_param i) = Some s"
proof -
  have wfc: "wf_commits db" using wf by (simp add: wf_db_def)
  have none: "missing_parent db parents = None"
    using ok insert_commit_eq [OF wfc, of i t parents] by (auto split: option.splits)
  then have ps: "set (map commit_param parents) \<subseteq> commit_ids db"
    by (auto simp: missing_parent_def find_None_iff)
  obtain ms where ms: "millis_param t = Inr ms"
    using ok none insert_commit_eq [OF wfc, of i t parents] by (cases "millis_param t") auto
  then have "0 \<le> ms" using millis_param_ok by blast
  show ?thesis
  proof (cases "select_seq db (commit_param i)")
    case (Some s')
    then have "s = s'" "db' = db\<lparr>t_parents := add_edges (commit_param i) (map commit_param parents) (t_parents db)\<rparr>"
      using ok none ms by (auto simp: insert_commit_eq [OF wfc] Let_def)
    then show ?thesis using wf_db_edges [OF wf select_seq_ids [OF Some] ps] Some by simp
  next
    case None
    then have b: "commit_param i \<notin> commit_ids db" by simp
    let ?db = "with_commit (commit_param i) ms db"
    have eq: "s = commits_autoinc db + 1"
      "db' = ?db\<lparr>t_parents := add_edges (commit_param i) (map commit_param parents) (t_parents ?db)\<rparr>"
      using ok none ms by (auto simp: insert_commit_eq [OF wfc] Let_def None)
    have "wf_db ?db" using wf_db_with_commit [OF wf b] \<open>0 \<le> ms\<close> by simp
    moreover have "set (map commit_param parents) \<subseteq> commit_ids ?db" using ps by auto
    ultimately show ?thesis
      using wf_db_edges [of ?db "commit_param i"] b unfolding eq by (simp add: select_seq_with_commit)
  qed
qed

lemma wf_db_create_commit:
  assumes "wf_db db" "create_commit H t parents db = Inr (i, db')"
  shows "wf_db db'"
  using assms wf_db_insert_commit by (fastforce simp: create_commit_def Let_def bindE_eq_Inr)

lemma insert_history_row_ok:
  assumes "insert_history_row r db = Inr db'"
  shows "db' = db\<lparr>t_history := t_history db @ [r]\<rparr>" "history_key r \<notin> history_key ` set (t_history db)"
    "hr_commit r \<in> commit_ids db"
  using assms by (auto simp: insert_history_row_def history_key_def split: if_splits)

lemma wf_db_insert_history_row:
  assumes wf: "wf_db db" and r: "wf_history_row r" "select_seq db (hr_commit r) = Some (hr_seq r)"
    and ok: "insert_history_row r db = Inr db'"
  shows "wf_db db'"
proof -
  note db' = insert_history_row_ok [OF ok]
  have "wf_history (db\<lparr>t_history := t_history db @ [r]\<rparr>)"
    using wf_dbD(4) [OF wf] db'(2) r by (auto simp: wf_history_def)
  then show ?thesis using wf_dbD [OF wf] unfolding db'(1) by (intro wf_dbI) simp_all
qed

lemma wf_db_record_chunk:
  assumes wf: "wf_db db" and ok: "record_chunk i c b db = Inr db'"
  shows "wf_db db'"
proof -
  obtain s where "select_seq db (commit_param i) = Some s"
    and "insert_history_row (history_row_of i s c b) db = Inr db'"
    using ok by (auto simp: record_chunk_def bindE_eq_Inr ok_or_eq_Inr)
  moreover have "hr_seq (history_row_of i s c b) = s" by simp
  ultimately show ?thesis using wf_db_insert_history_row [OF wf, of "history_row_of i s c b"] by simp
qed

lemma wf_db_insert_rows:
  assumes "wf_db db" "select_seq db (commit_param i) = Some s"
    and "foldE (\<lambda>e. insert_history_row (history_row_of i s (entry_coord e) (entry_blob e))) es db = Inr db'"
  shows "wf_db db' \<and> select_seq db' (commit_param i) = Some s"
  using assms(3,1,2)
proof (rule_tac P = "\<lambda>d. wf_db d \<and> select_seq d (commit_param i) = Some s" in foldE_invariant)
  fix e d d'
  assume d: "wf_db d \<and> select_seq d (commit_param i) = Some s"
    and ok: "insert_history_row (history_row_of i s (entry_coord e) (entry_blob e)) d = Inr d'"
  then have "wf_db d'" using wf_db_insert_history_row [of d "history_row_of i s (entry_coord e) (entry_blob e)"] by simp
  then show "wf_db d' \<and> select_seq d' (commit_param i) = Some s"
    using insert_history_row_ok(1) [OF ok] d by simp
qed simp_all

text \<open>Moving the active ref.\<close>

definition move_active :: "bytes \<Rightarrow> ref_row list \<Rightarrow> ref_row list" where
  "move_active b rs = map (\<lambda>r. if is_active_row r then r\<lparr>rr_commit := Some b\<rparr> else r) rs"

lemma move_active_facts [simp]:
  "map rr_name (move_active b rs) = map rr_name rs"
  "length (filter is_active_row (move_active b rs)) = length (filter is_active_row rs)"
  by (induction rs) (simp_all add: move_active_def is_active_row_def)

lemma wf_refs_move_active:
  assumes "wf_refs db" "b \<in> commit_ids db" "length b = 32"
  shows "wf_refs (db\<lparr>t_refs := move_active b (t_refs db)\<rparr>)"
proof -
  have "wf_ref_row r \<and> (\<forall>x. rr_commit r = Some x \<longrightarrow> x \<in> commit_ids db)"
    if "r \<in> set (move_active b (t_refs db))" for r
    using that assms by (auto simp: move_active_def wf_ref_row_def wf_blob32_def wf_refs_def split: if_splits)
  with assms(1) show ?thesis by (simp add: wf_refs_def)
qed

lemma apply_commit_okE:
  assumes ok: "apply_commit_incremental H t parents entries db = Inr (out, db')"
  obtains a s new db1 db2 where
    "find is_active_row (t_refs db) = Some a"
    "case rr_commit a of None \<Rightarrow> True
     | Some b \<Rightarrow> \<exists>base. commit_id_from_blob b = Inr base \<and> base \<in> set parents"
    "insert_commit (commit_hash H parents t entries) t parents db = Inr ((s, new), db1)"
    "(if new then foldE (\<lambda>e. insert_history_row
        (history_row_of (commit_hash H parents t entries) s (entry_coord e) (entry_blob e))) entries db1
      else Inr db1) = Inr db2"
    "out = \<lparr>ao_id = commit_hash H parents t entries\<rparr>"
    "db' = db2\<lparr>t_refs := move_active (commit_param (commit_hash H parents t entries)) (t_refs db2)\<rparr>"
proof -
  let ?c = "commit_hash H parents t entries"
  from ok obtain a u x where a: "find is_active_row (t_refs db) = Some a"
    and cont: "(case rr_commit a of None \<Rightarrow> Inr ()
        | Some target \<Rightarrow> bindE (commit_id_from_blob target) (\<lambda>base.
            if base \<in> set parents then Inr () else Inl (NotContinuing base))) = Inr u"
    and ins: "insert_commit ?c t parents db = Inr x"
    and rest: "(\<lambda>((sq, inserted), db1).
      bindE (if inserted then foldE (\<lambda>e. insert_history_row
               (history_row_of ?c sq (entry_coord e) (entry_blob e))) entries db1 else Inr db1) (\<lambda>db2.
        if length (filter is_active_row (t_refs db2)) = 0 then Inl NoActiveRef
        else Inr (\<lparr>ao_id = ?c\<rparr>, db2\<lparr>t_refs := move_active (commit_param ?c) (t_refs db2)\<rparr>))) x
      = Inr (out, db')"
    unfolding apply_commit_incremental_def Let_def bindE_eq_Inr ok_or_eq_Inr move_active_def [symmetric]
    by (elim exE conjE) (rule that)
  obtain s new db1 where x: "x = ((s, new), db1)" by (metis prod.exhaust)
  have "case rr_commit a of None \<Rightarrow> True
     | Some b \<Rightarrow> \<exists>base. commit_id_from_blob b = Inr base \<and> base \<in> set parents"
    using cont by (auto simp: bindE_eq_Inr split: option.splits if_splits)
  moreover obtain db2 where "(if new then foldE (\<lambda>e. insert_history_row
        (history_row_of ?c s (entry_coord e) (entry_blob e))) entries db1 else Inr db1) = Inr db2"
    and "(\<lparr>ao_id = ?c\<rparr>, db2\<lparr>t_refs := move_active (commit_param ?c) (t_refs db2)\<rparr>) = (out, db')"
    using rest unfolding x by (simp add: bindE_eq_Inr split: if_splits) blast+
  ultimately show thesis using that [OF a _ ins [unfolded x]] by simp
qed

lemma wf_db_apply_commit:
  assumes wf: "wf_db db" and ok: "apply_commit_incremental H t parents entries db = Inr (out, db')"
  shows "wf_db db'"
proof -
  let ?c = "commit_hash H parents t entries"
  obtain s new db1 db2 where ins: "insert_commit ?c t parents db = Inr ((s, new), db1)"
    and rows: "(if new then foldE (\<lambda>e. insert_history_row
          (history_row_of ?c s (entry_coord e) (entry_blob e))) entries db1 else Inr db1) = Inr db2"
    and db': "db' = db2\<lparr>t_refs := move_active (commit_param ?c) (t_refs db2)\<rparr>"
    by (rule apply_commit_okE [OF ok]) blast
  from wf_db_insert_commit [OF wf ins] have 1: "wf_db db1" "select_seq db1 (commit_param ?c) = Some s"
    by simp_all
  have 2: "wf_db db2 \<and> select_seq db2 (commit_param ?c) = Some s"
  proof (cases new)
    case True
    then show ?thesis using wf_db_insert_rows [OF 1] rows by simp
  qed (use 1 rows in simp)
  then have "commit_param ?c \<in> commit_ids db2" using select_seq_ids by blast
  then have "wf_refs db'" using wf_refs_move_active 2 unfolding db' by (simp add: wf_db_def)
  with 2 show ?thesis unfolding db' by (simp add: wf_db_def)
qed

lemma wf_db_open:
  assumes "meta_open clock db = Inr db'" "wf_db db \<or> db = blank_db"
  shows "wf_db db'"
proof (cases "user_version db = 0")
  case True
  then have "db = blank_db" using assms(2) by (auto simp: wf_db_def SCHEMA_VERSION_def)
  moreover have "valid_ref_name DEFAULT_REF_NAME"
    by code_simp
  moreover obtain t where t: "now_ms clock = Inr t"
    "db' = db\<lparr>t_refs := t_refs db @ [\<lparr>rr_name = DEFAULT_REF_NAME, rr_commit = None, rr_active = 1,
        rr_created_at_ms = t\<rparr>], user_version := SCHEMA_VERSION\<rparr>"
    using assms(1) True by (auto simp: meta_open_def bindE_eq_Inr split: if_splits)
  moreover have "0 \<le> t" using t(1) by (auto simp: now_ms_def bindE_eq_Inr ok_or_eq_Inr split: if_splits)
  ultimately show ?thesis
    by (simp add: wf_db_def wf_parts blank_db_def wf_ref_row_def wf_blob32_def)
next
  case False
  then show ?thesis
    using assms by (auto simp: meta_open_def SCHEMA_VERSION_def blank_db_def split: if_splits)
qed

end
