(* ===== verification/Meta_Reads.thy ===== *)
theory Meta_Reads
  imports Meta_Invariant
begin

section \<open>What the reads answer\<close>

text \<open>
  On a well-formed database no read fails, and the two reads of chunk state agree: the point
  lookup and the full visit both give, per coordinate, the row with the largest sequence among
  those of the commit and its ancestors.
\<close>

declare split_paired_Ex [simp del] split_paired_All [simp del]

subsection \<open>The newest row\<close>

lemma foldl_newest:
  "foldl (\<lambda>b q. if hr_seq b < hr_seq q then q else b) r rs \<in> insert r (set rs)
   \<and> (\<forall>q \<in> insert r (set rs). hr_seq q \<le> hr_seq (foldl (\<lambda>b q. if hr_seq b < hr_seq q then q else b) r rs))"
proof (induction rs arbitrary: r)
  case (Cons q rs)
  show ?case using Cons [of r] Cons [of q] by (auto simp: not_less)
qed simp

lemma newest_None [simp]: "newest rs = None \<longleftrightarrow> rs = []"
  by (cases rs) (simp_all add: newest_def)

lemma newest_mem: "newest rs = Some r \<Longrightarrow> r \<in> set rs"
  using foldl_newest by (cases rs) (force simp: newest_def)+

lemma newest_max: "newest rs = Some r \<Longrightarrow> q \<in> set rs \<Longrightarrow> hr_seq q \<le> hr_seq r"
  using foldl_newest by (cases rs) (force simp: newest_def)+

lemma newest_iff:
  assumes "inj_on hr_seq (set rs)"
  shows "newest rs = Some r \<longleftrightarrow> r \<in> set rs \<and> (\<forall>q \<in> set rs. hr_seq q \<le> hr_seq r)"
proof
  assume r: "r \<in> set rs \<and> (\<forall>q \<in> set rs. hr_seq q \<le> hr_seq r)"
  then have "newest rs \<noteq> None" by (cases rs) auto
  then obtain q where q: "newest rs = Some q" by blast
  then have "hr_seq q = hr_seq r" using r newest_mem newest_max by (meson order_antisym)
  then have "q = r" using assms q r newest_mem inj_onD by metis
  with q show "newest rs = Some r" by simp
qed (use newest_mem newest_max in blast)

lemma history_unique:
  assumes "wf_history db" "r \<in> set (t_history db)" "q \<in> set (t_history db)"
    and "hr_commit r = hr_commit q" "hr_coord r = hr_coord q"
  shows "r = q"
proof -
  have "inj_on history_key (set (t_history db))" using assms(1) by (simp add: wf_history_def distinct_map)
  then show ?thesis by (rule inj_onD) (use assms in \<open>simp_all add: history_key_def\<close>)
qed

definition inherits :: "meta_db \<Rightarrow> bytes \<Rightarrow> bytes \<Rightarrow> bool" where
  "inherits db b a \<longleftrightarrow> (b, a) \<in> (set (t_parents db))\<^sup>*"

lemma inherits_ancestors: "a \<in> set (ancestors (t_parents db) b) \<longleftrightarrow> inherits db b a"
  by (simp add: inherits_def set_ancestors)

lemma inherits_refl [simp]: "inherits db b b"
  by (simp add: inherits_def)

lemma inherits_ids:
  assumes "wf_edges db" "inherits db b a" "a \<noteq> b"
  shows "a \<in> commit_ids db \<and> b \<in> commit_ids db"
proof -
  have t: "(b, a) \<in> (set (t_parents db))\<^sup>+"
    using assms(2,3) by (auto simp: inherits_def rtrancl_eq_or_trancl)
  obtain p where "(b, p) \<in> set (t_parents db)" using t by (blast dest: tranclD)
  moreover obtain c where "(c, a) \<in> set (t_parents db)" using t by (blast dest: tranclD2)
  ultimately show ?thesis using assms(1) by (force simp: wf_edges_def)
qed

lemma set_ancestor_rows:
  "set (ancestor_rows db b) = {r \<in> set (t_history db). inherits db b (hr_commit r)}"
  by (simp add: ancestor_rows_def inherits_ancestors)

lemma same_seq_rows:
  assumes "wf_commits db" "wf_history db" "r \<in> set (t_history db)" "q \<in> set (t_history db)"
    and "hr_seq r = hr_seq q"
  shows "hr_commit r = hr_commit q"
  using assms select_seq_inject [OF assms(1)] by (auto simp: wf_history_def)

lemma lookup_row_None:
  "lookup_row db b k = None \<longleftrightarrow>
     (\<forall>r \<in> set (t_history db). hr_coord r = k \<longrightarrow> \<not> inherits db b (hr_commit r))"
  by (auto simp: lookup_row_def filter_empty_conv set_ancestor_rows)

lemma lookup_row_Some:
  assumes wf: "wf_commits db" "wf_history db"
  shows "lookup_row db b k = Some r \<longleftrightarrow>
     r \<in> set (t_history db) \<and> hr_coord r = k \<and> inherits db b (hr_commit r)
     \<and> (\<forall>q \<in> set (t_history db). hr_coord q = k \<longrightarrow> inherits db b (hr_commit q)
          \<longrightarrow> hr_seq q \<le> hr_seq r)"
proof -
  have "inj_on hr_seq (set (filter (\<lambda>r. hr_coord r = k) (ancestor_rows db b)))"
  proof (rule inj_onI)
    fix r q
    assume rq: "r \<in> set (filter (\<lambda>r. hr_coord r = k) (ancestor_rows db b))"
      "q \<in> set (filter (\<lambda>r. hr_coord r = k) (ancestor_rows db b))" "hr_seq r = hr_seq q"
    then have "r \<in> set (t_history db)" "q \<in> set (t_history db)" "hr_coord r = hr_coord q"
      by (auto simp: set_ancestor_rows)
    then show "r = q" using same_seq_rows [OF wf] history_unique [OF wf(2)] rq(3) by blast
  qed
  then show ?thesis unfolding lookup_row_def by (auto simp: newest_iff set_ancestor_rows)
qed

lemma lookup_row_mem:
  "lookup_row db b k = Some r \<Longrightarrow> r \<in> set (t_history db) \<and> hr_coord r = k \<and> inherits db b (hr_commit r)"
  by (auto simp: lookup_row_def set_ancestor_rows dest: newest_mem)

subsection \<open>Decoded answers\<close>

definition row_entry :: "history_row \<Rightarrow> history_entry" where
  "row_entry r = projr (decode_history r)"

lemma decode_row_entry: "wf_history_row r \<Longrightarrow> decode_history r = Inr (row_entry r)"
  using decode_history_wf [of r] by (auto simp: row_entry_def)

lemma row_entry_facts:
  assumes "wf_history_row r"
  shows "coord_cols (he_coord (row_entry r)) = hr_coord r"
    "commit_param (he_commit (row_entry r)) = hr_commit r"
    "map_option hash_bytes_list (he_blob (row_entry r)) = hr_blob r"
  using decode_row_entry [OF assms] by (simp_all add: decode_history_ok)

lemma lookup_chunk_wf:
  assumes "wf_history db"
  shows "lookup_chunk db i c
     = Inr (map_option row_entry (lookup_row db (commit_param i) (coord_cols c)))"
proof (cases "lookup_row db (commit_param i) (coord_cols c)")
  case (Some r)
  then have "wf_history_row r" using assms lookup_row_mem by (fastforce simp: wf_history_def)
  then show ?thesis using Some by (simp add: lookup_chunk_def decode_row_entry)
qed (simp add: lookup_chunk_def)

lemma set_effective_rows:
  "set (effective_rows db b) = {r. \<exists>k. lookup_row db b k = Some r}"
proof -
  let ?ks = "set (map hr_coord (ancestor_rows db b))"
  have in_ks: "k \<in> ?ks" if "lookup_row db b k = Some r" for k r
    using lookup_row_mem [OF that] by (auto simp: set_ancestor_rows)
  have "set (effective_rows db b) = {r. \<exists>k \<in> ?ks. lookup_row db b k = Some r}"
    by (force simp: effective_rows_def List.map_filter_def)
  with in_ks show ?thesis by blast
qed

lemma map_filter_coords:
  assumes "\<And>k. k \<in> set ks \<Longrightarrow> \<exists>r. f k = Some r \<and> hr_coord r = k"
  shows "map hr_coord (List.map_filter f ks) = ks"
  using assms by (induction ks) (force simp: List.map_filter_simps)+

lemma effective_coords:
  "map hr_coord (effective_rows db b) = sort (remdups (map hr_coord (ancestor_rows db b)))"
  unfolding effective_rows_def
proof (rule map_filter_coords)
  fix k
  assume "k \<in> set (sort (remdups (map hr_coord (ancestor_rows db b))))"
  then have "filter (\<lambda>r. hr_coord r = k) (ancestor_rows db b) \<noteq> []"
    by (auto simp: filter_empty_conv)
  then have "lookup_row db b k \<noteq> None" by (simp add: lookup_row_def)
  then obtain r where "lookup_row db b k = Some r" by blast
  then show "\<exists>r. lookup_row db b k = Some r \<and> hr_coord r = k" using lookup_row_mem by blast
qed

lemma effective_distinct: "distinct (map hr_coord (effective_rows db b))"
  by (simp add: effective_coords)

lemma find_effective_row:
  "find (\<lambda>r. hr_coord r = k) (effective_rows db b) = lookup_row db b k"
proof (cases "lookup_row db b k")
  case None
  have "hr_coord r \<noteq> k" if "r \<in> set (effective_rows db b)" for r
  proof -
    from that obtain l where "lookup_row db b l = Some r" by (auto simp: set_effective_rows)
    with None show ?thesis using lookup_row_mem by fastforce
  qed
  with None show ?thesis by (auto simp: find_None_iff)
next
  case (Some r)
  then have r: "r \<in> set (effective_rows db b)" "hr_coord r = k"
    by (auto simp: set_effective_rows dest: lookup_row_mem)
  then have "find (\<lambda>r. hr_coord r = k) (effective_rows db b) \<noteq> None" by (auto simp: find_None_iff)
  then obtain q where q: "find (\<lambda>r. hr_coord r = k) (effective_rows db b) = Some q" by blast
  then have "q \<in> set (effective_rows db b)" "hr_coord q = k" by (auto simp: find_Some_iff)
  then have "q = r" using r effective_distinct [of db b] by (auto simp: distinct_map dest: inj_onD)
  with q Some show ?thesis by simp
qed

lemma visit_commit_chunks_wf:
  "wf_history db \<Longrightarrow> visit_commit_chunks db i = (map row_entry (effective_rows db (commit_param i)), None)"
  unfolding visit_commit_chunks_def
  by (intro decode_visit_ok decode_row_entry)
    (auto simp: set_effective_rows wf_history_def dest: lookup_row_mem)

lemma visit_fresh_rows_wf:
  "wf_history db \<Longrightarrow> visit_fresh_rows db i = (map row_entry (fresh_rows db (commit_param i)), None)"
  unfolding visit_fresh_rows_def
  by (intro decode_visit_ok decode_row_entry) (auto simp: fresh_rows_def wf_history_def)

lemma find_map_comp: "find P (map f xs) = map_option f (find (\<lambda>x. P (f x)) xs)"
  by (induction xs) auto

lemma lookup_find_entry:
  assumes "wf_history db"
  shows "find (\<lambda>e. he_coord e = c) (map row_entry (effective_rows db b))
     = map_option row_entry (lookup_row db b (coord_cols c))"
proof -
  have "he_coord (row_entry r) = c \<longleftrightarrow> hr_coord r = coord_cols c" if "r \<in> set (effective_rows db b)" for r
  proof -
    have "wf_history_row r"
      using that assms by (auto simp: set_effective_rows wf_history_def dest: lookup_row_mem)
    then show ?thesis using row_entry_facts(1) [of r] by (metis coord_cols_inject)
  qed
  then have "find (\<lambda>r. he_coord (row_entry r) = c) (effective_rows db b)
      = find (\<lambda>r. hr_coord r = coord_cols c) (effective_rows db b)"
    by (intro find_cong) simp_all
  then show ?thesis by (simp add: find_effective_row find_map_comp)
qed

end
