(* ===== verification/Meta_Retire.thy ===== *)
theory Meta_Retire
  imports Meta_Reads
begin

section \<open>Retiring a commit\<close>

text \<open>
  \<open>retire_commit\<close> of \<open>meta.rs\<close>, one definition per statement of its transaction. The lemmas give
  its outcome on every branch, show that its constraint violations cannot happen on a well-formed
  database, that the database stays well-formed, that the graph is contracted, and that the chunk
  state of every other commit is kept when histories are linear and sequences follow the graph.
\<close>

definition count_rows :: "('a \<Rightarrow> bool) \<Rightarrow> 'a list \<Rightarrow> nat" where
  "count_rows P xs = length (filter P xs)"

text \<open>\<open>RETIRE_SUPERSEDED_SQL\<close>.\<close>

definition superseded_row :: "meta_db \<Rightarrow> bytes \<Rightarrow> bytes \<Rightarrow> int \<Rightarrow> history_row \<Rightarrow> bool" where
  "superseded_row db from into from_seq r \<longleftrightarrow>
     hr_commit r = from
     \<and> hr_coord r \<in> set (map hr_coord
         (filter (\<lambda>q. from_seq < hr_seq q \<and> hr_commit q \<in> set (ancestors (t_parents db) into))
           (t_history db)))"

definition delete_superseded :: "bytes \<Rightarrow> bytes \<Rightarrow> int \<Rightarrow> meta_db \<Rightarrow> nat \<times> meta_db" where
  "delete_superseded from into from_seq db =
     (count_rows (superseded_row db from into from_seq) (t_history db),
      db\<lparr>t_history := filter (\<lambda>r. \<not> superseded_row db from into from_seq r) (t_history db)\<rparr>)"

definition restamp_row :: "bytes \<Rightarrow> bytes \<Rightarrow> int \<Rightarrow> history_row \<Rightarrow> history_row" where
  "restamp_row from into into_seq r =
     (if hr_commit r = from then r\<lparr>hr_commit := into, hr_seq := into_seq\<rparr> else r)"

definition restamp_rows ::
  "bytes \<Rightarrow> bytes \<Rightarrow> int \<Rightarrow> meta_db \<Rightarrow> (storage_error, nat \<times> meta_db) result" where
  "restamp_rows from into into_seq db =
     (let rows = map (restamp_row from into into_seq) (t_history db) in
      if \<not> distinct (map history_key rows) then Inl (db_err PrimaryKeyViolation)
      else if (\<exists>r \<in> set (t_history db). hr_commit r = from) \<and> find_commit db into = None
      then Inl (db_err ForeignKeyViolation)
      else Inr (count_rows (\<lambda>r. hr_commit r = from) (t_history db), db\<lparr>t_history := rows\<rparr>))"

definition repoint_refs :: "bytes \<Rightarrow> bytes \<Rightarrow> meta_db \<Rightarrow> (storage_error, meta_db) result" where
  "repoint_refs from into db =
     (if (\<exists>r \<in> set (t_refs db). rr_commit r = Some from) \<and> find_commit db into = None
      then Inl (db_err ForeignKeyViolation)
      else Inr (db\<lparr>t_refs := map (\<lambda>r. if rr_commit r = Some from then r\<lparr>rr_commit := Some into\<rparr> else r)
                             (t_refs db)\<rparr>))"

definition rewired_edges :: "bytes \<Rightarrow> (bytes \<times> bytes) list \<Rightarrow> (bytes \<times> bytes) list" where
  "rewired_edges from es =
     List.product (map fst (filter (\<lambda>e. snd e = from) es)) (map snd (filter (\<lambda>e. fst e = from) es))"

definition rewire_edges :: "bytes \<Rightarrow> meta_db \<Rightarrow> (storage_error, meta_db) result" where
  "rewire_edges from db =
     foldE (\<lambda>(c, p). insert_edge c p) (rewired_edges from (t_parents db)) db"

definition delete_edges_of :: "bytes \<Rightarrow> meta_db \<Rightarrow> meta_db" where
  "delete_edges_of from db =
     db\<lparr>t_parents := filter (\<lambda>e. fst e \<noteq> from \<and> snd e \<noteq> from) (t_parents db)\<rparr>"

text \<open>
  \<open>DELETE FROM commits\<close>: edges of the row as a child cascade; a row, a ref or a child edge that
  still names it refuses the delete.
\<close>

definition delete_commit :: "bytes \<Rightarrow> meta_db \<Rightarrow> (storage_error, meta_db) result" where
  "delete_commit b db =
     (if (\<exists>r \<in> set (t_history db). hr_commit r = b) \<or> (\<exists>r \<in> set (t_refs db). rr_commit r = Some b)
         \<or> (\<exists>e \<in> set (t_parents db). snd e = b \<and> fst e \<noteq> b)
      then Inl (db_err ForeignKeyViolation)
      else Inr (db\<lparr>t_commits := filter (\<lambda>r. cm_id r \<noteq> b) (t_commits db),
                  t_parents := filter (\<lambda>e. fst e \<noteq> b) (t_parents db)\<rparr>))"

definition retire_commit ::
  "commit_id \<Rightarrow> commit_id \<Rightarrow> meta_db \<Rightarrow> (storage_error, fold_outcome \<times> meta_db) result" where
  "retire_commit from into db =
     bindE (ok_or (StUnknownCommit from) (select_seq db (commit_param from))) (\<lambda>from_seq.
     bindE (ok_or (StUnknownCommit into) (select_seq db (commit_param into))) (\<lambda>into_seq.
       if into_seq \<le> from_seq then Inl (InvalidRetirement from into)
       else if count_rows (\<lambda>x. x = commit_param from)
                 (ancestors (t_parents db) (commit_param into)) = 0
       then Inl (UnrelatedRetirement from into)
       else let fb = commit_param from; ib = commit_param into in
            case delete_superseded fb ib from_seq db of (dropped, db1) \<Rightarrow>
            bindE (restamp_rows fb ib into_seq db1) (\<lambda>(folded, db2).
            bindE (repoint_refs fb ib db2) (\<lambda>db3.
            bindE (rewire_edges fb db3) (\<lambda>db4.
            bindE (delete_commit fb (delete_edges_of fb db4)) (\<lambda>db5.
              Inr (\<lparr>fo_folded = folded, fo_dropped = dropped\<rparr>, db5)))))))"

subsection \<open>The database after a retirement\<close>

definition retired_history :: "meta_db \<Rightarrow> bytes \<Rightarrow> bytes \<Rightarrow> int \<Rightarrow> int \<Rightarrow> history_row list" where
  "retired_history db from into from_seq into_seq =
     map (restamp_row from into into_seq)
       (filter (\<lambda>r. \<not> superseded_row db from into from_seq r) (t_history db))"

definition retired_edges :: "bytes \<Rightarrow> (bytes \<times> bytes) list \<Rightarrow> (bytes \<times> bytes) list" where
  "retired_edges from es =
     filter (\<lambda>e. fst e \<noteq> from \<and> snd e \<noteq> from)
       (fold (\<lambda>(c, p). add_edge c p) (rewired_edges from es) es)"

definition retired_refs :: "bytes \<Rightarrow> bytes \<Rightarrow> ref_row list \<Rightarrow> ref_row list" where
  "retired_refs from into rs =
     map (\<lambda>r. if rr_commit r = Some from then r\<lparr>rr_commit := Some into\<rparr> else r) rs"

definition retired_db :: "meta_db \<Rightarrow> bytes \<Rightarrow> bytes \<Rightarrow> int \<Rightarrow> int \<Rightarrow> meta_db" where
  "retired_db db from into from_seq into_seq =
     db\<lparr>t_history := retired_history db from into from_seq into_seq,
        t_refs := retired_refs from into (t_refs db),
        t_parents := retired_edges from (t_parents db),
        t_commits := filter (\<lambda>r. cm_id r \<noteq> from) (t_commits db)\<rparr>"

lemma superseded_iff:
  "superseded_row db from into s r \<longleftrightarrow>
     hr_commit r = from
     \<and> (\<exists>q \<in> set (t_history db). s < hr_seq q \<and> inherits db into (hr_commit q) \<and> hr_coord q = hr_coord r)"
  by (auto simp: superseded_row_def inherits_ancestors image_iff)

lemma set_fold_add_edge: "set (fold (\<lambda>(c, p). add_edge c p) xs es) = set es \<union> set xs"
  by (induction xs arbitrary: es) (auto simp: add_edge_def split: if_splits)

lemma distinct_fold_add_edge: "distinct es \<Longrightarrow> distinct (fold (\<lambda>(c, p). add_edge c p) xs es)"
  by (induction xs arbitrary: es) (auto simp: add_edge_def)

lemma set_rewired_edges: "set (rewired_edges f es) = {(c, p). (c, f) \<in> set es \<and> (f, p) \<in> set es}"
  by (force simp: rewired_edges_def)

lemma set_retired_edges: "set (retired_edges f es) = contract (set es) f"
  by (auto simp: retired_edges_def set_fold_add_edge set_rewired_edges contract_def)

lemma rewire_edges_ok:
  assumes "set xs \<subseteq> commit_ids db \<times> commit_ids db"
  shows "foldE (\<lambda>(c, p). insert_edge c p) xs db
     = Inr (db\<lparr>t_parents := fold (\<lambda>(c, p). add_edge c p) xs (t_parents db)\<rparr>)"
  using assms
proof (induction xs arbitrary: db)
  case (Cons e xs)
  obtain c p where e: "e = (c, p)" by (cases e)
  then have "insert_edge c p db = Inr (db\<lparr>t_parents := add_edge c p (t_parents db)\<rparr>)"
    using Cons.prems by (simp add: insert_edge_def add_edge_def)
  with e show ?case using Cons by simp
qed simp

lemma retired_history_keys:
  assumes wf: "wf_history db" and seqs: "select_seq db into = Some into_seq" "from_seq < into_seq"
    and ne: "from \<noteq> into"
  shows "distinct (map history_key (retired_history db from into from_seq into_seq))"
proof -
  let ?rows = "filter (\<lambda>r. \<not> superseded_row db from into from_seq r) (t_history db)"
  let ?s = "restamp_row from into into_seq"
  have dist: "distinct (t_history db)" using wf by (simp add: wf_history_def distinct_map)
  have "r = q" if r: "r \<in> set ?rows" and q: "q \<in> set ?rows"
    and eq: "history_key (?s r) = history_key (?s q)" for r q
  proof -
    have clash: False
      if x: "x \<in> set ?rows" "hr_commit x = from" and y: "y \<in> set ?rows" "hr_commit y = into"
        and xy: "hr_coord x = hr_coord y" for x y
    proof -
      have "hr_seq y = into_seq" using y wf seqs by (auto simp: wf_history_def)
      then have "superseded_row db from into from_seq x"
        unfolding superseded_iff using x y xy seqs
        by (intro conjI bexI [of _ y]) (simp_all add: inherits_def)
      with x show False by simp
    qed
    have coord: "hr_coord r = hr_coord q" using eq by (auto simp: history_key_def restamp_row_def hr_coord_def split: if_splits)
    have "hr_commit r = hr_commit q"
    proof (cases "hr_commit r = from"; cases "hr_commit q = from")
      assume "hr_commit r = from" "hr_commit q \<noteq> from"
      then show ?thesis using eq clash [OF r _ q] coord by (auto simp: history_key_def restamp_row_def)
    next
      assume "hr_commit r \<noteq> from" "hr_commit q = from"
      then show ?thesis using eq clash [OF q _ r] coord by (auto simp: history_key_def restamp_row_def)
    qed (use eq in \<open>auto simp: history_key_def restamp_row_def\<close>)
    with coord show ?thesis using history_unique [OF wf] r q by auto
  qed
  then have "inj_on (history_key \<circ> ?s) (set ?rows)" by (auto intro: inj_onI)
  then show ?thesis
    using dist by (simp add: retired_history_def distinct_map)
qed

text \<open>The outcome of \<open>retire_commit\<close> on every branch.\<close>

lemma retire_commit_eq:
  assumes wf: "wf_db db"
  shows "retire_commit from into db =
    (let fb = commit_param from; ib = commit_param into in
     case select_seq db fb of
       None \<Rightarrow> Inl (StUnknownCommit from)
     | Some fs \<Rightarrow>
       case select_seq db ib of
         None \<Rightarrow> Inl (StUnknownCommit into)
       | Some ts \<Rightarrow>
           if ts \<le> fs then Inl (InvalidRetirement from into)
           else if \<not> inherits db ib fb then Inl (UnrelatedRetirement from into)
           else Inr (\<lparr>fo_folded = count_rows (\<lambda>r. hr_commit r = fb \<and> \<not> superseded_row db fb ib fs r) (t_history db),
                      fo_dropped = count_rows (superseded_row db fb ib fs) (t_history db)\<rparr>,
                     retired_db db fb ib fs ts))"
proof -
  let ?fb = "commit_param from" and ?ib = "commit_param into"
  have count: "count_rows (\<lambda>x. x = ?fb) (ancestors (t_parents db) ?ib) = 0 \<longleftrightarrow> \<not> inherits db ?ib ?fb"
    by (auto simp: count_rows_def filter_empty_conv simp flip: inherits_ancestors)
  show ?thesis
  proof (cases "select_seq db ?fb")
    case None
    show ?thesis by (simp add: retire_commit_def None Let_def)
  next
    case fs: (Some fs)
    show ?thesis
    proof (cases "select_seq db ?ib")
      case None
      show ?thesis by (simp add: retire_commit_def None fs Let_def)
    next
      case ts: (Some ts)
      show ?thesis
      proof (cases "ts \<le> fs \<or> \<not> inherits db ?ib ?fb")
        case True
        then show ?thesis using fs ts by (auto simp: retire_commit_def count)
      next
        case False
        then have lt: "fs < ts" and inh: "inherits db ?ib ?fb" by simp_all
        then have ne: "?fb \<noteq> ?ib" using fs ts by auto
        have ib: "?ib \<in> commit_ids db" using ts by (rule select_seq_ids)
        let ?db1 = "db\<lparr>t_history := filter (\<lambda>r. \<not> superseded_row db ?fb ?ib fs r) (t_history db)\<rparr>"
        let ?db2 = "db\<lparr>t_history := retired_history db ?fb ?ib fs ts\<rparr>"
        let ?db3 = "?db2\<lparr>t_refs := retired_refs ?fb ?ib (t_refs db)\<rparr>"
        let ?es = "fold (\<lambda>(c, p). add_edge c p) (rewired_edges ?fb (t_parents db)) (t_parents db)"
        have 1: "delete_superseded ?fb ?ib fs db
            = (count_rows (superseded_row db ?fb ?ib fs) (t_history db), ?db1)"
          by (simp add: delete_superseded_def)
        have 2: "restamp_rows ?fb ?ib ts ?db1
            = Inr (count_rows (\<lambda>r. hr_commit r = ?fb \<and> \<not> superseded_row db ?fb ?ib fs r) (t_history db), ?db2)"
          using retired_history_keys [OF wf_dbD(4) [OF wf] ts lt ne] ib
          by (simp add: restamp_rows_def retired_history_def count_rows_def conj_commute)
        have 3: "repoint_refs ?fb ?ib ?db2 = Inr ?db3"
          using ib by (simp add: repoint_refs_def retired_refs_def)
        have "set (rewired_edges ?fb (t_parents db)) \<subseteq> commit_ids ?db3 \<times> commit_ids ?db3"
          using wf_dbD(3) [OF wf] by (auto simp: set_rewired_edges wf_edges_def)
        then have 4: "rewire_edges ?fb ?db3 = Inr (?db3\<lparr>t_parents := ?es\<rparr>)"
          using rewire_edges_ok [of "rewired_edges ?fb (t_parents db)" ?db3] by (simp add: rewire_edges_def)
        have "hr_commit r \<noteq> ?fb" if "r \<in> set (retired_history db ?fb ?ib fs ts)" for r
          using that ne by (auto simp: retired_history_def restamp_row_def)
        moreover have "rr_commit r \<noteq> Some ?fb" if "r \<in> set (retired_refs ?fb ?ib (t_refs db))" for r
          using that ne by (auto simp: retired_refs_def)
        ultimately have 5: "delete_commit ?fb (delete_edges_of ?fb (?db3\<lparr>t_parents := ?es\<rparr>))
            = Inr (retired_db db ?fb ?ib fs ts)"
          by (auto simp: delete_commit_def delete_edges_of_def retired_db_def retired_edges_def
              conj_commute intro: arg_cong2 [where f = filter])
        show ?thesis
          using fs ts lt inh by (simp add: retire_commit_def count 1 2 3 4 5)
      qed
    qed
  qed
qed

lemma retire_commit_ok:
  assumes "wf_db db" "retire_commit from into db = Inr (out, db')"
  obtains fs ts where "select_seq db (commit_param from) = Some fs"
    "select_seq db (commit_param into) = Some ts" "fs < ts"
    "inherits db (commit_param into) (commit_param from)"
    "db' = retired_db db (commit_param from) (commit_param into) fs ts"
  using assms(2) unfolding retire_commit_eq [OF assms(1)]
  by (auto simp: Let_def split: option.splits if_splits)

subsection \<open>The invariant is kept\<close>

lemma retired_db_sel [simp]:
  "t_history (retired_db db f i s t) = retired_history db f i s t"
  "t_refs (retired_db db f i s t) = retired_refs f i (t_refs db)"
  "t_parents (retired_db db f i s t) = retired_edges f (t_parents db)"
  "t_commits (retired_db db f i s t) = filter (\<lambda>r. cm_id r \<noteq> f) (t_commits db)"
  "commits_autoinc (retired_db db f i s t) = commits_autoinc db"
  "user_version (retired_db db f i s t) = user_version db"
  "commit_ids (retired_db db f i s t) = commit_ids db - {f}"
  "wf_scopes (retired_db db f i s t) = wf_scopes db"
  by (auto simp: retired_db_def commit_ids_def wf_scopes_def)

lemma find_filter_other: "find (\<lambda>r. P r \<and> Q r) xs = find P (filter Q xs)"
  by (induction xs) auto

lemma select_seq_retired:
  "select_seq (retired_db db f i s t) b = (if b = f then None else select_seq db b)"
proof (cases "b = f")
  case True
  then show ?thesis by simp
next
  case False
  then have eq: "(\<lambda>r. cm_id r = b \<and> cm_id r \<noteq> f) = (\<lambda>r. cm_id r = b)" by auto
  have "find (\<lambda>r. cm_id r = b) (filter (\<lambda>r. cm_id r \<noteq> f) (t_commits db))
      = find (\<lambda>r. cm_id r = b) (t_commits db)"
    using find_filter_other [of "\<lambda>r. cm_id r = b" "\<lambda>r. cm_id r \<noteq> f" "t_commits db"] unfolding eq by simp
  then show ?thesis using False by (simp add: select_seq_def find_commit_def)
qed

lemma set_retired_history:
  "r \<in> set (retired_history db f i s t) \<longleftrightarrow>
     (r \<in> set (t_history db) \<and> hr_commit r \<noteq> f)
     \<or> (\<exists>q \<in> set (t_history db). hr_commit q = f \<and> \<not> superseded_row db f i s q
          \<and> r = q\<lparr>hr_commit := i, hr_seq := t\<rparr>)"
  by (auto simp: retired_history_def restamp_row_def superseded_row_def)

lemma restamped_sel [simp]:
  "hr_coord (q\<lparr>hr_commit := i, hr_seq := t\<rparr>) = hr_coord q"
  "wf_history_row (q\<lparr>hr_commit := i, hr_seq := t\<rparr>) \<longleftrightarrow>
     length i = 32 \<and> in_i32 (hr_dim q) \<and> hr_kind q \<in> {0, 1, 2} \<and> in_i32 (hr_cx q) \<and> in_i32 (hr_cz q)
     \<and> wf_blob32 (hr_blob q)"
  by (auto simp: hr_coord_def wf_history_row_def)

lemma wf_refs_retired:
  assumes "wf_refs db" "i \<in> commit_ids db" "i \<noteq> f" "length i = 32"
  shows "wf_refs (retired_db db f i s t)"
proof -
  have names: "map rr_name (retired_refs f i rs) = map rr_name rs" for rs
    by (induction rs) (simp_all add: retired_refs_def)
  have active: "length (filter is_active_row (retired_refs f i rs)) = length (filter is_active_row rs)" for rs
    by (induction rs) (simp_all add: retired_refs_def is_active_row_def)
  have "wf_ref_row r \<and> (\<forall>x. rr_commit r = Some x \<longrightarrow> x \<in> commit_ids db - {f})"
    if "r \<in> set (retired_refs f i (t_refs db))" for r
    using that assms
    by (auto simp: retired_refs_def wf_ref_row_def wf_blob32_def wf_refs_def split: if_splits)
  then show ?thesis using assms(1) by (simp add: wf_refs_def names active)
qed

lemma wf_db_retired:
  assumes wf: "wf_db db" and f: "select_seq db f = Some s" and i: "select_seq db i = Some t"
    and lt: "s < t" and len: "length i = 32"
  shows "wf_db (retired_db db f i s t)"
proof (rule wf_dbI)
  have ne: "f \<noteq> i" using f i lt by auto
  show "wf_commits (retired_db db f i s t)"
    using wf_dbD(2) [OF wf] by (auto simp: wf_commits_def distinct_map intro: inj_on_subset)
  show "wf_edges (retired_db db f i s t)"
    using wf_dbD(3) [OF wf]
    by (auto simp: wf_edges_def retired_edges_def distinct_fold_add_edge set_fold_add_edge set_rewired_edges)
  have "wf_history_row r \<and> select_seq (retired_db db f i s t) (hr_commit r) = Some (hr_seq r)"
    if "r \<in> set (retired_history db f i s t)" for r
    using that wf_dbD(4) [OF wf] i ne len
    by (auto simp: set_retired_history wf_history_def select_seq_retired wf_history_row_def)
  then show "wf_history (retired_db db f i s t)"
    using retired_history_keys [OF wf_dbD(4) [OF wf] i lt ne] by (simp add: wf_history_def)
  show "wf_refs (retired_db db f i s t)"
    using wf_refs_retired [OF wf_dbD(5) [OF wf] select_seq_ids [OF i]] ne len by simp
qed (use wf_dbD [OF wf] in simp_all)

lemma wf_db_retire_commit:
  assumes "wf_db db" "retire_commit from into db = Inr (out, db')"
  shows "wf_db db'"
proof -
  obtain fs ts where "select_seq db (commit_param from) = Some fs"
    "select_seq db (commit_param into) = Some ts" "fs < ts"
    "db' = retired_db db (commit_param from) (commit_param into) fs ts"
    using retire_commit_ok [OF assms] by metis
  then show ?thesis using wf_db_retired [OF assms(1)] by simp
qed

subsection \<open>Sequences that follow the graph\<close>

text \<open>
  A commit recorded after its parents has a larger sequence; retirement keeps that. In such a
  database the graph is acyclic.
\<close>

definition seq_ordered :: "meta_db \<Rightarrow> bool" where
  "seq_ordered db \<longleftrightarrow>
     (\<forall>e \<in> set (t_parents db). \<exists>sc sp. select_seq db (fst e) = Some sc
        \<and> select_seq db (snd e) = Some sp \<and> sp < sc)"

definition linear_history :: "meta_db \<Rightarrow> bool" where
  "linear_history db \<longleftrightarrow> single_valued (set (t_parents db))"

lemma seq_ordered_code [code]:
  "seq_ordered db \<longleftrightarrow>
     (\<forall>e \<in> set (t_parents db).
        case select_seq db (fst e) of
          None \<Rightarrow> False
        | Some sc \<Rightarrow> (case select_seq db (snd e) of None \<Rightarrow> False | Some sp \<Rightarrow> sp < sc))"
proof -
  have "(\<exists>sc sp. x = Some sc \<and> y = Some sp \<and> sp < sc)
      \<longleftrightarrow> (case x of None \<Rightarrow> False | Some sc \<Rightarrow> (case y of None \<Rightarrow> False | Some sp \<Rightarrow> sp < sc))"
    for x y :: "int option"
    by (auto split: option.split)
  then show ?thesis by (simp add: seq_ordered_def)
qed

lemma linear_history_code [code]:
  "linear_history db \<longleftrightarrow>
     (\<forall>e \<in> set (t_parents db). \<forall>g \<in> set (t_parents db). fst e = fst g \<longrightarrow> snd e = snd g)"
  by (force simp: linear_history_def single_valued_def)

lemma inherits_seq:
  assumes "seq_ordered db" "inherits db b a" "select_seq db b = Some sb" "a \<noteq> b"
  shows "\<exists>sa. select_seq db a = Some sa \<and> sa < sb"
proof -
  have "a = b \<or> (\<exists>sa. select_seq db a = Some sa \<and> sa < sb)"
    using assms(2) unfolding inherits_def
  proof (induction rule: rtrancl_induct)
    case (step y z)
    then obtain sy sz where "select_seq db y = Some sy" "select_seq db z = Some sz" "sz < sy"
      using assms(1) by (force simp: seq_ordered_def)
    with step.IH assms(3) show ?case by auto
  qed simp
  with assms(4) show ?thesis by simp
qed

lemma seq_ordered_retired:
  assumes so: "seq_ordered db" and f: "select_seq db f = Some s"
  shows "seq_ordered (retired_db db f i s t)"
  unfolding seq_ordered_def
proof
  fix e
  assume "e \<in> set (t_parents (retired_db db f i s t))"
  then have e: "fst e \<noteq> f" "snd e \<noteq> f"
    "e \<in> set (t_parents db) \<or> ((fst e, f) \<in> set (t_parents db) \<and> (f, snd e) \<in> set (t_parents db))"
    by (auto simp: set_retired_edges contract_def)
  have "\<exists>sc sp. select_seq db (fst e) = Some sc \<and> select_seq db (snd e) = Some sp \<and> sp < sc"
    using e(3)
  proof
    assume "(fst e, f) \<in> set (t_parents db) \<and> (f, snd e) \<in> set (t_parents db)"
    then obtain a b c d where "select_seq db (fst e) = Some a" "select_seq db f = Some b" "b < a"
      "select_seq db f = Some c" "select_seq db (snd e) = Some d" "d < c"
      using so unfolding seq_ordered_def by (metis fst_conv snd_conv)
    then show ?thesis by auto
  qed (use so in \<open>simp add: seq_ordered_def\<close>)
  with e(1,2) show "\<exists>sc sp. select_seq (retired_db db f i s t) (fst e) = Some sc
      \<and> select_seq (retired_db db f i s t) (snd e) = Some sp \<and> sp < sc"
    by (simp add: select_seq_retired)
qed

lemma linear_history_retired:
  "linear_history db \<Longrightarrow> linear_history (retired_db db f i s t)"
  by (simp add: linear_history_def set_retired_edges contract_single_valued)

lemma inherits_retired:
  "b \<noteq> f \<Longrightarrow> a \<noteq> f \<Longrightarrow> inherits (retired_db db f i s t) b a \<longleftrightarrow> inherits db b a"
  by (simp add: inherits_def set_retired_edges contract_reach)

lemma not_inherits_retired: "b \<noteq> f \<Longrightarrow> \<not> inherits (retired_db db f i s t) b f"
  using contract_reach_avoids [of b f "set (t_parents db)" f] by (auto simp: inherits_def set_retired_edges)

subsection \<open>Effective states are kept\<close>

text \<open>
  \<open>blob_at\<close> is the effective state of a coordinate at a commit: \<open>None\<close> when no row of it was ever
  recorded on its history, \<open>Some None\<close> a tombstone. The condition on \<open>b\<close> is what \<open>fold_target\<close> of
  the prune use case establishes.
\<close>

definition blob_at :: "meta_db \<Rightarrow> bytes \<Rightarrow> coord_cols \<Rightarrow> bytes option option" where
  "blob_at db b k = map_option hr_blob (lookup_row db b k)"

lemma blob_at_row:
  assumes "wf_commits db" "wf_history db" "r \<in> set (t_history db)" "hr_coord r = k"
    and "inherits db b (hr_commit r)"
    and "\<And>q. q \<in> set (t_history db) \<Longrightarrow> hr_coord q = k \<Longrightarrow> inherits db b (hr_commit q) \<Longrightarrow> hr_seq q \<le> hr_seq r"
  shows "blob_at db b k = Some (hr_blob r)"
proof -
  have "lookup_row db b k = Some r" using assms by (simp add: lookup_row_Some)
  then show ?thesis by (simp add: blob_at_def)
qed

lemma inherits_trans: "inherits db a b \<Longrightarrow> inherits db b c \<Longrightarrow> inherits db a c"
  by (simp add: inherits_def rtrancl_trans)

lemma retired_rows_seen:
  assumes "b \<noteq> f"
  shows "(q \<in> set (retired_history db f i s t) \<and> inherits (retired_db db f i s t) b (hr_commit q))
    \<longleftrightarrow> (q \<in> set (t_history db) \<and> hr_commit q \<noteq> f \<and> inherits db b (hr_commit q))
      \<or> (i \<noteq> f \<and> inherits db b i \<and> (\<exists>p \<in> set (t_history db). hr_commit p = f \<and> \<not> superseded_row db f i s p
            \<and> q = p\<lparr>hr_commit := i, hr_seq := t\<rparr>))"
  using assms inherits_retired [OF assms, of _ db i s t] not_inherits_retired [OF assms, of db i s t]
  by (cases "i = f") (auto simp: set_retired_history)

lemma blob_at_retired:
  assumes wf: "wf_db db" and so: "seq_ordered db" and lin: "linear_history db"
    and f: "select_seq db f = Some s" and i: "select_seq db i = Some t" and lt: "s < t"
    and desc: "inherits db i f" and len: "length i = 32"
    and b: "b \<noteq> f" and thru: "inherits db b f \<Longrightarrow> inherits db b i"
  shows "blob_at (retired_db db f i s t) b k = blob_at db b k"
proof -
  let ?db' = "retired_db db f i s t"
  have wfd: "wf_commits db" "wf_history db" and wf': "wf_commits ?db'" "wf_history ?db'"
    using wf_dbD [OF wf] wf_dbD [OF wf_db_retired [OF wf f i lt len]] by blast+
  have fi: "i \<noteq> f" using f i lt by auto
  have seqf: "hr_seq q = s" if "q \<in> set (t_history db)" "hr_commit q = f" for q
    using that wfd(2) f by (auto simp: wf_history_def)
  note seen = retired_rows_seen [OF b]
  show ?thesis
  proof (cases "lookup_row db b k")
    case None
    then have none: "\<not> inherits db b (hr_commit q)" if "q \<in> set (t_history db)" "hr_coord q = k" for q
      using that by (simp add: lookup_row_None)
    have "\<not> inherits ?db' b (hr_commit q)" if q: "q \<in> set (t_history ?db')" "hr_coord q = k" for q
    proof
      assume "inherits ?db' b (hr_commit q)"
      then consider "q \<in> set (t_history db)" "inherits db b (hr_commit q)"
        | p where "inherits db b i" "p \<in> set (t_history db)" "hr_commit p = f" "hr_coord p = k"
        using seen [of q db i s t] q by auto
      then show False
      proof cases
        case 2
        then show False using none [of p] inherits_trans [OF 2(1) desc] by simp
      qed (use none q(2) in simp)
    qed
    then have "lookup_row ?db' b k = None" by (simp add: lookup_row_None del: retired_db_sel)
    with None show ?thesis by (simp add: blob_at_def)
  next
    case (Some r)
    then have r: "r \<in> set (t_history db)" "hr_coord r = k" "inherits db b (hr_commit r)"
      and rmax: "\<And>q. q \<in> set (t_history db) \<Longrightarrow> hr_coord q = k \<Longrightarrow> inherits db b (hr_commit q)
        \<Longrightarrow> hr_seq q \<le> hr_seq r"
      by (simp_all add: lookup_row_Some [OF wfd])
    have old: "blob_at db b k = Some (hr_blob r)" using Some by (simp add: blob_at_def)
    show ?thesis
    proof (cases "hr_commit r = f")
      case True
      then have bi: "inherits db b i" using thru r(3) by simp
      have "\<not> superseded_row db f i s r"
      proof
        assume "superseded_row db f i s r"
        then obtain q where "q \<in> set (t_history db)" "s < hr_seq q" "inherits db i (hr_commit q)"
          "hr_coord q = hr_coord r" by (auto simp: superseded_iff)
        then show False using rmax [of q] r(2) seqf [OF r(1) True] inherits_trans [OF bi] by simp
      qed
      then have mem: "r\<lparr>hr_commit := i, hr_seq := t\<rparr> \<in> set (t_history ?db')"
        using r(1) True by (auto simp: set_retired_history)
      have "blob_at ?db' b k = Some (hr_blob (r\<lparr>hr_commit := i, hr_seq := t\<rparr>))"
      proof (rule blob_at_row [OF wf' mem])
        show "inherits ?db' b (hr_commit (r\<lparr>hr_commit := i, hr_seq := t\<rparr>))"
          using inherits_retired [OF b fi] bi by simp
        fix q
        assume q: "q \<in> set (t_history ?db')" "hr_coord q = k" "inherits ?db' b (hr_commit q)"
        then have "(q \<in> set (t_history db) \<and> inherits db b (hr_commit q)) \<or> hr_seq q = t"
          using seen [of q db i s t] by auto
        then show "hr_seq q \<le> hr_seq (r\<lparr>hr_commit := i, hr_seq := t\<rparr>)"
          using rmax [of q] q(2) seqf [OF r(1) True] lt by auto
      qed (use r in simp)
      with old show ?thesis by simp
    next
      case False
      have mem: "r \<in> set (t_history ?db')" using r(1) False by (simp add: set_retired_history)
      have "blob_at ?db' b k = Some (hr_blob r)"
      proof (rule blob_at_row [OF wf' mem r(2)])
        show "inherits ?db' b (hr_commit r)" using inherits_retired [OF b False] r(3) by simp
        fix q
        assume q: "q \<in> set (t_history ?db')" "hr_coord q = k" "inherits ?db' b (hr_commit q)"
        then consider "q \<in> set (t_history db)" "inherits db b (hr_commit q)"
          | p where "inherits db b i" "p \<in> set (t_history db)" "hr_commit p = f" "hr_coord p = k"
            "\<not> superseded_row db f i s p" "hr_seq q = t"
          using seen [of q db i s t] by auto
        then show "hr_seq q \<le> hr_seq r"
        proof cases
          case 1
          then show ?thesis using rmax q(2) by simp
        next
          case 2
          have "inherits db b f" using 2(1) desc by (rule inherits_trans)
          then have "s \<le> hr_seq r" using rmax [of p] 2 seqf [OF 2(2,3)] by simp
          moreover have "hr_seq r \<noteq> s"
          proof
            assume "hr_seq r = s"
            then have "hr_seq r = hr_seq p" using seqf [OF 2(2,3)] by simp
            then show False using same_seq_rows [OF wfd r(1) 2(2)] 2(3) False by simp
          qed
          ultimately have "s < hr_seq r" by simp
          then have not_i: "\<not> inherits db i (hr_commit r)"
            using 2(3,4,5) r(1,2) by (auto simp: superseded_iff)
          then have ri: "inherits db (hr_commit r) i"
            using single_valued_chain [of "set (t_parents db)" b i "hr_commit r"] lin 2(1) r(3)
            by (auto simp: linear_history_def inherits_def)
          have "select_seq db (hr_commit r) = Some (hr_seq r)" using wfd(2) r(1) by (simp add: wf_history_def)
          moreover have "i \<noteq> hr_commit r" using not_i by auto
          ultimately show ?thesis using inherits_seq [OF so ri] i 2(6) by auto
        qed
      qed
      with old show ?thesis by simp
    qed
  qed
qed

end
