(* ===== verification/Meta_Refs.thy ===== *)
theory Meta_Refs
  imports Meta_Reads
begin

section \<open>Refs\<close>

text \<open>
  The branch model of \<open>crates/storage-sqlite/src/meta.rs\<close>: named pointers to commits, one of them
  active. The lemmas give every operation's outcome on a well-formed database, show that it stays
  well-formed, and that a store that has an active ref keeps exactly one.
\<close>

definition ref_row_named :: "rstr \<Rightarrow> ref_row \<Rightarrow> bool" where
  "ref_row_named n r \<longleftrightarrow> rr_name r = n"

text \<open>\<open>INSERT ... ON CONFLICT(name) DO UPDATE SET commit_id = excluded.commit_id\<close>.\<close>

definition upsert_ref :: "rstr \<Rightarrow> bytes option \<Rightarrow> int \<Rightarrow> ref_row list \<Rightarrow> ref_row list" where
  "upsert_ref n stored ms rows =
     (if \<exists>r \<in> set rows. ref_row_named n r
      then map (\<lambda>r. if ref_row_named n r then r\<lparr>rr_commit := stored\<rparr> else r) rows
      else rows @ [\<lparr>rr_name = n, rr_commit = stored, rr_active = 0, rr_created_at_ms = ms\<rparr>])"

definition set_ref ::
  "ref_name \<Rightarrow> commit_id option \<Rightarrow> u64 \<Rightarrow> meta_db \<Rightarrow> (storage_error, meta_db) result" where
  "set_ref name commit t db =
     bindE (millis_param t) (\<lambda>ms.
     bindE (case commit of
              None \<Rightarrow> Inr ()
            | Some i \<Rightarrow> if find_commit db (commit_param i) = None then Inl (StUnknownCommit i) else Inr ()) (\<lambda>_.
       Inr (db\<lparr>t_refs := upsert_ref (ref_str name) (map_option commit_param commit) ms (t_refs db)\<rparr>)))"

definition lookup_ref :: "meta_db \<Rightarrow> ref_name \<Rightarrow> (storage_error, commit_ref option) result" where
  "lookup_ref db name =
     (case find (ref_row_named (ref_str name)) (t_refs db) of
        None \<Rightarrow> Inr None
      | Some r \<Rightarrow> bindE (decode_ref r) (\<lambda>x. Inr (Some x)))"

definition visit_refs :: "meta_db \<Rightarrow> (storage_error, commit_ref) visit" where
  "visit_refs db = decode_visit decode_ref (sort_key rr_name (t_refs db))"

definition delete_ref :: "ref_name \<Rightarrow> meta_db \<Rightarrow> (storage_error, bool \<times> meta_db) result" where
  "delete_ref name db =
     (let doomed = (\<lambda>r. ref_row_named (ref_str name) r \<and> rr_active r = 0);
          db' = db\<lparr>t_refs := filter (\<lambda>r. \<not> doomed r) (t_refs db)\<rparr>
      in if filter doomed (t_refs db) \<noteq> [] then Inr (True, db')
         else case find (\<lambda>r. ref_row_named (ref_str name) r \<and> is_active_row r) (t_refs db') of
                Some _ \<Rightarrow> Inl (ActiveRefProtected (ref_str name))
              | None \<Rightarrow> Inr (False, db'))"

text \<open>\<open>decode_ref\<close> of a row joined with the commit it names: the target must exist.\<close>

definition decode_joined_ref :: "meta_db \<Rightarrow> ref_row \<Rightarrow> (storage_error, commit_ref) result" where
  "decode_joined_ref db r =
     (let target = (case rr_commit r of None \<Rightarrow> None | Some b \<Rightarrow> map_option cm_id (find_commit db b)) in
      bindE (decode_ref r) (\<lambda>rec.
        case cr_commit rec of
          Some i \<Rightarrow> if target = None then Inl (StUnknownCommit i) else Inr rec
        | None \<Rightarrow> Inr rec))"

definition active_ref :: "meta_db \<Rightarrow> (storage_error, commit_ref option) result" where
  "active_ref db =
     (case find is_active_row (t_refs db) of
        None \<Rightarrow> Inr None
      | Some r \<Rightarrow> bindE (decode_joined_ref db r) (\<lambda>rec. Inr (Some rec)))"

definition activate_ref :: "ref_name \<Rightarrow> meta_db \<Rightarrow> (storage_error, meta_db) result" where
  "activate_ref name db =
     bindE (ok_or (UnknownRef (ref_str name)) (find (ref_row_named (ref_str name)) (t_refs db))) (\<lambda>r.
     bindE (decode_joined_ref db r) (\<lambda>_.
       let cleared = map (\<lambda>r. if is_active_row r then r\<lparr>rr_active := 0\<rparr> else r) (t_refs db);
           marked = map (\<lambda>r. if ref_row_named (ref_str name) r then r\<lparr>rr_active := 1\<rparr> else r) cleared
       in if filter (ref_row_named (ref_str name)) cleared = [] then Inl (UnknownRef (ref_str name))
          else if length (filter is_active_row marked) > 1 then Inl (db_err UniqueViolation)
          else Inr (db\<lparr>t_refs := marked\<rparr>)))"

subsection \<open>The refs a database holds\<close>

definition ref_of_row :: "ref_row \<Rightarrow> commit_ref" where
  "ref_of_row r =
     commit_ref_new (RefName (rr_name r)) (map_option hash_of_bytes (rr_commit r)) (rr_active r = 1)
       (word_of_int (rr_created_at_ms r))"

definition refs_view :: "meta_db \<Rightarrow> ref_name \<Rightarrow> commit_ref option" where
  "refs_view db n = map_option ref_of_row (find (ref_row_named (ref_str n)) (t_refs db))"

definition active_count :: "meta_db \<Rightarrow> nat" where
  "active_count db = length (filter is_active_row (t_refs db))"

lemma ref_of_row_sel [simp]:
  "cr_name (ref_of_row r) = RefName (rr_name r)"
  "cr_commit (ref_of_row r) = map_option hash_of_bytes (rr_commit r)"
  "cr_active (ref_of_row r) \<longleftrightarrow> is_active_row r"
  by (simp_all add: ref_of_row_def commit_ref_new_def is_active_row_def)

lemma wf_refs_decode: "wf_refs db \<Longrightarrow> r \<in> set (t_refs db) \<Longrightarrow> decode_ref r = Inr (ref_of_row r)"
  by (simp add: wf_refs_def decode_ref_wf ref_of_row_def)

lemma find_ref_Some:
  assumes "wf_refs db"
  shows "find (ref_row_named n) (t_refs db) = Some r \<longleftrightarrow> r \<in> set (t_refs db) \<and> rr_name r = n"
proof
  assume "find (ref_row_named n) (t_refs db) = Some r"
  then show "r \<in> set (t_refs db) \<and> rr_name r = n" by (auto simp: find_Some_iff ref_row_named_def)
next
  assume r: "r \<in> set (t_refs db) \<and> rr_name r = n"
  then have "find (ref_row_named n) (t_refs db) \<noteq> None" by (auto simp: find_None_iff ref_row_named_def)
  then obtain q where q: "find (ref_row_named n) (t_refs db) = Some q" by blast
  then have "q \<in> set (t_refs db)" "rr_name q = rr_name r" using r by (auto simp: find_Some_iff ref_row_named_def)
  moreover have "inj_on rr_name (set (t_refs db))" using assms by (simp add: wf_refs_def distinct_map)
  ultimately have "q = r" using r by (auto dest: inj_onD)
  with q show "find (ref_row_named n) (t_refs db) = Some r" by simp
qed

lemma find_ref_unique:
  assumes "wf_refs db" "find (ref_row_named n) (t_refs db) = Some r" "q \<in> set (t_refs db)" "rr_name q = n"
  shows "q = r"
proof -
  have "find (ref_row_named n) (t_refs db) = Some q" using assms by (simp add: find_ref_Some)
  with assms(2) show ?thesis by simp
qed

lemma lookup_ref_wf:
  assumes "wf_refs db"
  shows "lookup_ref db n = Inr (refs_view db n)"
proof (cases "find (ref_row_named (ref_str n)) (t_refs db)")
  case (Some r)
  then have "r \<in> set (t_refs db)" by (auto simp: find_Some_iff)
  then show ?thesis using Some by (simp add: lookup_ref_def refs_view_def wf_refs_decode [OF assms])
qed (simp add: lookup_ref_def refs_view_def)

lemma visit_refs_wf:
  "wf_refs db \<Longrightarrow> visit_refs db = (map ref_of_row (sort_key rr_name (t_refs db)), None)"
  unfolding visit_refs_def by (intro decode_visit_ok) (simp add: wf_refs_decode)

lemma decode_joined_wf:
  assumes "wf_refs db" "r \<in> set (t_refs db)"
  shows "decode_joined_ref db r = Inr (ref_of_row r)"
proof -
  have "find_commit db b \<noteq> None" if "rr_commit r = Some b" for b
    using that assms by (simp add: wf_refs_def)
  then show ?thesis using wf_refs_decode [OF assms]
    by (cases "rr_commit r") (auto simp: decode_joined_ref_def)
qed

lemma active_unique:
  assumes "wf_refs db" "r \<in> set (t_refs db)" "is_active_row r" "q \<in> set (t_refs db)" "is_active_row q"
  shows "r = q"
proof -
  have "length (filter is_active_row (t_refs db)) \<le> 1" using assms(1) by (simp add: wf_refs_def)
  then obtain x where "set (filter is_active_row (t_refs db)) \<subseteq> {x}"
    by (cases "filter is_active_row (t_refs db)") auto
  with assms show ?thesis by auto
qed

lemma active_ref_wf:
  assumes "wf_refs db"
  shows "active_ref db = Inr (map_option ref_of_row (find is_active_row (t_refs db)))"
proof (cases "find is_active_row (t_refs db)")
  case (Some r)
  then have "r \<in> set (t_refs db)" by (auto simp: find_Some_iff)
  then show ?thesis using Some by (simp add: active_ref_def decode_joined_wf [OF assms])
qed (simp add: active_ref_def)

subsection \<open>Outcomes\<close>

lemma wf_ref_name:
  assumes "r \<in> set (t_refs db)" "wf_refs db"
  shows "valid_ref_name (rr_name r)"
  using assms by (simp add: wf_refs_def wf_ref_row_def)

lemma find_map_same:
  assumes "\<And>x. x \<in> set xs \<Longrightarrow> P (f x) = P x"
  shows "find P (map f xs) = map_option f (find P xs)"
  using assms by (induction xs) auto

lemma refs_view_map:
  assumes "\<And>r. rr_name (f r) = rr_name r"
  shows "find (ref_row_named n) (map f (t_refs db)) = map_option f (find (ref_row_named n) (t_refs db))"
  by (rule find_map_same) (simp add: ref_row_named_def assms)

lemma set_ref_spec:
  assumes wf: "wf_db db" and ok: "set_ref n c t db = Inr db'" and n: "valid_ref_name (ref_str n)"
  shows "wf_db db' \<and> active_count db' = active_count db
    \<and> refs_view db' n = (case refs_view db n of
         Some r \<Rightarrow> Some (r\<lparr>cr_commit := c\<rparr>)
       | None \<Rightarrow> Some (commit_ref_new n c False t))
    \<and> (\<forall>m. m \<noteq> n \<longrightarrow> refs_view db' m = refs_view db m)
    \<and> t_commits db' = t_commits db \<and> t_parents db' = t_parents db \<and> t_history db' = t_history db"
proof -
  let ?stored = "map_option commit_param c"
  let ?n = "ref_str n"
  obtain ms where ms: "millis_param t = Inr ms"
    and c: "\<And>i. c = Some i \<Longrightarrow> commit_param i \<in> commit_ids db"
    and db': "db' = db\<lparr>t_refs := upsert_ref ?n ?stored ms (t_refs db)\<rparr>"
    using ok unfolding set_ref_def by (cases c) (auto simp: bindE_eq_Inr split: if_splits)
  have wr: "wf_refs db" using wf by (simp add: wf_db_def)
  have stored: "wf_blob32 ?stored" "\<And>b. ?stored = Some b \<Longrightarrow> b \<in> commit_ids db"
    using c by (auto simp: wf_blob32_def split: option.split)
  have inv: "map_option hash_of_bytes ?stored = c" by (cases c) simp_all
  have nm: "RefName ?n = n" by (cases n) simp
  have others: "ref_str m \<noteq> ?n" if "m \<noteq> n" for m using that by (cases m; cases n) simp
  show ?thesis
  proof (cases "\<exists>r \<in> set (t_refs db). ref_row_named ?n r")
    case True
    let ?f = "\<lambda>r. if ref_row_named ?n r then r\<lparr>rr_commit := ?stored\<rparr> else r"
    have db1: "db' = db\<lparr>t_refs := map ?f (t_refs db)\<rparr>" using db' True by (simp add: upsert_ref_def)
    have names: "map rr_name (map ?f xs) = map rr_name xs" for xs by (induction xs) auto
    have act: "filter is_active_row (map ?f xs) = map ?f (filter is_active_row xs)" for xs
      by (induction xs) (auto simp: is_active_row_def)
    have rows: "wf_ref_row r \<and> (\<forall>b. rr_commit r = Some b \<longrightarrow> b \<in> commit_ids db)" if "r \<in> set (map ?f (t_refs db))" for r
      using that wr stored by (auto simp: wf_refs_def wf_ref_row_def split: if_splits)
    have wr': "wf_refs db'"
      unfolding wf_refs_def db1 using wr rows names act by (simp add: wf_refs_def del: map_map set_map)
    have find: "find (ref_row_named m) (t_refs db') = map_option ?f (find (ref_row_named m) (t_refs db))" for m
      unfolding db1 by (simp add: refs_view_map)
    obtain r where r: "find (ref_row_named ?n) (t_refs db) = Some r"
      using True by (metis find_None_iff not_Some_eq)
    then have rn: "ref_row_named ?n r" by (auto simp: find_Some_iff)
    have "refs_view db' n = Some ((ref_of_row r)\<lparr>cr_commit := c\<rparr>)"
      using r rn inv by (simp add: refs_view_def find ref_of_row_def commit_ref_new_def)
    moreover have "refs_view db' m = refs_view db m" if "m \<noteq> n" for m
    proof (cases "find (ref_row_named (ref_str m)) (t_refs db)")
      case (Some q)
      then have "\<not> ref_row_named ?n q" using others [OF that] by (auto simp: find_Some_iff ref_row_named_def)
      with Some show ?thesis by (simp add: refs_view_def find)
    qed (simp add: refs_view_def find)
    ultimately show ?thesis
      using wf wr' r act by (simp add: wf_db_def refs_view_def active_count_def db1 del: map_map)
  next
    case False
    let ?new = "\<lparr>rr_name = ?n, rr_commit = ?stored, rr_active = 0, rr_created_at_ms = ms\<rparr>"
    have db1: "db' = db\<lparr>t_refs := t_refs db @ [?new]\<rparr>" using db' False by (simp add: upsert_ref_def)
    have "wf_ref_row ?new" using n stored(1) millis_param_ok [OF ms] by (simp add: wf_ref_row_def)
    then have wr': "wf_refs db'"
      unfolding db1 using wr False stored(2) by (auto simp: wf_refs_def ref_row_named_def is_active_row_def)
    have none: "find (ref_row_named ?n) (t_refs db) = None" using False by (auto simp: find_None_iff)
    have "ref_of_row ?new = commit_ref_new n c False t"
      using inv nm millis_param_ok [OF ms] by (simp add: ref_of_row_def)
    then have "refs_view db' n = Some (commit_ref_new n c False t)"
      using none by (simp add: refs_view_def db1 find_append_cases ref_row_named_def)
    moreover have "refs_view db' m = refs_view db m" if "m \<noteq> n" for m
      using others [OF that]
      by (auto simp: refs_view_def db1 find_append_cases ref_row_named_def split: option.split)
    ultimately show ?thesis
      using wf wr' none by (simp add: wf_db_def refs_view_def active_count_def db1 is_active_row_def)
  qed
qed

lemma set_ref_errors:
  "set_ref n c t db = Inl e \<Longrightarrow>
     millis_param t = Inl e \<or> (\<exists>i. c = Some i \<and> commit_param i \<notin> commit_ids db \<and> e = StUnknownCommit i)"
  unfolding set_ref_def by (cases c) (auto simp: bindE_eq_Inl split: if_splits)

lemma delete_ref_spec:
  assumes wf: "wf_db db"
  shows "delete_ref n db =
    (case refs_view db n of
       None \<Rightarrow> Inr (False, db)
     | Some r \<Rightarrow>
         if cr_active r then Inl (ActiveRefProtected (ref_str n))
         else Inr (True, db\<lparr>t_refs := filter (\<lambda>r. rr_name r \<noteq> ref_str n) (t_refs db)\<rparr>))"
proof (cases "find (ref_row_named (ref_str n)) (t_refs db)")
  case None
  then have no: "\<not> ref_row_named (ref_str n) r" if "r \<in> set (t_refs db)" for r
    using that by (auto simp: find_None_iff)
  then have keep: "filter (\<lambda>r. ref_row_named (ref_str n) r \<longrightarrow> rr_active r \<noteq> 0) (t_refs db) = t_refs db"
    by (simp add: filter_id_conv)
  have "filter (\<lambda>r. ref_row_named (ref_str n) r \<and> rr_active r = 0) (t_refs db) = []"
    using no by (auto simp: filter_empty_conv)
  moreover have "find (\<lambda>r. ref_row_named (ref_str n) r \<and> is_active_row r) (t_refs db) = None"
    using no by (auto simp: find_None_iff)
  ultimately show ?thesis using None keep by (simp add: delete_ref_def Let_def refs_view_def)
next
  case (Some r)
  have wr: "wf_refs db" using wf by (simp add: wf_db_def)
  from Some have r: "r \<in> set (t_refs db)" "rr_name r = ref_str n" by (auto simp: find_ref_Some [OF wr])
  have uniq: "q = r" if "q \<in> set (t_refs db)" "rr_name q = ref_str n" for q
    using find_ref_unique [OF wr Some that] .
  have act: "rr_active r = 0 \<or> rr_active r = 1" using r wr by (auto simp: wf_refs_def wf_ref_row_def)
  show ?thesis
  proof (cases "rr_active r = 0")
    case True
    have "filter (\<lambda>r. ref_row_named (ref_str n) r \<longrightarrow> rr_active r \<noteq> 0) (t_refs db)
        = filter (\<lambda>r. rr_name r \<noteq> ref_str n) (t_refs db)"
      using uniq True by (intro filter_cong) (auto simp: ref_row_named_def)
    moreover have "filter (\<lambda>r. ref_row_named (ref_str n) r \<and> rr_active r = 0) (t_refs db) \<noteq> []"
      using r True by (auto simp: filter_empty_conv ref_row_named_def)
    ultimately show ?thesis
      using Some True by (simp add: delete_ref_def Let_def refs_view_def is_active_row_def)
  next
    case False
    have none: "filter (\<lambda>r. ref_row_named (ref_str n) r \<and> rr_active r = 0) (t_refs db) = []"
      using uniq False by (auto simp: filter_empty_conv ref_row_named_def)
    then have "filter (\<lambda>r. ref_row_named (ref_str n) r \<longrightarrow> rr_active r \<noteq> 0) (t_refs db) = t_refs db"
      by (auto simp: filter_id_conv filter_empty_conv)
    moreover have "find (\<lambda>r. ref_row_named (ref_str n) r \<and> is_active_row r) (t_refs db) \<noteq> None"
      using r False act by (auto simp: find_None_iff ref_row_named_def is_active_row_def)
    ultimately show ?thesis
      using Some False act none by (auto simp: delete_ref_def Let_def refs_view_def is_active_row_def)
  qed
qed

lemma wf_refs_filter: "wf_refs db \<Longrightarrow> wf_refs (db\<lparr>t_refs := filter P (t_refs db)\<rparr>)"
proof -
  assume wf: "wf_refs db"
  have "length (filter P (filter is_active_row xs)) \<le> length (filter is_active_row xs)" for xs
    by (rule length_filter_le)
  moreover have "filter is_active_row (filter P xs) = filter P (filter is_active_row xs)" for xs
    by (induction xs) auto
  ultimately have "length (filter is_active_row (filter P (t_refs db))) \<le> 1"
    using wf unfolding wf_refs_def by (metis le_trans)
  with wf show ?thesis by (auto simp: wf_refs_def distinct_map intro: inj_on_subset)
qed

lemma delete_ref_ok:
  assumes wf: "wf_db db" and ok: "delete_ref n db = Inr (b, db')"
  shows "wf_db db' \<and> active_count db' = active_count db
    \<and> (b \<longleftrightarrow> refs_view db n \<noteq> None) \<and> refs_view db' n = None
    \<and> (\<forall>m. m \<noteq> n \<longrightarrow> refs_view db' m = refs_view db m)"
proof (cases "refs_view db n")
  case None
  then show ?thesis using ok wf by (simp add: delete_ref_spec [OF wf])
next
  case (Some rec)
  have wr: "wf_refs db" using wf by (simp add: wf_db_def)
  from Some obtain r where r: "find (ref_row_named (ref_str n)) (t_refs db) = Some r" "rec = ref_of_row r"
    by (auto simp: refs_view_def)
  have eq: "b" "\<not> cr_active rec" "db' = db\<lparr>t_refs := filter (\<lambda>r. rr_name r \<noteq> ref_str n) (t_refs db)\<rparr>"
    using ok Some by (auto simp: delete_ref_spec [OF wf] split: if_splits)
  have "\<not> is_active_row q" if "q \<in> set (t_refs db)" "rr_name q = ref_str n" for q
    using find_ref_unique [OF wr r(1) that] r(2) eq(2) by simp
  then have act: "filter is_active_row (filter (\<lambda>r. rr_name r \<noteq> ref_str n) (t_refs db)) = filter is_active_row (t_refs db)"
    unfolding filter_filter by (intro filter_cong) auto
  have "refs_view db' m = refs_view db m" if "m \<noteq> n" for m
  proof -
    have "ref_str m \<noteq> ref_str n" using that by (cases m; cases n) simp
    then have "(\<lambda>r. ref_row_named (ref_str m) r \<and> rr_name r \<noteq> ref_str n) = ref_row_named (ref_str m)"
      by (auto simp: ref_row_named_def fun_eq_iff)
    moreover have "find P (filter Q xs) = find (\<lambda>x. P x \<and> Q x) xs" for P Q and xs :: "ref_row list"
      by (induction xs) auto
    ultimately show ?thesis by (simp add: refs_view_def eq(3))
  qed
  moreover have "refs_view db' n = None"
    by (auto simp: refs_view_def eq(3) find_None_iff ref_row_named_def)
  moreover have "wf_refs db'" unfolding eq(3) by (rule wf_refs_filter [OF wr])
  ultimately show ?thesis
    using Some eq(1) wf act unfolding eq(3) by (simp add: wf_db_def active_count_def)
qed

text \<open>Activation clears the old active row before it marks the new one.\<close>

definition activated_row :: "rstr \<Rightarrow> ref_row \<Rightarrow> ref_row" where
  "activated_row n r = r\<lparr>rr_active := (if rr_name r = n then 1 else 0)\<rparr>"

lemma activate_ref_spec:
  assumes wf: "wf_db db"
  shows "activate_ref n db =
    (if refs_view db n = None then Inl (UnknownRef (ref_str n))
     else Inr (db\<lparr>t_refs := map (activated_row (ref_str n)) (t_refs db)\<rparr>))"
proof (cases "find (ref_row_named (ref_str n)) (t_refs db)")
  case None
  then show ?thesis by (simp add: activate_ref_def refs_view_def)
next
  case (Some r)
  have wr: "wf_refs db" using wf by (simp add: wf_db_def)
  from Some have r: "r \<in> set (t_refs db)" "rr_name r = ref_str n" by (auto simp: find_ref_Some [OF wr])
  let ?c = "\<lambda>r. if is_active_row r then r\<lparr>rr_active := 0\<rparr> else r"
  let ?m = "\<lambda>r. if ref_row_named (ref_str n) r then r\<lparr>rr_active := 1\<rparr> else r"
  have mark: "map ?m (map ?c (t_refs db)) = map (activated_row (ref_str n)) (t_refs db)"
    using wr by (auto simp: activated_row_def ref_row_named_def is_active_row_def wf_refs_def wf_ref_row_def)
  have "filter (ref_row_named (ref_str n)) (map ?c (t_refs db)) \<noteq> []"
  proof -
    have "?c r \<in> set (map ?c (t_refs db))" using r(1) by auto
    moreover have "ref_row_named (ref_str n) (?c r)" using r(2) by (simp add: ref_row_named_def)
    ultimately show ?thesis unfolding filter_empty_conv by blast
  qed
  moreover have "length (filter is_active_row (map (activated_row (ref_str n)) (t_refs db))) \<le> 1"
  proof -
    have le: "length (filter is_active_row (map (activated_row k) xs)) \<le> length (filter (\<lambda>r. rr_name r = k) xs)" for k xs
      by (induction xs) (simp_all add: activated_row_def is_active_row_def)
    have one: "distinct (map rr_name xs) \<Longrightarrow> length (filter (\<lambda>r. rr_name r = k) xs) \<le> 1" for k and xs :: "ref_row list"
      by (induction xs) (auto simp: filter_empty_conv image_iff)
    have "distinct (map rr_name (t_refs db))" using wr by (simp add: wf_refs_def)
    then show ?thesis using le [of "ref_str n" "t_refs db"] one [of "t_refs db" "ref_str n"] by linarith
  qed
  ultimately show ?thesis
    using Some decode_joined_wf [OF wr r(1)] mark
    by (simp add: activate_ref_def refs_view_def Let_def del: map_map)
qed

lemma activate_ref_ok:
  assumes wf: "wf_db db" and ok: "activate_ref n db = Inr db'"
  shows "wf_db db' \<and> active_count db' = 1
    \<and> (\<forall>m. refs_view db' m = map_option (\<lambda>r. r\<lparr>cr_active := (m = n)\<rparr>) (refs_view db m))"
proof -
  have wr: "wf_refs db" using wf by (simp add: wf_db_def)
  have db': "db' = db\<lparr>t_refs := map (activated_row (ref_str n)) (t_refs db)\<rparr>"
    and some: "refs_view db n \<noteq> None"
    using ok by (auto simp: activate_ref_spec [OF wf] split: if_splits)
  have names: "map rr_name (map (activated_row k) xs) = map rr_name xs" for k xs
    by (induction xs) (simp_all add: activated_row_def)
  have "length (filter is_active_row (map (activated_row k) xs)) = length (filter (\<lambda>r. rr_name r = k) xs)" for k xs
    by (induction xs) (simp_all add: activated_row_def is_active_row_def)
  moreover have "length (filter (\<lambda>r. rr_name r = k) xs) = (if k \<in> rr_name ` set xs then 1 else 0)"
    if "distinct (map rr_name xs)" for k and xs :: "ref_row list"
    using that by (induction xs) (auto simp: filter_empty_conv image_iff)
  moreover have "ref_str n \<in> rr_name ` set (t_refs db)"
    using some by (auto simp: refs_view_def find_None_iff ref_row_named_def intro: rev_image_eqI)
  ultimately have count: "active_count db' = 1" using wr by (simp add: db' active_count_def wf_refs_def)
  have "wf_ref_row (activated_row k r) \<longleftrightarrow> wf_ref_row r" if "r \<in> set (t_refs db)" for k r
    using that wr by (auto simp: activated_row_def wf_ref_row_def wf_refs_def)
  then have "wf_refs db'"
    using wr count unfolding db' by (auto simp: wf_refs_def active_count_def names activated_row_def simp del: map_map)
  moreover have "refs_view db' m = map_option (\<lambda>r. r\<lparr>cr_active := (m = n)\<rparr>) (refs_view db m)" for m
  proof -
    have "find (ref_row_named (ref_str m)) (t_refs db')
        = map_option (activated_row (ref_str n)) (find (ref_row_named (ref_str m)) (t_refs db))"
      unfolding db' by (simp add: refs_view_map activated_row_def)
    moreover have "ref_str m = ref_str n \<longleftrightarrow> m = n" by (cases m; cases n) simp
    moreover have "rr_name q = ref_str m" if "find (ref_row_named (ref_str m)) (t_refs db) = Some q" for q
      using that by (auto simp: find_Some_iff ref_row_named_def)
    ultimately show ?thesis
      by (cases "find (ref_row_named (ref_str m)) (t_refs db)")
        (auto simp: refs_view_def ref_of_row_def commit_ref_new_def activated_row_def)
  qed
  ultimately show ?thesis using wf count unfolding db' by (simp add: wf_db_def)
qed

text \<open>What the commit operations do to the refs.\<close>

lemma active_count_frame [simp]:
  "active_count (db\<lparr>t_history := h\<rparr>) = active_count db"
  "active_count (db\<lparr>t_parents := p\<rparr>) = active_count db"
  "active_count (db\<lparr>t_scopes := sc\<rparr>) = active_count db"
  "active_count (db\<lparr>t_areas := a\<rparr>) = active_count db"
  "active_count (db\<lparr>scopes_autoinc := n\<rparr>) = active_count db"
  "active_count (with_commit b t db) = active_count db"
  by (simp_all add: active_count_def)

lemma insert_commit_refs:
  "wf_commits db \<Longrightarrow> insert_commit i t ps db = Inr (x, db') \<Longrightarrow> t_refs db' = t_refs db"
  by (cases "select_seq db (commit_param i)")
    (auto simp: insert_commit_eq Let_def bindE_eq_Inr simp del: select_seq_None split: option.splits)

lemma insert_rows_refs:
  assumes "foldE (\<lambda>e. insert_history_row (f e)) es db = Inr db'"
  shows "t_refs db' = t_refs db \<and> t_commits db' = t_commits db \<and> t_parents db' = t_parents db"
  using assms
  by (rule foldE_invariant [where P = "\<lambda>d. t_refs d = t_refs db \<and> t_commits d = t_commits db
      \<and> t_parents d = t_parents db"]) (auto dest: insert_history_row_ok(1))

lemma apply_commit_refs:
  assumes wf: "wf_db db" and ok: "apply_commit_incremental H t ps es db = Inr (out, db')"
  shows "t_refs db' = move_active (commit_param (ao_id out)) (t_refs db)
    \<and> ao_id out = commit_hash H ps t es \<and> active_count db = 1"
proof -
  let ?c = "commit_hash H ps t es"
  obtain a s new db1 db2 where act: "find is_active_row (t_refs db) = Some a"
    and ins: "insert_commit ?c t ps db = Inr ((s, new), db1)"
    and rows: "(if new then foldE (\<lambda>e. insert_history_row
          (history_row_of ?c s (entry_coord e) (entry_blob e))) es db1 else Inr db1) = Inr db2"
    and db': "out = \<lparr>ao_id = ?c\<rparr>" "db' = db2\<lparr>t_refs := move_active (commit_param ?c) (t_refs db2)\<rparr>"
    by (rule apply_commit_okE [OF ok]) blast
  have "t_refs db2 = t_refs db"
  proof (cases new)
    case True
    then have "foldE (\<lambda>e. insert_history_row (history_row_of ?c s (entry_coord e) (entry_blob e))) es db1 = Inr db2"
      using rows by simp
    from insert_rows_refs [OF this] show ?thesis
      using insert_commit_refs [OF wf_dbD(2) [OF wf] ins] by simp
  qed (use insert_commit_refs [OF wf_dbD(2) [OF wf] ins] rows in simp)
  moreover have "filter is_active_row (t_refs db) \<noteq> []" using act by (auto simp: filter_empty_conv find_Some_iff)
  then have "active_count db \<noteq> 0" by (simp add: active_count_def)
  then have "active_count db = 1" using wf_dbD(5) [OF wf] by (simp add: active_count_def wf_refs_def le_Suc_eq)
  ultimately show ?thesis using db' by simp
qed

end
