(* ===== verification/Meta_Scopes.thy ===== *)
theory Meta_Scopes
  imports Meta_Invariant Ordered_Map
begin

section \<open>Named scopes\<close>

text \<open>
  The scope tables of \<open>crates/storage-sqlite/src/meta.rs\<close>: a scope row and one row per area, read
  back through a left join, grouped by name and re-validated. The lemmas show what a stored scope
  reads back as, that replacing one keeps its id and creation time, and that the tables stay
  well-formed.
\<close>

text \<open>A row of \<open>SCOPE_QUERY\<close>: name, creation time, and the area's columns unless all are NULL.\<close>

type_synonym scope_join = "rstr \<times> int \<times> area_row option"

definition scope_join_of :: "meta_db \<Rightarrow> scope_row \<Rightarrow> scope_join list" where
  "scope_join_of db s =
     (case filter (\<lambda>a. ar_scope a = sr_id s) (t_areas db) of
        [] \<Rightarrow> [(sr_name s, sr_created_at_ms s, None)]
      | as \<Rightarrow> map (\<lambda>a. (sr_name s, sr_created_at_ms s, Some a)) as)"

record scope_columns =
  sc_created_at_ms :: u64
  sc_areas :: "(dimension \<times> rect) list"

definition decode_area :: "area_row \<Rightarrow> (storage_error, dimension \<times> rect) result" where
  "decode_area a =
     bindE (i64_to_i32 (ar_dim a) ''dim'') (\<lambda>d.
     bindE (i64_to_i32 (ar_x0 a) ''x0'') (\<lambda>x0.
     bindE (i64_to_i32 (ar_z0 a) ''z0'') (\<lambda>z0.
     bindE (i64_to_i32 (ar_x1 a) ''x1'') (\<lambda>x1.
     bindE (i64_to_i32 (ar_z1 a) ''z1'') (\<lambda>z1.
       Inr (Dimension d, rect_new x0 z0 x1 z1))))))"

definition group_scope_row ::
  "scope_join \<Rightarrow> (rstr, scope_columns) omap \<Rightarrow> (storage_error, (rstr, scope_columns) omap) result" where
  "group_scope_row row grouped =
     (case row of (name, created, area) \<Rightarrow>
        bindE (case om_get name grouped of
                 Some columns \<Rightarrow> Inr columns
               | None \<Rightarrow> bindE (millis_col created) (\<lambda>t. Inr \<lparr>sc_created_at_ms = t, sc_areas = []\<rparr>))
          (\<lambda>columns.
        bindE (case area of
                 None \<Rightarrow> Inr columns
               | Some a \<Rightarrow> bindE (decode_area a) (\<lambda>x. Inr (columns\<lparr>sc_areas := sc_areas columns @ [x]\<rparr>)))
          (\<lambda>columns'. Inr (om_put name columns' grouped))))"

definition group_scope_rows ::
  "scope_join list \<Rightarrow> (storage_error, (rstr, scope_columns) omap) result" where
  "group_scope_rows rows = foldE group_scope_row rows []"

definition decode_scope :: "rstr \<Rightarrow> scope_columns \<Rightarrow> (storage_error, named_scope) result" where
  "decode_scope name columns =
     (case scope_name_parse name of
        Inl _ \<Rightarrow> Inl (InvalidScopeName name)
      | Inr parsed \<Rightarrow>
          map_err (\<lambda>_. EmptyScope name)
            (named_scope_new parsed (sc_areas columns) (sc_created_at_ms columns)))"

definition area_row_of :: "int \<Rightarrow> dimension \<times> rect \<Rightarrow> area_row" where
  "area_row_of i dr =
     (case dr of (d, r) \<Rightarrow>
        \<lparr>ar_scope = i, ar_dim = sval (raw d), ar_x0 = sval (x0 r), ar_z0 = sval (z0 r),
         ar_x1 = sval (x1 r), ar_z1 = sval (z1 r)\<rparr>)"

text \<open>The \<open>CHECK\<close> and the foreign key of \<open>scope_areas\<close>.\<close>

definition insert_area :: "area_row \<Rightarrow> meta_db \<Rightarrow> (storage_error, meta_db) result" where
  "insert_area a db =
     (if \<not> (ar_x0 a \<le> ar_x1 a \<and> ar_z0 a \<le> ar_z1 a) then Inl (db_err CheckViolation)
      else if ar_scope a \<notin> sr_id ` set (t_scopes db) then Inl (db_err ForeignKeyViolation)
      else Inr (db\<lparr>t_areas := t_areas db @ [a]\<rparr>))"

definition find_scope :: "meta_db \<Rightarrow> rstr \<Rightarrow> scope_row option" where
  "find_scope db n = find (\<lambda>s. sr_name s = n) (t_scopes db)"

definition insert_scope_row :: "rstr \<Rightarrow> int \<Rightarrow> meta_db \<Rightarrow> meta_db" where
  "insert_scope_row n t db =
     (if find_scope db n \<noteq> None then db
      else db\<lparr>t_scopes := t_scopes db
                @ [\<lparr>sr_id = scopes_autoinc db + 1, sr_name = n, sr_created_at_ms = t\<rparr>],
              scopes_autoinc := scopes_autoinc db + 1\<rparr>)"

definition set_scope :: "named_scope \<Rightarrow> meta_db \<Rightarrow> (storage_error, meta_db) result" where
  "set_scope s db =
     bindE (millis_param (ns_created_at_ms s)) (\<lambda>t.
       let name = scope_str (ns_name s); db1 = insert_scope_row name t db in
     bindE (ok_or (db_err RowNotFound) (map_option sr_id (find_scope db1 name))) (\<lambda>i.
       let db2 = db1\<lparr>t_areas := filter (\<lambda>a. ar_scope a \<noteq> i) (t_areas db1)\<rparr> in
       foldE (\<lambda>dr. insert_area (area_row_of i dr)) (ns_areas s) db2))"

definition lookup_scope :: "meta_db \<Rightarrow> scope_name \<Rightarrow> (storage_error, named_scope option) result" where
  "lookup_scope db name =
     bindE (group_scope_rows
              (concat (map (scope_join_of db) (filter (\<lambda>s. sr_name s = scope_str name) (t_scopes db)))))
       (\<lambda>grouped. case grouped of
          [] \<Rightarrow> Inr None
        | (n, columns) # _ \<Rightarrow> bindE (decode_scope n columns) (\<lambda>s. Inr (Some s)))"

definition visit_scopes :: "meta_db \<Rightarrow> (storage_error, named_scope) visit" where
  "visit_scopes db =
     (case group_scope_rows (concat (map (scope_join_of db) (t_scopes db))) of
        Inl e \<Rightarrow> failed_visit e
      | Inr grouped \<Rightarrow> decode_visit (\<lambda>(n, columns). decode_scope n columns) grouped)"

definition delete_scope :: "scope_name \<Rightarrow> meta_db \<Rightarrow> (storage_error, bool \<times> meta_db) result" where
  "delete_scope name db =
     (let doomed = filter (\<lambda>s. sr_name s = scope_str name) (t_scopes db) in
      Inr (doomed \<noteq> [],
           db\<lparr>t_scopes := filter (\<lambda>s. sr_name s \<noteq> scope_str name) (t_scopes db),
              t_areas := filter (\<lambda>a. ar_scope a \<notin> set (map sr_id doomed)) (t_areas db)\<rparr>))"

subsection \<open>The scopes a database holds\<close>

definition area_of_row :: "area_row \<Rightarrow> dimension \<times> rect" where
  "area_of_row a =
     (Dimension (i32_of (ar_dim a)),
      rect_new (i32_of (ar_x0 a)) (i32_of (ar_z0 a)) (i32_of (ar_x1 a)) (i32_of (ar_z1 a)))"

definition areas_of :: "meta_db \<Rightarrow> scope_row \<Rightarrow> (dimension \<times> rect) list" where
  "areas_of db s = map area_of_row (filter (\<lambda>a. ar_scope a = sr_id s) (t_areas db))"

definition columns_of :: "meta_db \<Rightarrow> scope_row \<Rightarrow> scope_columns" where
  "columns_of db s = \<lparr>sc_created_at_ms = word_of_int (sr_created_at_ms s), sc_areas = areas_of db s\<rparr>"

definition scope_of_row :: "meta_db \<Rightarrow> scope_row \<Rightarrow> named_scope" where
  "scope_of_row db s =
     projr (named_scope_new (ScopeName (sr_name s)) (areas_of db s) (word_of_int (sr_created_at_ms s)))"

definition scopes_view :: "meta_db \<Rightarrow> scope_name \<Rightarrow> named_scope option" where
  "scopes_view db n = map_option (scope_of_row db) (find_scope db (scope_str n))"

lemma decode_area_wf: "wf_area_row a \<Longrightarrow> decode_area a = Inr (area_of_row a)"
  by (simp add: wf_area_row_def decode_area_def area_of_row_def i64_to_i32_def i32_try_def i32_of_def)

lemma find_scope_Some:
  assumes "wf_scopes db"
  shows "find_scope db n = Some s \<longleftrightarrow> s \<in> set (t_scopes db) \<and> sr_name s = n"
proof
  assume s: "s \<in> set (t_scopes db) \<and> sr_name s = n"
  then have "find_scope db n \<noteq> None" by (auto simp: find_scope_def find_None_iff)
  then obtain q where q: "find_scope db n = Some q" by blast
  then have "q \<in> set (t_scopes db)" "sr_name q = sr_name s" using s by (auto simp: find_scope_def find_Some_iff)
  moreover have "inj_on sr_name (set (t_scopes db))" using assms by (simp add: wf_scopes_def distinct_map)
  ultimately have "q = s" using s by (auto dest: inj_onD)
  with q show "find_scope db n = Some s" by simp
qed (auto simp: find_scope_def find_Some_iff)


subsection \<open>Grouping\<close>

lemma om_put_put: "om_put n c (om_put n b g) = om_put n c g"
  by (induction n b g rule: om_put.induct) auto

lemma group_areas:
  assumes "\<forall>a \<in> set as. wf_area_row a" "om_ok g"
  shows "foldE group_scope_row (map (\<lambda>a. (n, t, Some a)) as) (om_put n c g)
    = Inr (om_put n (c\<lparr>sc_areas := sc_areas c @ map area_of_row as\<rparr>) g)"
  using assms(1)
proof (induction as arbitrary: c)
  case (Cons a as)
  have "group_scope_row (n, t, Some a) (om_put n c g)
      = Inr (om_put n (c\<lparr>sc_areas := sc_areas c @ [area_of_row a]\<rparr>) g)"
    using Cons.prems assms(2) by (simp add: group_scope_row_def om_get_put decode_area_wf om_put_put)
  with Cons show ?case by simp
qed simp

lemma group_one:
  assumes wf: "wf_scopes db" and s: "s \<in> set (t_scopes db)" and g: "om_ok g" "om_get (sr_name s) g = None"
  shows "foldE group_scope_row (scope_join_of db s) g = Inr (om_put (sr_name s) (columns_of db s) g)"
proof -
  let ?as = "filter (\<lambda>a. ar_scope a = sr_id s) (t_areas db)"
  have "?as \<noteq> []" using wf s by (auto simp: wf_scopes_def filter_empty_conv)
  then obtain a as where as: "?as = a # as" by (cases ?as) auto
  have "\<forall>x \<in> set ?as. wf_area_row x" using wf by (simp add: wf_scopes_def)
  then have wfa: "wf_area_row a" "\<forall>x \<in> set as. wf_area_row x" by (simp_all add: as)
  have t: "millis_col (sr_created_at_ms s) = Inr (word_of_int (sr_created_at_ms s))"
    using wf s by (simp add: wf_scopes_def millis_col_nonneg)
  have "group_scope_row (sr_name s, sr_created_at_ms s, Some a) g
      = Inr (om_put (sr_name s) \<lparr>sc_created_at_ms = word_of_int (sr_created_at_ms s), sc_areas = [area_of_row a]\<rparr> g)"
    using g wfa t by (simp add: group_scope_row_def decode_area_wf)
  then show ?thesis
    using group_areas [OF wfa(2) g(1)] by (simp add: scope_join_of_def as columns_of_def areas_of_def)
qed

lemma om_of_list_snoc: "om_of_list (xs @ [(k, v)]) = om_put k v (om_of_list xs)"
  by (simp add: om_of_list_def)

lemma group_all:
  assumes wf: "wf_scopes db" and "set ss \<subseteq> set (t_scopes db)" "distinct (map sr_name ss)"
  shows "group_scope_rows (concat (map (scope_join_of db) ss))
    = Inr (om_of_list (map (\<lambda>s. (sr_name s, columns_of db s)) ss))"
  using assms(2,3)
proof (induction ss rule: rev_induct)
  case Nil
  then show ?case by (simp add: group_scope_rows_def om_of_list_def)
next
  case (snoc s ss)
  let ?g = "om_of_list (map (\<lambda>s. (sr_name s, columns_of db s)) ss)"
  have "om_get (sr_name s) ?g = None"
    using snoc.prems by (auto simp: om_get_of_list map_of_eq_None_iff)
  then have "foldE group_scope_row (scope_join_of db s) ?g = Inr (om_put (sr_name s) (columns_of db s) ?g)"
    using group_one [OF wf] snoc.prems by simp
  then show ?case using snoc by (simp add: group_scope_rows_def foldE_append om_of_list_snoc)
qed

lemma om_of_list_sorted:
  assumes "distinct (map k ss)"
  shows "om_of_list (map (\<lambda>s. (k s, v s)) ss) = map (\<lambda>s. (k s, v s)) (sort_key k ss)"
proof (rule om.entries_eq)
  let ?m = "map (\<lambda>s. (k s, v s)) (sort_key k ss)"
  have "sorted (map k (sort_key k ss))" by simp
  moreover have "distinct (map k (sort_key k ss))"
    using assms by (simp add: distinct_map)
  ultimately show "om_ok ?m" by (simp add: om_ok_def comp_def strict_sorted_iff)
  fix x
  have "map_of ?m x = map_of (rev (map (\<lambda>s. (k s, v s)) ss)) x"
    using assms by (intro map_of_inject_set [THEN iffD2, THEN fun_cong]) (auto simp: comp_def distinct_map rev_map)
  then show "om_get x (om_of_list (map (\<lambda>s. (k s, v s)) ss)) = om_get x ?m"
    unfolding om_get_of_list by (simp only: om_get_def)
qed simp

lemma areas_nonempty: "wf_scopes db \<Longrightarrow> s \<in> set (t_scopes db) \<Longrightarrow> areas_of db s \<noteq> []"
  by (auto simp: wf_scopes_def areas_of_def filter_empty_conv)

lemma decode_scope_wf:
  assumes wf: "wf_scopes db" and s: "s \<in> set (t_scopes db)"
  shows "decode_scope (sr_name s) (columns_of db s) = Inr (scope_of_row db s)"
proof -
  have "scope_name_parse (sr_name s) = Inr (ScopeName (sr_name s))"
    using wf s by (simp add: scope_name_parse_ok_iff wf_scopes_def)
  moreover obtain x :: named_scope where "named_scope_new (ScopeName (sr_name s)) (areas_of db s) (word_of_int (sr_created_at_ms s)) = Inr x"
    using named_scope_new_ok [OF areas_nonempty [OF wf s]] by blast
  ultimately show ?thesis by (simp add: decode_scope_def columns_of_def scope_of_row_def)
qed

lemma lookup_scope_wf:
  assumes wf: "wf_scopes db"
  shows "lookup_scope db n = Inr (scopes_view db n)"
proof (cases "find_scope db (scope_str n)")
  case None
  then have "filter (\<lambda>s. sr_name s = scope_str n) (t_scopes db) = []"
    by (auto simp: find_scope_def find_None_iff filter_empty_conv)
  then show ?thesis using None by (simp add: lookup_scope_def group_scope_rows_def scopes_view_def)
next
  case (Some s)
  then have s: "s \<in> set (t_scopes db)" "sr_name s = scope_str n" by (simp_all add: find_scope_Some [OF wf])
  have dist: "distinct (map sr_name (t_scopes db))" using wf by (simp add: wf_scopes_def)
  have "filter (\<lambda>s. sr_name s = scope_str n) (t_scopes db) = [s]"
  proof -
    obtain xs ys where xy: "t_scopes db = xs @ s # ys" using s(1) by (auto dest: split_list)
    then have "sr_name q \<noteq> scope_str n" if "q \<in> set xs \<union> set ys" for q
      using dist s(2) that by (auto simp: image_iff)
    then have "filter (\<lambda>s. sr_name s = scope_str n) xs = []" "filter (\<lambda>s. sr_name s = scope_str n) ys = []"
      by (auto simp: filter_empty_conv)
    then show ?thesis using xy s(2) by simp
  qed
  moreover have "group_scope_rows (scope_join_of db s) = Inr [(sr_name s, columns_of db s)]"
    using group_all [OF wf, of "[s]"] s by (simp add: om_of_list_def)
  ultimately show ?thesis using Some decode_scope_wf [OF wf s(1)] by (simp add: lookup_scope_def scopes_view_def)
qed

lemma visit_scopes_wf:
  assumes wf: "wf_scopes db"
  shows "visit_scopes db = (map (scope_of_row db) (sort_key sr_name (t_scopes db)), None)"
proof -
  have dist: "distinct (map sr_name (t_scopes db))" using wf by (simp add: wf_scopes_def)
  let ?g = "map (\<lambda>s. (sr_name s, columns_of db s)) (sort_key sr_name (t_scopes db))"
  have "group_scope_rows (concat (map (scope_join_of db) (t_scopes db))) = Inr ?g"
    using group_all [OF wf subset_refl dist] om_of_list_sorted [OF dist, of "columns_of db"] by simp
  moreover have "decode_visit (\<lambda>(n, columns). decode_scope n columns) (map (\<lambda>s. (sr_name s, columns_of db s)) ss)
      = (map (scope_of_row db) ss, None)" if "set ss \<subseteq> set (t_scopes db)" for ss
    using that by (induction ss) (simp_all add: decode_scope_wf [OF wf])
  ultimately show ?thesis by (simp add: visit_scopes_def)
qed

subsection \<open>Storing and removing\<close>

definition ordered_rect :: "rect \<Rightarrow> bool" where
  "ordered_rect r \<longleftrightarrow> x0 r \<le> x1 r \<and> z0 r \<le> z1 r"

lemma wf_area_row_of: "ordered_rect r \<Longrightarrow> wf_area_row (area_row_of i (d, r))"
  by (simp add: ordered_rect_def wf_area_row_def area_row_of_def less_eq_i32_def)

lemma area_of_row_of: "ordered_rect r \<Longrightarrow> area_of_row (area_row_of i (d, r)) = (d, r)"
  by (simp add: ordered_rect_def area_of_row_def area_row_of_def rect_new_id)

lemma insert_areas:
  assumes "\<forall>(d, r) \<in> set as. ordered_rect r" "i \<in> sr_id ` set (t_scopes db)"
  shows "foldE (\<lambda>dr. insert_area (area_row_of i dr)) as db
    = Inr (db\<lparr>t_areas := t_areas db @ map (area_row_of i) as\<rparr>)"
  using assms
proof (induction as arbitrary: db)
  case (Cons dr as)
  obtain d r where dr: "dr = (d, r)" by (cases dr)
  then have "insert_area (area_row_of i dr) db = Inr (db\<lparr>t_areas := t_areas db @ [area_row_of i dr]\<rparr>)"
    using Cons.prems by (simp add: insert_area_def area_row_of_def ordered_rect_def less_eq_i32_def)
  with Cons show ?case by simp
qed simp

text \<open>The tables after \<open>set_scope\<close>: \<open>row\<close> is the scope's row, kept or new.\<close>

definition scope_tables :: "scope_row \<Rightarrow> (dimension \<times> rect) list \<Rightarrow> meta_db \<Rightarrow> meta_db" where
  "scope_tables row as db =
     db\<lparr>t_areas := filter (\<lambda>a. ar_scope a \<noteq> sr_id row) (t_areas db) @ map (area_row_of (sr_id row)) as\<rparr>"

lemma set_scope_eq:
  assumes wf: "wf_scopes db" and as: "\<forall>(d, r) \<in> set (ns_areas s). ordered_rect r"
    and t: "millis_param (ns_created_at_ms s) = Inr t"
  shows "\<exists>row. set_scope s db = Inr (scope_tables row (ns_areas s) (insert_scope_row (scope_str (ns_name s)) t db))
    \<and> find_scope (insert_scope_row (scope_str (ns_name s)) t db) (scope_str (ns_name s)) = Some row
    \<and> sr_name row = scope_str (ns_name s)"
proof -
  let ?n = "scope_str (ns_name s)"
  let ?db1 = "insert_scope_row ?n t db"
  have "find_scope ?db1 ?n \<noteq> None"
    by (auto simp: insert_scope_row_def find_scope_def find_append_cases split: option.split)
  then obtain row where row: "find_scope ?db1 ?n = Some row" by blast
  then have mem: "row \<in> set (t_scopes ?db1)" "sr_name row = ?n" by (auto simp: find_scope_def find_Some_iff)
  let ?db2 = "?db1\<lparr>t_areas := filter (\<lambda>a. ar_scope a \<noteq> sr_id row) (t_areas ?db1)\<rparr>"
  have "foldE (\<lambda>dr. insert_area (area_row_of (sr_id row) dr)) (ns_areas s) ?db2
      = Inr (scope_tables row (ns_areas s) ?db1)"
    using insert_areas [OF as, of "sr_id row" ?db2] mem by (simp add: scope_tables_def)
  then show ?thesis using t row mem by (simp add: set_scope_def Let_def)
qed

lemma wf_scopes_insert_row:
  assumes wf: "wf_scopes db" and n: "valid_name n" "0 \<le> t" and as: "as \<noteq> []" "\<forall>(d, r) \<in> set as. ordered_rect r"
    and row: "find_scope (insert_scope_row n t db) n = Some row"
  shows "wf_scopes (scope_tables row as (insert_scope_row n t db))"
proof -
  let ?db1 = "insert_scope_row n t db"
  have fresh: "i \<noteq> scopes_autoinc db + 1" if "i \<in> sr_id ` set (t_scopes db)" for i
    using that wf by (force simp: wf_scopes_def)
  have row1: "row \<in> set (t_scopes ?db1)" "sr_name row = n"
    using row by (auto simp: find_scope_def find_Some_iff)
  have dist: "distinct (map sr_name (t_scopes ?db1)) \<and> distinct (map sr_id (t_scopes ?db1))"
    using wf fresh by (auto simp: insert_scope_row_def find_scope_def find_None_iff wf_scopes_def image_iff)
  have scopes: "valid_name (sr_name s) \<and> 0 \<le> sr_created_at_ms s \<and> sr_id s \<le> scopes_autoinc ?db1
      \<and> (s = row \<or> (\<exists>a \<in> set (t_areas db). ar_scope a = sr_id s \<and> sr_id s \<noteq> sr_id row))"
    if s: "s \<in> set (t_scopes ?db1)" for s
  proof (cases "s = row")
    case True
    then show ?thesis using s wf n by (auto simp: insert_scope_row_def wf_scopes_def split: if_splits)
  next
    case False
    then have "sr_id s \<noteq> sr_id row" using dist s row1(1) by (auto simp: distinct_map dest: inj_onD)
    moreover have "s \<in> set (t_scopes db)"
    proof (rule ccontr)
      assume out: "s \<notin> set (t_scopes db)"
      then have "sr_name s = n" using s by (auto simp: insert_scope_row_def split: if_splits)
      then show False using False dist s row1 by (auto simp: distinct_map dest: inj_onD)
    qed
    ultimately show ?thesis using wf by (auto simp: insert_scope_row_def wf_scopes_def)
  qed
  have areas: "wf_area_row a \<and> ar_scope a \<in> sr_id ` set (t_scopes ?db1)"
    if "a \<in> set (t_areas (scope_tables row as ?db1))" for a
  proof (cases "a \<in> area_row_of (sr_id row) ` set as")
    case True
    then obtain d r where dr: "(d, r) \<in> set as" "a = area_row_of (sr_id row) (d, r)" by auto
    then have "wf_area_row a" using as(2) wf_area_row_of by blast
    moreover have "ar_scope a = sr_id row" using dr(2) by (simp add: area_row_of_def)
    ultimately show ?thesis using row1(1) by simp
  next
    case False
    then have "a \<in> set (t_areas db)" using that by (auto simp: scope_tables_def insert_scope_row_def split: if_splits)
    then show ?thesis using wf by (auto simp: wf_scopes_def insert_scope_row_def)
  qed
  obtain dr where dr: "dr \<in> set as" using as(1) by (cases as) auto
  have "\<exists>a \<in> set (t_areas (scope_tables row as ?db1)). ar_scope a = sr_id s" if s: "s \<in> set (t_scopes ?db1)" for s
  proof (cases "s = row")
    case True
    have "ar_scope (area_row_of (sr_id row) dr) = sr_id row" by (simp add: area_row_of_def split: prod.split)
    then show ?thesis using dr True by (auto simp: scope_tables_def)
  next
    case False
    then obtain a where "a \<in> set (t_areas db)" "ar_scope a = sr_id s" "sr_id s \<noteq> sr_id row" using scopes [OF s] by blast
    then show ?thesis by (auto simp: scope_tables_def insert_scope_row_def intro!: bexI [of _ a])
  qed
  then show ?thesis using dist scopes areas by (simp add: wf_scopes_def scope_tables_def)
qed

lemma areas_of_tables:
  assumes "\<forall>(d, r) \<in> set as. ordered_rect r" "wf_scopes db" "find_scope (insert_scope_row n t db) n = Some row"
  shows "areas_of (scope_tables row as (insert_scope_row n t db)) row = as"
    "sr_id s \<noteq> sr_id row \<Longrightarrow> areas_of (scope_tables row as (insert_scope_row n t db)) s = areas_of db s"
proof -
  have ar: "ar_scope (area_row_of i dr) = i" for i dr by (simp add: area_row_of_def split: prod.split)
  have inv: "map (\<lambda>x. area_of_row (area_row_of i x)) as = as" for i
    using assms(1) by (intro map_idI) (auto simp: area_of_row_of)
  show "areas_of (scope_tables row as (insert_scope_row n t db)) row = as"
    using inv by (simp add: areas_of_def scope_tables_def ar filter_empty_conv comp_def)
  show "areas_of (scope_tables row as (insert_scope_row n t db)) s = areas_of db s" if "sr_id s \<noteq> sr_id row"
  proof -
    have "filter (\<lambda>a. ar_scope a = sr_id s) (filter (\<lambda>a. ar_scope a \<noteq> sr_id row) (t_areas db))
        = filter (\<lambda>a. ar_scope a = sr_id s) (t_areas db)"
      unfolding filter_filter using that by (intro filter_cong) auto
    moreover have "filter (\<lambda>a. ar_scope a = sr_id s) (map (area_row_of (sr_id row)) as) = []"
      using that by (simp add: filter_empty_conv ar)
    ultimately show ?thesis by (simp add: areas_of_def scope_tables_def insert_scope_row_def)
  qed
qed

lemma normal_areas_ordered: "normal_areas as \<Longrightarrow> \<forall>(d, r) \<in> set as. ordered_rect r"
  by (auto simp: normal_areas_def ordered_rect_def)

lemma scope_of_row_normal:
  assumes "areas_of db row = as" "normal_areas as"
  shows "scope_of_row db row
    = \<lparr>ns_name = ScopeName (sr_name row), ns_areas = as, ns_created_at_ms = word_of_int (sr_created_at_ms row)\<rparr>"
  using assms named_scope_new_normal [OF assms(2)] by (simp add: scope_of_row_def)

lemma wf_scopes_set:
  assumes "wf_scopes db" "set_scope s db = Inr db'" "normal_areas (ns_areas s)" "valid_name (scope_str (ns_name s))"
  shows "\<exists>t row. millis_param (ns_created_at_ms s) = Inr t
     \<and> db' = scope_tables row (ns_areas s) (insert_scope_row (scope_str (ns_name s)) t db)
     \<and> find_scope (insert_scope_row (scope_str (ns_name s)) t db) (scope_str (ns_name s)) = Some row
     \<and> sr_name row = scope_str (ns_name s) \<and> wf_scopes db'"
proof -
  obtain t where t: "millis_param (ns_created_at_ms s) = Inr t"
    using assms(2) by (cases "millis_param (ns_created_at_ms s)") (simp_all add: set_scope_def)
  note ord = normal_areas_ordered [OF assms(3)]
  obtain row where row: "set_scope s db = Inr (scope_tables row (ns_areas s) (insert_scope_row (scope_str (ns_name s)) t db))"
    "find_scope (insert_scope_row (scope_str (ns_name s)) t db) (scope_str (ns_name s)) = Some row"
    "sr_name row = scope_str (ns_name s)"
    using set_scope_eq [OF assms(1) ord t] by blast
  have "ns_areas s \<noteq> []" using assms(3) by (simp add: normal_areas_def)
  then have "wf_scopes (scope_tables row (ns_areas s) (insert_scope_row (scope_str (ns_name s)) t db))"
    using wf_scopes_insert_row [OF assms(1) assms(4) _ _ ord row(2)] millis_param_ok [OF t] by simp
  with t row assms(2) show ?thesis by auto
qed

lemma set_scope_frame:
  "t_commits (scope_tables row as (insert_scope_row n t db)) = t_commits db"
  "t_parents (scope_tables row as (insert_scope_row n t db)) = t_parents db"
  "t_history (scope_tables row as (insert_scope_row n t db)) = t_history db"
  "t_refs (scope_tables row as (insert_scope_row n t db)) = t_refs db"
  "user_version (scope_tables row as (insert_scope_row n t db)) = user_version db"
  "commits_autoinc (scope_tables row as (insert_scope_row n t db)) = commits_autoinc db"
  by (simp_all add: scope_tables_def insert_scope_row_def)

lemma wf_db_tables_cong:
  assumes "t_commits a = t_commits b" "t_parents a = t_parents b" "t_history a = t_history b"
    "t_refs a = t_refs b" "user_version a = user_version b" "commits_autoinc a = commits_autoinc b"
  shows "wf_commits a = wf_commits b" "wf_edges a = wf_edges b" "wf_history a = wf_history b"
    "wf_refs a = wf_refs b"
  using assms by (simp_all add: wf_commits_def wf_edges_def wf_history_def wf_refs_def commit_ids_def
      select_seq_def find_commit_def)

lemma wf_db_set_scope:
  assumes wf: "wf_db db" and ok: "set_scope s db = Inr db'"
    and s: "normal_areas (ns_areas s)" "valid_name (scope_str (ns_name s))"
  shows "wf_db db'"
proof -
  obtain t row where db': "db' = scope_tables row (ns_areas s) (insert_scope_row (scope_str (ns_name s)) t db)"
    and "wf_scopes db'" using wf_scopes_set [OF wf_dbD(6) [OF wf] ok s] by blast
  then show ?thesis using wf wf_db_tables_cong [of db' db] by (simp add: wf_db_def set_scope_frame)
qed

lemma set_scope_view:
  assumes wf: "wf_scopes db" and ok: "set_scope s db = Inr db'"
    and s: "normal_areas (ns_areas s)" "valid_name (scope_str (ns_name s))"
  shows "scopes_view db' n =
    (if n = ns_name s
     then Some (case scopes_view db n of None \<Rightarrow> s
                | Some old \<Rightarrow> s\<lparr>ns_created_at_ms := ns_created_at_ms old\<rparr>)
     else scopes_view db n)"
proof -
  let ?n = "scope_str (ns_name s)"
  obtain t row where t: "millis_param (ns_created_at_ms s) = Inr t"
    and db': "db' = scope_tables row (ns_areas s) (insert_scope_row ?n t db)"
    and row: "find_scope (insert_scope_row ?n t db) ?n = Some row" "sr_name row = ?n" and wf': "wf_scopes db'"
    using wf_scopes_set [OF wf ok s] by blast
  let ?db1 = "insert_scope_row ?n t db"
  note ord = normal_areas_ordered [OF s(1)]
  note areas = areas_of_tables [OF ord wf row(1), folded db']
  have find': "find_scope db' m = find_scope ?db1 m" for m by (simp add: find_scope_def db' scope_tables_def)
  have nm: "ScopeName ?n = ns_name s" by (cases "ns_name s") simp
  have str: "scope_str m = ?n \<longleftrightarrow> m = ns_name s" for m by (cases m; cases "ns_name s") simp
  show ?thesis
  proof (cases "n = ns_name s")
    case True
    have "scope_of_row db' row = \<lparr>ns_name = ns_name s, ns_areas = ns_areas s,
        ns_created_at_ms = word_of_int (sr_created_at_ms row)\<rparr>"
      using scope_of_row_normal [OF areas(1) s(1)] row(2) nm by simp
    then have got: "scopes_view db' n = Some \<lparr>ns_name = ns_name s, ns_areas = ns_areas s,
        ns_created_at_ms = word_of_int (sr_created_at_ms row)\<rparr>"
      using row(1) True by (simp add: scopes_view_def find')
    show ?thesis
    proof (cases "find_scope db ?n")
      case None
      then have "find_scope ?db1 ?n = Some \<lparr>sr_id = scopes_autoinc db + 1, sr_name = ?n, sr_created_at_ms = t\<rparr>"
        by (simp add: insert_scope_row_def find_scope_def find_append_cases)
      then have "word_of_int (sr_created_at_ms row) = ns_created_at_ms s"
        using row(1) millis_param_ok [OF t] by simp
      then have "\<lparr>ns_name = ns_name s, ns_areas = ns_areas s,
          ns_created_at_ms = word_of_int (sr_created_at_ms row)\<rparr> = s" by (cases s) simp
      moreover have "scopes_view db n = None" using True None by (simp add: scopes_view_def)
      ultimately show ?thesis using got True by simp
    next
      case (Some old)
      then have "row = old" using row(1) by (simp add: insert_scope_row_def)
      moreover have "ns_created_at_ms (scope_of_row db old) = word_of_int (sr_created_at_ms old)"
      proof -
        have "areas_of db old \<noteq> []" using areas_nonempty [OF wf] Some by (simp add: find_scope_Some [OF wf])
        then obtain x :: named_scope where
          "named_scope_new (ScopeName (sr_name old)) (areas_of db old) (word_of_int (sr_created_at_ms old)) = Inr x"
          "ns_created_at_ms x = word_of_int (sr_created_at_ms old)"
          using named_scope_new_ok by blast
        then show ?thesis by (simp add: scope_of_row_def)
      qed
      moreover have "s\<lparr>ns_created_at_ms := u\<rparr> = \<lparr>ns_name = ns_name s, ns_areas = ns_areas s, ns_created_at_ms = u\<rparr>" for u
        by (cases s) simp
      moreover have "scopes_view db n = Some (scope_of_row db old)" using True Some by (simp add: scopes_view_def)
      ultimately show ?thesis using got True by simp
    qed
  next
    case False
    then have ne: "scope_str n \<noteq> ?n" using str by simp
    have same: "find_scope ?db1 (scope_str n) = find_scope db (scope_str n)"
      using ne by (auto simp: insert_scope_row_def find_scope_def find_append_cases split: option.split)
    have "scope_of_row db' q = scope_of_row db q" if q: "find_scope db (scope_str n) = Some q" for q
    proof -
      have "find_scope ?db1 (scope_str n) = Some q" using q same by simp
      then have "find_scope db' (scope_str n) = Some q" by (simp add: find')
      then have q': "q \<in> set (t_scopes db')" "sr_name q = scope_str n" by (simp_all add: find_scope_Some [OF wf'])
      have "find_scope db' ?n = Some row" using row(1) by (simp add: find')
      then have row': "row \<in> set (t_scopes db')" by (simp add: find_scope_Some [OF wf'])
      have "inj_on sr_id (set (t_scopes db'))" using wf' by (simp add: wf_scopes_def distinct_map)
      then have "sr_id q = sr_id row \<longleftrightarrow> q = row" using q'(1) row' by (rule inj_on_eq_iff)
      moreover have "q \<noteq> row" using ne row(2) q'(2) by metis
      ultimately have "areas_of db' q = areas_of db q" by (simp only: areas(2) simp_thms)
      then show ?thesis unfolding scope_of_row_def by (rule arg_cong)
    qed
    then show ?thesis using False same
      by (cases "find_scope db (scope_str n)") (simp_all add: scopes_view_def find')
  qed
qed

lemma delete_scope_ok:
  assumes wf: "wf_db db" and ok: "delete_scope n db = Inr (b, db')"
  shows "wf_db db' \<and> (b \<longleftrightarrow> scopes_view db n \<noteq> None) \<and> scopes_view db' n = None
    \<and> (\<forall>m. m \<noteq> n \<longrightarrow> scopes_view db' m = scopes_view db m)"
proof -
  let ?n = "scope_str n"
  let ?doomed = "filter (\<lambda>s. sr_name s = ?n) (t_scopes db)"
  have ws: "wf_scopes db" using wf by (simp add: wf_db_def)
  have db': "db' = db\<lparr>t_scopes := filter (\<lambda>s. sr_name s \<noteq> ?n) (t_scopes db),
      t_areas := filter (\<lambda>a. ar_scope a \<notin> set (map sr_id ?doomed)) (t_areas db)\<rparr>"
    and b: "b \<longleftrightarrow> ?doomed \<noteq> []"
    using ok by (simp_all add: delete_scope_def Let_def)
  have inj: "inj_on sr_id (set (t_scopes db))" using ws by (simp add: wf_scopes_def distinct_map)
  have keep: "sr_id s \<notin> set (map sr_id ?doomed)" if "s \<in> set (t_scopes db)" "sr_name s \<noteq> ?n" for s
    using that inj by (auto dest: inj_onD)
  have "wf_scopes db'"
    unfolding wf_scopes_def
  proof (intro conjI ballI)
    show "distinct (map sr_name (t_scopes db'))" "distinct (map sr_id (t_scopes db'))"
      using ws by (auto simp: db' wf_scopes_def distinct_map intro: inj_on_subset)
  next
    fix s
    assume "s \<in> set (t_scopes db')"
    then have s: "s \<in> set (t_scopes db)" "sr_name s \<noteq> ?n" by (simp_all add: db')
    then show "valid_name (sr_name s)" "0 \<le> sr_created_at_ms s" "sr_id s \<le> scopes_autoinc db'"
      using ws by (simp_all add: db' wf_scopes_def)
    obtain a where "a \<in> set (t_areas db)" "ar_scope a = sr_id s" using ws s(1) by (auto simp: wf_scopes_def)
    then have "a \<in> set (t_areas db')" using keep [OF s] by (simp add: db')
    then show "\<exists>a \<in> set (t_areas db'). ar_scope a = sr_id s" using \<open>ar_scope a = sr_id s\<close> by blast
  next
    fix a
    assume "a \<in> set (t_areas db')"
    then have a: "a \<in> set (t_areas db)" "ar_scope a \<notin> set (map sr_id ?doomed)" by (simp_all add: db')
    then show "wf_area_row a" using ws by (simp add: wf_scopes_def)
    obtain s where "s \<in> set (t_scopes db)" "ar_scope a = sr_id s" using ws a(1) by (auto simp: wf_scopes_def)
    moreover from this a(2) have "sr_name s \<noteq> ?n" by auto
    ultimately show "ar_scope a \<in> sr_id ` set (t_scopes db')" by (simp add: db')
  qed
  then have "wf_db db'" using wf wf_db_tables_cong [of db' db] by (simp add: wf_db_def db')
  moreover have "b \<longleftrightarrow> scopes_view db n \<noteq> None"
    unfolding b scopes_view_def find_scope_def by (auto simp: find_None_iff filter_empty_conv)
  moreover have "scopes_view db' n = None" by (simp add: scopes_view_def find_scope_def db' find_None_iff)
  moreover have "scopes_view db' m = scopes_view db m" if "m \<noteq> n" for m
  proof -
    have ne: "scope_str m \<noteq> ?n" using that by (cases m; cases n) simp
    have "find P (filter Q xs) = find (\<lambda>x. P x \<and> Q x) xs" for P Q and xs :: "scope_row list"
      by (induction xs) auto
    moreover have "find (\<lambda>s. sr_name s = scope_str m \<and> sr_name s \<noteq> ?n) xs = find (\<lambda>s. sr_name s = scope_str m) xs" for xs
      using ne by (intro find_cong) auto
    ultimately have find: "find_scope db' (scope_str m) = find_scope db (scope_str m)"
      by (simp add: find_scope_def db')
    have "scope_of_row db' s = scope_of_row db s" if "find_scope db (scope_str m) = Some s" for s
    proof -
      have s: "s \<in> set (t_scopes db)" "sr_name s \<noteq> ?n" using that ne by (auto simp: find_scope_Some [OF ws])
      have "filter (\<lambda>a. ar_scope a = sr_id s \<and> ar_scope a \<notin> set (map sr_id ?doomed)) (t_areas db)
          = filter (\<lambda>a. ar_scope a = sr_id s) (t_areas db)"
        using keep [OF s] by (intro filter_cong refl) (metis (no_types, lifting))
      then show ?thesis by (simp add: scope_of_row_def areas_of_def db' conj_commute)
    qed
    then show ?thesis unfolding scopes_view_def find by (cases "find_scope db (scope_str m)") simp_all
  qed
  ultimately show ?thesis by blast
qed

end
