(* ===== verification/Meta_Views.thy ===== *)
theory Meta_Views
  imports Meta_Retire Meta_Refs Meta_Scopes "HOL-Library.Multiset"
begin

section \<open>What a database says in the terms of the domain\<close>

text \<open>
  The commits, the graph and the chunk states a well-formed database holds, over commit ids and
  chunk coordinates instead of columns. The reads are shown to answer exactly these.
\<close>

definition commit_of_row :: "meta_db \<Rightarrow> commit_row \<Rightarrow> commit" where
  "commit_of_row db r =
     commit_new (hash_of_bytes (cm_id r)) (word_of_int (cm_created_at_ms r))
       (map hash_of_bytes (sort (parents_of (t_parents db) (cm_id r))))"

definition commits_view :: "meta_db \<Rightarrow> commit list" where
  "commits_view db = map (commit_of_row db) (commits_by_seq db)"

definition graph_view :: "meta_db \<Rightarrow> (commit_id \<times> commit_id) set" where
  "graph_view db = {(c, p). (commit_param c, commit_param p) \<in> set (t_parents db)}"

definition chunk_view :: "meta_db \<Rightarrow> commit_id \<Rightarrow> chunk_coord \<Rightarrow> chunk_hash option option" where
  "chunk_view db i c =
     map_option (\<lambda>r. he_blob (row_entry r)) (lookup_row db (commit_param i) (coord_cols c))"

lemma commit_of_row_sel [simp]:
  "c_id (commit_of_row db r) = hash_of_bytes (cm_id r)"
  "c_parents (commit_of_row db r) = map hash_of_bytes (sort (parents_of (t_parents db) (cm_id r)))"
  by (simp_all add: commit_of_row_def commit_new_def)

lemma edge_params:
  assumes "wf_db db" "e \<in> set (t_parents db)"
  shows "length (fst e) = 32" "length (snd e) = 32"
  using assms by (auto simp: wf_db_def wf_edges_def wf_commits_def wf_commit_row_def commit_ids_def)

lemma commit_ids_length: "wf_db db \<Longrightarrow> b \<in> commit_ids db \<Longrightarrow> length b = 32"
  by (auto simp: wf_db_def wf_commits_def wf_commit_row_def commit_ids_def)

lemma commit_parents_wf:
  assumes "wf_db db"
  shows "commit_parents db i = Inr (map hash_of_bytes (sort (parents_of (t_parents db) (commit_param i))))"
  unfolding commit_parents_def
proof (rule mapE_all_ok)
  fix b
  assume "b \<in> set (sort (parents_of (t_parents db) (commit_param i)))"
  then have "length b = 32" using edge_params [OF assms] by fastforce
  then show "commit_id_from_blob b = Inr (hash_of_bytes b)" by (rule commit_id_from_blob_wf)
qed

lemma wf_commit_rowD: "wf_db db \<Longrightarrow> r \<in> set (t_commits db) \<Longrightarrow> wf_commit_row r"
  by (simp add: wf_db_def wf_commits_def)

lemma param_of_row: "wf_db db \<Longrightarrow> r \<in> set (t_commits db) \<Longrightarrow> commit_param (hash_of_bytes (cm_id r)) = cm_id r"
  using wf_commit_rowD by (simp add: wf_commit_row_def commit_param_of_bytes)

lemma lookup_commit_wf:
  assumes "wf_db db"
  shows "lookup_commit db i = Inr (map_option (commit_of_row db) (find_commit db (commit_param i)))"
proof (cases "find_commit db (commit_param i)")
  case (Some r)
  then have r: "r \<in> set (t_commits db)" "cm_id r = commit_param i" using find_commit_mem by blast+
  then show ?thesis
    using Some wf_commit_rowD [OF assms r(1)]
    by (simp add: lookup_commit_def commit_parents_wf [OF assms] decode_commit_wf commit_of_row_def)
next
  case None
  show ?thesis by (simp add: lookup_commit_def None)
qed

lemma set_commits_by_seq [simp]: "set (commits_by_seq db) = set (t_commits db)"
  by (simp add: commits_by_seq_def)

lemma latest_commit_wf:
  assumes "wf_db db"
  shows "latest_commit db = Inr (if commits_view db = [] then None else Some (last (commits_view db)))"
proof (cases "rev (commits_by_seq db)")
  case Nil
  then show ?thesis by (simp add: latest_commit_def commits_view_def)
next
  case (Cons r rs)
  then have eq: "commits_by_seq db = rev rs @ [r]" by (simp add: rev_swap)
  then have r: "r \<in> set (t_commits db)" using set_commits_by_seq [of db] by auto
  have id: "commit_id_from_blob (cm_id r) = Inr (hash_of_bytes (cm_id r))"
    using wf_commit_rowD [OF assms r] by (simp add: wf_commit_row_def commit_id_from_blob_wf)
  show ?thesis
    using Cons id wf_commit_rowD [OF assms r] param_of_row [OF assms r]
    by (simp add: latest_commit_def commits_view_def eq commit_parents_wf [OF assms] decode_commit_wf commit_of_row_def)
qed

subsection \<open>The parent map\<close>

lemma parents_of_sort: "map snd (filter (\<lambda>e. fst e = c) (sort es)) = sort (parents_of es c)"
  for es :: "(bytes \<times> bytes) list"
proof (rule properties_for_sort [symmetric])
  show "mset (map snd (filter (\<lambda>e. fst e = c) (sort es))) = mset (parents_of es c)"
    by (simp add: parents_of_def)
  have "sorted (filter (\<lambda>e. fst e = c) (sort es))" by (simp add: sorted_wrt_filter)
  moreover have "sorted (map snd xs)" if "sorted xs" "\<forall>e \<in> set xs. fst e = c" for xs :: "(bytes \<times> bytes) list"
    using that by (induction xs) (auto simp: less_eq_prod_def)
  ultimately show "sorted (map snd (filter (\<lambda>e. fst e = c) (sort es)))" by simp
qed

definition map_parents :: "(bytes \<times> bytes) list \<Rightarrow> commit_id \<Rightarrow> commit_id list option" where
  "map_parents es i =
     (let ps = map hash_of_bytes (map snd (filter (\<lambda>e. fst e = commit_param i) es)) in
      if ps = [] then None else Some ps)"

lemma parent_map_fold:
  assumes "\<forall>e \<in> set es. length (fst e) = 32 \<and> length (snd e) = 32"
  shows "foldE (\<lambda>(cb, pb) m.
       bindE (commit_id_from_blob cb) (\<lambda>c.
       bindE (commit_id_from_blob pb) (\<lambda>p.
         Inr (m(c := Some ((case m c of None \<Rightarrow> [] | Some ps \<Rightarrow> ps) @ [p])))))) es (\<lambda>_. None)
     = (Inr (map_parents es) :: (storage_error, commit_id \<Rightarrow> commit_id list option) result)"
  using assms
proof (induction es rule: rev_induct)
  case Nil
  show ?case by (simp add: map_parents_def fun_eq_iff)
next
  case (snoc e es)
  obtain cb pb where e: "e = (cb, pb)" by (cases e)
  then have len: "length cb = 32" "length pb = 32" using snoc.prems by simp_all
  have "commit_param i = cb \<longleftrightarrow> i = hash_of_bytes cb" for i
    using commit_param_of_bytes [OF len(1)] by auto
  then have "map_parents (es @ [e]) = (map_parents es)(hash_of_bytes cb :=
      Some ((case map_parents es (hash_of_bytes cb) of None \<Rightarrow> [] | Some ps \<Rightarrow> ps) @ [hash_of_bytes pb]))"
    using len by (auto simp: map_parents_def fun_eq_iff e commit_param_of_bytes Let_def)
  then show ?case
    using snoc e len by (simp add: foldE_append commit_id_from_blob_wf)
qed

lemma parent_map_wf:
  assumes "wf_db db"
  shows "parent_map db = Inr (map_parents (sort (t_parents db)))"
  unfolding parent_map_def using edge_params [OF assms] by (intro parent_map_fold) auto

lemma visit_commits_wf:
  assumes wf: "wf_db db"
  shows "visit_commits db = (commits_view db, None)"
proof -
  let ?rows = "commits_by_seq db"
  have ids: "mapE (\<lambda>r. commit_id_from_blob (cm_id r)) ?rows = Inr (map (\<lambda>r. hash_of_bytes (cm_id r)) ?rows)"
    using wf_commit_rowD [OF wf] by (intro mapE_all_ok) (simp add: wf_commit_row_def commit_id_from_blob_wf)
  have "decode_visit (\<lambda>(r, i). decode_commit r (case map_parents (sort (t_parents db)) i of None \<Rightarrow> [] | Some ps \<Rightarrow> ps))
      (zip rs (map (\<lambda>r. hash_of_bytes (cm_id r)) rs)) = (map (commit_of_row db) rs, None)"
    if "set rs \<subseteq> set (t_commits db)" for rs
    using that
  proof (induction rs)
    case (Cons r rs)
    then have r: "r \<in> set (t_commits db)" by simp
    have "(case map_parents (sort (t_parents db)) (hash_of_bytes (cm_id r)) of None \<Rightarrow> [] | Some ps \<Rightarrow> ps)
        = map hash_of_bytes (sort (parents_of (t_parents db) (cm_id r)))"
      unfolding map_parents_def param_of_row [OF wf r] parents_of_sort by (simp add: Let_def)
    then show ?case
      using Cons wf_commit_rowD [OF wf r] by (simp add: decode_commit_wf commit_of_row_def)
  qed simp
  then show ?thesis
    by (simp add: visit_commits_def parent_map_wf [OF wf] ids commits_view_def)
qed

end
