(* ===== verification/Meta_Port.thy ===== *)
theory Meta_Port
  imports Loops Scopes History_Graph
begin

section \<open>The metadata port\<close>

text \<open>
  \<open>crates/core/src/port/meta.rs\<close>: the trait \<open>MetaStore\<close> that every use case is generic over, as a
  record of its operations over a state \<open>'m\<close> and an error \<open>'e\<close>, and the promises its
  documentation makes, as locales. A mutating operation returns its answer and the new state, and
  leaves the state alone when it fails. \<open>history_store\<close> says what the reads answer,
  \<open>folding_store\<close> what a retirement keeps, \<open>ref_store\<close> and \<open>scope_store\<close> what the named
  pointers and areas promise; the use cases are proved inside these locales and the SQLite model
  interprets them.
\<close>

record ('m, 'e) meta_port =
  mp_create_commit :: "u64 \<Rightarrow> commit_id list \<Rightarrow> 'm \<Rightarrow> ('e, commit_id \<times> 'm) result"
  mp_commit_parents :: "'m \<Rightarrow> commit_id \<Rightarrow> ('e, commit_id list) result"
  mp_record_chunk :: "commit_id \<Rightarrow> chunk_coord \<Rightarrow> chunk_hash option \<Rightarrow> 'm \<Rightarrow> ('e, 'm) result"
  mp_lookup_chunk :: "'m \<Rightarrow> commit_id \<Rightarrow> chunk_coord \<Rightarrow> ('e, history_entry option) result"
  mp_lookup_commit :: "'m \<Rightarrow> commit_id \<Rightarrow> ('e, commit option) result"
  mp_latest_commit :: "'m \<Rightarrow> ('e, commit option) result"
  mp_visit_commit_chunks :: "'m \<Rightarrow> commit_id \<Rightarrow> ('e, history_entry) visit"
  mp_visit_fresh_rows :: "'m \<Rightarrow> commit_id \<Rightarrow> ('e, history_entry) visit"
  mp_visit_commits :: "'m \<Rightarrow> ('e, commit) visit"
  mp_apply_commit_incremental ::
    "u64 \<Rightarrow> commit_id list \<Rightarrow> commit_entry list \<Rightarrow> 'm \<Rightarrow> ('e, apply_outcome \<times> 'm) result"
  mp_retire_commit :: "commit_id \<Rightarrow> commit_id \<Rightarrow> 'm \<Rightarrow> ('e, fold_outcome \<times> 'm) result"
  mp_set_ref :: "ref_name \<Rightarrow> commit_id option \<Rightarrow> u64 \<Rightarrow> 'm \<Rightarrow> ('e, 'm) result"
  mp_lookup_ref :: "'m \<Rightarrow> ref_name \<Rightarrow> ('e, commit_ref option) result"
  mp_visit_refs :: "'m \<Rightarrow> ('e, commit_ref) visit"
  mp_delete_ref :: "ref_name \<Rightarrow> 'm \<Rightarrow> ('e, bool \<times> 'm) result"
  mp_active_ref :: "'m \<Rightarrow> ('e, commit_ref option) result"
  mp_activate_ref :: "ref_name \<Rightarrow> 'm \<Rightarrow> ('e, 'm) result"
  mp_set_scope :: "named_scope \<Rightarrow> 'm \<Rightarrow> ('e, 'm) result"
  mp_lookup_scope :: "'m \<Rightarrow> scope_name \<Rightarrow> ('e, named_scope option) result"
  mp_visit_scopes :: "'m \<Rightarrow> ('e, named_scope) visit"
  mp_delete_scope :: "scope_name \<Rightarrow> 'm \<Rightarrow> ('e, bool \<times> 'm) result"

subsection \<open>Histories as lists of commits\<close>

definition graph_of :: "commit list \<Rightarrow> (commit_id \<times> commit_id) set" where
  "graph_of cs = {(c_id c, p) | c p. c \<in> set cs \<and> p \<in> set (c_parents c)}"

definition ids_of :: "commit list \<Rightarrow> commit_id list" where
  "ids_of cs = map c_id cs"

definition find_record :: "commit list \<Rightarrow> commit_id \<Rightarrow> commit option" where
  "find_record cs i = find (\<lambda>c. c_id c = i) cs"

lemma find_record_Some:
  assumes "distinct (ids_of cs)"
  shows "find_record cs i = Some c \<longleftrightarrow> c \<in> set cs \<and> c_id c = i"
proof
  assume c: "c \<in> set cs \<and> c_id c = i"
  then have "find_record cs i \<noteq> None" by (auto simp: find_record_def find_None_iff)
  then obtain d where d: "find_record cs i = Some d" by blast
  then have "d \<in> set cs" "c_id d = c_id c" using c by (auto simp: find_record_def find_Some_iff)
  moreover have "inj_on c_id (set cs)" using assms by (simp add: ids_of_def distinct_map)
  ultimately have "d = c" using c by (auto dest: inj_onD)
  with d show "find_record cs i = Some c" by simp
qed (auto simp: find_record_def find_Some_iff)

lemma find_record_None: "find_record cs i = None \<longleftrightarrow> i \<notin> set (ids_of cs)"
  by (auto simp: find_record_def find_None_iff ids_of_def)

lemma graph_of_edge:
  assumes "distinct (ids_of cs)" "find_record cs i = Some c"
  shows "(i, p) \<in> graph_of cs \<longleftrightarrow> p \<in> set (c_parents c)"
proof -
  have c: "c \<in> set cs" "c_id c = i" using assms by (simp_all add: find_record_Some)
  have "d = c" if "d \<in> set cs" "c_id d = i" for d
    using that assms find_record_Some [OF assms(1), of i d] by simp
  with c show ?thesis unfolding graph_of_def by blast
qed

lemma graph_of_source: "(i, p) \<in> graph_of cs \<Longrightarrow> i \<in> set (ids_of cs)"
  by (auto simp: graph_of_def ids_of_def)

subsection \<open>What the reads answer\<close>

locale history_store =
  fixes port :: "('m, 'e) meta_port"
    and valid :: "'m \<Rightarrow> bool"
    and commits :: "'m \<Rightarrow> commit list"
    and state :: "'m \<Rightarrow> commit_id \<Rightarrow> chunk_coord \<Rightarrow> chunk_hash option option"
    and fresh :: "'m \<Rightarrow> commit_id \<Rightarrow> history_entry list"
  assumes distinct_commits: "valid m \<Longrightarrow> distinct (ids_of (commits m))"
    and parents_sorted: "valid m \<Longrightarrow> c \<in> set (commits m) \<Longrightarrow> sorted_wrt (<) (c_parents c)"
    and parents_known:
      "valid m \<Longrightarrow> c \<in> set (commits m) \<Longrightarrow> p \<in> set (c_parents c) \<Longrightarrow> p \<in> set (ids_of (commits m))"
    and visit_commits: "valid m \<Longrightarrow> mp_visit_commits port m = (commits m, None)"
    and lookup_commit: "valid m \<Longrightarrow> mp_lookup_commit port m i = Inr (find_record (commits m) i)"
    and commit_parents:
      "valid m \<Longrightarrow> mp_commit_parents port m i
         = Inr (case find_record (commits m) i of None \<Rightarrow> [] | Some c \<Rightarrow> c_parents c)"
    and latest_commit:
      "valid m \<Longrightarrow> mp_latest_commit port m
         = Inr (if commits m = [] then None else Some (last (commits m)))"
    and visit_chunks:
      "valid m \<Longrightarrow> \<exists>es. mp_visit_commit_chunks port m i = (es, None)
         \<and> sorted_wrt (<) (map he_coord es)
         \<and> (\<forall>k. map_option he_blob (find (\<lambda>e. he_coord e = k) es) = state m i k)"
    and lookup_chunk:
      "valid m \<Longrightarrow> \<exists>x. mp_lookup_chunk port m i k = Inr x \<and> map_option he_blob x = state m i k
         \<and> (\<forall>e. x = Some e \<longrightarrow> he_coord e = k)"
    and visit_fresh: "valid m \<Longrightarrow> mp_visit_fresh_rows port m i = (fresh m i, None)"
begin

definition graph :: "'m \<Rightarrow> (commit_id \<times> commit_id) set" where
  "graph m = graph_of (commits m)"

lemma graph_ids:
  assumes "valid m" "(i, p) \<in> graph m"
  shows "i \<in> set (ids_of (commits m))" "p \<in> set (ids_of (commits m))"
  using assms parents_known [of m] by (auto simp: graph_def graph_of_def ids_of_def)

lemma graph_edge:
  "valid m \<Longrightarrow> find_record (commits m) i = Some c \<Longrightarrow> (i, p) \<in> graph m \<longleftrightarrow> p \<in> set (c_parents c)"
  by (simp add: graph_def graph_of_edge distinct_commits)

lemma parents_answer:
  assumes "valid m"
  shows "\<exists>ps. mp_commit_parents port m i = Inr ps \<and> set ps = {p. (i, p) \<in> graph m}"
proof (cases "find_record (commits m) i")
  case None
  then have "i \<notin> set (ids_of (commits m))" by (simp add: find_record_None)
  then have "{p. (i, p) \<in> graph m} = {}" using graph_ids [OF assms] by blast
  with None show ?thesis by (simp add: commit_parents [OF assms])
next
  case (Some c)
  then show ?thesis using graph_edge [OF assms] by (auto simp: commit_parents [OF assms])
qed

end

subsection \<open>What a retirement keeps\<close>

locale folding_store = history_store port valid commits state fresh
  for port :: "('m, 'e) meta_port" and valid commits state fresh +
  fixes linear :: "'m \<Rightarrow> bool"
  assumes retire:
    "valid m \<Longrightarrow> linear m \<Longrightarrow> (t, f) \<in> (graph_of (commits m))\<^sup>* \<Longrightarrow> t \<noteq> f
      \<Longrightarrow> t \<in> set (ids_of (commits m))
      \<Longrightarrow> \<exists>out m'. mp_retire_commit port f t m = Inr (out, m') \<and> valid m' \<and> linear m'
        \<and> ids_of (commits m') = filter (\<lambda>i. i \<noteq> f) (ids_of (commits m))
        \<and> graph_of (commits m') = contract (graph_of (commits m)) f
        \<and> (\<forall>i. i \<noteq> f \<longrightarrow> ((i, f) \<in> (graph_of (commits m))\<^sup>* \<longrightarrow> (i, t) \<in> (graph_of (commits m))\<^sup>*)
             \<longrightarrow> state m' i = state m i)"

subsection \<open>Refs and scopes\<close>

locale ref_store =
  fixes port :: "('m, 'e) meta_port"
    and valid :: "'m \<Rightarrow> bool"
    and refs :: "'m \<Rightarrow> ref_name \<Rightarrow> commit_ref option"
    and ok_ref :: "ref_name \<Rightarrow> bool"
  assumes lookup_ref: "valid m \<Longrightarrow> mp_lookup_ref port m n = Inr (refs m n)"
    and ref_named: "valid m \<Longrightarrow> refs m n = Some r \<Longrightarrow> cr_name r = n"
    and one_active: "valid m \<Longrightarrow> refs m n = Some r \<Longrightarrow> refs m n' = Some s \<Longrightarrow> cr_active r \<Longrightarrow> cr_active s \<Longrightarrow> n = n'"
    and visit_refs:
      "valid m \<Longrightarrow> \<exists>rs. mp_visit_refs port m = (rs, None) \<and> sorted_wrt (<) (map cr_name rs)
         \<and> (\<forall>r. r \<in> set rs \<longleftrightarrow> refs m (cr_name r) = Some r)"
    and active_ref:
      "valid m \<Longrightarrow> \<exists>x. mp_active_ref port m = Inr x
         \<and> (\<forall>r. x = Some r \<longleftrightarrow> refs m (cr_name r) = Some r \<and> cr_active r)"
    and set_ref:
      "valid m \<Longrightarrow> ok_ref n \<Longrightarrow> mp_set_ref port n c t m = Inr m' \<Longrightarrow> valid m'
         \<and> refs m' = (refs m)(n := Some (case refs m n of
              Some r \<Rightarrow> r\<lparr>cr_commit := c\<rparr> | None \<Rightarrow> commit_ref_new n c False t))"
    and delete_ref_ok:
      "valid m \<Longrightarrow> mp_delete_ref port n m = Inr (b, m') \<Longrightarrow> valid m' \<and> refs m' = (refs m)(n := None)
         \<and> (b \<longleftrightarrow> refs m n \<noteq> None)"
    and delete_ref_total:
      "valid m \<Longrightarrow> (\<exists>e. mp_delete_ref port n m = Inl e) \<longleftrightarrow> (\<exists>r. refs m n = Some r \<and> cr_active r)"
    and activate_ref_ok:
      "valid m \<Longrightarrow> mp_activate_ref port n m = Inr m' \<Longrightarrow> valid m'
         \<and> (\<forall>k. refs m' k = map_option (\<lambda>r. r\<lparr>cr_active := (k = n)\<rparr>) (refs m k))"
    and activate_ref_total:
      "valid m \<Longrightarrow> (\<exists>m'. mp_activate_ref port n m = Inr m') \<longleftrightarrow> refs m n \<noteq> None"
begin

definition has_head :: "'m \<Rightarrow> bool" where
  "has_head m \<longleftrightarrow> (\<exists>n r. refs m n = Some r \<and> cr_active r)"

lemma set_ref_head: "valid m \<Longrightarrow> ok_ref n \<Longrightarrow> mp_set_ref port n c t m = Inr m' \<Longrightarrow> has_head m \<Longrightarrow> has_head m'"
proof -
  assume m: "valid m" "ok_ref n" "mp_set_ref port n c t m = Inr m'" "has_head m"
  then obtain k r where k: "refs m k = Some r" "cr_active r" by (auto simp: has_head_def)
  have "\<exists>r'. refs m' k = Some r' \<and> cr_active r'"
    using set_ref [OF m(1-3)] k by (cases "k = n") simp_all
  then show "has_head m'" by (auto simp: has_head_def)
qed

lemma delete_ref_head: "valid m \<Longrightarrow> mp_delete_ref port n m = Inr (b, m') \<Longrightarrow> has_head m \<Longrightarrow> has_head m'"
  using delete_ref_ok [of m n b m'] delete_ref_total [of m n] by (force simp: has_head_def)

lemma activate_ref_head: "valid m \<Longrightarrow> mp_activate_ref port n m = Inr m' \<Longrightarrow> has_head m'"
  using activate_ref_ok [of m n m'] activate_ref_total [of m n] by (force simp: has_head_def)

lemma active_after_activate:
  assumes "valid m" "mp_activate_ref port n m = Inr m'"
  shows "\<exists>r. mp_active_ref port m' = Inr (Some r) \<and> cr_name r = n"
proof -
  have m': "valid m'" "refs m' k = map_option (\<lambda>r. r\<lparr>cr_active := (k = n)\<rparr>) (refs m k)" for k
    using activate_ref_ok [OF assms] by blast+
  obtain r where "refs m n = Some r" using activate_ref_total [OF assms(1)] assms(2) by blast
  then have r: "refs m' n = Some (r\<lparr>cr_active := True\<rparr>)" using m'(2) [of n] by simp
  moreover have "cr_name (r\<lparr>cr_active := True\<rparr>) = n" using ref_named [OF m'(1) r] .
  ultimately show ?thesis using active_ref [OF m'(1)] by (metis commit_ref.select_convs(3) commit_ref.simps(3) commit_ref.surjective commit_ref.update_convs(3))
qed

end

locale scope_store =
  fixes port :: "('m, 'e) meta_port"
    and valid :: "'m \<Rightarrow> bool"
    and scopes :: "'m \<Rightarrow> scope_name \<Rightarrow> named_scope option"
    and ok_scope :: "named_scope \<Rightarrow> bool"
  assumes lookup_scope: "valid m \<Longrightarrow> mp_lookup_scope port m n = Inr (scopes m n)"
    and set_scope:
      "valid m \<Longrightarrow> ok_scope s \<Longrightarrow> mp_set_scope port s m = Inr m' \<Longrightarrow> valid m'
         \<and> scopes m' = (scopes m)(ns_name s := Some (case scopes m (ns_name s) of
              None \<Rightarrow> s | Some old \<Rightarrow> s\<lparr>ns_created_at_ms := ns_created_at_ms old\<rparr>))"
    and delete_scope:
      "valid m \<Longrightarrow> mp_delete_scope port n m = Inr (b, m') \<Longrightarrow> valid m' \<and> scopes m' = (scopes m)(n := None)
         \<and> (b \<longleftrightarrow> scopes m n \<noteq> None)"
    and visit_scopes:
      "valid m \<Longrightarrow> \<exists>ss. mp_visit_scopes port m = (ss, None) \<and> sorted_wrt (<) (map (\<lambda>s. scope_str (ns_name s)) ss)
         \<and> (\<forall>s. s \<in> set ss \<longleftrightarrow> scopes m (ns_name s) = Some s)"
begin

lemma stored_scope_areas:
  assumes "valid m" "ok_scope s" "mp_set_scope port s m = Inr m'"
  shows "\<exists>r. mp_lookup_scope port m' (ns_name s) = Inr (Some r) \<and> ns_areas r = ns_areas s
    \<and> ns_created_at_ms r = (case scopes m (ns_name s) of None \<Rightarrow> ns_created_at_ms s | Some o' \<Rightarrow> ns_created_at_ms o')"
  using set_scope [OF assms] lookup_scope [of m'] by (auto split: option.split)

lemma removed_scope:
  "valid m \<Longrightarrow> mp_delete_scope port n m = Inr (b, m') \<Longrightarrow> mp_lookup_scope port m' n = Inr None"
  using delete_scope [of m n b m'] lookup_scope [of m'] by simp

end

end
