(* ===== verification/Meta_Sqlite.thy ===== *)
theory Meta_Sqlite
  imports Meta_Views Meta_Port
begin

section \<open>SQLite provides the metadata port\<close>

text \<open>
  \<open>impl MetaStore for SqliteMeta\<close>: the operations of the previous theories as the record the use
  cases take, and the proofs that the model of the SQLite backend keeps every promise of the port.
\<close>

definition sqlite_port :: "(bytes \<Rightarrow> hash32) \<Rightarrow> (meta_db, storage_error) meta_port" where
  "sqlite_port H =
     \<lparr>mp_create_commit = create_commit H,
      mp_commit_parents = commit_parents,
      mp_record_chunk = record_chunk,
      mp_lookup_chunk = lookup_chunk,
      mp_lookup_commit = lookup_commit,
      mp_latest_commit = latest_commit,
      mp_visit_commit_chunks = visit_commit_chunks,
      mp_visit_fresh_rows = visit_fresh_rows,
      mp_visit_commits = visit_commits,
      mp_apply_commit_incremental = apply_commit_incremental H,
      mp_retire_commit = retire_commit,
      mp_set_ref = set_ref,
      mp_lookup_ref = lookup_ref,
      mp_visit_refs = visit_refs,
      mp_delete_ref = delete_ref,
      mp_active_ref = active_ref,
      mp_activate_ref = activate_ref,
      mp_set_scope = set_scope,
      mp_lookup_scope = lookup_scope,
      mp_visit_scopes = visit_scopes,
      mp_delete_scope = delete_scope\<rparr>"

lemma sqlite_port_sel [simp]:
  "mp_create_commit (sqlite_port H) = create_commit H"
  "mp_commit_parents (sqlite_port H) = commit_parents"
  "mp_record_chunk (sqlite_port H) = record_chunk"
  "mp_lookup_chunk (sqlite_port H) = lookup_chunk"
  "mp_lookup_commit (sqlite_port H) = lookup_commit"
  "mp_latest_commit (sqlite_port H) = latest_commit"
  "mp_visit_commit_chunks (sqlite_port H) = visit_commit_chunks"
  "mp_visit_fresh_rows (sqlite_port H) = visit_fresh_rows"
  "mp_visit_commits (sqlite_port H) = visit_commits"
  "mp_apply_commit_incremental (sqlite_port H) = apply_commit_incremental H"
  "mp_retire_commit (sqlite_port H) = retire_commit"
  "mp_set_ref (sqlite_port H) = set_ref"
  "mp_lookup_ref (sqlite_port H) = lookup_ref"
  "mp_visit_refs (sqlite_port H) = visit_refs"
  "mp_delete_ref (sqlite_port H) = delete_ref"
  "mp_active_ref (sqlite_port H) = active_ref"
  "mp_activate_ref (sqlite_port H) = activate_ref"
  "mp_set_scope (sqlite_port H) = set_scope"
  "mp_lookup_scope (sqlite_port H) = lookup_scope"
  "mp_visit_scopes (sqlite_port H) = visit_scopes"
  "mp_delete_scope (sqlite_port H) = delete_scope"
  by (simp_all add: sqlite_port_def)

definition fresh_view :: "meta_db \<Rightarrow> commit_id \<Rightarrow> history_entry list" where
  "fresh_view db i = map row_entry (fresh_rows db (commit_param i))"

subsection \<open>The history\<close>

lemma ids_of_commits_view: "ids_of (commits_view db) = map (\<lambda>r. hash_of_bytes (cm_id r)) (commits_by_seq db)"
  by (simp add: ids_of_def commits_view_def)

lemma set_ids_of_commits_view:
  assumes "wf_db db"
  shows "i \<in> set (ids_of (commits_view db)) \<longleftrightarrow> commit_param i \<in> commit_ids db"
proof
  assume "i \<in> set (ids_of (commits_view db))"
  then obtain r where "r \<in> set (t_commits db)" "i = hash_of_bytes (cm_id r)"
    by (auto simp: ids_of_commits_view)
  then show "commit_param i \<in> commit_ids db" using param_of_row [OF assms] by (auto simp: commit_ids_def)
next
  assume "commit_param i \<in> commit_ids db"
  then obtain r where r: "r \<in> set (t_commits db)" "cm_id r = commit_param i" by (auto simp: commit_ids_def)
  then have "i = hash_of_bytes (cm_id r)" by simp
  with r(1) show "i \<in> set (ids_of (commits_view db))" by (auto simp: ids_of_commits_view)
qed

lemma distinct_commits_view:
  assumes "wf_db db"
  shows "distinct (ids_of (commits_view db))"
proof -
  have "distinct (map cm_id (commits_by_seq db))"
    using assms by (simp add: wf_db_def wf_commits_def commits_by_seq_def distinct_map)
  moreover have "inj_on hash_of_bytes (cm_id ` set (t_commits db))"
  proof (rule inj_onI)
    fix a b
    assume ab: "a \<in> cm_id ` set (t_commits db)" "b \<in> cm_id ` set (t_commits db)" "hash_of_bytes a = hash_of_bytes b"
    then have "length a = 32" "length b = 32" using commit_ids_length [OF assms] by (auto simp: commit_ids_def)
    then show "a = b" using ab(3) commit_param_of_bytes by metis
  qed
  ultimately have "distinct (map hash_of_bytes (map cm_id (commits_by_seq db)))"
    by (subst distinct_map) simp
  then show ?thesis by (simp add: ids_of_commits_view comp_def)
qed

lemma commits_view_find:
  assumes "wf_db db"
  shows "find_record (commits_view db) i = map_option (commit_of_row db) (find_commit db (commit_param i))"
proof (cases "find_commit db (commit_param i)")
  case None
  then have "commit_param i \<notin> commit_ids db" by simp
  then have "find_record (commits_view db) i = None"
    using set_ids_of_commits_view [OF assms] by (simp add: find_record_None)
  with None show ?thesis by simp
next
  case (Some r)
  then have "r \<in> set (t_commits db)" "cm_id r = commit_param i" using find_commit_mem by blast+
  then have "commit_of_row db r \<in> set (commits_view db)" "c_id (commit_of_row db r) = i"
    by (simp_all add: commits_view_def)
  then have "find_record (commits_view db) i = Some (commit_of_row db r)"
    using find_record_Some [OF distinct_commits_view [OF assms]] by blast
  with Some show ?thesis by simp
qed

lemma parents_view:
  assumes "wf_db db"
  shows "set (map hash_of_bytes (sort (parents_of (t_parents db) (commit_param i)))) = {p. (i, p) \<in> graph_view db}"
proof -
  have "hash_of_bytes b = p \<longleftrightarrow> b = commit_param p" if "(commit_param i, b) \<in> set (t_parents db)" for b p
    using edge_params(2) [OF assms that] commit_param_of_bytes by auto
  then show ?thesis by (force simp: graph_view_def)
qed

lemma graph_of_commits_view:
  assumes "wf_db db"
  shows "graph_of (commits_view db) = graph_view db"
proof (intro set_eqI)
  fix e :: "commit_id \<times> commit_id"
  obtain i p where e: "e = (i, p)" by (cases e)
  have "(i, p) \<in> graph_of (commits_view db) \<longleftrightarrow> (i, p) \<in> graph_view db"
  proof (cases "find_commit db (commit_param i)")
    case None
    then have no: "commit_param i \<notin> commit_ids db" by simp
    then have "(i, p) \<notin> graph_of (commits_view db)"
      using graph_of_source set_ids_of_commits_view [OF assms] by blast
    moreover have "(i, p) \<notin> graph_view db"
      using no assms by (auto simp: graph_view_def wf_db_def wf_edges_def)
    ultimately show ?thesis by simp
  next
    case (Some r)
    then have "cm_id r = commit_param i" using find_commit_mem by blast
    moreover have "find_record (commits_view db) i = Some (commit_of_row db r)"
      using Some by (simp add: commits_view_find [OF assms])
    ultimately have "(i, p) \<in> graph_of (commits_view db)
        \<longleftrightarrow> p \<in> set (map hash_of_bytes (sort (parents_of (t_parents db) (commit_param i))))"
      using graph_of_edge [OF distinct_commits_view [OF assms]] by simp
    then show ?thesis unfolding parents_view [OF assms] by simp
  qed
  then show "e \<in> graph_of (commits_view db) \<longleftrightarrow> e \<in> graph_view db" by (simp add: e)
qed

lemma sorted_hashes:
  assumes "sorted bs" "distinct bs" "\<forall>b \<in> set bs. length b = 32"
  shows "sorted_wrt (<) (map hash_of_bytes bs)"
proof -
  have "hash_of_bytes a < hash_of_bytes b" if "a \<in> set bs" "b \<in> set bs" "a < b" for a b
    using that assms(3) by (simp add: hash_order_is_byte_order hash_bytes_list_of_bytes)
  moreover have "sorted_wrt (<) bs" using assms(1,2) by (simp add: strict_sorted_iff)
  ultimately show ?thesis by (auto simp: sorted_wrt_map elim: sorted_wrt_mono_rel [rotated])
qed

lemma inherits_graph:
  assumes "wf_db db"
  shows "inherits db (commit_param a) (commit_param b) \<longleftrightarrow> (a, b) \<in> (graph_view db)\<^sup>*"
proof
  assume "(a, b) \<in> (graph_view db)\<^sup>*"
  then show "inherits db (commit_param a) (commit_param b)"
    unfolding inherits_def
    by (induction rule: rtrancl_induct) (auto simp: graph_view_def intro: rtrancl_into_rtrancl)
next
  have "\<exists>j. y = commit_param j \<and> (a, j) \<in> (graph_view db)\<^sup>*"
    if "(commit_param a, y) \<in> (set (t_parents db))\<^sup>*" for y
    using that
  proof (induction rule: rtrancl_induct)
    case (step y z)
    then obtain j where j: "y = commit_param j" "(a, j) \<in> (graph_view db)\<^sup>*" by blast
    have "length z = 32" using edge_params(2) [OF assms step.hyps(2)] by simp
    then have z: "z = commit_param (hash_of_bytes z)" by (simp add: commit_param_of_bytes)
    then have "(j, hash_of_bytes z) \<in> graph_view db" using step.hyps(2) j(1) by (simp add: graph_view_def)
    with j(2) z show ?case by (blast intro: rtrancl_into_rtrancl)
  qed auto
  then show "(a, b) \<in> (graph_view db)\<^sup>*" if "inherits db (commit_param a) (commit_param b)"
    using that unfolding inherits_def by fastforce
qed

lemma chunk_view_blob:
  assumes "wf_history db"
  shows "blob_at db (commit_param i) (coord_cols c) = map_option (map_option hash_bytes_list) (chunk_view db i c)"
proof (cases "lookup_row db (commit_param i) (coord_cols c)")
  case (Some r)
  then have "wf_history_row r" using assms lookup_row_mem by (fastforce simp: wf_history_def)
  then show ?thesis using Some row_entry_facts(3) by (simp add: blob_at_def chunk_view_def)
qed (simp add: blob_at_def chunk_view_def)

lemma inj_hash_blob:
  "map_option (map_option hash_bytes_list) x = map_option (map_option hash_bytes_list) y \<longleftrightarrow> x = y"
proof -
  have "inj (map_option (map_option hash_bytes_list))"
    by (intro option.inj_map injI) simp
  then show ?thesis by (simp add: inj_eq)
qed

lemma coord_cols_mono: "coord_cols a < coord_cols b \<longleftrightarrow> a < b"
  by (cases a; cases b) (auto simp: coord_cols_def less_chunk_coord_def coord_key_def less_prod_def
      less_eq_dimension_def less_dimension_def less_eq_region_kind_def less_region_kind_def
      less_i32_def less_eq_i32_def word_less_def word_le_def)

lemma visit_sorted:
  assumes "wf_history db"
  shows "sorted_wrt (<) (map he_coord (map row_entry (effective_rows db b)))"
proof -
  have "map coord_cols (map he_coord (map row_entry (effective_rows db b))) = map hr_coord (effective_rows db b)"
    using assms row_entry_facts(1)
    by (auto simp: set_effective_rows wf_history_def dest!: lookup_row_mem)
  then have "sorted_wrt (<) (map coord_cols (map he_coord (map row_entry (effective_rows db b))))"
    by (simp add: effective_coords strict_sorted_iff)
  then show ?thesis by (simp add: sorted_wrt_map coord_cols_mono)
qed

interpretation sq: history_store "sqlite_port H" wf_db commits_view chunk_view fresh_view for H
proof (unfold_locales, goal_cases)
  case (1 m)
  then show ?case by (rule distinct_commits_view)
next
  case (2 m c)
  then obtain r where r: "r \<in> set (t_commits m)" "c = commit_of_row m r" by (auto simp: commits_view_def)
  have "distinct (parents_of (t_parents m) (cm_id r))"
    using 2 by (auto simp: wf_db_def wf_edges_def parents_of_def distinct_map inj_on_def)
  moreover have "length b = 32" if "b \<in> set (parents_of (t_parents m) (cm_id r))" for b
    using that edge_params(2) [OF 2(1)] by fastforce
  ultimately show ?case using r(2) by (simp add: sorted_hashes)
next
  case (3 m c p)
  then have "(c_id c, p) \<in> graph_view m"
    using graph_of_commits_view [OF 3(1)] unfolding graph_of_def by blast
  then show ?case using 3(1) by (auto simp: set_ids_of_commits_view graph_view_def wf_db_def wf_edges_def)
next
  case (4 m)
  then show ?case by (simp add: visit_commits_wf)
next
  case (5 m i)
  then show ?case by (simp add: lookup_commit_wf commits_view_find)
next
  case (6 m i)
  show ?case
  proof (cases "find_commit m (commit_param i)")
    case None
    then have "parents_of (t_parents m) (commit_param i) = []"
      using 6 by (force simp: wf_db_def wf_edges_def parents_of_def filter_empty_conv)
    then show ?thesis using 6 by (simp add: commit_parents_wf commits_view_find None)
  next
    case (Some r)
    then have "cm_id r = commit_param i" using find_commit_mem by blast
    then show ?thesis using 6 Some by (simp add: commit_parents_wf commits_view_find)
  qed
next
  case (7 m)
  then show ?case by (simp add: latest_commit_wf)
next
  case (8 m i)
  then have "wf_history m" by (simp add: wf_db_def)
  then show ?case
    using visit_sorted by (simp add: visit_commit_chunks_wf lookup_find_entry chunk_view_def option.map_comp comp_def)
next
  case (9 m i k)
  then have wf: "wf_history m" by (simp add: wf_db_def)
  have "he_coord (row_entry r) = k" if "lookup_row m (commit_param i) (coord_cols k) = Some r" for r
    using that lookup_row_mem [OF that] row_entry_facts(1) [of r] wf
    by (auto simp: wf_history_def)
  then show ?case using wf by (auto simp: lookup_chunk_wf chunk_view_def option.map_comp comp_def)
next
  case (10 m i)
  then show ?case by (simp add: wf_db_def visit_fresh_rows_wf fresh_view_def)
qed

subsection \<open>Retirement\<close>

definition linear_db :: "meta_db \<Rightarrow> bool" where
  "linear_db db \<longleftrightarrow> seq_ordered db \<and> linear_history db"

lemma seq_sorted_filter:
  assumes "distinct (map cm_seq rows)"
  shows "sort_key cm_seq (filter P rows) = filter P (sort_key cm_seq rows)"
  by (simp add: filter_sort)

lemma ids_after_retire:
  assumes "wf_db db"
  shows "ids_of (commits_view (retired_db db (commit_param f) i s t))
     = filter (\<lambda>j. j \<noteq> f) (ids_of (commits_view db))"
proof -
  have "cm_id r \<noteq> commit_param f \<longleftrightarrow> hash_of_bytes (cm_id r) \<noteq> f" if "r \<in> set (commits_by_seq db)" for r
    using that param_of_row [OF assms, of r] by auto
  then have "filter (\<lambda>r. cm_id r \<noteq> commit_param f) (commits_by_seq db)
      = filter (\<lambda>r. hash_of_bytes (cm_id r) \<noteq> f) (commits_by_seq db)"
    by (intro filter_cong) auto
  then show ?thesis
    by (simp add: ids_of_commits_view commits_by_seq_def filter_map comp_def flip: filter_sort)
qed

lemma chunk_view_retired:
  assumes wf: "wf_db db" and lin: "linear_db db" and f: "select_seq db (commit_param f) = Some s"
    and i: "select_seq db (commit_param t) = Some u" and lt: "s < u"
    and desc: "(t, f) \<in> (graph_view db)\<^sup>*" and j: "j \<noteq> f"
    and thru: "(j, f) \<in> (graph_view db)\<^sup>* \<Longrightarrow> (j, t) \<in> (graph_view db)\<^sup>*"
  shows "chunk_view (retired_db db (commit_param f) (commit_param t) s u) j = chunk_view db j"
proof
  fix c
  let ?db' = "retired_db db (commit_param f) (commit_param t) s u"
  have wf': "wf_db ?db'" using wf_db_retired [OF wf f i lt] by simp
  have "blob_at ?db' (commit_param j) (coord_cols c) = blob_at db (commit_param j) (coord_cols c)"
  proof (rule blob_at_retired [OF wf _ _ f i lt])
    show "seq_ordered db" "linear_history db" using lin by (simp_all add: linear_db_def)
    show "inherits db (commit_param t) (commit_param f)" using desc by (simp add: inherits_graph [OF wf])
  qed (use j thru in \<open>simp_all add: inherits_graph [OF wf]\<close>)
  then show "chunk_view ?db' j c = chunk_view db j c"
    using chunk_view_blob [OF wf_dbD(4) [OF wf]] chunk_view_blob [OF wf_dbD(4) [OF wf']] inj_hash_blob by simp
qed

lemma graph_after_retire:
  "graph_view (retired_db db (commit_param f) i s t) = contract (graph_view db) f"
  by (auto simp: graph_view_def set_retired_edges contract_def)

interpretation sqf: folding_store "sqlite_port H" wf_db commits_view chunk_view fresh_view linear_db for H
proof (unfold_locales, goal_cases)
  case (1 m t f)
  note wf = 1(1) and lin = 1(2)
  have desc: "(t, f) \<in> (graph_view m)\<^sup>*" using 1(3) by (simp add: graph_of_commits_view [OF wf])
  then have inh: "inherits m (commit_param t) (commit_param f)" by (simp add: inherits_graph [OF wf])
  have "commit_param t \<in> commit_ids m" using 1(5) by (simp add: set_ids_of_commits_view [OF wf])
  then obtain u where u: "select_seq m (commit_param t) = Some u" by fastforce
  have "commit_param f \<noteq> commit_param t" using 1(4) by simp
  then obtain s where s: "select_seq m (commit_param f) = Some s" "s < u"
    using inherits_seq [OF _ inh u] lin by (auto simp: linear_db_def)
  let ?m' = "retired_db m (commit_param f) (commit_param t) s u"
  obtain out where out: "retire_commit f t m = Inr (out, ?m')"
    using s u inh by (simp add: retire_commit_eq [OF wf] Let_def)
  have wf': "wf_db ?m'" using wf_db_retired [OF wf s(1) u s(2)] by simp
  have lin': "linear_db ?m'"
    using lin seq_ordered_retired [OF _ s(1)] linear_history_retired by (auto simp: linear_db_def)
  have state: "\<forall>i. i \<noteq> f \<longrightarrow> ((i, f) \<in> (graph_view m)\<^sup>* \<longrightarrow> (i, t) \<in> (graph_view m)\<^sup>*)
      \<longrightarrow> chunk_view ?m' i = chunk_view m i"
    using chunk_view_retired [OF wf lin s(1) u s(2) desc] by blast
  show ?case
    using out wf' lin' state ids_after_retire [OF wf] graph_after_retire
    by (simp add: graph_of_commits_view [OF wf] graph_of_commits_view [OF wf'] del: retired_db_sel)
qed

subsection \<open>Refs\<close>

lemma refs_view_mem:
  assumes "wf_refs db"
  shows "refs_view db n = Some r \<longleftrightarrow> (\<exists>q \<in> set (t_refs db). ref_of_row q = r \<and> cr_name r = n)"
proof -
  have "rr_name q = ref_str n \<longleftrightarrow> RefName (rr_name q) = n" for q by (cases n) auto
  then show ?thesis by (auto simp: refs_view_def find_ref_Some [OF assms])
qed

interpretation sqr: ref_store "sqlite_port H" wf_db refs_view "\<lambda>n. valid_ref_name (ref_str n)" for H
proof (unfold_locales, goal_cases)
  case (1 m n)
  then show ?case by (simp add: wf_db_def lookup_ref_wf)
next
  case (2 m n r)
  then show ?case by (auto simp: wf_db_def refs_view_mem)
next
  case (3 m n r n' s)
  then have wr: "wf_refs m" by (simp add: wf_db_def)
  obtain p q where "p \<in> set (t_refs m)" "ref_of_row p = r" "q \<in> set (t_refs m)" "ref_of_row q = s"
    "cr_name r = n" "cr_name s = n'" using 3 by (auto simp: refs_view_mem [OF wr])
  then show ?case using 3 active_unique [OF wr, of p q] by auto
next
  case (4 m)
  then have wr: "wf_refs m" by (simp add: wf_db_def)
  have "distinct (map rr_name (t_refs m))" using wr by (simp add: wf_refs_def)
  then have "sorted_wrt (<) (map rr_name (sort_key rr_name (t_refs m)))"
    by (simp add: strict_sorted_iff distinct_map)
  then have "sorted_wrt (<) (map cr_name (map ref_of_row (sort_key rr_name (t_refs m))))"
    by (simp add: sorted_wrt_map less_ref_name_def)
  then show ?case using visit_refs_wf [OF wr] by (auto simp: refs_view_mem [OF wr])
next
  case (5 m)
  then have wr: "wf_refs m" by (simp add: wf_db_def)
  have find: "find is_active_row (t_refs m) = Some q \<longleftrightarrow> q \<in> set (t_refs m) \<and> is_active_row q" for q
  proof
    assume q: "q \<in> set (t_refs m) \<and> is_active_row q"
    then have "find is_active_row (t_refs m) \<noteq> None" by (auto simp: find_None_iff)
    then obtain p where "find is_active_row (t_refs m) = Some p" by blast
    then show "find is_active_row (t_refs m) = Some q"
      using active_unique [OF wr, of p q] q by (auto simp: find_Some_iff)
  qed (auto simp: find_Some_iff)
  show ?case using find by (auto simp: active_ref_wf [OF wr] refs_view_mem [OF wr])
next
  case (6 m n c t m')
  then show ?case using set_ref_spec [of m n c t m'] by (auto simp: fun_eq_iff split: option.split)
next
  case (7 m n b m')
  then show ?case using delete_ref_ok [of m n b m'] by (auto simp: fun_eq_iff)
next
  case (8 m n)
  then show ?case by (auto simp: delete_ref_spec split: option.split if_splits)
next
  case (9 m n m')
  then show ?case using activate_ref_ok [of m n m'] by simp
next
  case (10 m n)
  then show ?case by (auto simp: activate_ref_spec)
qed

subsection \<open>Scopes\<close>

definition storable_scope :: "named_scope \<Rightarrow> bool" where
  "storable_scope s \<longleftrightarrow> normal_areas (ns_areas s) \<and> valid_name (scope_str (ns_name s))"

lemma scope_of_row_name:
  assumes "wf_scopes db" "s \<in> set (t_scopes db)"
  shows "ns_name (scope_of_row db s) = ScopeName (sr_name s)"
proof -
  obtain x :: named_scope where "named_scope_new (ScopeName (sr_name s)) (areas_of db s) (word_of_int (sr_created_at_ms s)) = Inr x"
    "ns_name x = ScopeName (sr_name s)"
    using named_scope_new_ok [OF areas_nonempty [OF assms]] by blast
  then show ?thesis by (simp add: scope_of_row_def)
qed

interpretation sqs: scope_store "sqlite_port H" wf_db scopes_view storable_scope for H
proof (unfold_locales, goal_cases)
  case (1 m n)
  then show ?case by (simp add: wf_db_def lookup_scope_wf)
next
  case (2 m s m')
  then have "set_scope s m = Inr m'" by simp
  then show ?case
    using 2 wf_db_set_scope [of m s m'] set_scope_view [of m s m']
    by (auto simp: storable_scope_def wf_db_def fun_eq_iff)
next
  case (3 m n b m')
  then show ?case using delete_scope_ok [of m n b m'] by (auto simp: fun_eq_iff)
next
  case (4 m)
  then have ws: "wf_scopes m" by (simp add: wf_db_def)
  let ?ss = "map (scope_of_row m) (sort_key sr_name (t_scopes m))"
  have "map (\<lambda>s. scope_str (ns_name s)) ?ss = map sr_name (sort_key sr_name (t_scopes m))"
    by (simp add: scope_of_row_name [OF ws])
  moreover have "distinct (map sr_name (t_scopes m))" using ws by (simp add: wf_scopes_def)
  ultimately have "sorted_wrt (<) (map (\<lambda>s. scope_str (ns_name s)) ?ss)"
    by (simp only: strict_sorted_iff) (simp add: distinct_map)
  moreover have "s \<in> set ?ss \<longleftrightarrow> scopes_view m (ns_name s) = Some s" for s
    by (auto simp: scopes_view_def find_scope_Some [OF ws] scope_of_row_name [OF ws])
  ultimately show ?case using visit_scopes_wf [OF ws] by simp
qed

end
