(* ===== verification/Meta_Apply.thy ===== *)
theory Meta_Apply
  imports Meta_Sqlite
begin

section \<open>Recording a commit\<close>

text \<open>
  What \<open>apply_commit_incremental\<close> writes and what the reads answer afterwards: the new commit is
  the last one, its state is its rows over the state of its parent, the state of every older commit
  is untouched, the active ref names it, and a linear database stays linear. The promise is stated
  as the locale \<open>recording_store\<close>, which the SQLite model interprets.
\<close>

subsection \<open>The contract\<close>

definition entry_map :: "commit_entry list \<Rightarrow> chunk_coord \<Rightarrow> chunk_hash option option" where
  "entry_map es k = map_option entry_blob (find (\<lambda>e. entry_coord e = k) es)"

definition over :: "commit_entry list \<Rightarrow> (chunk_coord \<Rightarrow> chunk_hash option option)
    \<Rightarrow> chunk_coord \<Rightarrow> chunk_hash option option" where
  "over es base k = (case entry_map es k of Some b \<Rightarrow> Some b | None \<Rightarrow> base k)"

locale recording_store = history_store port valid commits state fresh
  for port :: "('m, 'e) meta_port" and valid commits state fresh +
  fixes head :: "'m \<Rightarrow> commit_id option option"
    and new_id :: "u64 \<Rightarrow> commit_id list \<Rightarrow> commit_entry list \<Rightarrow> commit_id"
  assumes active_head: "valid m \<Longrightarrow> \<exists>x. mp_active_ref port m = Inr x \<and> map_option cr_commit x = head m"
    and head_known: "valid m \<Longrightarrow> head m = Some (Some i) \<Longrightarrow> i \<in> set (ids_of (commits m))"
    and apply_ok:
      "valid m \<Longrightarrow> mp_apply_commit_incremental port t ps es m = Inr (out, m') \<Longrightarrow> valid m'
         \<and> ao_id out = new_id t ps es \<and> head m' = Some (Some (ao_id out))"
    and apply_new:
      "valid m \<Longrightarrow> mp_apply_commit_incremental port t ps es m = Inr (out, m')
         \<Longrightarrow> ao_id out \<notin> set (ids_of (commits m))
         \<Longrightarrow> commits m' = commits m @ [commit_new (ao_id out) t (sort_dedup ps)]
           \<and> (\<forall>i \<in> set (ids_of (commits m)). state m' i = state m i)
           \<and> (\<forall>p. set ps = {p} \<longrightarrow> state m' (ao_id out) = over es (state m p))
           \<and> (ps = [] \<longrightarrow> state m' (ao_id out) = over es (\<lambda>_. None))"
    and apply_total:
      "valid m \<Longrightarrow> head m = Some h \<Longrightarrow> (\<forall>b. h = Some b \<longrightarrow> b \<in> set ps)
         \<Longrightarrow> set ps \<subseteq> set (ids_of (commits m)) \<Longrightarrow> uint t < 2 ^ 63 \<Longrightarrow> distinct (map entry_coord es)
         \<Longrightarrow> new_id t ps es \<notin> set (ids_of (commits m))
         \<Longrightarrow> \<exists>out m'. mp_apply_commit_incremental port t ps es m = Inr (out, m')"

subsection \<open>The rows of a new commit\<close>

definition rows_of :: "commit_id \<Rightarrow> int \<Rightarrow> commit_entry list \<Rightarrow> history_row list" where
  "rows_of i s es = map (\<lambda>e. history_row_of i s (entry_coord e) (entry_blob e)) es"

lemma insert_rows_eq:
  assumes "commit_param i \<in> commit_ids db"
    and "\<forall>q \<in> set (t_history db). hr_commit q = commit_param i \<longrightarrow> hr_coord q \<notin> coord_cols ` entry_coord ` set es"
  shows "foldE (\<lambda>e. insert_history_row (history_row_of i s (entry_coord e) (entry_blob e))) es db
    = (if distinct (map entry_coord es) then Inr (db\<lparr>t_history := t_history db @ rows_of i s es\<rparr>)
       else Inl (db_err PrimaryKeyViolation))"
  using assms
proof (induction es arbitrary: db)
  case Nil
  then show ?case by (simp add: rows_of_def)
next
  case (Cons e es)
  let ?r = "history_row_of i s (entry_coord e) (entry_blob e)"
  let ?db1 = "db\<lparr>t_history := t_history db @ [?r]\<rparr>"
  have ins: "insert_history_row ?r db = Inr ?db1"
    using Cons.prems by (auto simp: insert_history_row_def)
  show ?case
  proof (cases "entry_coord e \<in> entry_coord ` set es")
    case False
    have "foldE (\<lambda>e. insert_history_row (history_row_of i s (entry_coord e) (entry_blob e))) es ?db1
      = (if distinct (map entry_coord es) then Inr (?db1\<lparr>t_history := t_history ?db1 @ rows_of i s es\<rparr>)
         else Inl (db_err PrimaryKeyViolation))"
      using Cons.prems False by (intro Cons.IH) auto
    then show ?thesis using ins False by (simp add: rows_of_def)
  next
    case True
    have fail: "foldE (\<lambda>e. insert_history_row (history_row_of i s (entry_coord e) (entry_blob e))) xs d
        = Inl (db_err PrimaryKeyViolation)"
      if "commit_param i \<in> commit_ids d" "\<exists>q \<in> set (t_history d). hr_commit q = commit_param i \<and> hr_coord q \<in> coord_cols ` entry_coord ` set xs"
      for xs d
      using that
    proof (induction xs arbitrary: d)
      case (Cons x xs)
      let ?x = "history_row_of i s (entry_coord x) (entry_blob x)"
      show ?case
      proof (cases "\<exists>q \<in> set (t_history d). hr_commit q = commit_param i \<and> hr_coord q = coord_cols (entry_coord x)")
        case True
        then show ?thesis by (simp add: insert_history_row_def)
      next
        case False
        then have "insert_history_row ?x d = Inr (d\<lparr>t_history := t_history d @ [?x]\<rparr>)"
          using Cons.prems(1) by (auto simp: insert_history_row_def)
        moreover have "\<exists>q \<in> set (t_history d). hr_commit q = commit_param i \<and> hr_coord q \<in> coord_cols ` entry_coord ` set xs"
          using Cons.prems(2) False by auto
        ultimately show ?thesis using Cons.IH [of "d\<lparr>t_history := t_history d @ [?x]\<rparr>"] Cons.prems(1) by simp
      qed
    qed simp
    have "commit_param i \<in> commit_ids ?db1" using Cons.prems(1) by simp
    moreover have "\<exists>q \<in> set (t_history ?db1). hr_commit q = commit_param i \<and> hr_coord q \<in> coord_cols ` entry_coord ` set es"
      using True by (intro bexI [of _ ?r]) auto
    ultimately show ?thesis using ins fail [of ?db1 es] True by simp
  qed
qed

text \<open>The database after a commit that was not there.\<close>

definition applied_db :: "commit_id \<Rightarrow> int \<Rightarrow> commit_id list \<Rightarrow> commit_entry list \<Rightarrow> meta_db \<Rightarrow> meta_db" where
  "applied_db i ms ps es db =
     (with_commit (commit_param i) ms db)
       \<lparr>t_parents := add_edges (commit_param i) (map commit_param ps) (t_parents db),
        t_history := t_history db @ rows_of i (commits_autoinc db + 1) es,
        t_refs := move_active (commit_param i) (t_refs db)\<rparr>"

lemma new_commit_no_rows:
  assumes "wf_db db" "b \<notin> commit_ids db" "q \<in> set (t_history db)"
  shows "hr_commit q \<noteq> b"
  using assms select_seq_ids by (fastforce simp: wf_db_def wf_history_def)

lemma apply_commit_new:
  assumes wf: "wf_db db" and ok: "apply_commit_incremental H t ps es db = Inr (out, db')"
    and new: "commit_param (commit_hash H ps t es) \<notin> commit_ids db"
  shows "\<exists>ms. millis_param t = Inr ms \<and> distinct (map entry_coord es)
    \<and> set (map commit_param ps) \<subseteq> commit_ids db
    \<and> db' = applied_db (commit_hash H ps t es) ms ps es db"
proof -
  let ?c = "commit_hash H ps t es"
  obtain s inserted db1 db2 where ins: "insert_commit ?c t ps db = Inr ((s, inserted), db1)"
    and rows: "(if inserted then foldE (\<lambda>e. insert_history_row
          (history_row_of ?c s (entry_coord e) (entry_blob e))) es db1 else Inr db1) = Inr db2"
    and db': "db' = db2\<lparr>t_refs := move_active (commit_param ?c) (t_refs db2)\<rparr>"
    by (rule apply_commit_okE [OF ok]) blast
  note eq = insert_commit_eq [OF wf_dbD(2) [OF wf], of ?c t ps]
  have none: "missing_parent db ps = None" using ins eq by (auto split: option.splits)
  then have known: "set (map commit_param ps) \<subseteq> commit_ids db"
    by (auto simp: missing_parent_def find_None_iff)
  obtain ms where ms: "millis_param t = Inr ms" using ins eq none by (cases "millis_param t") auto
  have "select_seq db (commit_param ?c) = None" using new by simp
  then have "s = commits_autoinc db + 1" "inserted"
    and db1: "db1 = (with_commit (commit_param ?c) ms db)
      \<lparr>t_parents := add_edges (commit_param ?c) (map commit_param ps) (t_parents db)\<rparr>"
    using ins eq none ms by (auto simp: Let_def simp del: select_seq_None)
  moreover have "\<forall>q \<in> set (t_history db1). hr_commit q = commit_param ?c \<longrightarrow> hr_coord q \<notin> coord_cols ` entry_coord ` set es"
    using new_commit_no_rows [OF wf new] by (auto simp: db1)
  ultimately have "distinct (map entry_coord es)" "db2 = db1\<lparr>t_history := t_history db @ rows_of ?c (commits_autoinc db + 1) es\<rparr>"
    using rows insert_rows_eq [of ?c db1 es "commits_autoinc db + 1"]
    by (auto simp: db1 split: if_splits)
  then show ?thesis using ms known by (auto simp: db' db1 applied_db_def)
qed

lemma apply_commit_total:
  assumes wf: "wf_db db" and act: "find is_active_row (t_refs db) = Some a"
    and cont: "\<And>b. rr_commit a = Some b \<Longrightarrow> hash_of_bytes b \<in> set ps"
    and ps: "set (map commit_param ps) \<subseteq> commit_ids db" and ms: "millis_param t = Inr ms"
    and new: "commit_param (commit_hash H ps t es) \<notin> commit_ids db"
  shows "apply_commit_incremental H t ps es db =
    (if distinct (map entry_coord es)
     then Inr (\<lparr>ao_id = commit_hash H ps t es\<rparr>, applied_db (commit_hash H ps t es) ms ps es db)
     else Inl (db_err PrimaryKeyViolation))"
proof -
  let ?c = "commit_hash H ps t es"
  let ?db1 = "(with_commit (commit_param ?c) ms db)
      \<lparr>t_parents := add_edges (commit_param ?c) (map commit_param ps) (t_parents db)\<rparr>"
  have a: "a \<in> set (t_refs db)" using act by (auto simp: find_Some_iff)
  have base: "(case rr_commit a of None \<Rightarrow> Inr ()
      | Some target \<Rightarrow> bindE (commit_id_from_blob target) (\<lambda>base.
          if base \<in> set ps then Inr () else Inl (NotContinuing base))) = (Inr () :: (storage_error, unit) result)"
  proof (cases "rr_commit a")
    case (Some b)
    then have "length b = 32" using a wf by (auto simp: wf_db_def wf_refs_def wf_ref_row_def wf_blob32_def)
    then show ?thesis using Some cont by (simp add: commit_id_from_blob_wf)
  qed simp
  have "missing_parent db ps = None" using ps by (auto simp: missing_parent_def find_None_iff)
  moreover have "select_seq db (commit_param ?c) = None" using new by simp
  ultimately have ins: "insert_commit ?c t ps db = Inr ((commits_autoinc db + 1, True), ?db1)"
    using ms by (simp add: insert_commit_eq [OF wf_dbD(2) [OF wf]] Let_def del: select_seq_None)
  have rows: "foldE (\<lambda>e. insert_history_row (history_row_of ?c (commits_autoinc db + 1) (entry_coord e) (entry_blob e))) es ?db1
    = (if distinct (map entry_coord es) then Inr (?db1\<lparr>t_history := t_history db @ rows_of ?c (commits_autoinc db + 1) es\<rparr>)
       else Inl (db_err PrimaryKeyViolation))"
    using insert_rows_eq [of ?c ?db1 es "commits_autoinc db + 1"] new_commit_no_rows [OF wf new] by auto
  have "filter is_active_row (t_refs db) \<noteq> []" using act by (auto simp: filter_empty_conv find_Some_iff)
  then show ?thesis
    unfolding apply_commit_incremental_def Let_def act ok_or_simps bindE_simps base ins prod.case if_True rows
    by (simp add: applied_db_def move_active_def)
qed

subsection \<open>Effective states afterwards\<close>

lemma applied_sel [simp]:
  "t_history (applied_db i ms ps es db) = t_history db @ rows_of i (commits_autoinc db + 1) es"
  "t_parents (applied_db i ms ps es db) = add_edges (commit_param i) (map commit_param ps) (t_parents db)"
  "t_refs (applied_db i ms ps es db) = move_active (commit_param i) (t_refs db)"
  "t_commits (applied_db i ms ps es db)
     = t_commits db @ [\<lparr>cm_seq = commits_autoinc db + 1, cm_id = commit_param i, cm_created_at_ms = ms\<rparr>]"
  "commit_ids (applied_db i ms ps es db) = insert (commit_param i) (commit_ids db)"
  by (auto simp: applied_db_def with_commit_def commit_ids_def)

lemma select_seq_applied:
  "commit_param i \<notin> commit_ids db \<Longrightarrow> select_seq (applied_db i ms ps es db) x
     = (if x = commit_param i then Some (commits_autoinc db + 1) else select_seq db x)"
  by (simp add: applied_db_def select_seq_with_commit)

lemma inherits_applied_old:
  assumes wf: "wf_db db" and new: "commit_param i \<notin> commit_ids db"
    and ps: "set (map commit_param ps) \<subseteq> commit_ids db" and x: "x \<noteq> commit_param i"
  shows "inherits (applied_db i ms ps es db) x a \<longleftrightarrow> inherits db x a"
proof
  let ?E = "set (t_parents db)" and ?b = "commit_param i"
  have no_b: "(c, p) \<in> ?E \<Longrightarrow> c \<noteq> ?b \<and> p \<noteq> ?b" for c p
    using wf new by (force simp: wf_db_def wf_edges_def)
  assume "inherits (applied_db i ms ps es db) x a"
  then have "(x, a) \<in> (?E \<union> {?b} \<times> commit_param ` set ps)\<^sup>*" by (simp add: inherits_def)
  then have "(x, a) \<in> ?E\<^sup>* \<and> a \<noteq> ?b"
  proof (induction rule: rtrancl_induct)
    case (step y z)
    then have "(y, z) \<in> ?E" by auto
    with step.IH no_b show ?case by (auto intro: rtrancl_into_rtrancl)
  qed (use x in simp)
  then show "inherits db x a" by (simp add: inherits_def)
next
  assume "inherits db x a"
  then show "inherits (applied_db i ms ps es db) x a"
    unfolding inherits_def applied_sel by (rule rtrancl_mono [THEN subsetD, rotated]) auto
qed

lemma inherits_applied_new:
  assumes wf: "wf_db db" and new: "commit_param i \<notin> commit_ids db"
    and ps: "set (map commit_param ps) \<subseteq> commit_ids db"
  shows "inherits (applied_db i ms ps es db) (commit_param i) a
    \<longleftrightarrow> a = commit_param i \<or> (\<exists>p \<in> set ps. inherits db (commit_param p) a)"
proof -
  let ?db' = "applied_db i ms ps es db" and ?b = "commit_param i"
  have edges: "(?b, y) \<in> set (t_parents ?db') \<longleftrightarrow> y \<in> commit_param ` set ps" for y
    using wf new by (force simp: wf_db_def wf_edges_def)
  have "inherits ?db' ?b a \<longleftrightarrow> a = ?b \<or> (\<exists>y. (?b, y) \<in> set (t_parents ?db') \<and> inherits ?db' y a)"
    unfolding inherits_def by (auto elim: converse_rtranclE intro: converse_rtrancl_into_rtrancl)
  also have "\<dots> \<longleftrightarrow> a = ?b \<or> (\<exists>p \<in> set ps. inherits ?db' (commit_param p) a)"
    unfolding edges by blast
  also have "\<dots> \<longleftrightarrow> a = ?b \<or> (\<exists>p \<in> set ps. inherits db (commit_param p) a)"
  proof -
    have "commit_param p \<noteq> ?b" if "p \<in> set ps" for p using that ps new by auto
    then show ?thesis using inherits_applied_old [OF wf new ps] by metis
  qed
  finally show ?thesis .
qed

lemma mem_rows_of:
  "r \<in> set (rows_of i s es) \<Longrightarrow> hr_commit r = commit_param i \<and> hr_seq r = s"
  by (auto simp: rows_of_def history_row_of_def)

lemma ancestor_rows_inherits: "ancestor_rows db b = filter (\<lambda>r. inherits db b (hr_commit r)) (t_history db)"
  by (simp add: ancestor_rows_def inherits_ancestors)

lemma lookup_applied_old:
  assumes wf: "wf_db db" and new: "commit_param i \<notin> commit_ids db"
    and ps: "set (map commit_param ps) \<subseteq> commit_ids db" and x: "x \<noteq> commit_param i"
  shows "lookup_row (applied_db i ms ps es db) x k = lookup_row db x k"
proof -
  have "\<not> inherits db x (commit_param i)"
  proof
    assume "inherits db x (commit_param i)"
    then have "commit_param i \<in> commit_ids db" using inherits_ids [OF wf_dbD(3) [OF wf]] x by metis
    with new show False by simp
  qed
  then have "filter (\<lambda>r. inherits db x (hr_commit r)) (rows_of i s es) = []" for s
    by (auto simp: filter_empty_conv dest: mem_rows_of)
  then have "ancestor_rows (applied_db i ms ps es db) x = ancestor_rows db x"
    using inherits_applied_old [OF wf new ps x, of ms es]
    by (simp add: ancestor_rows_inherits)
  then show ?thesis by (simp add: lookup_row_def)
qed

lemma lookup_applied_row:
  assumes wf: "wf_db db" and wf': "wf_db (applied_db i ms ps es db)" and new: "commit_param i \<notin> commit_ids db"
    and e: "e \<in> set es" "coord_cols (entry_coord e) = k"
  shows "lookup_row (applied_db i ms ps es db) (commit_param i) k
    = Some (history_row_of i (commits_autoinc db + 1) (entry_coord e) (entry_blob e))"
proof -
  let ?db' = "applied_db i ms ps es db" and ?s = "commits_autoinc db + 1"
  let ?r = "history_row_of i ?s (entry_coord e) (entry_blob e)"
  have "hr_seq q \<le> ?s" if "q \<in> set (t_history ?db')" for q
    using that select_seq_bound [OF wf_dbD(2) [OF wf]] wf_dbD(4) [OF wf]
    by (fastforce simp: wf_history_def dest: mem_rows_of)
  moreover have "?r \<in> set (t_history ?db')" using e(1) by (auto simp: rows_of_def)
  moreover have "hr_seq ?r = ?s" by (simp add: history_row_of_def)
  ultimately show ?thesis
    using e(2) by (subst lookup_row_Some [OF wf_dbD(2,4) [OF wf']]) (simp add: inherits_def)
qed

lemma lookup_applied_inherited:
  assumes wf: "wf_db db" and new: "commit_param i \<notin> commit_ids db"
    and ps: "set ps = {p}" "commit_param p \<in> commit_ids db"
    and none: "k \<notin> coord_cols ` entry_coord ` set es"
  shows "lookup_row (applied_db i ms ps es db) (commit_param i) k = lookup_row db (commit_param p) k"
proof -
  let ?db' = "applied_db i ms ps es db"
  have sub: "set (map commit_param ps) \<subseteq> commit_ids db" using ps by simp
  have "filter (\<lambda>r. hr_coord r = k) (filter (\<lambda>r. inherits ?db' (commit_param i) (hr_commit r)) (rows_of i s es)) = []" for s
    using none by (auto simp: filter_empty_conv rows_of_def)
  moreover have "filter (\<lambda>r. inherits ?db' (commit_param i) (hr_commit r)) (t_history db)
      = filter (\<lambda>r. inherits db (commit_param p) (hr_commit r)) (t_history db)"
    using inherits_applied_new [OF wf new sub] new_commit_no_rows [OF wf new] ps(1)
    by (intro filter_cong) auto
  ultimately show ?thesis by (simp add: lookup_row_def ancestor_rows_inherits)
qed

lemma lookup_applied_root:
  assumes wf: "wf_db db" and new: "commit_param i \<notin> commit_ids db"
    and none: "k \<notin> coord_cols ` entry_coord ` set es"
  shows "lookup_row (applied_db i ms [] es db) (commit_param i) k = None"
proof -
  let ?db' = "applied_db i ms [] es db"
  have inh: "inherits ?db' (commit_param i) a \<longleftrightarrow> a = commit_param i" for a
    using inherits_applied_new [OF wf new, of "[]" ms es a] by simp
  show ?thesis
    unfolding lookup_row_None inh using none new_commit_no_rows [OF wf new]
    by (auto simp: rows_of_def )
qed

lemma chunk_view_applied:
  assumes wf: "wf_db db" and wf': "wf_db (applied_db i ms ps es db)" and new: "commit_param i \<notin> commit_ids db"
    and base: "(\<exists>p. set ps = {p} \<and> commit_param p \<in> commit_ids db \<and> old = chunk_view db p) \<or> ps = [] \<and> old = (\<lambda>_. None)"
    and dist: "distinct (map entry_coord es)"
  shows "chunk_view (applied_db i ms ps es db) i = over es old"
proof
  fix c
  let ?db' = "applied_db i ms ps es db"
  show "chunk_view ?db' i c = over es old c"
  proof (cases "find (\<lambda>e. entry_coord e = c) es")
    case (Some e)
    then have e: "e \<in> set es" "entry_coord e = c" by (auto simp: find_Some_iff)
    then have "chunk_view ?db' i c = Some (entry_blob e)"
      using lookup_applied_row [OF wf wf' new e(1), of "coord_cols c"]
      by (simp add: chunk_view_def row_entry_def history_entry_new_def)
    then show ?thesis using Some by (simp add: over_def entry_map_def)
  next
    case None
    then have k: "coord_cols c \<notin> coord_cols ` entry_coord ` set es" by (auto simp: find_None_iff)
    have "chunk_view ?db' i c = old c"
      using base lookup_applied_inherited [OF wf new _ _ k] lookup_applied_root [OF wf new k]
      by (auto simp: chunk_view_def)
    then show ?thesis using None by (simp add: over_def entry_map_def)
  qed
qed

lemma chunk_view_applied_old:
  assumes "wf_db db" "commit_param i \<notin> commit_ids db" "set (map commit_param ps) \<subseteq> commit_ids db" "j \<noteq> i"
  shows "chunk_view (applied_db i ms ps es db) j = chunk_view db j"
proof
  fix c
  have "lookup_row (applied_db i ms ps es db) (commit_param j) (coord_cols c) = lookup_row db (commit_param j) (coord_cols c)"
    using assms by (intro lookup_applied_old) simp_all
  then show "chunk_view (applied_db i ms ps es db) j c = chunk_view db j c" by (simp add: chunk_view_def)
qed

subsection \<open>The commits afterwards\<close>

lemma commits_view_applied:
  assumes wf: "wf_db db" and new: "commit_param i \<notin> commit_ids db" and ms: "millis_param t = Inr ms"
  shows "commits_view (applied_db i ms ps es db) = commits_view db @ [commit_new i t (sort_dedup ps)]"
proof -
  let ?db' = "applied_db i ms ps es db"
  let ?row = "\<lparr>cm_seq = commits_autoinc db + 1, cm_id = commit_param i, cm_created_at_ms = ms\<rparr>"
  have wfc: "wf_commits db" using wf by (simp add: wf_db_def)
  have rows: "commits_by_seq ?db' = commits_by_seq db @ [?row]"
  proof -
    have le: "cm_seq r \<le> commits_autoinc db" if "r \<in> set (t_commits db)" for r
      using wfc that by (simp add: wf_commits_def)
    show ?thesis
      unfolding commits_by_seq_def applied_sel
    proof (rule sort_key_inj_key_eq)
      show "inj_on cm_seq (set (t_commits db @ [?row]))"
        using wfc le by (force simp: wf_commits_def distinct_map)
      show "sorted (map cm_seq (sort_key cm_seq (t_commits db) @ [?row]))"
        using le by (force simp: sorted_append)
    qed simp
  qed
  have parents_old: "parents_of (t_parents ?db') (cm_id r) = parents_of (t_parents db) (cm_id r)"
    if "r \<in> set (t_commits db)" for r
  proof -
    have "cm_id r \<noteq> commit_param i" using that new unfolding commit_ids_def by (metis image_eqI)
    moreover have "parents_of (add_edges b qs es) x = parents_of es x" if "x \<noteq> b" for b qs es x
      using that by (induction qs arbitrary: es) (auto simp: add_edges_def add_edge_def parents_of_def)
    ultimately show ?thesis by simp
  qed
  have none: "parents_of (t_parents db) (commit_param i) = []"
    using wf new by (force simp: parents_of_def filter_empty_conv wf_db_def wf_edges_def)
  have "sort (parents_of (add_edges (commit_param i) (map commit_param ps) (t_parents db)) (commit_param i))
      = map commit_param (sort_dedup ps)"
  proof (rule sorted_distinct_set_unique)
    have "distinct (add_edges (commit_param i) (map commit_param ps) (t_parents db))"
      using wf by (simp add: distinct_add_edges wf_db_def wf_edges_def)
    then show "distinct (sort (parents_of (add_edges (commit_param i) (map commit_param ps) (t_parents db)) (commit_param i)))"
      by (auto simp: parents_of_def distinct_map inj_on_def)
    have strict: "sorted_wrt (<) (sort_dedup ps)" by (simp add: sort_dedup_canonical strict_sorted_iff)
    then have "sorted_wrt (<) (map commit_param (sort_dedup ps))"
      by (simp add: sorted_wrt_map commit_param_def flip: hash_order_is_byte_order)
    then show "sorted (map commit_param (sort_dedup ps))" "distinct (map commit_param (sort_dedup ps))"
      by (simp_all add: strict_sorted_iff)
    show "set (sort (parents_of (add_edges (commit_param i) (map commit_param ps) (t_parents db)) (commit_param i)))
        = set (map commit_param (sort_dedup ps))"
      using wf new by (force simp: sort_dedup_def wf_db_def wf_edges_def)
  qed simp
  then have "commit_of_row ?db' ?row = commit_new i t (sort_dedup ps)"
    using millis_param_ok [OF ms] by (simp add: commit_of_row_def comp_def)
  moreover have "map (commit_of_row ?db') (commits_by_seq db) = map (commit_of_row db) (commits_by_seq db)"
    using parents_old by (auto simp: commit_of_row_def simp del: applied_sel)
  ultimately show ?thesis by (simp add: commits_view_def rows del: applied_sel)
qed

subsection \<open>SQLite records commits\<close>

definition head_view :: "meta_db \<Rightarrow> commit_id option option" where
  "head_view db = map_option (\<lambda>r. map_option hash_of_bytes (rr_commit r)) (find is_active_row (t_refs db))"

lemma millis_param_total: "uint (t :: u64) < 2 ^ 63 \<Longrightarrow> millis_param t = Inr (uint t)"
  by (simp add: millis_param_def)

lemma find_move_active:
  "find is_active_row (move_active b rs) = map_option (\<lambda>r. r\<lparr>rr_commit := Some b\<rparr>) (find is_active_row rs)"
  by (induction rs) (auto simp: move_active_def is_active_row_def)

lemma head_known_view:
  assumes wf: "wf_db db" and h: "head_view db = Some (Some i)"
  shows "commit_param i \<in> commit_ids db"
proof -
  obtain r b where r: "find is_active_row (t_refs db) = Some r" "rr_commit r = Some b" "hash_of_bytes b = i"
    using h by (auto simp: head_view_def)
  then have "r \<in> set (t_refs db)" by (auto simp: find_Some_iff)
  then have "b \<in> commit_ids db" using wf r(2) by (simp add: wf_db_def wf_refs_def)
  moreover have "commit_param i = b"
    using r(3) commit_ids_length [OF wf \<open>b \<in> commit_ids db\<close>] by (auto simp: commit_param_of_bytes)
  ultimately show ?thesis by simp
qed

interpretation sqa: recording_store "sqlite_port H" wf_db commits_view chunk_view fresh_view head_view
    "\<lambda>t ps es. commit_hash H ps t es" for H
proof (unfold_locales, goal_cases)
  case (1 m)
  then show ?case by (simp add: wf_db_def active_ref_wf head_view_def option.map_comp comp_def)
next
  case (2 m i)
  then show ?case by (simp add: head_known_view set_ids_of_commits_view)
next
  case (3 m t ps es out m')
  then have ok: "apply_commit_incremental H t ps es m = Inr (out, m')" by simp
  have refs: "t_refs m' = move_active (commit_param (ao_id out)) (t_refs m)" "ao_id out = commit_hash H ps t es"
    "active_count m = 1"
    using apply_commit_refs [OF 3(1) ok] by simp_all
  have "find is_active_row (t_refs m) \<noteq> None"
    using refs(3) by (auto simp: active_count_def find_None_iff length_Suc_conv filter_eq_Cons_iff)
  then have "head_view m' = Some (Some (ao_id out))"
    using refs(1) by (auto simp: head_view_def find_move_active)
  then show ?case using wf_db_apply_commit [OF 3(1) ok] refs(2) by simp
next
  case (4 m t ps es out m')
  let ?i = "commit_hash H ps t es"
  have ok: "apply_commit_incremental H t ps es m = Inr (out, m')" using 4(2) by simp
  have i: "ao_id out = ?i" using apply_commit_refs [OF 4(1) ok] by simp
  have new: "commit_param ?i \<notin> commit_ids m" using 4(3) i by (simp add: set_ids_of_commits_view [OF 4(1)])
  obtain ms where ms: "millis_param t = Inr ms" and dist: "distinct (map entry_coord es)"
    and ps: "set (map commit_param ps) \<subseteq> commit_ids m" and m': "m' = applied_db ?i ms ps es m"
    using apply_commit_new [OF 4(1) ok new] by blast
  have wf': "wf_db (applied_db ?i ms ps es m)" using wf_db_apply_commit [OF 4(1) ok] m' by simp
  have "commits_view m' = commits_view m @ [commit_new ?i t (sort_dedup ps)]"
    unfolding m' by (rule commits_view_applied [OF 4(1) new ms])
  moreover have "chunk_view m' j = chunk_view m j" if "j \<in> set (ids_of (commits_view m))" for j
  proof -
    have "j \<noteq> ?i" using that new by (auto simp: set_ids_of_commits_view [OF 4(1)])
    then show ?thesis unfolding m' by (rule chunk_view_applied_old [OF 4(1) new ps])
  qed
  moreover have "chunk_view m' ?i = over es (chunk_view m p)" if "set ps = {p}" for p
    unfolding m' using that ps by (intro chunk_view_applied [OF 4(1) wf' new _ dist]) auto
  moreover have "chunk_view m' ?i = over es (\<lambda>_. None)" if "ps = []"
    unfolding m' using that by (intro chunk_view_applied [OF 4(1) wf' new _ dist]) auto
  ultimately show ?case using i by simp
next
  case (5 m h ps t es)
  obtain a where a: "find is_active_row (t_refs m) = Some a" "h = map_option hash_of_bytes (rr_commit a)"
    using 5(2) by (auto simp: head_view_def)
  have "set (map commit_param ps) \<subseteq> commit_ids m"
    using 5(4) set_ids_of_commits_view [OF 5(1)] by auto
  then show ?case
    using apply_commit_total [OF 5(1) a(1) _ _ millis_param_total [OF 5(5)], of ps H es] a(2) 5
    by (auto simp: set_ids_of_commits_view [OF 5(1)])
qed

text \<open>A new commit with one parent or none keeps a linear database linear.\<close>

lemma linear_db_applied:
  assumes wf: "wf_db db" and lin: "linear_db db" and new: "commit_param i \<notin> commit_ids db"
    and ps: "set (map commit_param ps) \<subseteq> commit_ids db" "length (remdups ps) \<le> 1"
  shows "linear_db (applied_db i ms ps es db)"
proof -
  let ?db' = "applied_db i ms ps es db"
  have old: "fst e \<noteq> commit_param i" "snd e \<noteq> commit_param i" if "e \<in> set (t_parents db)" for e
    using that wf new by (auto simp: wf_db_def wf_edges_def)
  have "seq_ordered ?db'"
    unfolding seq_ordered_def
  proof
    fix e
    assume "e \<in> set (t_parents ?db')"
    then consider "e \<in> set (t_parents db)" | p where "p \<in> set ps" "e = (commit_param i, commit_param p)" by auto
    then show "\<exists>sc sp. select_seq ?db' (fst e) = Some sc \<and> select_seq ?db' (snd e) = Some sp \<and> sp < sc"
    proof cases
      case 1
      then show ?thesis
        using lin old [OF 1] by (simp add: linear_db_def seq_ordered_def select_seq_applied [OF new])
    next
      case 2
      have p: "commit_param p \<in> commit_ids db" "p \<noteq> i" using 2(1) ps(1) new by auto
      then obtain s where "select_seq db (commit_param p) = Some s" by fastforce
      moreover from this have "s \<le> commits_autoinc db" using select_seq_bound [OF wf_dbD(2) [OF wf]] by simp
      ultimately show ?thesis using 2(2) p(2) by (simp add: select_seq_applied [OF new])
    qed
  qed
  moreover have "linear_history ?db'"
  proof -
    have one: "p = q" if "p \<in> set ps" "q \<in> set ps" for p q
    proof -
      have "card (set ps) \<le> 1" using ps(2) by (simp add: length_remdups_card_conv)
      then show ?thesis using that by (metis card_le_Suc0_iff_eq One_nat_def List.finite_set)
    qed
    have sv: "y = z" if "(x, y) \<in> set (t_parents db)" "(x, z) \<in> set (t_parents db)" for x y z
      using lin that by (auto simp: linear_db_def linear_history_def single_valued_def)
    show ?thesis
      unfolding linear_history_def
    proof (rule single_valuedI)
      fix x y z
      assume yz: "(x, y) \<in> set (t_parents ?db')" "(x, z) \<in> set (t_parents ?db')"
      show "y = z"
      proof (cases "x = commit_param i")
        case True
        then have "(x, u) \<notin> set (t_parents db)" for u using old(1) [of "(x, u)"] by auto
        with yz True one show ?thesis by auto
      next
        case False
        with yz show ?thesis using sv by simp
      qed
    qed
  qed
  ultimately show ?thesis by (simp add: linear_db_def)
qed

end
