(* ===== verification/Meta_Steps.thy ===== *)
theory Meta_Steps
  imports Meta_Apply
begin

section \<open>Stores that can exist\<close>

text \<open>
  Every mutating operation of the metadata store as a step between databases, and the databases
  reachable from a freshly opened one. The arguments are those the types of the code admit: a
  \<open>RefName\<close> and a \<open>NamedScope\<close> were validated when they were built. \<open>reachable_wf\<close> is the
  invariant of the store: every row decodes, no reference dangles, one ref is active. The second
  relation, \<open>history_step\<close>, holds the commits the application records (one parent, the active
  target) and the retirements of a prune; it keeps histories linear, which \<open>prune_apply\<close> needs.
\<close>

inductive store_step :: "(bytes \<Rightarrow> hash32) \<Rightarrow> meta_db \<Rightarrow> meta_db \<Rightarrow> bool" for H where
  step_create: "create_commit H t ps db = Inr (i, db') \<Longrightarrow> store_step H db db'"
| step_record: "record_chunk i c b db = Inr db' \<Longrightarrow> store_step H db db'"
| step_apply: "apply_commit_incremental H t ps es db = Inr (out, db') \<Longrightarrow> store_step H db db'"
| step_retire: "retire_commit f i db = Inr (fo, db') \<Longrightarrow> store_step H db db'"
| step_set_ref: "valid_ref_name (ref_str n) \<Longrightarrow> set_ref n c t db = Inr db' \<Longrightarrow> store_step H db db'"
| step_delete_ref: "delete_ref n db = Inr (b, db') \<Longrightarrow> store_step H db db'"
| step_activate: "activate_ref n db = Inr db' \<Longrightarrow> store_step H db db'"
| step_set_scope: "storable_scope s \<Longrightarrow> set_scope s db = Inr db' \<Longrightarrow> store_step H db db'"
| step_delete_scope: "delete_scope sn db = Inr (b, db') \<Longrightarrow> store_step H db db'"

inductive reachable :: "(bytes \<Rightarrow> hash32) \<Rightarrow> meta_db \<Rightarrow> bool" for H where
  reach_open: "meta_open clock blank_db = Inr db \<Longrightarrow> reachable H db"
| reach_reopen: "reachable H db \<Longrightarrow> meta_open clock db = Inr db' \<Longrightarrow> reachable H db'"
| reach_step: "reachable H db \<Longrightarrow> store_step H db db' \<Longrightarrow> reachable H db'"

subsection \<open>One active ref\<close>

lemma active_count_refs: "t_refs db' = t_refs db \<Longrightarrow> active_count db' = active_count db"
  by (simp add: active_count_def)

lemma create_commit_refs:
  "wf_db db \<Longrightarrow> create_commit H t ps db = Inr (i, db') \<Longrightarrow> t_refs db' = t_refs db"
  by (auto simp: create_commit_def Let_def bindE_eq_Inr dest: insert_commit_refs [OF wf_dbD(2)])

lemma record_chunk_refs: "record_chunk i c b db = Inr db' \<Longrightarrow> t_refs db' = t_refs db"
  by (auto simp: record_chunk_def insert_history_row_def bindE_eq_Inr split: if_splits)

lemma retire_commit_count:
  assumes "wf_db db" "retire_commit f i db = Inr (fo, db')"
  shows "active_count db' = active_count db"
proof -
  obtain fs ts where "db' = retired_db db (commit_param f) (commit_param i) fs ts"
    by (rule retire_commit_ok [OF assms]) blast
  moreover have "length (filter is_active_row (retired_refs a b rs)) = length (filter is_active_row rs)" for a b rs
    by (induction rs) (auto simp: retired_refs_def is_active_row_def)
  ultimately show ?thesis by (simp add: active_count_def)
qed

lemma set_scope_keeps:
  assumes "wf_db db" "storable_scope s" "set_scope s db = Inr db'"
  shows "t_refs db' = t_refs db" "t_commits db' = t_commits db" "t_parents db' = t_parents db"
proof -
  obtain t row where "db' = scope_tables row (ns_areas s) (insert_scope_row (scope_str (ns_name s)) t db)"
    using wf_scopes_set [OF wf_dbD(6) [OF assms(1)] assms(3)] assms(2) by (auto simp: storable_scope_def)
  then show "t_refs db' = t_refs db" "t_commits db' = t_commits db" "t_parents db' = t_parents db"
    by (simp_all add: set_scope_frame)
qed

lemma delete_scope_refs: "delete_scope n db = Inr (b, db') \<Longrightarrow> t_refs db' = t_refs db"
  by (auto simp: delete_scope_def Let_def)

lemma store_step_wf:
  assumes "store_step H db db'" "wf_db db" "active_count db = 1"
  shows "wf_db db' \<and> active_count db' = 1"
  using assms
proof (induction rule: store_step.induct)
  case (step_create t ps db i db')
  then show ?case using wf_db_create_commit create_commit_refs active_count_refs by metis
next
  case (step_record i c b db db')
  then show ?case using wf_db_record_chunk record_chunk_refs active_count_refs by metis
next
  case (step_apply t ps es db out db')
  then show ?case using wf_db_apply_commit apply_commit_refs by (simp add: active_count_def)
next
  case (step_retire f i db fo db')
  then show ?case using wf_db_retire_commit retire_commit_count by metis
next
  case (step_set_ref n c t db db')
  then show ?case using set_ref_spec by metis
next
  case (step_delete_ref n db b db')
  then show ?case using delete_ref_ok by metis
next
  case (step_activate n db db')
  then show ?case using activate_ref_ok by metis
next
  case (step_set_scope s db db')
  then show ?case using wf_db_set_scope set_scope_keeps(1) active_count_refs by (metis storable_scope_def)
next
  case (step_delete_scope sn db b db')
  then show ?case using delete_scope_ok delete_scope_refs active_count_refs by metis
qed

lemma meta_open_count:
  assumes "meta_open clock db = Inr db'" "(wf_db db \<and> active_count db = 1) \<or> db = blank_db"
  shows "wf_db db' \<and> active_count db' = 1"
proof -
  have "wf_db db'" using assms wf_db_open by blast
  moreover have "active_count db' = 1"
  proof (cases "user_version db = 0")
    case True
    have "\<not> wf_db db" using True by (auto simp: wf_db_def SCHEMA_VERSION_def)
    with True assms show ?thesis
      by (auto simp: meta_open_def bindE_eq_Inr active_count_def is_active_row_def blank_db_def split: if_splits)
  next
    case False
    then show ?thesis using assms by (auto simp: meta_open_def blank_db_def split: if_splits)
  qed
  ultimately show ?thesis by simp
qed

lemma reachable_invariant: "reachable H db \<Longrightarrow> wf_db db \<and> active_count db = 1"
proof (induction rule: reachable.induct)
  case (reach_open clock db)
  then show ?case using meta_open_count by blast
next
  case (reach_reopen db clock db')
  then show ?case using meta_open_count by blast
next
  case (reach_step db db')
  then show ?case using store_step_wf by blast
qed

subsection \<open>Linear histories\<close>

text \<open>
  What the application does to the history: a commit continues the target of the active ref and its
  id is new to the store, a prune retires into a descendant; refs and scopes move freely.
\<close>

inductive history_step :: "(bytes \<Rightarrow> hash32) \<Rightarrow> meta_db \<Rightarrow> meta_db \<Rightarrow> bool" for H where
  hist_commit:
    "commit_param (commit_hash H ps t es) \<notin> commit_ids db \<Longrightarrow> length ps \<le> 1
       \<Longrightarrow> apply_commit_incremental H t ps es db = Inr (out, db') \<Longrightarrow> history_step H db db'"
| hist_retire: "retire_commit f i db = Inr (fo, db') \<Longrightarrow> history_step H db db'"
| hist_set_ref: "valid_ref_name (ref_str n) \<Longrightarrow> set_ref n c t db = Inr db' \<Longrightarrow> history_step H db db'"
| hist_delete_ref: "delete_ref n db = Inr (b, db') \<Longrightarrow> history_step H db db'"
| hist_activate: "activate_ref n db = Inr db' \<Longrightarrow> history_step H db db'"
| hist_set_scope: "storable_scope s \<Longrightarrow> set_scope s db = Inr db' \<Longrightarrow> history_step H db db'"
| hist_delete_scope: "delete_scope sn db = Inr (b, db') \<Longrightarrow> history_step H db db'"

inductive history_reachable :: "(bytes \<Rightarrow> hash32) \<Rightarrow> meta_db \<Rightarrow> bool" for H where
  hist_open: "meta_open clock blank_db = Inr db \<Longrightarrow> history_reachable H db"
| hist_step: "history_reachable H db \<Longrightarrow> history_step H db db' \<Longrightarrow> history_reachable H db'"

lemma history_step_store: "history_step H db db' \<Longrightarrow> store_step H db db'"
  by (induction rule: history_step.induct) (blast intro: store_step.intros)+

lemma linear_db_cong:
  "t_commits db' = t_commits db \<Longrightarrow> t_parents db' = t_parents db \<Longrightarrow> linear_db db' = linear_db db"
  by (simp add: linear_db_def seq_ordered_def linear_history_def select_seq_def find_commit_def)

lemma retire_linear:
  assumes wf: "wf_db db" and lin: "linear_db db" and ok: "retire_commit f i db = Inr (fo, db')"
  shows "linear_db db'"
proof -
  obtain fs ts where r: "select_seq db (commit_param f) = Some fs" "select_seq db (commit_param i) = Some ts"
      "fs < ts" "inherits db (commit_param i) (commit_param f)"
      "db' = retired_db db (commit_param f) (commit_param i) fs ts"
    by (rule retire_commit_ok [OF wf ok]) blast
  then show ?thesis
    using lin seq_ordered_retired linear_history_retired by (auto simp: linear_db_def)
qed

lemma history_step_linear:
  assumes "history_step H db db'" "wf_db db" "linear_db db"
  shows "linear_db db'"
  using assms
proof (induction rule: history_step.induct)
  case (hist_commit ps t es db out db')
  obtain ms where "set (map commit_param ps) \<subseteq> commit_ids db" "db' = applied_db (commit_hash H ps t es) ms ps es db"
    using apply_commit_new [OF hist_commit(4,3,1)] by blast
  moreover have "length (remdups ps) \<le> 1" using hist_commit(2) length_remdups_leq le_trans by blast
  ultimately show ?case using linear_db_applied hist_commit by simp
next
  case (hist_retire f i db fo db')
  then show ?case using retire_linear by blast
next
  case (hist_set_ref n c t db db')
  then show ?case using set_ref_spec linear_db_cong by metis
next
  case (hist_delete_ref n db b db')
  then have "t_commits db' = t_commits db \<and> t_parents db' = t_parents db"
    by (auto simp: delete_ref_def Let_def split: if_splits option.splits)
  then show ?case using hist_delete_ref linear_db_cong by metis
next
  case (hist_activate n db db')
  then have "t_commits db' = t_commits db \<and> t_parents db' = t_parents db"
    by (auto simp: activate_ref_spec split: if_splits)
  then show ?case using hist_activate linear_db_cong by metis
next
  case (hist_set_scope s db db')
  then show ?case using set_scope_keeps(2,3) [of db s db'] linear_db_cong [of db' db] by blast
next
  case (hist_delete_scope sn db b db')
  then have "t_commits db' = t_commits db \<and> t_parents db' = t_parents db"
    by (auto simp: delete_scope_def Let_def)
  then show ?case using hist_delete_scope linear_db_cong by metis
qed

lemma history_reachable_reachable: "history_reachable H db \<Longrightarrow> reachable H db"
  by (induction rule: history_reachable.induct) (auto intro: reach_open reach_step history_step_store)

lemma history_reachable_linear: "history_reachable H db \<Longrightarrow> wf_db db \<and> linear_db db"
proof (induction rule: history_reachable.induct)
  case (hist_open clock db)
  then have "linear_db db"
    by (auto simp: meta_open_def blank_db_def bindE_eq_Inr linear_db_def seq_ordered_def linear_history_def split: if_splits)
  then show ?case using hist_open meta_open_count by blast
next
  case (hist_step db db')
  then show ?case
    using history_step_linear reachable_invariant [OF reach_step [OF history_reachable_reachable history_step_store]] by blast
qed

end
