(* ===== verification/Meta_Overlay.thy ===== *)
theory Meta_Overlay
  imports Meta_Steps
begin

section \<open>Chunk state as overlays along the history\<close>

text \<open>
  The reads of \<open>meta.rs\<close> pick the row of the largest sequence among all ancestors. The abstract
  reading of a delta store is another one: a commit's own rows lie over the state of the commit it
  continues. \<open>replay\<close> computes that reading by following first parents; on histories where every
  commit has at most one parent and sequences follow the graph, the two agree.
\<close>

definition own_blob :: "meta_db \<Rightarrow> bytes \<Rightarrow> coord_cols \<Rightarrow> bytes option option" where
  "own_blob db b k = map_option hr_blob (find (\<lambda>r. hr_coord r = k) (fresh_rows db b))"

primrec replay :: "meta_db \<Rightarrow> nat \<Rightarrow> bytes \<Rightarrow> coord_cols \<Rightarrow> bytes option option" where
  "replay db 0 b k = None"
| "replay db (Suc n) b k =
     (case own_blob db b k of
        Some v \<Rightarrow> Some v
      | None \<Rightarrow> (case parents_of (t_parents db) b of [] \<Rightarrow> None | p # _ \<Rightarrow> replay db n p k))"

lemma inherits_step:
  "inherits db b a \<longleftrightarrow> a = b \<or> (\<exists>p. (b, p) \<in> set (t_parents db) \<and> inherits db p a)"
proof
  assume "inherits db b a"
  then show "a = b \<or> (\<exists>p. (b, p) \<in> set (t_parents db) \<and> inherits db p a)"
    unfolding inherits_def by (cases rule: converse_rtranclE) auto
qed (auto simp: inherits_def intro: converse_rtrancl_into_rtrancl)

lemma own_blob_None:
  "own_blob db b k = None \<longleftrightarrow> (\<forall>r \<in> set (t_history db). hr_commit r = b \<longrightarrow> hr_coord r \<noteq> k)"
  unfolding own_blob_def option.map_disc_iff find_None_iff by (auto simp: fresh_rows_def)

lemma own_blob_Some:
  assumes "own_blob db b k = Some v"
  obtains r where "r \<in> set (t_history db)" "hr_commit r = b" "hr_coord r = k" "v = hr_blob r"
proof -
  obtain r where r: "find (\<lambda>r. hr_coord r = k) (fresh_rows db b) = Some r" "v = hr_blob r"
    using assms by (auto simp: own_blob_def)
  then have "r \<in> set (fresh_rows db b)" "hr_coord r = k" by (auto simp: find_Some_iff)
  then show thesis using that [of r] r(2) by (simp add: fresh_rows_def)
qed

lemma blob_at_own:
  assumes wf: "wf_db db" and so: "seq_ordered db" and own: "own_blob db b k = Some v"
  shows "blob_at db b k = Some v"
proof -
  note wfd = wf_dbD(2,4) [OF wf]
  obtain r where r: "r \<in> set (t_history db)" "hr_commit r = b" "hr_coord r = k" "v = hr_blob r"
    using own by (rule own_blob_Some)
  have seq: "select_seq db (hr_commit q) = Some (hr_seq q)" if "q \<in> set (t_history db)" for q
    using wfd(2) that by (simp add: wf_history_def)
  have "blob_at db b k = Some (hr_blob r)"
  proof (rule blob_at_row [OF wfd r(1,3)])
    fix q assume q: "q \<in> set (t_history db)" "inherits db b (hr_commit q)"
    show "hr_seq q \<le> hr_seq r"
    proof (cases "hr_commit q = b")
      case True
      then show ?thesis using seq [OF q(1)] seq [OF r(1)] r(2) by simp
    next
      case False
      then show ?thesis using inherits_seq [OF so q(2) _ False] seq [OF q(1)] seq [OF r(1)] r(2) by force
    qed
  qed (use r(2) in simp)
  with r(4) show ?thesis by simp
qed

lemma blob_at_cong:
  assumes wf: "wf_db db"
    and "\<And>r. r \<in> set (t_history db) \<Longrightarrow> hr_coord r = k \<Longrightarrow> inherits db a (hr_commit r) \<longleftrightarrow> inherits db b (hr_commit r)"
  shows "blob_at db a k = blob_at db b k"
proof -
  have "lookup_row db a k = Some r \<longleftrightarrow> lookup_row db b k = Some r" for r
    using assms(2) unfolding lookup_row_Some [OF wf_dbD(2,4) [OF wf]] by blast
  then have "lookup_row db a k = lookup_row db b k" by (metis option.exhaust)
  then show ?thesis by (simp add: blob_at_def)
qed

text \<open>One step of the overlay.\<close>

lemma blob_at_parent:
  assumes wf: "wf_db db" and lin: "linear_db db" and edge: "(b, p) \<in> set (t_parents db)"
    and own: "own_blob db b k = None"
  shows "blob_at db b k = blob_at db p k"
proof (rule blob_at_cong [OF wf])
  fix r assume r: "r \<in> set (t_history db)" "hr_coord r = k"
  have "hr_commit r \<noteq> b" using own r by (auto simp: own_blob_None)
  moreover have "q = p" if "(b, q) \<in> set (t_parents db)" for q
    using that edge lin single_valuedD by (metis linear_db_def linear_history_def)
  ultimately show "inherits db b (hr_commit r) \<longleftrightarrow> inherits db p (hr_commit r)"
    using inherits_step [of db b "hr_commit r"] edge by blast
qed

lemma blob_at_root:
  assumes "\<forall>p. (b, p) \<notin> set (t_parents db)" "own_blob db b k = None"
  shows "blob_at db b k = None"
proof -
  have "\<not> inherits db b (hr_commit r)" if "r \<in> set (t_history db)" "hr_coord r = k" for r
    using that assms inherits_step [of db b "hr_commit r"] by (auto simp: own_blob_None)
  then show ?thesis by (simp add: blob_at_def lookup_row_None)
qed

text \<open>Commits of a smaller or equal sequence: how far the walk can still go.\<close>

definition older :: "meta_db \<Rightarrow> int \<Rightarrow> commit_row list" where
  "older db s = filter (\<lambda>r. cm_seq r \<le> s) (t_commits db)"

lemma older_shrinks:
  assumes "select_seq db b = Some s" "t < s"
  shows "length (older db t) < length (older db s)"
proof -
  obtain r where r: "r \<in> set (t_commits db)" "cm_seq r = s"
    using assms(1) find_commit_mem unfolding select_seq_def by blast
  have "older db t = filter (\<lambda>r. cm_seq r \<le> t) (older db s)"
    using assms(2) by (auto simp: older_def intro: filter_cong)
  moreover have "r \<in> set (older db s)" "\<not> cm_seq r \<le> t" using r assms(2) by (simp_all add: older_def)
  ultimately show ?thesis using length_filter_less [of r "older db s" "\<lambda>r. cm_seq r \<le> t"] by simp
qed

lemma replay_eq:
  assumes wf: "wf_db db" and lin: "linear_db db" and "select_seq db b = Some s" "length (older db s) \<le> n"
  shows "replay db n b k = blob_at db b k"
  using assms(3,4)
proof (induction n arbitrary: b s)
  case 0
  then have "length (older db (s - 1)) < 0" using older_shrinks [of db b s "s - 1"] by simp
  then show ?case by simp
next
  case (Suc n)
  have so: "seq_ordered db" using lin by (simp add: linear_db_def)
  show ?case
  proof (cases "own_blob db b k")
    case (Some v)
    then show ?thesis using blob_at_own [OF wf so] by simp
  next
    case own: None
    show ?thesis
    proof (cases "parents_of (t_parents db) b")
      case Nil
      then have "\<forall>p. (b, p) \<notin> set (t_parents db)" by (auto simp: parents_of_def filter_empty_conv)
      then show ?thesis using own blob_at_root Nil by simp
    next
      case (Cons p ps)
      then have "p \<in> set (parents_of (t_parents db) b)" by simp
      then have edge: "(b, p) \<in> set (t_parents db)" by (auto simp: parents_of_def)
      obtain sb sp where sp: "select_seq db b = Some sb" "select_seq db p = Some sp" "sp < sb"
        using so edge unfolding seq_ordered_def by (metis fst_conv snd_conv)
      then have "sp < s" using Suc.prems(1) by simp
      then have "length (older db sp) \<le> n" using older_shrinks [OF Suc.prems(1)] Suc.prems(2) by fastforce
      then show ?thesis using Suc.IH [OF sp(2)] blob_at_parent [OF wf lin edge own] own Cons by simp
    qed
  qed
qed

lemma replay_commit:
  assumes "wf_db db" "linear_db db" "b \<in> commit_ids db" "length (t_commits db) \<le> n"
  shows "replay db n b k = blob_at db b k"
proof -
  obtain s where "select_seq db b = Some s"
    using assms(3) select_seq_None [of db b] by (cases "select_seq db b") simp_all
  moreover have "length (older db s) \<le> n"
    unfolding older_def using assms(4) by (rule order_trans [OF length_filter_le])
  ultimately show ?thesis using replay_eq assms(1,2) by blast
qed

lemma chunk_view_replay:
  assumes "wf_db db" "linear_db db" "i \<in> set (ids_of (commits_view db))" "length (t_commits db) \<le> n"
  shows "replay db n (commit_param i) (coord_cols c) = map_option (map_option hash_bytes_list) (chunk_view db i c)"
proof -
  have "commit_param i \<in> commit_ids db" using assms(3) set_ids_of_commits_view [OF assms(1)] by simp
  then show ?thesis using replay_commit assms chunk_view_blob [OF wf_dbD(4) [OF assms(1)]] by simp
qed

end
