(* ===== verification/Usecase_Prune.thy ===== *)
theory Usecase_Prune
  imports Meta_Sqlite
begin

section \<open>Pruning\<close>

text \<open>
  \<open>crates/core/src/usecase/prune.rs\<close>: selecting the commits to keep, planning, and retiring the
  rest oldest first into the retained commit that continues them. \<open>prune_apply\<close> returns the
  metadata state next to its answer: each retirement commits on its own, so a failure keeps the
  ones before it. The progress callback is the list of its calls. The theorem proved in
  \<open>folding_store\<close>: a plan of \<open>prune_plan\<close> always applies, and keeps the state of every retained
  commit.
\<close>

record prune_plan_rec =
  pp_delete :: "commit_id list"
  pp_retained :: "commit_id list"

record prune_report =
  pr_pruned :: usize
  pr_rows_folded :: usize
  pr_rows_dropped :: usize

datatype 'e prune_error =
    PrMeta 'e
  | NothingRetained
  | UnknownRetained commit_id
  | PrNoSuccessor commit_id
  | PrSplitBranches commit_id
  | OverlappingPlan commit_id

datatype fold_error = FoldNoSuccessor | FoldSplitBranches

fun fold_failure :: "fold_error \<Rightarrow> commit_id \<Rightarrow> 'e prune_error" where
  "fold_failure FoldNoSuccessor i = PrNoSuccessor i"
| "fold_failure FoldSplitBranches i = PrSplitBranches i"

fun position :: "('a \<Rightarrow> bool) \<Rightarrow> 'a list \<Rightarrow> nat option" where
  "position P [] = None"
| "position P (x # xs) = (if P x then Some 0 else map_option Suc (position P xs))"

definition select_retained :: "commit list \<Rightarrow> u64 option \<Rightarrow> commit_id option \<Rightarrow> commit_id set" where
  "select_retained commits keep_last before =
     (case (case before of None \<Rightarrow> Some 0 | Some b \<Rightarrow> position (\<lambda>c. c_id c = b) commits) of
        None \<Rightarrow> {}
      | Some start \<Rightarrow>
          let ids = map c_id (drop start commits) in
          set (case keep_last of None \<Rightarrow> ids | Some n \<Rightarrow> drop (length ids - unat n) ids))"

definition load_commits :: "('m, 'e) meta_port \<Rightarrow> 'm \<Rightarrow> ('e prune_error, commit list) result" where
  "load_commits port m = map_err PrMeta (visit_all (mp_visit_commits port m))"

text \<open>One level of the walk: the ids in order, those seen before skipped.\<close>

definition walk_level ::
  "(commit_id \<Rightarrow> commit_id list) \<Rightarrow> commit_id list \<Rightarrow> commit_id set \<times> commit_id list
     \<Rightarrow> commit_id set \<times> commit_id list" where
  "walk_level parents level acc =
     foldl (\<lambda>(seen, next) i. if i \<in> seen then (seen, next) else (insert i seen, next @ parents i)) acc level"

lemma walk_level_spec:
  "fst (walk_level parents level (seen, next)) = seen \<union> set level
   \<and> set (snd (walk_level parents level (seen, next))) = set next \<union> (\<Union>i \<in> set level - seen. set (parents i))
   \<and> (set level \<subseteq> seen \<longrightarrow> snd (walk_level parents level (seen, next)) = next)"
proof (induction level arbitrary: seen "next")
  case (Cons i level)
  show ?case
  proof (cases "i \<in> seen")
    case True
    then show ?thesis using Cons [of seen "next"] by (auto simp: walk_level_def)
  next
    case False
    then show ?thesis using Cons [of "insert i seen" "next @ parents i"] by (auto simp: walk_level_def)
  qed
qed (simp add: walk_level_def)

function walk_ancestry ::
  "(commit_id \<Rightarrow> commit_id list) \<Rightarrow> commit_id list \<Rightarrow> commit_id set \<Rightarrow> commit_id set" where
  "walk_ancestry parents level seen =
     (if level = [] then seen
      else case walk_level parents level (seen, []) of
             (seen', next) \<Rightarrow> walk_ancestry parents next seen')"
  by pat_completeness auto
termination
proof (relation "inv_image (less_than <*lex*> less_than)
    (\<lambda>(parents, level, seen). (card (UNIV - seen), length level))", goal_cases)
  case 1
  then show ?case by (intro wf_inv_image wf_lex_prod) simp_all
next
  case (2 parents level seen seen' "next")
  then have w: "walk_level parents level (seen, []) = (seen', next)" by simp
  have s: "seen' = seen \<union> set level" "set level \<subseteq> seen \<Longrightarrow> next = []"
    using walk_level_spec [of parents level seen "[]"] w by auto
  show ?case
  proof (cases "set level \<subseteq> seen")
    case True
    then have "seen' = seen" "next = []" using s by auto
    then show ?thesis using 2(1) by simp
  next
    case False
    then have "UNIV - seen' \<subset> UNIV - seen" using s(1) by auto
    then have "card (UNIV - seen') < card (UNIV - seen)" by (rule psubset_card_mono [rotated]) simp
    then show ?thesis by simp
  qed
qed

declare walk_ancestry.simps [simp del]

definition retained_ancestry ::
  "commit list \<Rightarrow> commit_id set \<Rightarrow> (commit_id, commit_id set) omap" where
  "retained_ancestry commits retained =
     (let parents = om_of_list (map (\<lambda>c. (c_id c, c_parents c)) commits);
          look = (\<lambda>i. case om_get i parents of None \<Rightarrow> [] | Some ps \<Rightarrow> ps)
      in om_of_list (map (\<lambda>keep. (keep, walk_ancestry look (look keep) {})) (sorted_list_of_set retained)))"

definition fold_target ::
  "(commit_id, commit_id set) omap \<Rightarrow> commit_id set \<Rightarrow> commit_id \<Rightarrow> (fold_error, commit_id) result" where
  "fold_target ancestry retained commit =
     (let above = (\<lambda>other x. case om_get other ancestry of None \<Rightarrow> False | Some as \<Rightarrow> x \<in> as);
          descendants = filter (\<lambda>i. above i commit) (sorted_list_of_set retained)
      in case find (\<lambda>target. \<forall>other \<in> set descendants. other = target \<or> above other target) descendants of
           Some target \<Rightarrow> Inr target
         | None \<Rightarrow> Inl (if descendants = [] then FoldNoSuccessor else FoldSplitBranches))"

definition prune_plan ::
  "('m, 'e) meta_port \<Rightarrow> 'm \<Rightarrow> commit_id set \<Rightarrow> ('e prune_error, prune_plan_rec) result" where
  "prune_plan port m retained =
     bindE (load_commits port m) (\<lambda>commits.
       if commits \<noteq> [] \<and> retained = {} then Inl NothingRetained
       else case sorted_list_of_set (retained - set (map c_id commits)) of
              i # _ \<Rightarrow> Inl (UnknownRetained i)
            | [] \<Rightarrow>
                let delete = filter (\<lambda>i. i \<notin> retained) (map c_id commits);
                    retained_ids = filter (\<lambda>i. i \<in> retained) (map c_id commits);
                    ancestry = retained_ancestry commits retained
                in bindE (mapE (\<lambda>i. map_err (\<lambda>e. fold_failure e i) (fold_target ancestry retained i)) delete)
                     (\<lambda>_. Inr \<lparr>pp_delete = delete, pp_retained = retained_ids\<rparr>))"

text \<open>The loop of \<open>prune_apply\<close>: the answer, the state after it, and the progress calls.\<close>

fun prune_loop ::
  "('m, 'e) meta_port \<Rightarrow> (commit_id \<Rightarrow> (fold_error, commit_id) result) \<Rightarrow> nat \<Rightarrow> nat \<Rightarrow> commit_id list
     \<Rightarrow> prune_report \<Rightarrow> (nat \<times> nat) list \<Rightarrow> 'm
     \<Rightarrow> ('e prune_error, prune_report) result \<times> 'm \<times> (nat \<times> nat) list" where
  "prune_loop port target todo n [] report calls m = (Inr report, m, calls)"
| "prune_loop port target todo n (i # rest) report calls m =
     (case map_err (\<lambda>e. fold_failure e i) (target i) of
        Inl e \<Rightarrow> (Inl e, m, calls)
      | Inr t \<Rightarrow>
          (case mp_retire_commit port i t m of
             Inl e \<Rightarrow> (Inl (PrMeta e), m, calls)
           | Inr (outcome, m') \<Rightarrow>
               prune_loop port target todo (n + 1) rest
                 (report\<lparr>pr_rows_folded := pr_rows_folded report + fo_folded outcome,
                         pr_rows_dropped := pr_rows_dropped report + fo_dropped outcome,
                         pr_pruned := pr_pruned report + 1\<rparr>)
                 (calls @ [(n + 1, todo)]) m'))"

definition prune_apply ::
  "('m, 'e) meta_port \<Rightarrow> prune_plan_rec \<Rightarrow> 'm
     \<Rightarrow> ('e prune_error, prune_report) result \<times> 'm \<times> (nat \<times> nat) list" where
  "prune_apply port plan m =
     (let retained = set (pp_retained plan) in
      case find (\<lambda>i. i \<in> retained) (pp_delete plan) of
        Some i \<Rightarrow> (Inl (OverlappingPlan i), m, [])
      | None \<Rightarrow>
          (case load_commits port m of
             Inl e \<Rightarrow> (Inl e, m, [])
           | Inr commits \<Rightarrow>
               let ancestry = retained_ancestry commits retained in
               prune_loop port (fold_target ancestry retained) (length (pp_delete plan)) 0
                 (pp_delete plan) \<lparr>pr_pruned = 0, pr_rows_folded = 0, pr_rows_dropped = 0\<rparr> [] m))"

subsection \<open>What the ancestry holds\<close>

definition look_graph :: "(commit_id \<Rightarrow> commit_id list) \<Rightarrow> (commit_id \<times> commit_id) set" where
  "look_graph look = {(c, p). p \<in> set (look c)}"

lemma walk_ancestry_reach:
  assumes "look_graph look `` seen \<subseteq> seen \<union> set level"
  shows "walk_ancestry look level seen = seen \<union> (look_graph look)\<^sup>* `` set level"
  using assms
proof (induction look level seen rule: walk_ancestry.induct)
  case (1 look level seen)
  let ?E = "look_graph look"
  show ?case
  proof (cases "level = []")
    case True
    then show ?thesis by (subst walk_ancestry.simps) simp
  next
    case False
    obtain seen' "next" where w: "walk_level look level (seen, []) = (seen', next)" by fastforce
    have seen': "seen' = seen \<union> set level" and nxt: "set next = ?E `` (set level - seen)"
      using walk_level_spec [of look level seen "[]"] w by (auto simp: look_graph_def)
    have "?E `` seen' \<subseteq> seen' \<union> set next" using "1.prems" seen' nxt by blast
    then have IH: "walk_ancestry look next seen' = seen' \<union> ?E\<^sup>* `` set next"
      using "1.IH" [OF False w [symmetric]] by simp
    have closed: "?E `` (seen' \<union> ?E\<^sup>* `` set next) \<subseteq> seen' \<union> ?E\<^sup>* `` set next"
      using \<open>?E `` seen' \<subseteq> seen' \<union> set next\<close> by (auto intro: rtrancl_into_rtrancl)
    have "y \<in> seen' \<union> ?E\<^sup>* `` set next" if "(x, y) \<in> ?E\<^sup>*" "x \<in> set level" for x y
      using that by (induction rule: rtrancl_induct) (use seen' closed in blast)+
    moreover have "?E\<^sup>* `` set next \<subseteq> ?E\<^sup>* `` set level"
      unfolding nxt by (auto intro: converse_rtrancl_into_rtrancl)
    moreover have "seen' \<subseteq> seen \<union> ?E\<^sup>* `` set level" unfolding seen' by auto
    ultimately have "seen' \<union> ?E\<^sup>* `` set next = seen \<union> ?E\<^sup>* `` set level" unfolding seen' by blast
    then show ?thesis
      using IH False by (subst walk_ancestry.simps) (simp add: w)
  qed
qed

lemma look_graph_commits:
  assumes "distinct (ids_of commits)"
  shows "look_graph (\<lambda>i. case om_get i (om_of_list (map (\<lambda>c. (c_id c, c_parents c)) commits)) of
      None \<Rightarrow> [] | Some ps \<Rightarrow> ps) = graph_of commits"
proof -
  let ?m = "om_of_list (map (\<lambda>c. (c_id c, c_parents c)) commits)"
  have "distinct (map fst (rev (map (\<lambda>c. (c_id c, c_parents c)) commits)))"
    using assms by (simp add: ids_of_def rev_map comp_def distinct_map)
  then have get: "om_get i ?m = Some ps \<longleftrightarrow> (i, ps) \<in> set (map (\<lambda>c. (c_id c, c_parents c)) commits)" for i ps
    by (simp add: om_get_of_list map_of_eq_Some_iff)
  have "p \<in> set (case om_get i ?m of None \<Rightarrow> [] | Some ps \<Rightarrow> ps) \<longleftrightarrow> (i, p) \<in> graph_of commits" for i p
  proof (cases "om_get i ?m")
    case None
    then have "(i, ps) \<notin> set (map (\<lambda>c. (c_id c, c_parents c)) commits)" for ps using get [of i ps] by simp
    then have "(i, p) \<notin> graph_of commits" unfolding graph_of_def by fastforce
    with None show ?thesis by simp
  next
    case (Some ps)
    then obtain c where c: "c \<in> set commits" "c_id c = i" "c_parents c = ps" using get [of i ps] by auto
    then have "find_record commits i = Some c" by (simp add: find_record_Some [OF assms])
    then show ?thesis using Some c(3) graph_of_edge [OF assms] by simp
  qed
  then show ?thesis by (auto simp: look_graph_def)
qed

lemma retained_ancestry_get:
  assumes "distinct (ids_of commits)"
  shows "om_get k (retained_ancestry commits retained)
    = (if k \<in> retained then Some {a. (k, a) \<in> (graph_of commits)\<^sup>+} else None)"
proof -
  let ?look = "\<lambda>i. case om_get i (om_of_list (map (\<lambda>c. (c_id c, c_parents c)) commits)) of
      None \<Rightarrow> [] | Some ps \<Rightarrow> ps"
  have "walk_ancestry ?look (?look k) {} = {a. (k, a) \<in> (graph_of commits)\<^sup>+}" for k
  proof -
    have "walk_ancestry ?look (?look k) {} = (graph_of commits)\<^sup>* `` set (?look k)"
      using walk_ancestry_reach [of ?look "{}" "?look k"] look_graph_commits [OF assms] by simp
    also have "set (?look k) = graph_of commits `` {k}"
      unfolding look_graph_commits [OF assms, symmetric] by (auto simp: look_graph_def)
    finally show ?thesis by (auto simp: trancl_unfold_left)
  qed
  then have "retained_ancestry commits retained
      = om_of_list (map (\<lambda>k. (k, {a. (k, a) \<in> (graph_of commits)\<^sup>+})) (sorted_list_of_set retained))"
    by (simp add: retained_ancestry_def Let_def)
  moreover have "map_of (map (\<lambda>k. (k, f k)) xs) k = (if k \<in> set xs then Some (f k) else None)"
    for f :: "commit_id \<Rightarrow> commit_id set" and xs
    by (induction xs) auto
  ultimately show ?thesis by (simp add: om_get_of_list rev_map)
qed

subsection \<open>Fold targets\<close>

text \<open>A fold target is a retained strict descendant that every retained descendant continues.\<close>

lemma fold_target_ok:
  assumes d: "distinct (ids_of cs)"
    and ok: "fold_target (retained_ancestry cs R) R i = Inr t"
  shows "t \<in> R \<and> (t, i) \<in> (graph_of cs)\<^sup>+
    \<and> (\<forall>j \<in> R. (j, i) \<in> (graph_of cs)\<^sup>+ \<longrightarrow> (j, t) \<in> (graph_of cs)\<^sup>*)"
proof -
  let ?E = "graph_of cs"
  have above: "(case om_get j (retained_ancestry cs R) of None \<Rightarrow> False | Some as \<Rightarrow> x \<in> as)
      \<longleftrightarrow> j \<in> R \<and> (j, x) \<in> ?E\<^sup>+" for j x
    by (simp add: retained_ancestry_get [OF d])
  let ?desc = "filter (\<lambda>j. j \<in> R \<and> (j, i) \<in> ?E\<^sup>+) (sorted_list_of_set R)"
  have "find (\<lambda>x. \<forall>j \<in> set ?desc. j = x \<or> j \<in> R \<and> (j, x) \<in> ?E\<^sup>+) ?desc = Some t"
    using ok unfolding fold_target_def above Let_def by (simp split: option.splits if_splits)
  then have t: "t \<in> set ?desc" and all: "\<forall>j \<in> set ?desc. j = t \<or> j \<in> R \<and> (j, t) \<in> ?E\<^sup>+"
    by (auto dest: find_Some_mem)
  have "(j, t) \<in> ?E\<^sup>*" if "j \<in> R" "(j, i) \<in> ?E\<^sup>+" for j
  proof -
    have "j \<in> set ?desc" using that by simp
    then show ?thesis using all by (auto dest: trancl_into_rtrancl)
  qed
  with t show ?thesis by simp
qed

text \<open>A commit no retained commit continues, and one whose branches were both kept, are refused.\<close>

lemma fold_target_error:
  assumes d: "distinct (ids_of cs)"
    and err: "fold_target (retained_ancestry cs R) R i = Inl e"
  shows "(e = FoldNoSuccessor \<longleftrightarrow> (\<forall>j \<in> R. (j, i) \<notin> (graph_of cs)\<^sup>+))
    \<and> \<not> (\<exists>t \<in> R. (t, i) \<in> (graph_of cs)\<^sup>+ \<and> (\<forall>j \<in> R. (j, i) \<in> (graph_of cs)\<^sup>+ \<longrightarrow> j = t \<or> (j, t) \<in> (graph_of cs)\<^sup>+))"
proof -
  let ?E = "graph_of cs"
  have above: "(case om_get j (retained_ancestry cs R) of None \<Rightarrow> False | Some as \<Rightarrow> x \<in> as)
      \<longleftrightarrow> j \<in> R \<and> (j, x) \<in> ?E\<^sup>+" for j x
    by (simp add: retained_ancestry_get [OF d])
  let ?desc = "filter (\<lambda>j. j \<in> R \<and> (j, i) \<in> ?E\<^sup>+) (sorted_list_of_set R)"
  have none: "find (\<lambda>x. \<forall>j \<in> set ?desc. j = x \<or> j \<in> R \<and> (j, x) \<in> ?E\<^sup>+) ?desc = None"
    and e: "e = (if ?desc = [] then FoldNoSuccessor else FoldSplitBranches)"
    using err unfolding fold_target_def above Let_def by (auto split: option.splits if_splits)
  have "?desc = [] \<longleftrightarrow> (\<forall>j \<in> R. (j, i) \<notin> ?E\<^sup>+)" by (auto simp: filter_empty_conv)
  moreover have "\<not> (\<exists>t \<in> R. (t, i) \<in> ?E\<^sup>+ \<and> (\<forall>j \<in> R. (j, i) \<in> ?E\<^sup>+ \<longrightarrow> j = t \<or> (j, t) \<in> ?E\<^sup>+))"
    using none by (auto simp: find_None_iff)
  ultimately show ?thesis using e by auto
qed

lemma mapE_ok_mem: "mapE f xs = Inr ys \<Longrightarrow> x \<in> set xs \<Longrightarrow> \<exists>y. f x = Inr y"
  by (induction xs arbitrary: ys) (auto simp: bindE_eq_Inr)

subsection \<open>A plan applies and keeps the retained states\<close>

definition progress_calls :: "nat \<Rightarrow> nat \<Rightarrow> nat \<Rightarrow> (nat \<times> nat) list" where
  "progress_calls n len todo = map (\<lambda>k. (n + 1 + k, todo)) [0 ..< len]"

lemma progress_calls_Suc:
  "progress_calls n (Suc len) todo = (Suc n, todo) # progress_calls (Suc n) len todo"
  by (simp add: progress_calls_def upt_conv_Cons comp_def del: upt_Suc flip: map_Suc_upt)

context folding_store
begin

lemma prune_plan_ok:
  assumes m: "valid m" and plan: "prune_plan port m R = Inr plan"
  shows "R \<subseteq> set (ids_of (commits m))
    \<and> pp_delete plan = filter (\<lambda>i. i \<notin> R) (ids_of (commits m))
    \<and> pp_retained plan = filter (\<lambda>i. i \<in> R) (ids_of (commits m))
    \<and> (\<forall>i \<in> set (pp_delete plan). \<exists>t. fold_target (retained_ancestry (commits m) R) R i = Inr t)
    \<and> (commits m \<noteq> [] \<longrightarrow> R \<noteq> {})"
proof -
  have load: "load_commits port m = Inr (commits m)"
    by (simp add: load_commits_def visit_commits [OF m])
  have "sorted_list_of_set (R - set (map c_id (commits m))) = []"
    using plan by (auto simp: prune_plan_def load split: if_splits list.splits)
  then have sub: "R \<subseteq> set (ids_of (commits m))" by (auto simp: ids_of_def)
  have ne: "commits m \<noteq> [] \<longrightarrow> R \<noteq> {}"
    using plan by (auto simp: prune_plan_def load split: if_splits)
  obtain ys where ys: "mapE (\<lambda>i. map_err (\<lambda>e. fold_failure e i :: 'e prune_error)
        (fold_target (retained_ancestry (commits m) R) R i))
      (filter (\<lambda>i. i \<notin> R) (ids_of (commits m))) = Inr (ys :: commit_id list)"
    and eq: "plan = \<lparr>pp_delete = filter (\<lambda>i. i \<notin> R) (ids_of (commits m)),
      pp_retained = filter (\<lambda>i. i \<in> R) (ids_of (commits m))\<rparr>"
    using plan by (auto simp: prune_plan_def load Let_def bindE_eq_Inr ids_of_def split: if_splits list.splits)
  have "\<exists>t. fold_target (retained_ancestry (commits m) R) R i = Inr t" if "i \<in> set (pp_delete plan)" for i
    using mapE_ok_mem [OF ys, of i] that by (simp add: eq map_err_eq_Inr)
  with sub ne eq show ?thesis by auto
qed

text \<open>Where \<open>m'\<close> is after some of the retirements that started at \<open>m\<close>.\<close>

definition pruned_state :: "'m \<Rightarrow> commit_id set \<Rightarrow> commit_id set \<Rightarrow> 'm \<Rightarrow> bool" where
  "pruned_state m R done m' \<longleftrightarrow>
     valid m' \<and> linear m'
     \<and> ids_of (commits m') = filter (\<lambda>i. i \<notin> done) (ids_of (commits m))
     \<and> (\<forall>a b. a \<notin> done \<longrightarrow> b \<notin> done \<longrightarrow> (a, b) \<in> (graph_of (commits m'))\<^sup>* \<longleftrightarrow> (a, b) \<in> (graph_of (commits m))\<^sup>*)
     \<and> (\<forall>i \<in> R. state m' i = state m i)"

lemma pruned_step:
  assumes m: "valid m" and inv: "pruned_state m R D m'"
    and t: "fold_target (retained_ancestry (commits m) R) R i = Inr t"
    and R: "R \<subseteq> set (ids_of (commits m))" "R \<inter> D = {}" and i: "i \<notin> R" "i \<notin> D"
  shows "\<exists>out m''. mp_retire_commit port i t m' = Inr (out, m'') \<and> pruned_state m R (insert i D) m''"
proof -
  let ?E = "graph_of (commits m)" and ?E' = "graph_of (commits m')"
  have ft: "t \<in> R" "(t, i) \<in> ?E\<^sup>+" "\<And>j. j \<in> R \<Longrightarrow> (j, i) \<in> ?E\<^sup>+ \<Longrightarrow> (j, t) \<in> ?E\<^sup>*"
    using fold_target_ok [OF distinct_commits [OF m] t] by auto
  have reach: "(a, b) \<in> ?E'\<^sup>* \<longleftrightarrow> (a, b) \<in> ?E\<^sup>*" if "a \<notin> D" "b \<notin> D" for a b
    using inv that by (simp add: pruned_state_def)
  have ids: "ids_of (commits m') = filter (\<lambda>i. i \<notin> D) (ids_of (commits m))"
    using inv by (simp add: pruned_state_def)
  have tD: "t \<notin> D" using ft(1) R(2) by blast
  have "(t, i) \<in> ?E'\<^sup>*" using ft(2) reach tD i(2) by (simp add: trancl_into_rtrancl)
  moreover have "t \<noteq> i" using ft(1) i(1) by blast
  moreover have "t \<in> set (ids_of (commits m'))" using ids tD ft(1) R(1) by auto
  ultimately obtain out m'' where ret: "mp_retire_commit port i t m' = Inr (out, m'')"
    and m'': "valid m''" "linear m''" "ids_of (commits m'') = filter (\<lambda>j. j \<noteq> i) (ids_of (commits m'))"
      "graph_of (commits m'') = contract ?E' i"
    and st: "\<And>j. j \<noteq> i \<Longrightarrow> ((j, i) \<in> ?E'\<^sup>* \<Longrightarrow> (j, t) \<in> ?E'\<^sup>*) \<Longrightarrow> state m'' j = state m' j"
    using retire [of m' t i] inv unfolding pruned_state_def by blast
  have "(a, b) \<in> (graph_of (commits m''))\<^sup>* \<longleftrightarrow> (a, b) \<in> ?E\<^sup>*" if "a \<notin> insert i D" "b \<notin> insert i D" for a b
    using that reach by (simp add: m''(4) contract_reach)
  moreover have "state m'' j = state m j" if "j \<in> R" for j
  proof -
    have jD: "j \<notin> D" "j \<noteq> i" using that R(2) i(1) by auto
    have "(j, t) \<in> ?E'\<^sup>*" if "(j, i) \<in> ?E'\<^sup>*"
    proof -
      have "(j, i) \<in> ?E\<^sup>*" using that reach jD(1) i(2) by simp
      then have "(j, i) \<in> ?E\<^sup>+" using jD(2) by (simp add: rtrancl_eq_or_trancl)
      then show ?thesis using ft(3) \<open>j \<in> R\<close> reach jD(1) tD by simp
    qed
    then have "state m'' j = state m' j" using st jD(2) by blast
    then show ?thesis using inv that by (simp add: pruned_state_def)
  qed
  moreover have "ids_of (commits m'') = filter (\<lambda>j. j \<notin> insert i D) (ids_of (commits m))"
    unfolding m''(3) ids filter_filter by (intro filter_cong) auto
  ultimately show ?thesis using ret m'' by (auto simp: pruned_state_def)
qed

lemma prune_loop_ok:
  assumes m: "valid m" and R: "R \<subseteq> set (ids_of (commits m))"
    and "pruned_state m R D m'" "R \<inter> D = {}" "distinct is" "set is \<inter> (R \<union> D) = {}"
    and "\<forall>i \<in> set is. \<exists>t. fold_target (retained_ancestry (commits m) R) R i = Inr t"
  shows "\<exists>report m''. prune_loop port (fold_target (retained_ancestry (commits m) R) R) todo n is rep calls m'
      = (Inr report, m'', calls @ progress_calls n (length is) todo)
    \<and> pr_pruned report = pr_pruned rep + length is \<and> pruned_state m R (D \<union> set is) m''"
  using assms(3-)
proof (induction "is" arbitrary: D m' n rep calls)
  case Nil
  then show ?case by (simp add: progress_calls_def)
next
  case (Cons i rest)
  then obtain t where t: "fold_target (retained_ancestry (commits m) R) R i = Inr t" by auto
  obtain out m1 where ret: "mp_retire_commit port i t m' = Inr (out, m1)"
    and inv: "pruned_state m R (insert i D) m1"
    using pruned_step [OF m Cons.prems(1) t R Cons.prems(2)] Cons.prems(4) by auto
  let ?rep = "rep\<lparr>pr_rows_folded := pr_rows_folded rep + fo_folded out,
      pr_rows_dropped := pr_rows_dropped rep + fo_dropped out, pr_pruned := pr_pruned rep + 1\<rparr>"
  obtain report m2 where IH: "prune_loop port (fold_target (retained_ancestry (commits m) R) R) todo (n + 1) rest ?rep
        (calls @ [(n + 1, todo)]) m1
      = (Inr report, m2, (calls @ [(n + 1, todo)]) @ progress_calls (n + 1) (length rest) todo)"
    "pr_pruned report = pr_pruned ?rep + length rest" "pruned_state m R (insert i D \<union> set rest) m2"
    using Cons.IH [OF inv, of "n + 1" ?rep "calls @ [(n + 1, todo)]"] Cons.prems by auto
  then show ?case using t ret by (simp add: progress_calls_Suc)
qed

lemma prune_applies:
  assumes m: "valid m" "linear m" and plan: "prune_plan port m R = Inr plan"
  shows "\<exists>report m'. prune_apply port plan m
      = (Inr report, m', progress_calls 0 (length (pp_delete plan)) (length (pp_delete plan)))
    \<and> pr_pruned report = length (pp_delete plan) \<and> valid m' \<and> linear m'
    \<and> ids_of (commits m') = pp_retained plan
    \<and> (\<forall>i \<in> R. state m' i = state m i)
    \<and> (\<forall>a \<in> R. \<forall>b \<in> R. (a, b) \<in> (graph_of (commits m'))\<^sup>* \<longleftrightarrow> (a, b) \<in> (graph_of (commits m))\<^sup>*)"
proof -
  note p = prune_plan_ok [OF m(1) plan]
  have sub: "R \<subseteq> set (ids_of (commits m))"
    and targets: "\<forall>i \<in> set (pp_delete plan). \<exists>t. fold_target (retained_ancestry (commits m) R) R i = Inr t"
    using p by blast+
  have ret: "set (pp_retained plan) = R" using p by auto
  have load: "load_commits port m = Inr (commits m)"
    by (simp add: load_commits_def visit_commits [OF m(1)])
  have none: "find (\<lambda>i. i \<in> R) (pp_delete plan) = None" using p by (auto simp: find_None_iff)
  have init: "pruned_state m R {} m" using m by (simp add: pruned_state_def)
  have dist: "distinct (pp_delete plan)" using p distinct_commits [OF m(1)] by simp
  have disj: "set (pp_delete plan) \<inter> (R \<union> {}) = {}" using p by auto
  obtain report m' where loop: "prune_loop port (fold_target (retained_ancestry (commits m) R) R)
      (length (pp_delete plan)) 0 (pp_delete plan) \<lparr>pr_pruned = 0, pr_rows_folded = 0, pr_rows_dropped = 0\<rparr> [] m
      = (Inr report, m', progress_calls 0 (length (pp_delete plan)) (length (pp_delete plan)))"
    and rep: "pr_pruned report = length (pp_delete plan)"
    and inv: "pruned_state m R (set (pp_delete plan)) m'"
    using prune_loop_ok [OF m(1) sub init Int_empty_right dist disj targets, of "length (pp_delete plan)" 0
        "\<lparr>pr_pruned = 0, pr_rows_folded = 0, pr_rows_dropped = 0\<rparr>" "[]"] by auto
  have "prune_apply port plan m
      = (Inr report, m', progress_calls 0 (length (pp_delete plan)) (length (pp_delete plan)))"
    using loop by (simp add: prune_apply_def ret none load Let_def)
  moreover have "ids_of (commits m') = pp_retained plan"
    using inv p by (auto simp: pruned_state_def intro: filter_cong)
  moreover have "\<forall>a \<in> R. \<forall>b \<in> R. (a, b) \<in> (graph_of (commits m'))\<^sup>* \<longleftrightarrow> (a, b) \<in> (graph_of (commits m))\<^sup>*"
    using inv disj by (auto simp: pruned_state_def)
  ultimately show ?thesis using rep inv by (auto simp: pruned_state_def)
qed

end

end
