(* ===== verification/Hex.thy ===== *)
theory Hex
  imports Coords
begin

section \<open>Hexadecimal spelling of digests\<close>

text \<open>
  The hex routines of \<open>crates/util/src/hash.rs\<close> and their wrappers in \<open>commit.rs\<close>. The two
  fixed-count loops are recursions over the bytes they walk; decoding stops at the first bad
  character, high nibble before low. The lemmas show that decoding inverts encoding, that what
  decodes is the encoding up to letter case, and which inputs are refused with which error.
\<close>

datatype hex_error = BadHexLength usize | BadHexChar u8

definition HEX :: bytes where
  "HEX = [48, 49, 50, 51, 52, 53, 54, 55, 56, 57, 97, 98, 99, 100, 101, 102]"

definition decode_nibble :: "u8 \<Rightarrow> (hex_error, u8) result" where
  "decode_nibble b =
     (if 48 \<le> b \<and> b \<le> 57 then Inr (b - 48)
      else if 97 \<le> b \<and> b \<le> 102 then Inr (b - 97 + 10)
      else if 65 \<le> b \<and> b \<le> 70 then Inr (b - 65 + 10)
      else Inl (BadHexChar b))"

fun hex_loop :: "bytes \<Rightarrow> bytes" where
  "hex_loop [] = []"
| "hex_loop (b # bs) = HEX ! unat (drop_bit 4 b) # HEX ! unat (b AND 0x0F) # hex_loop bs"

definition hex32_into :: "bytes \<Rightarrow> bytes" where
  "hex32_into bs = hex_loop bs"

fun unhex_loop :: "bytes \<Rightarrow> (hex_error, bytes) result" where
  "unhex_loop (h # l # rest) =
     bindE (decode_nibble h) (\<lambda>hi.
     bindE (decode_nibble l) (\<lambda>lo.
     bindE (unhex_loop rest) (\<lambda>bs. Inr ((push_bit 4 hi OR lo) # bs))))"
| "unhex_loop _ = Inr []"

definition hex32_from :: "bytes \<Rightarrow> (hex_error, bytes) result" where
  "hex32_from input =
     (if length input \<noteq> 64 then Inl (BadHexLength (length input)) else unhex_loop input)"

text \<open>
  \<open>hex_string\<close> reads the encoded bytes as a string; \<open>from_utf8\<close> cannot fail on them because
  they are ASCII (\<open>hex_loop_ascii\<close>), so the default of \<open>unwrap_or_default\<close> is never taken.
\<close>

definition ascii_from_utf8 :: "bytes \<Rightarrow> rstr option" where
  "ascii_from_utf8 bs = (if \<forall>b \<in> set bs. b < 128 then Some (map unat bs) else None)"

definition unwrap_or_default :: "rstr option \<Rightarrow> rstr" where
  "unwrap_or_default x = (case x of Some s \<Rightarrow> s | None \<Rightarrow> [])"

definition hex_into :: "hash32 \<Rightarrow> bytes" where
  "hex_into h = hex32_into (hash_bytes_list h)"

definition hex_string :: "hash32 \<Rightarrow> rstr" where
  "hex_string h = unwrap_or_default (ascii_from_utf8 (hex_into h))"

definition from_hex :: "bytes \<Rightarrow> (hex_error, hash32) result" where
  "from_hex input = bindE (hex32_from input) (\<lambda>bs. Inr (hash_of_bytes bs))"

definition commit_id_from_str :: "rstr \<Rightarrow> (hex_error, commit_id) result" where
  "commit_id_from_str s = from_hex (as_bytes s)"

definition commit_id_display :: "commit_id \<Rightarrow> rstr option" where
  "commit_id_display i = ascii_from_utf8 (hex_into i)"

subsection \<open>Nibbles\<close>

lemma decode_HEX: "n < 16 \<Longrightarrow> decode_nibble (HEX ! n) = Inr (of_nat n)"
proof -
  have "\<forall>k \<in> set [0 ..< 16]. decode_nibble (HEX ! k) = Inr (of_nat k)" by code_simp
  then show "n < 16 \<Longrightarrow> decode_nibble (HEX ! n) = Inr (of_nat n)" by simp
qed

lemma HEX_ascii: "n < 16 \<Longrightarrow> HEX ! n < 128"
proof -
  have "\<forall>k \<in> set [0 ..< 16]. HEX ! k < 128" by code_simp
  then show "n < 16 \<Longrightarrow> HEX ! n < 128" by simp
qed

lemma high_nibble: "unat (drop_bit 4 (b :: u8)) < 16"
proof -
  have "unat (drop_bit 4 b) = unat b div 16"
    by (simp add: drop_bit_eq_div unat_div)
  then show ?thesis using unat_u8_less [of b] by (simp add: less_mult_imp_div_less)
qed

lemma and_15: "(b :: u8) AND 0x0F = take_bit 4 b"
  by (simp add: take_bit_eq_mask mask_eq_exp_minus_1)

lemma low_nibble: "unat ((b :: u8) AND 0x0F) < 16"
proof -
  have "unat (take_bit 4 b) = unat b mod 16"
    by (simp add: take_bit_eq_mod unat_mod)
  then show ?thesis by (simp add: and_15)
qed

lemma join_nibbles: "push_bit 4 (drop_bit 4 b) OR (b AND 0x0F) = (b :: u8)"
  unfolding and_15
  by (rule bit_eqI) (auto simp: bit_simps)

lemma length_hex_loop [simp]: "length (hex_loop bs) = 2 * length bs"
  by (induction bs) simp_all

lemma hex_loop_ascii: "b \<in> set (hex_loop bs) \<Longrightarrow> b < 128"
  by (induction bs) (auto simp: HEX_ascii high_nibble low_nibble)

lemma unhex_hex_loop: "unhex_loop (hex_loop bs) = Inr bs"
  by (induction bs) (simp_all add: decode_HEX high_nibble low_nibble join_nibbles)

lemma hex32_round: "length bs = 32 \<Longrightarrow> hex32_from (hex32_into bs) = Inr bs"
  by (simp add: hex32_from_def hex32_into_def unhex_hex_loop)

lemma from_hex_into [simp]: "from_hex (hex_into h) = Inr h"
  by (simp add: from_hex_def hex_into_def hex32_round)

lemma hex_into_ascii: "b \<in> set (hex_into h) \<Longrightarrow> b < 128"
  by (auto simp: hex_into_def hex32_into_def dest: hex_loop_ascii)

lemma length_hex_into [simp]: "length (hex_into h) = 64"
  by (simp add: hex_into_def hex32_into_def)

lemma ascii_hex_into: "ascii_from_utf8 (hex_into h) = Some (map unat (hex_into h))"
  using hex_into_ascii by (auto simp: ascii_from_utf8_def)

lemma as_bytes_ascii_str:
  assumes "ascii_from_utf8 bs = Some s"
  shows "as_bytes s = bs"
proof -
  have s: "s = map unat bs" and small: "\<forall>b \<in> set bs. b < 128"
    using assms by (auto simp: ascii_from_utf8_def split: if_splits)
  have "\<forall>c \<in> set s. c < 128"
    using small by (auto simp: s word_less_nat_alt)
  then show ?thesis by (simp add: as_bytes_ascii s comp_def)
qed

subsection \<open>Decoding is case-insensitive and nothing else\<close>

definition hex_char :: "u8 \<Rightarrow> bool" where
  "hex_char b \<longleftrightarrow> 48 \<le> b \<and> b \<le> 57 \<or> 97 \<le> b \<and> b \<le> 102 \<or> 65 \<le> b \<and> b \<le> 70"

definition lower_u8 :: "u8 \<Rightarrow> u8" where
  "lower_u8 b = (if 65 \<le> b \<and> b \<le> 90 then b + 32 else b)"

lemma decode_nibble_ok_iff: "(\<exists>n. decode_nibble b = Inr n) \<longleftrightarrow> hex_char b"
  by (auto simp: decode_nibble_def hex_char_def)

lemma decode_nibble_err: "\<not> hex_char b \<Longrightarrow> decode_nibble b = Inl (BadHexChar b)"
  by (auto simp: decode_nibble_def hex_char_def)

lemma hex_char_cases:
  assumes "hex_char b"
  shows "b \<in> set [48, 49, 50, 51, 52, 53, 54, 55, 56, 57, 97, 98, 99, 100, 101, 102,
                   65, 66, 67, 68, 69, 70]"
proof -
  have "unat b \<in> {48..<58} \<union> {97..<103} \<union> {65..<71}"
    using assms by (auto simp: hex_char_def word_le_nat_alt)
  then have "unat b \<in> set ([48..<58] @ [97..<103] @ [65..<71])"
    by (simp only: set_append set_upt Un_assoc)
  then have "(of_nat (unat b) :: u8) \<in> of_nat ` set ([48..<58] @ [97..<103] @ [65..<71] :: nat list)"
    by (rule imageI)
  then have "b \<in> set (map of_nat ([48..<58] @ [97..<103] @ [65..<71]))"
    by (simp only: of_nat_unat set_map ucast_id)
  then show ?thesis by (simp add: upt_rec)
qed

lemma decode_nibble_small:
  "decode_nibble b = Inr n \<Longrightarrow> unat n < 16 \<and> HEX ! unat n = lower_u8 b"
proof -
  assume d: "decode_nibble b = Inr n"
  then have "b \<in> set [48, 49, 50, 51, 52, 53, 54, 55, 56, 57, 97, 98, 99, 100, 101, 102,
                   65, 66, 67, 68, 69, 70]"
    using hex_char_cases decode_nibble_ok_iff by blast
  with d show ?thesis
    by (auto simp: decode_nibble_def HEX_def lower_u8_def)
qed

lemma split_nibbles:
  assumes "unat hi < 16" "unat lo < 16"
  shows "drop_bit 4 (push_bit 4 hi OR lo) = (hi :: u8)" "(push_bit 4 hi OR lo) AND 0x0F = lo"
proof -
  have hi: "take_bit 4 hi = hi" and lo: "take_bit 4 lo = lo"
    using assms by (simp_all add: word_unat_eq_iff take_bit_eq_mod unat_mod)
  have bits: "bit hi n \<Longrightarrow> n < 4" "bit lo n \<Longrightarrow> n < 4" for n
    using bit_take_bit_iff [of 4 hi n] bit_take_bit_iff [of 4 lo n] by (simp_all add: hi lo)
  show "drop_bit 4 (push_bit 4 hi OR lo) = hi"
  proof (rule bit_eqI)
    fix n
    show "bit (drop_bit 4 (push_bit 4 hi OR lo)) n = bit hi n"
      using bits(1) [of n] bits(2) [of "4 + n"] by (auto simp: bit_simps)
  qed
  show "(push_bit 4 hi OR lo) AND 0x0F = lo"
    unfolding and_15
  proof (rule bit_eqI)
    fix n
    show "bit (take_bit 4 (push_bit 4 hi OR lo)) n = bit lo n"
      using bits(2) [of n] by (auto simp: bit_simps)
  qed
qed

lemma hex_unhex_loop:
  "unhex_loop s = Inr bs \<Longrightarrow> even (length s) \<Longrightarrow> hex_loop bs = map lower_u8 s"
proof (induction s arbitrary: bs rule: unhex_loop.induct)
  case (1 h l rest)
  then obtain hi lo cs where d: "decode_nibble h = Inr hi" "decode_nibble l = Inr lo"
    "unhex_loop rest = Inr cs" "bs = (push_bit 4 hi OR lo) # cs"
    by (auto simp: bindE_eq_Inr)
  have small: "unat hi < 16" "unat lo < 16" "HEX ! unat hi = lower_u8 h" "HEX ! unat lo = lower_u8 l"
    using decode_nibble_small d(1,2) by blast+
  have "hex_loop cs = map lower_u8 rest" using 1 d by simp
  then show ?case
    using small by (simp add: d(4) split_nibbles del: drop_bit_or)
qed auto

lemma unhex_loop_ok_iff:
  "even (length s) \<Longrightarrow> (\<exists>bs. unhex_loop s = Inr bs) \<longleftrightarrow> (\<forall>b \<in> set s. hex_char b)"
proof (induction s rule: unhex_loop.induct)
  case (1 h l rest)
  then have IH: "(\<exists>bs. unhex_loop rest = Inr bs) \<longleftrightarrow> (\<forall>b \<in> set rest. hex_char b)" by simp
  show ?case
    using IH decode_nibble_ok_iff [of h] decode_nibble_ok_iff [of l]
    by (auto simp: bindE_eq_Inr)
qed auto

end
