(* ===== verification/Usecase_Graph.thy ===== *)
theory Usecase_Graph
  imports Meta_Sqlite Hex
begin

section \<open>Reading the commit graph\<close>

text \<open>
  \<open>crates/core/src/usecase/graph.rs\<close>: listing, parents, ancestors, history, statistics and the
  resolution of a commit reference. The two walks go level by level in ascending hash order; they
  end because a level that adds nothing to the visited set is followed by an empty one, and the
  ids are finitely many. In \<open>history_store\<close> the walks are shown to give the ancestors once
  each, by distance and then by hash.
\<close>

datatype 'e commit_error = CeMeta 'e | CeUnknownCommit commit_id

declare bindE_cong [fundef_cong]

definition list_commits :: "('m, 'e) meta_port \<Rightarrow> 'm \<Rightarrow> ('e commit_error, commit list) result" where
  "list_commits port m = map_err CeMeta (visit_all (mp_visit_commits port m))"

definition lookup_record :: "('m, 'e) meta_port \<Rightarrow> 'm \<Rightarrow> commit_id \<Rightarrow> ('e commit_error, commit) result" where
  "lookup_record port m i =
     bindE (map_err CeMeta (mp_lookup_commit port m i)) (\<lambda>x. ok_or (CeUnknownCommit i) x)"

definition commit_parents_uc ::
  "('m, 'e) meta_port \<Rightarrow> 'm \<Rightarrow> commit_id \<Rightarrow> ('e commit_error, commit_id list) result" where
  "commit_parents_uc port m i = bindE (lookup_record port m i) (\<lambda>r. Inr (c_parents r))"

subsection \<open>The ancestors of a commit\<close>

type_synonym walk_state = "commit_id set \<times> commit_id list \<times> commit_id set"

definition ancestors_visit ::
  "('m, 'e) meta_port \<Rightarrow> 'm \<Rightarrow> commit_id \<Rightarrow> walk_state \<Rightarrow> ('e commit_error, walk_state) result" where
  "ancestors_visit port m i st =
     (case st of (seen, order, nxt) \<Rightarrow>
        if i \<in> seen then Inr (seen, order, nxt)
        else
          let seen' = insert i seen in
          bindE (map_err CeMeta (mp_commit_parents port m i)) (\<lambda>ps.
            Inr (seen', order @ [i], nxt \<union> set (filter (\<lambda>p. p \<notin> seen') ps))))"

definition ancestors_level ::
  "('m, 'e) meta_port \<Rightarrow> 'm \<Rightarrow> commit_id set \<Rightarrow> commit_id set \<Rightarrow> commit_id list
     \<Rightarrow> ('e commit_error, walk_state) result" where
  "ancestors_level port m level seen order =
     foldE (ancestors_visit port m) (sorted_list_of_set level) (seen, order, {})"

text \<open>A level either adds to the visited set or leaves it and its successor empty.\<close>

lemma ancestors_visits_grow:
  assumes "foldE (ancestors_visit port m) is (seen, order, nxt) = Inr (seen', order', nxt')"
  shows "seen \<subseteq> seen' \<and> (seen' = seen \<longrightarrow> nxt' = nxt)"
  using assms
proof (induction "is" arbitrary: seen order nxt)
  case (Cons i rest)
  show ?case
  proof (cases "i \<in> seen")
    case True
    then show ?thesis using Cons.prems Cons.IH [of seen order nxt] by (simp add: ancestors_visit_def)
  next
    case False
    then have "ancestors_visit port m i (seen, order, nxt) =
        bindE (map_err CeMeta (mp_commit_parents port m i)) (\<lambda>ps.
          Inr (insert i seen, order @ [i], nxt \<union> set (filter (\<lambda>p. p \<notin> insert i seen) ps)))"
      by (simp add: ancestors_visit_def Let_def)
    then obtain ps where "foldE (ancestors_visit port m) rest
        (insert i seen, order @ [i], nxt \<union> set (filter (\<lambda>p. p \<notin> insert i seen) ps)) = Inr (seen', order', nxt')"
      using Cons.prems by (auto simp: bindE_eq_Inr simp del: set_filter)
    from Cons.IH [OF this] False show ?thesis by auto
  qed
qed simp

lemma level_decreases:
  fixes seen seen' :: "commit_id set"
  assumes "seen \<subseteq> seen'" "seen' = seen \<longrightarrow> nxt = {}" "level \<noteq> {}"
  shows "((card (UNIV - seen'), if nxt = {} then 0 else 1 :: nat), (card (UNIV - seen), if level = {} then 0 else 1))
    \<in> less_than <*lex*> less_than"
proof (cases "seen' = seen")
  case True
  then show ?thesis using assms by simp
next
  case False
  then have "UNIV - seen' \<subset> UNIV - seen" using assms(1) by auto
  then have "card (UNIV - seen') < card (UNIV - seen)" by (rule psubset_card_mono [rotated]) simp
  then show ?thesis by simp
qed

function ancestors_walk ::
  "('m, 'e) meta_port \<Rightarrow> 'm \<Rightarrow> commit_id set \<Rightarrow> commit_id set \<Rightarrow> commit_id list
     \<Rightarrow> ('e commit_error, commit_id list) result" where
  "ancestors_walk port m level seen order =
     (if level = {} then Inr order
      else bindE (ancestors_level port m level seen order)
             (\<lambda>st. ancestors_walk port m (snd (snd st)) (fst st) (fst (snd st))))"
  by pat_completeness auto
termination
proof (relation "inv_image (less_than <*lex*> less_than)
    (\<lambda>(port, m, level, seen, order). (card (UNIV - seen), if level = {} then 0 else 1))", goal_cases)
  case 1
  then show ?case by (intro wf_inv_image wf_lex_prod) simp_all
next
  case (2 port m level seen order st)
  obtain seen' order' nxt where st: "st = (seen', order', nxt)" by (metis prod.exhaust)
  then have "seen \<subseteq> seen' \<and> (seen' = seen \<longrightarrow> nxt = {})"
    using 2(2) ancestors_visits_grow by (fastforce simp: ancestors_level_def)
  then have "((card (UNIV - seen'), if nxt = {} then 0 else 1 :: nat), (card (UNIV - seen), if level = {} then 0 else 1))
      \<in> less_than <*lex*> less_than"
    using 2(1) by (intro level_decreases) simp_all
  then show ?case unfolding in_inv_image st by simp
qed

declare ancestors_walk.simps [simp del]

definition commit_ancestors ::
  "('m, 'e) meta_port \<Rightarrow> 'm \<Rightarrow> commit_id \<Rightarrow> ('e commit_error, commit_id list) result" where
  "commit_ancestors port m i =
     bindE (lookup_record port m i) (\<lambda>r. ancestors_walk port m (set (c_parents r)) {} [])"

subsection \<open>The history of a commit\<close>

type_synonym history_state = "commit_id set \<times> commit list \<times> commit_id set"

definition history_visit ::
  "('m, 'e) meta_port \<Rightarrow> 'm \<Rightarrow> commit_id \<Rightarrow> history_state \<Rightarrow> ('e commit_error, history_state) result" where
  "history_visit port m i st =
     (case st of (seen, out, nxt) \<Rightarrow>
        if i \<in> seen then Inr (seen, out, nxt)
        else
          let seen' = insert i seen in
          bindE (lookup_record port m i) (\<lambda>r.
            Inr (seen', out @ [r], nxt \<union> set (filter (\<lambda>p. p \<notin> seen') (c_parents r)))))"

definition history_level ::
  "('m, 'e) meta_port \<Rightarrow> 'm \<Rightarrow> commit_id set \<Rightarrow> commit_id set \<Rightarrow> commit list
     \<Rightarrow> ('e commit_error, history_state) result" where
  "history_level port m level seen out =
     foldE (history_visit port m) (sorted_list_of_set level) (seen, out, {})"

lemma history_visits_grow:
  assumes "foldE (history_visit port m) is (seen, out, nxt) = Inr (seen', out', nxt')"
  shows "seen \<subseteq> seen' \<and> (seen' = seen \<longrightarrow> nxt' = nxt)"
  using assms
proof (induction "is" arbitrary: seen out nxt)
  case (Cons i rest)
  show ?case
  proof (cases "i \<in> seen")
    case True
    then show ?thesis using Cons.prems Cons.IH [of seen out nxt] by (simp add: history_visit_def)
  next
    case False
    then have "history_visit port m i (seen, out, nxt) =
        bindE (lookup_record port m i) (\<lambda>r.
          Inr (insert i seen, out @ [r], nxt \<union> set (filter (\<lambda>p. p \<notin> insert i seen) (c_parents r))))"
      by (simp add: history_visit_def Let_def)
    then obtain r where "foldE (history_visit port m) rest
        (insert i seen, out @ [r], nxt \<union> set (filter (\<lambda>p. p \<notin> insert i seen) (c_parents r))) = Inr (seen', out', nxt')"
      using Cons.prems by (auto simp: bindE_eq_Inr simp del: set_filter)
    from Cons.IH [OF this] False show ?thesis by auto
  qed
qed simp

function history_walk ::
  "('m, 'e) meta_port \<Rightarrow> 'm \<Rightarrow> commit_id set \<Rightarrow> commit_id set \<Rightarrow> commit list
     \<Rightarrow> ('e commit_error, commit list) result" where
  "history_walk port m level seen out =
     (if level = {} then Inr out
      else bindE (history_level port m level seen out)
             (\<lambda>st. history_walk port m (snd (snd st)) (fst st) (fst (snd st))))"
  by pat_completeness auto
termination
proof (relation "inv_image (less_than <*lex*> less_than)
    (\<lambda>(port, m, level, seen, out). (card (UNIV - seen), if level = {} then 0 else 1))", goal_cases)
  case 1
  then show ?case by (intro wf_inv_image wf_lex_prod) simp_all
next
  case (2 port m level seen out st)
  obtain seen' out' nxt where st: "st = (seen', out', nxt)" by (metis prod.exhaust)
  then have "seen \<subseteq> seen' \<and> (seen' = seen \<longrightarrow> nxt = {})"
    using 2(2) history_visits_grow by (fastforce simp: history_level_def)
  then have "((card (UNIV - seen'), if nxt = {} then 0 else 1 :: nat), (card (UNIV - seen), if level = {} then 0 else 1))
      \<in> less_than <*lex*> less_than"
    using 2(1) by (intro level_decreases) simp_all
  then show ?case unfolding in_inv_image st by simp
qed

declare history_walk.simps [simp del]

definition commit_history ::
  "('m, 'e) meta_port \<Rightarrow> 'm \<Rightarrow> commit_id \<Rightarrow> ('e commit_error, commit list) result" where
  "commit_history port m i = history_walk port m {i} {} []"

subsection \<open>Statistics and references\<close>

record commit_stats_rec =
  cs_fresh_chunks :: usize
  cs_fresh_tombstones :: usize
  cs_new_blobs :: usize
  cs_effective_chunks :: usize

definition commit_stats ::
  "('m, 'e) meta_port \<Rightarrow> 'm \<Rightarrow> commit_id \<Rightarrow> ('e commit_error, commit_stats_rec) result" where
  "commit_stats port m i =
     bindE (map_err CeMeta (visit_each
        (\<lambda>(chunks, tombstones, blobs) e.
           case he_blob e of
             Some b \<Rightarrow> (chunks + 1, tombstones, insert b blobs)
           | None \<Rightarrow> (chunks, tombstones + 1, blobs))
        (mp_visit_fresh_rows port m i) (0 :: nat, 0 :: nat, {}))) (\<lambda>(chunks, tombstones, blobs).
     bindE (map_err CeMeta (visit_each
        (\<lambda>n e. if he_blob e \<noteq> None then n + 1 else n)
        (mp_visit_commit_chunks port m i) (0 :: nat))) (\<lambda>effective.
       Inr \<lparr>cs_fresh_chunks = chunks, cs_fresh_tombstones = tombstones, cs_new_blobs = card blobs,
            cs_effective_chunks = effective\<rparr>))"

definition latest_commit_id :: "('m, 'e) meta_port \<Rightarrow> 'm \<Rightarrow> ('e commit_error, commit_id option) result" where
  "latest_commit_id port m =
     bindE (map_err CeMeta (mp_latest_commit port m)) (\<lambda>c. Inr (map_option c_id c))"

datatype 'e resolve_error =
    ReMeta 'e
  | ReUnknownCommit commit_id
  | ReUnknownRef ref_name
  | ReUnbornRef ref_name
  | ReInvalidRef rstr

definition resolve_commit_ref ::
  "('m, 'e) meta_port \<Rightarrow> 'm \<Rightarrow> rstr \<Rightarrow> ('e resolve_error, commit_id) result" where
  "resolve_commit_ref port m s =
     (case commit_id_from_str s of
        Inr i \<Rightarrow>
          bindE (map_err ReMeta (mp_lookup_commit port m i)) (\<lambda>c.
            ok_or (ReUnknownCommit i) (map_option c_id c))
      | Inl _ \<Rightarrow>
          bindE (map_err (\<lambda>_. ReInvalidRef s) (ref_name_parse s)) (\<lambda>name.
          bindE (map_err ReMeta (mp_lookup_ref port m name)) (\<lambda>x.
            case x of
              None \<Rightarrow> Inl (ReUnknownRef name)
            | Some r \<Rightarrow> ok_or (ReUnbornRef name) (cr_commit r))))"

subsection \<open>Layers of a graph\<close>

text \<open>\<open>layer E L k\<close>: what is reached from \<open>L\<close> in \<open>k\<close> steps and in no fewer.\<close>

definition upto_steps :: "('a \<times> 'a) set \<Rightarrow> 'a set \<Rightarrow> nat \<Rightarrow> 'a set" where
  "upto_steps E L k = (\<Union>j < k. (E ^^ j) `` L)"

definition layer :: "('a \<times> 'a) set \<Rightarrow> 'a set \<Rightarrow> nat \<Rightarrow> 'a set" where
  "layer E L k = (E ^^ k) `` L - upto_steps E L k"

lemma upto_steps_0 [simp]: "upto_steps E L 0 = {}"
  by (simp add: upto_steps_def)

lemma layer_0 [simp]: "layer E L 0 = L"
  by (simp add: layer_def)

lemma upto_steps_Suc: "upto_steps E L (Suc k) = upto_steps E L k \<union> layer E L k"
proof -
  have "upto_steps E L (Suc k) = upto_steps E L k \<union> (E ^^ k) `` L"
    unfolding upto_steps_def lessThan_Suc by blast
  then show ?thesis by (auto simp: layer_def)
qed

lemma steps_Suc: "(E ^^ Suc k) `` L = E `` ((E ^^ k) `` L)"
  by auto

lemma upto_steps_step: "E `` upto_steps E L k \<subseteq> upto_steps E L (Suc k)"
proof
  fix z
  assume "z \<in> E `` upto_steps E L k"
  then obtain j y where "j < k" "y \<in> (E ^^ j) `` L" "(y, z) \<in> E" by (auto simp: upto_steps_def)
  then have "Suc j < Suc k" "z \<in> (E ^^ Suc j) `` L" by (auto simp only: steps_Suc Suc_less_eq)
  then show "z \<in> upto_steps E L (Suc k)" unfolding upto_steps_def by blast
qed

lemma layer_Suc: "layer E L (Suc k) = E `` layer E L k - upto_steps E L (Suc k)"
proof -
  have "E `` ((E ^^ k) `` L) \<subseteq> E `` layer E L k \<union> E `` upto_steps E L k"
    by (auto simp: layer_def)
  then have "E `` ((E ^^ k) `` L) - upto_steps E L (Suc k) = E `` layer E L k - upto_steps E L (Suc k)"
    using upto_steps_step [of E L k] by (auto simp: layer_def)
  then show ?thesis unfolding layer_def [of E L "Suc k"] steps_Suc .
qed

lemma layer_empty: "layer E L k = {} \<Longrightarrow> k \<le> n \<Longrightarrow> layer E L n = {}"
proof (induction n)
  case (Suc n)
  then show ?case
    by (cases "k = Suc n") (simp_all add: layer_Suc)
qed simp

lemma layers_disjoint: "j < k \<Longrightarrow> layer E L j \<inter> layer E L k = {}"
  by (auto simp: layer_def upto_steps_def)

lemma upto_steps_layers: "upto_steps E L k = (\<Union>j < k. layer E L j)"
  by (induction k) (auto simp: upto_steps_Suc lessThan_Suc)

lemma all_layers:
  assumes "layer E L n = {}"
  shows "(\<Union>k < n. layer E L k) = E\<^sup>* `` L"
proof
  show "(\<Union>k < n. layer E L k) \<subseteq> E\<^sup>* `` L"
    unfolding layer_def by (auto intro: relpow_imp_rtrancl)
  show "E\<^sup>* `` L \<subseteq> (\<Union>k < n. layer E L k)"
  proof
    fix z
    assume "z \<in> E\<^sup>* `` L"
    then obtain x k where "x \<in> L" "(x, z) \<in> E ^^ k" by (auto simp: rtrancl_power)
    then have "z \<in> upto_steps E L (Suc k)" by (auto simp: upto_steps_def)
    then obtain j where "z \<in> layer E L j" by (auto simp: upto_steps_layers)
    moreover from this have "j < n" using layer_empty [OF assms, of j] by (cases "n \<le> j") auto
    ultimately show "z \<in> (\<Union>k < n. layer E L k)" by blast
  qed
qed

definition layers_list :: "('a :: linorder \<times> 'a) set \<Rightarrow> 'a set \<Rightarrow> nat \<Rightarrow> 'a list" where
  "layers_list E L n = concat (map (\<lambda>k. sorted_list_of_set (layer E L k)) [0 ..< n])"

lemma layers_list_Suc: "layers_list E L (Suc n) = layers_list E L n @ sorted_list_of_set (layer E L n)"
  by (simp add: layers_list_def)

lemma set_layers_list: "set (layers_list E L n) = (\<Union>k < n. layer E L k)" for E :: "(commit_id \<times> commit_id) set"
  by (induction n) (auto simp: layers_list_Suc lessThan_Suc layers_list_def)

lemma distinct_layers_list: "distinct (layers_list E L n)" for E :: "(commit_id \<times> commit_id) set"
proof (induction n)
  case (Suc n)
  have "set (layers_list E L n) \<inter> layer E L n = {}"
    using layers_disjoint [of _ n E L] by (auto simp: set_layers_list)
  with Suc show ?case by (simp add: layers_list_Suc)
qed (simp add: layers_list_def)

subsection \<open>What the walks answer\<close>

text \<open>One invariant serves both walks.\<close>

definition walk_inv ::
  "(commit_id \<times> commit_id) set \<Rightarrow> commit_id set \<Rightarrow> nat \<Rightarrow> commit_id set \<Rightarrow> commit_id set \<Rightarrow> commit_id list \<Rightarrow> bool"
  where
  "walk_inv E L k level seen order \<longleftrightarrow>
     seen = upto_steps E L k \<and> layer E L k \<subseteq> level \<and> level \<subseteq> upto_steps E L (Suc k)
     \<and> order = layers_list E L k"

lemma filter_sorted_list_of_set:
  "filter P (sorted_list_of_set A) = sorted_list_of_set {a \<in> A. P a}" for A :: "commit_id set"
  by (rule sorted_distinct_set_unique) (simp_all add: sorted_wrt_filter)

lemma walk_inv_step:
  assumes inv: "walk_inv E L k level seen order"
    and nxt: "E `` (level - seen) - (seen \<union> level) \<subseteq> nxt" "nxt \<subseteq> E `` (level - seen)"
  shows "walk_inv E L (Suc k) nxt (seen \<union> level) (order @ filter (\<lambda>i. i \<notin> seen) (sorted_list_of_set level))"
proof -
  have seen: "seen = upto_steps E L k" and lev: "layer E L k \<subseteq> level" "level \<subseteq> upto_steps E L (Suc k)"
    using inv by (auto simp: walk_inv_def)
  have disj: "layer E L k \<inter> upto_steps E L k = {}" by (auto simp: layer_def)
  then have new: "level - seen = layer E L k" using seen lev by (auto simp: upto_steps_Suc)
  then have "{a \<in> level. a \<notin> seen} = layer E L k" by auto
  then have list: "filter (\<lambda>i. i \<notin> seen) (sorted_list_of_set level) = sorted_list_of_set (layer E L k)"
    by (simp add: filter_sorted_list_of_set)
  have un: "seen \<union> level = upto_steps E L (Suc k)" using seen lev by (auto simp: upto_steps_Suc)
  have "layer E L (Suc k) \<subseteq> nxt" using nxt(1) unfolding new un layer_Suc .
  moreover have "nxt \<subseteq> upto_steps E L (Suc (Suc k))"
    using nxt(2) upto_steps_step [of E L "Suc k"] unfolding new by (auto simp: upto_steps_Suc)
  ultimately show ?thesis
    using inv un list by (simp add: walk_inv_def layers_list_Suc)
qed

context history_store
begin

lemma ancestors_level_spec:
  assumes m: "valid m" and "distinct is"
  shows "\<exists>nxt'. foldE (ancestors_visit port m) is (seen, order, nxt)
      = Inr (seen \<union> set is, order @ filter (\<lambda>i. i \<notin> seen) is, nxt \<union> nxt')
    \<and> graph m `` (set is - seen) - (seen \<union> set is) \<subseteq> nxt' \<and> nxt' \<subseteq> graph m `` (set is - seen)"
  using assms(2)
proof (induction "is" arbitrary: seen order nxt)
  case Nil
  then show ?case by auto
next
  case (Cons i rest)
  show ?case
  proof (cases "i \<in> seen")
    case True
    then have "ancestors_visit port m i (seen, order, nxt) = Inr (seen, order, nxt)"
      by (simp add: ancestors_visit_def)
    moreover have "seen \<union> set (i # rest) = seen \<union> set rest" "set (i # rest) - seen = set rest - seen"
      using True by auto
    ultimately show ?thesis using Cons True by (simp del: set_simps)
  next
    case False
    obtain ps where ps: "mp_commit_parents port m i = Inr ps" "set ps = {p. (i, p) \<in> graph m}"
      using parents_answer [OF m] by blast
    let ?new = "set (filter (\<lambda>p. p \<notin> insert i seen) ps)"
    have visit: "ancestors_visit port m i (seen, order, nxt) = Inr (insert i seen, order @ [i], nxt \<union> ?new)"
      using False ps(1) by (simp add: ancestors_visit_def Let_def)
    obtain nxt' where n: "foldE (ancestors_visit port m) rest (insert i seen, order @ [i], nxt \<union> ?new)
        = Inr (insert i seen \<union> set rest, (order @ [i]) @ filter (\<lambda>j. j \<notin> insert i seen) rest, (nxt \<union> ?new) \<union> nxt')"
      "graph m `` (set rest - insert i seen) - (insert i seen \<union> set rest) \<subseteq> nxt'"
      "nxt' \<subseteq> graph m `` (set rest - insert i seen)"
      using Cons.IH [of "insert i seen" "order @ [i]" "nxt \<union> ?new"] Cons.prems by auto
    have "filter (\<lambda>j. j \<notin> insert i seen) rest = filter (\<lambda>j. j \<notin> seen) rest"
      using Cons.prems by (intro filter_cong) auto
    then have "foldE (ancestors_visit port m) (i # rest) (seen, order, nxt)
        = Inr (seen \<union> set (i # rest), order @ filter (\<lambda>j. j \<notin> seen) (i # rest), nxt \<union> (?new \<union> nxt'))"
      using visit n(1) False by (simp add: Un_ac)
    moreover have "graph m `` (set (i # rest) - seen) - (seen \<union> set (i # rest)) \<subseteq> ?new \<union> nxt'"
      using n(2) ps(2) False Cons.prems by auto
    moreover have "?new \<union> nxt' \<subseteq> graph m `` (set (i # rest) - seen)"
      using n(3) ps(2) False by auto
    ultimately show ?thesis by blast
  qed
qed

lemma ancestors_walk_spec:
  assumes "valid m" and "walk_inv (graph m) L k level seen order" and "port' = port"
  shows "\<exists>n. ancestors_walk port' m level seen order = Inr (layers_list (graph m) L n) \<and> layer (graph m) L n = {}"
  using assms
proof (induction port' m level seen order arbitrary: k rule: ancestors_walk.induct)
  case (1 port' m level seen order)
  note m = "1.prems"(1) and inv = "1.prems"(2) and [simp] = "1.prems"(3)
  show ?case
  proof (cases "level = {}")
    case True
    then have "order = layers_list (graph m) L k" "layer (graph m) L k = {}"
      using inv by (auto simp: walk_inv_def)
    then show ?thesis using True by (subst ancestors_walk.simps) auto
  next
    case False
    obtain nxt where lev: "ancestors_level port m level seen order
        = Inr (seen \<union> level, order @ filter (\<lambda>i. i \<notin> seen) (sorted_list_of_set level), nxt)"
      and nxt: "graph m `` (level - seen) - (seen \<union> level) \<subseteq> nxt" "nxt \<subseteq> graph m `` (level - seen)"
      using ancestors_level_spec [OF m, of "sorted_list_of_set level" seen order "{}"]
      by (auto simp: ancestors_level_def)
    have "walk_inv (graph m) L (Suc k) nxt (seen \<union> level)
        (order @ filter (\<lambda>i. i \<notin> seen) (sorted_list_of_set level))"
      by (rule walk_inv_step [OF inv nxt])
    then obtain n where "ancestors_walk port m nxt (seen \<union> level)
          (order @ filter (\<lambda>i. i \<notin> seen) (sorted_list_of_set level)) = Inr (layers_list (graph m) L n)"
      "layer (graph m) L n = {}"
      using "1.IH" [OF False, of "(seen \<union> level, order @ filter (\<lambda>i. i \<notin> seen) (sorted_list_of_set level), nxt)" "Suc k"]
        lev m by auto
    then show ?thesis using False lev by (subst ancestors_walk.simps) auto
  qed
qed

lemma commit_ancestors_spec:
  assumes m: "valid m" and r: "find_record (commits m) i = Some r"
  shows "\<exists>n. commit_ancestors port m i = Inr (layers_list (graph m) {p. (i, p) \<in> graph m} n)
    \<and> layer (graph m) {p. (i, p) \<in> graph m} n = {}"
proof -
  let ?L = "{p. (i, p) \<in> graph m}"
  have ps: "set (c_parents r) = ?L" using graph_edge [OF m r] by blast
  have "walk_inv (graph m) ?L 0 ?L {} []"
    by (simp add: walk_inv_def upto_steps_Suc layers_list_def)
  then show ?thesis
    using ancestors_walk_spec [OF m _ refl, of ?L 0 ?L "{}" "[]"] r ps
    by (simp add: commit_ancestors_def lookup_record_def lookup_commit [OF m])
qed

lemma commit_ancestors_unknown:
  "valid m \<Longrightarrow> find_record (commits m) i = None \<Longrightarrow> commit_ancestors port m i = Inl (CeUnknownCommit i)"
  by (simp add: commit_ancestors_def lookup_record_def lookup_commit)

lemma history_level_spec:
  assumes m: "valid m" and "distinct is" "set is \<subseteq> set (ids_of (commits m))"
  shows "\<exists>nxt' rs. foldE (history_visit port m) is (seen, out, nxt) = Inr (seen \<union> set is, out @ rs, nxt \<union> nxt')
    \<and> ids_of rs = filter (\<lambda>i. i \<notin> seen) is \<and> set rs \<subseteq> set (commits m)
    \<and> graph m `` (set is - seen) - (seen \<union> set is) \<subseteq> nxt' \<and> nxt' \<subseteq> graph m `` (set is - seen)"
  using assms(2,3)
proof (induction "is" arbitrary: seen out nxt)
  case Nil
  then show ?case by (auto simp: ids_of_def)
next
  case (Cons i rest)
  show ?case
  proof (cases "i \<in> seen")
    case True
    then have "history_visit port m i (seen, out, nxt) = Inr (seen, out, nxt)"
      by (simp add: history_visit_def)
    moreover have "seen \<union> set (i # rest) = seen \<union> set rest" "set (i # rest) - seen = set rest - seen"
      using True by auto
    moreover have "set rest \<subseteq> set (ids_of (commits m))" using Cons.prems(2) by auto
    ultimately show ?thesis using Cons True by (simp del: set_simps)
  next
    case False
    obtain r where r: "find_record (commits m) i = Some r"
      using Cons.prems(2) find_record_None [of "commits m" i] by fastforce
    have rr: "r \<in> set (commits m)" "c_id r = i" using r find_record_Some [OF distinct_commits [OF m]] by auto
    have ps: "set (c_parents r) = {p. (i, p) \<in> graph m}" using graph_edge [OF m r] by blast
    let ?new = "set (filter (\<lambda>p. p \<notin> insert i seen) (c_parents r))"
    have visit: "history_visit port m i (seen, out, nxt) = Inr (insert i seen, out @ [r], nxt \<union> ?new)"
      using False r by (simp add: history_visit_def Let_def lookup_record_def lookup_commit [OF m])
    obtain nxt' rs where n: "foldE (history_visit port m) rest (insert i seen, out @ [r], nxt \<union> ?new)
        = Inr (insert i seen \<union> set rest, (out @ [r]) @ rs, (nxt \<union> ?new) \<union> nxt')"
      "ids_of rs = filter (\<lambda>j. j \<notin> insert i seen) rest" "set rs \<subseteq> set (commits m)"
      "graph m `` (set rest - insert i seen) - (insert i seen \<union> set rest) \<subseteq> nxt'"
      "nxt' \<subseteq> graph m `` (set rest - insert i seen)"
      using Cons.IH [of "insert i seen" "out @ [r]" "nxt \<union> ?new"] Cons.prems by auto
    have "filter (\<lambda>j. j \<notin> insert i seen) rest = filter (\<lambda>j. j \<notin> seen) rest"
      using Cons.prems by (intro filter_cong) auto
    then have "ids_of (r # rs) = filter (\<lambda>j. j \<notin> seen) (i # rest)"
      using n(2) rr(2) False by (simp add: ids_of_def)
    moreover have "foldE (history_visit port m) (i # rest) (seen, out, nxt)
        = Inr (seen \<union> set (i # rest), out @ (r # rs), nxt \<union> (?new \<union> nxt'))"
      using visit n(1) by (simp add: Un_ac)
    moreover have "graph m `` (set (i # rest) - seen) - (seen \<union> set (i # rest)) \<subseteq> ?new \<union> nxt'"
      using n(4) ps False Cons.prems by auto
    moreover have "?new \<union> nxt' \<subseteq> graph m `` (set (i # rest) - seen)"
      using n(5) ps False by auto
    moreover have "set (r # rs) \<subseteq> set (commits m)" using n(3) rr(1) by simp
    ultimately show ?thesis by blast
  qed
qed

lemma history_walk_spec:
  assumes "valid m" and "walk_inv (graph m) L k level seen (ids_of out)" and "port' = port"
    and "level \<subseteq> set (ids_of (commits m))" and "set out \<subseteq> set (commits m)"
  shows "\<exists>n rs. history_walk port' m level seen out = Inr rs \<and> ids_of rs = layers_list (graph m) L n
    \<and> layer (graph m) L n = {} \<and> set rs \<subseteq> set (commits m)"
  using assms
proof (induction port' m level seen out arbitrary: k rule: history_walk.induct)
  case (1 port' m level seen out)
  note m = "1.prems"(1) and inv = "1.prems"(2) and [simp] = "1.prems"(3)
  show ?case
  proof (cases "level = {}")
    case True
    then have "ids_of out = layers_list (graph m) L k" "layer (graph m) L k = {}"
      using inv by (auto simp: walk_inv_def)
    then show ?thesis using True "1.prems"(5) by (subst history_walk.simps) auto
  next
    case False
    obtain nxt rs where lev: "history_level port m level seen out = Inr (seen \<union> level, out @ rs, nxt)"
      and rs: "ids_of rs = filter (\<lambda>i. i \<notin> seen) (sorted_list_of_set level)" "set rs \<subseteq> set (commits m)"
      and nxt: "graph m `` (level - seen) - (seen \<union> level) \<subseteq> nxt" "nxt \<subseteq> graph m `` (level - seen)"
      using history_level_spec [OF m, of "sorted_list_of_set level" seen out "{}"] "1.prems"(4)
      by (auto simp: history_level_def)
    have "walk_inv (graph m) L (Suc k) nxt (seen \<union> level) (ids_of (out @ rs))"
      using walk_inv_step [OF inv nxt] rs(1) by (simp add: ids_of_def)
    moreover have "nxt \<subseteq> set (ids_of (commits m))" using nxt(2) graph_ids [OF m] by blast
    ultimately obtain n us where "history_walk port m nxt (seen \<union> level) (out @ rs) = Inr us"
      "ids_of us = layers_list (graph m) L n" "layer (graph m) L n = {}" "set us \<subseteq> set (commits m)"
      using "1.IH" [OF False, of "(seen \<union> level, out @ rs, nxt)" "Suc k"] lev m rs(2) "1.prems"(5) by auto
    then show ?thesis using False lev by (subst history_walk.simps) auto
  qed
qed

lemma commit_history_spec:
  assumes m: "valid m" and i: "i \<in> set (ids_of (commits m))"
  shows "\<exists>n rs. commit_history port m i = Inr rs \<and> ids_of rs = layers_list (graph m) {i} n
    \<and> layer (graph m) {i} n = {} \<and> set rs \<subseteq> set (commits m)"
proof -
  have "walk_inv (graph m) {i} 0 {i} {} (ids_of [])"
    by (simp add: walk_inv_def upto_steps_Suc layers_list_def ids_of_def)
  then show ?thesis
    using history_walk_spec [OF m _ refl, of "{i}" 0 "{i}" "{}" "[]"] i by (simp add: commit_history_def)
qed

end

end
