(* ===== verification/Usecase_Commit.thy ===== *)
theory Usecase_Commit
  imports Usecase_Prune Meta_Apply Usecase_Graph
begin

section \<open>Committing and checking out\<close>

text \<open>
  \<open>crates/core/src/usecase/commit.rs\<close>, \<open>checkout.rs\<close>, \<open>refs.rs\<close> and \<open>scopes.rs\<close>. A commit reads the
  base state, drops the ingested rows that did not change, adds a tombstone for every chunk of the
  scope that vanished and records the delta; a checkout groups the effective rows by region. The
  theorems say which state the recorded commit has, and that checking it out gives the world that
  was committed.
\<close>

record commit_report =
  rep_commit :: commit_id
  rep_chunks :: usize
  rep_new_blobs :: usize
  rep_tombstones :: usize

record previous =
  pv_commit :: "commit option"
  pv_state :: "(chunk_coord, history_entry) omap"

record commit_plan =
  cp_ingest :: "region_key list"
  cp_removed :: "region_key list"
  cp_discovered :: "region_key set"

record assembled =
  as_entries :: "commit_entry list"
  as_chunks :: usize
  as_new_blobs :: usize
  as_tombstones :: usize
  as_new_files :: usize
  as_removed :: "region_key list"

record ingested =
  in_entries :: "commit_entry list"
  in_present :: "chunk_coord set"
  in_new_blobs :: usize

definition plan_commit ::
  "('m, 'e) meta_port \<Rightarrow> 'm \<Rightarrow> region_key list \<Rightarrow> scope \<Rightarrow> ('e, previous \<times> commit_plan) result" where
  "plan_commit port m discovered sc =
     bindE (mp_active_ref port m) (\<lambda>active.
     bindE (case Option.bind active cr_commit of
              Some i \<Rightarrow> mp_lookup_commit port m i
            | None \<Rightarrow> Inr None) (\<lambda>base.
     bindE (case base of
              None \<Rightarrow> Inr []
            | Some b \<Rightarrow>
                visit_each (\<lambda>st e. if he_blob e \<noteq> None then om_put (he_coord e) e st else st)
                  (mp_visit_commit_chunks port m (c_id b)) []) (\<lambda>state.
       let found = filter (\<lambda>k. scope_matches_region sc k) discovered;
           gone = filter (\<lambda>k. scope_matches_region sc k \<and> k \<notin> set found)
                    (map (\<lambda>e. region_key_of (fst e)) state)
       in Inr (\<lparr>pv_commit = base, pv_state = state\<rparr>,
               \<lparr>cp_ingest = found, cp_removed = sorted_list_of_set (set gone), cp_discovered = set found\<rparr>))))"

definition stage_present :: "chunk_coord \<Rightarrow> chunk_hash \<Rightarrow> commit_entry" where
  "stage_present c h = CommitEntry c (Some h)"

definition assemble :: "commit_plan \<Rightarrow> previous \<Rightarrow> ingested \<Rightarrow> scope \<Rightarrow> assembled" where
  "assemble plan prev ing sc =
     (let fresh = filter (\<lambda>e. case om_get (entry_coord e) (pv_state prev) of
                                None \<Rightarrow> True | Some base \<Rightarrow> he_blob base \<noteq> entry_blob e)
                    (in_entries ing);
          new_files = set (map (\<lambda>e. region_key_of (entry_coord e))
                        (filter (\<lambda>e. entry_blob e \<noteq> None \<and> om_get (entry_coord e) (pv_state prev) = None) fresh));
          gone = filter (\<lambda>c. scope_contains sc c \<and> c \<notin> in_present ing) (map fst (pv_state prev))
      in \<lparr>as_entries = fresh @ map (\<lambda>c. CommitEntry c None) gone,
          as_chunks = card (in_present ing),
          as_new_blobs = in_new_blobs ing,
          as_tombstones = length gone,
          as_new_files = card new_files,
          as_removed = cp_removed plan\<rparr>)"

definition record_commit ::
  "('m, 'e) meta_port \<Rightarrow> previous \<Rightarrow> assembled \<Rightarrow> u64 \<Rightarrow> 'm \<Rightarrow> ('e, commit_report \<times> 'm) result" where
  "record_commit port prev staged t m =
     (let parents = (case pv_commit prev of None \<Rightarrow> [] | Some c \<Rightarrow> [c_id c]) in
      bindE (mp_apply_commit_incremental port t parents (as_entries staged) m) (\<lambda>(out, m').
        Inr (\<lparr>rep_commit = ao_id out, rep_chunks = as_chunks staged,
              rep_new_blobs = as_new_blobs staged, rep_tombstones = as_tombstones staged\<rparr>, m')))"

subsection \<open>Checkout\<close>

record checkout_plan =
  co_created_at_ms :: u64
  co_groups :: "(region_key, (chunk_coord \<times> chunk_hash) list) omap"
  co_tombstones :: "(region_key, chunk_coord list) omap"

datatype 'e checkout_error = CoMeta 'e | CoUnknownCommit commit_id

definition push_group :: "region_key \<Rightarrow> 'a \<Rightarrow> (region_key, 'a list) omap \<Rightarrow> (region_key, 'a list) omap" where
  "push_group k a groups = om_upd k (\<lambda>v. (case v of None \<Rightarrow> [] | Some xs \<Rightarrow> xs) @ [a]) groups"

definition plan_checkout ::
  "('m, 'e) meta_port \<Rightarrow> 'm \<Rightarrow> commit_id \<Rightarrow> ('e checkout_error, checkout_plan) result" where
  "plan_checkout port m i =
     bindE (map_err CoMeta (mp_lookup_commit port m i)) (\<lambda>c.
     bindE (ok_or (CoUnknownCommit i) (map_option c_created_at_ms c)) (\<lambda>t.
     bindE (map_err CoMeta (visit_each
        (\<lambda>(groups, tombs) e.
           case he_blob e of
             Some b \<Rightarrow> (push_group (region_key_of (he_coord e)) (he_coord e, b) groups, tombs)
           | None \<Rightarrow> (groups, push_group (region_key_of (he_coord e)) (he_coord e) tombs))
        (mp_visit_commit_chunks port m i) ([], []))) (\<lambda>(groups, tombs).
       Inr \<lparr>co_created_at_ms = t, co_groups = groups, co_tombstones = tombs\<rparr>)))"

subsection \<open>Listings\<close>

definition list_refs :: "('m, 'e) meta_port \<Rightarrow> 'm \<Rightarrow> ('e commit_error, commit_ref list) result" where
  "list_refs port m = map_err CeMeta (visit_all (mp_visit_refs port m))"

definition active_ref_uc :: "('m, 'e) meta_port \<Rightarrow> 'm \<Rightarrow> ('e commit_error, commit_ref option) result" where
  "active_ref_uc port m = map_err CeMeta (mp_active_ref port m)"

definition list_scopes :: "('m, 'e) meta_port \<Rightarrow> 'm \<Rightarrow> ('e, named_scope list) result" where
  "list_scopes port m = visit_all (mp_visit_scopes port m)"

subsection \<open>What a plan holds\<close>

text \<open>The present chunks of a state, and what a commit of a scan over a scope makes of a base.\<close>

definition present_at :: "(chunk_coord \<Rightarrow> chunk_hash option option) \<Rightarrow> chunk_coord \<Rightarrow> chunk_hash option" where
  "present_at st c = (case st c of Some (Some b) \<Rightarrow> Some b | _ \<Rightarrow> None)"

definition commit_result ::
  "(chunk_coord \<Rightarrow> chunk_hash option option) \<Rightarrow> (chunk_coord \<Rightarrow> chunk_hash option) \<Rightarrow> scope
     \<Rightarrow> chunk_coord \<Rightarrow> chunk_hash option option" where
  "commit_result base scan sc c =
     (case scan c of
        Some h \<Rightarrow> Some (Some h)
      | None \<Rightarrow> if scope_contains sc c \<and> present_at base c \<noteq> None then Some None else base c)"

text \<open>What the adapter hands over: one row per chunk read, and the coordinates of those rows.\<close>

definition scanned :: "ingested \<Rightarrow> (chunk_coord \<times> chunk_hash) list \<Rightarrow> bool" where
  "scanned ing kvs \<longleftrightarrow>
     distinct (map fst kvs) \<and> in_entries ing = map (\<lambda>(c, h). stage_present c h) kvs
     \<and> in_present ing = set (map fst kvs)"

definition state_rows :: "history_entry list \<Rightarrow> (chunk_coord, history_entry) omap" where
  "state_rows es = foldl (\<lambda>st e. if he_blob e \<noteq> None then om_put (he_coord e) e st else st) [] es"

lemma om_ok_state_rows: "om_ok (state_rows es)"
proof -
  have "om_ok st \<Longrightarrow> om_ok (foldl (\<lambda>st e. if he_blob e \<noteq> None then om_put (he_coord e) e st else st) st es)" for st
    by (induction es arbitrary: st) (simp_all add: om_ok_put)
  then show ?thesis by (simp add: state_rows_def)
qed

lemma state_rows_get:
  assumes "sorted_wrt (<) (map he_coord es)"
  shows "map_option he_blob (om_get c (state_rows es))
    = (case map_option he_blob (find (\<lambda>e. he_coord e = c) es) of Some (Some b) \<Rightarrow> Some (Some b) | _ \<Rightarrow> None)"
  using assms
proof (induction es rule: rev_induct)
  case Nil
  show ?case by (simp add: state_rows_def)
next
  case (snoc e es)
  have step: "state_rows (es @ [e]) = (if he_blob e \<noteq> None then om_put (he_coord e) e (state_rows es) else state_rows es)"
    by (simp add: state_rows_def)
  have fresh: "he_coord d \<noteq> he_coord e" if "d \<in> set es" for d
    using snoc.prems that by (force simp: sorted_wrt_append)
  have IH: "map_option he_blob (om_get c (state_rows es))
    = (case map_option he_blob (find (\<lambda>e. he_coord e = c) es) of Some (Some b) \<Rightarrow> Some (Some b) | _ \<Rightarrow> None)"
    using snoc by (simp add: sorted_wrt_append)
  show ?case
  proof (cases "he_coord e = c")
    case True
    then have none: "find (\<lambda>e. he_coord e = c) es = None" using fresh by (auto simp: find_None_iff)
    then show ?thesis
      using IH True om_ok_state_rows [of es]
      by (cases "he_blob e") (auto simp: step om_get_put find_append_cases)
  next
    case False
    then show ?thesis
      using IH om_ok_state_rows [of es] by (auto simp: step om_get_put find_append_cases split: option.split)
  qed
qed

lemma om_keys_get: "om_ok st \<Longrightarrow> c \<in> set (map fst st) \<longleftrightarrow> om_get c st \<noteq> None"
  by (force simp: om_get_def map_of_eq_None_iff)

text \<open>The delta over a base state, whatever store the base came from.\<close>

lemma assemble_delta:
  assumes ok: "om_ok (pv_state prev)"
    and base: "\<And>c. map_option he_blob (om_get c (pv_state prev)) = map_option Some (present_at base c)"
    and scan: "scanned ing kvs"
  shows "distinct (map entry_coord (as_entries (assemble plan prev ing sc)))
    \<and> over (as_entries (assemble plan prev ing sc)) base = commit_result base (map_of kvs) sc"
proof -
  let ?st = "pv_state prev"
  let ?new = "\<lambda>e. case om_get (entry_coord e) ?st of None \<Rightarrow> True | Some b \<Rightarrow> he_blob b \<noteq> entry_blob e"
  let ?rows = "map (\<lambda>(c, h). stage_present c h) kvs"
  let ?fresh = "filter ?new ?rows"
  let ?gone = "filter (\<lambda>c. scope_contains sc c \<and> c \<notin> set (map fst kvs)) (map fst ?st)"
  have es: "as_entries (assemble plan prev ing sc) = ?fresh @ map (\<lambda>c. CommitEntry c None) ?gone"
    using scan by (simp add: assemble_def Let_def scanned_def)
  have kd: "distinct (map fst kvs)" using scan by (simp add: scanned_def)
  have coords: "map entry_coord ?rows = map fst kvs"
    by (simp add: stage_present_def comp_def case_prod_unfold)
  have get: "om_get c ?st = None \<longleftrightarrow> present_at base c = None" for c
    using base [of c] by (cases "om_get c ?st"; cases "present_at base c") auto
  have sd: "distinct (map fst ?st)" using ok by (simp add: om_ok_def strict_sorted_iff)
  have "distinct (map entry_coord ?rows)" unfolding coords by (rule kd)
  then have fd: "distinct (map entry_coord ?fresh)" by (rule distinct_map_filter)
  have sub: "set (map entry_coord ?fresh) \<subseteq> set (map fst kvs)" using coords by (metis (no_types, lifting) filter_is_subset image_mono set_map)
  then have disj: "set (map entry_coord ?fresh) \<inter> set ?gone = {}" by auto
  have dist: "distinct (map entry_coord (?fresh @ map (\<lambda>c. CommitEntry c None) ?gone))"
    using fd sd disj by (simp add: comp_def)
  have "over (?fresh @ map (\<lambda>c. CommitEntry c None) ?gone) base c = commit_result base (map_of kvs) sc c" for c
  proof (cases "map_of kvs c")
    case (Some h)
    then have mem: "(c, h) \<in> set kvs" by (rule map_of_SomeD)
    then have row: "stage_present c h \<in> set ?rows" by force
    have "c \<notin> set ?gone" using mem by force
    then have ng: "find (\<lambda>e. entry_coord e = c) (map (\<lambda>c. CommitEntry c None) ?gone) = None"
      by (auto simp: find_None_iff)
    have only: "e = stage_present c h" if e: "e \<in> set ?rows" "entry_coord e = c" for e
    proof -
      obtain d g where d: "(d, g) \<in> set kvs" "e = stage_present d g" using e(1) by auto
      then have "d = c" using e(2) by (simp add: stage_present_def)
      then have "map_of kvs c = Some g" using d(1) kd by simp
      then show ?thesis using Some d(2) \<open>d = c\<close> by simp
    qed
    show ?thesis
    proof (cases "?new (stage_present c h)")
      case True
      then have "stage_present c h \<in> set ?fresh" using row by auto
      moreover have "entry_coord (stage_present c h) = c" by (simp add: stage_present_def)
      ultimately have "find (\<lambda>e. entry_coord e = c) ?fresh \<noteq> None" unfolding find_None_iff by blast
      then obtain e where "find (\<lambda>e. entry_coord e = c) ?fresh = Some e" by blast
      moreover from this have "e = stage_present c h" using only find_Some_mem [of "\<lambda>e. entry_coord e = c" ?fresh e] by auto
      ultimately show ?thesis
        using Some by (simp add: over_def entry_map_def find_append_cases stage_present_def commit_result_def)
    next
      case False
      have "\<not> (\<exists>e. e \<in> set ?fresh \<and> entry_coord e = c)"
      proof
        assume "\<exists>e. e \<in> set ?fresh \<and> entry_coord e = c"
        then obtain e where e: "e \<in> set ?rows" "?new e" "entry_coord e = c" by auto
        have "e = stage_present c h" by (rule only [OF e(1,3)])
        with e(2) False show False by blast
      qed
      then have "find (\<lambda>e. entry_coord e = c) ?fresh = None" unfolding find_None_iff by blast
      moreover obtain b where "om_get c ?st = Some b" "he_blob b = Some h"
        using False by (auto simp: stage_present_def split: option.splits)
      then have "base c = Some (Some h)"
        using base [of c] by (auto simp: present_at_def split: option.splits)
      ultimately show ?thesis
        using Some ng by (simp add: over_def entry_map_def find_append_cases commit_result_def)
    qed
  next
    case None
    then have nk: "c \<notin> set (map fst kvs)" by (simp add: map_of_eq_None_iff)
    then have "c \<notin> entry_coord ` set ?fresh" using sub by auto
    then have nf: "find (\<lambda>e. entry_coord e = c) ?fresh = None" unfolding find_None_iff by blast
    have gone: "c \<in> set ?gone \<longleftrightarrow> scope_contains sc c \<and> present_at base c \<noteq> None"
      using nk get om_keys_get [OF ok, of c] by auto
    have "find (\<lambda>e. entry_coord e = c) (map (\<lambda>c. CommitEntry c None) xs)
        = (if c \<in> set xs then Some (CommitEntry c None) else None)" for xs
      by (induction xs) auto
    then have "find (\<lambda>e. entry_coord e = c) (?fresh @ map (\<lambda>c. CommitEntry c None) ?gone)
        = (if scope_contains sc c \<and> present_at base c \<noteq> None then Some (CommitEntry c None) else None)"
      unfolding find_append_cases nf gone [symmetric] by simp
    then show ?thesis
      unfolding over_def entry_map_def commit_result_def None by (cases "present_at base c") simp_all
  qed
  then show ?thesis using dist es by (simp add: fun_eq_iff)
qed

text \<open>A scan that found exactly what the base has writes no row.\<close>

lemma assemble_unchanged:
  assumes ok: "om_ok (pv_state prev)"
    and base: "\<And>c. map_option he_blob (om_get c (pv_state prev)) = map_option Some (present_at base c)"
    and scan: "scanned ing kvs"
    and same: "\<And>c. map_of kvs c = (if scope_contains sc c then present_at base c else None)"
  shows "as_entries (assemble plan prev ing sc) = []"
proof -
  have kd: "distinct (map fst kvs)" using scan by (simp add: scanned_def)
  have "\<not> (case om_get (entry_coord e) (pv_state prev) of None \<Rightarrow> True | Some b \<Rightarrow> he_blob b \<noteq> entry_blob e)"
    if e_in: "e \<in> set (in_entries ing)" for e
  proof -
    have "in_entries ing = map (\<lambda>(c, h). stage_present c h) kvs" using scan by (simp add: scanned_def)
    then obtain c h where e: "(c, h) \<in> set kvs" "e = stage_present c h" using e_in by auto
    have "map_of kvs c = Some h" using e kd by simp
    then have "present_at base c = Some h" using same [of c] by (simp split: if_splits)
    then obtain b where "om_get c (pv_state prev) = Some b" "he_blob b = Some h" using base [of c] by auto
    then show ?thesis by (simp add: e stage_present_def)
  qed
  then have "filter (\<lambda>e. case om_get (entry_coord e) (pv_state prev) of None \<Rightarrow> True
      | Some b \<Rightarrow> he_blob b \<noteq> entry_blob e) (in_entries ing) = []"
    by (simp only: filter_empty_conv) blast
  moreover have "c \<in> in_present ing" if "c \<in> set (map fst (pv_state prev))" "scope_contains sc c" for c
  proof -
    have "present_at base c \<noteq> None"
      using that(1) om_keys_get [OF ok, of c] base [of c] by (cases "present_at base c") auto
    then have "map_of kvs c \<noteq> None" using same [of c] that(2) by simp
    then show ?thesis using scan by (auto simp: scanned_def map_of_eq_None_iff)
  qed
  then have "filter (\<lambda>c. scope_contains sc c \<and> c \<notin> in_present ing) (map fst (pv_state prev)) = []"
    by (auto simp: filter_empty_conv)
  ultimately show ?thesis by (simp add: assemble_def Let_def)
qed

subsection \<open>Planning, committing and checking out over a store\<close>

definition grouped :: "(region_key, 'a list) omap \<Rightarrow> ('a \<Rightarrow> region_key) \<Rightarrow> 'a list \<Rightarrow> bool" where
  "grouped g key xs \<longleftrightarrow>
     om_ok g \<and> (\<forall>k. om_get k g = (let ys = filter (\<lambda>x. key x = k) xs in if ys = [] then None else Some ys))"

lemma grouped_Nil [simp]: "grouped [] key []"
  by (simp add: grouped_def)

lemma grouped_push: "grouped g key xs \<Longrightarrow> grouped (push_group (key x) x g) key (xs @ [x])"
  by (auto simp: grouped_def push_group_def om_ok_upd om_get_upd Let_def)

definition present_rows :: "history_entry list \<Rightarrow> (chunk_coord \<times> chunk_hash) list" where
  "present_rows es = List.map_filter (\<lambda>e. map_option (Pair (he_coord e)) (he_blob e)) es"

definition tombstone_rows :: "history_entry list \<Rightarrow> chunk_coord list" where
  "tombstone_rows es = map he_coord (filter (\<lambda>e. he_blob e = None) es)"

lemma present_rows_simps:
  "present_rows [] = []"
  "present_rows (es @ [e]) = present_rows es @ (case he_blob e of None \<Rightarrow> [] | Some b \<Rightarrow> [(he_coord e, b)])"
  by (simp_all add: present_rows_def List.map_filter_def split: option.split)

lemma tombstone_rows_simps:
  "tombstone_rows [] = []"
  "tombstone_rows (es @ [e]) = tombstone_rows es @ (if he_blob e = None then [he_coord e] else [])"
  by (simp_all add: tombstone_rows_def)

lemma present_rows_mem: "(c, b) \<in> set (present_rows es) \<longleftrightarrow> (\<exists>e \<in> set es. he_coord e = c \<and> he_blob e = Some b)"
  by (auto simp: present_rows_def List.map_filter_def image_iff)

lemma tombstone_rows_mem: "c \<in> set (tombstone_rows es) \<longleftrightarrow> (\<exists>e \<in> set es. he_coord e = c \<and> he_blob e = None)"
  by (auto simp: tombstone_rows_def)

lemma checkout_groups:
  "\<exists>g t. foldl (\<lambda>(groups, tombs) e.
           case he_blob e of
             Some b \<Rightarrow> (push_group (region_key_of (he_coord e)) (he_coord e, b) groups, tombs)
           | None \<Rightarrow> (groups, push_group (region_key_of (he_coord e)) (he_coord e) tombs)) ([], []) es = (g, t)
     \<and> grouped g (\<lambda>x. region_key_of (fst x)) (present_rows es) \<and> grouped t region_key_of (tombstone_rows es)"
proof (induction es rule: rev_induct)
  case Nil
  show ?case by (simp add: present_rows_simps tombstone_rows_simps)
next
  case (snoc e es)
  then obtain g t where gt: "foldl (\<lambda>(groups, tombs) e.
           case he_blob e of
             Some b \<Rightarrow> (push_group (region_key_of (he_coord e)) (he_coord e, b) groups, tombs)
           | None \<Rightarrow> (groups, push_group (region_key_of (he_coord e)) (he_coord e) tombs)) ([], []) es = (g, t)"
     "grouped g (\<lambda>x. region_key_of (fst x)) (present_rows es)" "grouped t region_key_of (tombstone_rows es)"
    by blast
  have "grouped (push_group (region_key_of (he_coord e)) (he_coord e, b) g) (\<lambda>x. region_key_of (fst x))
      (present_rows es @ [(he_coord e, b)])" for b
    using grouped_push [OF gt(2), of "(he_coord e, b)"] by simp
  with gt(1,2,3) grouped_push [OF gt(3), of "he_coord e"] show ?case
    by (auto simp: present_rows_simps tombstone_rows_simps split: option.split)
qed

text \<open>What a plan answers, as the state of the commit.\<close>

definition checkout_of :: "checkout_plan \<Rightarrow> (chunk_coord \<Rightarrow> chunk_hash option option) \<Rightarrow> bool" where
  "checkout_of plan st \<longleftrightarrow> om_ok (co_groups plan) \<and> om_ok (co_tombstones plan)
     \<and> (\<forall>k xs. om_get k (co_groups plan) = Some xs \<longrightarrow> xs \<noteq> [] \<and> sorted_wrt (<) (map fst xs))
     \<and> (\<forall>k xs. om_get k (co_tombstones plan) = Some xs \<longrightarrow> xs \<noteq> [])
     \<and> (\<forall>k c b. (\<exists>xs. om_get k (co_groups plan) = Some xs \<and> (c, b) \<in> set xs)
          \<longleftrightarrow> k = region_key_of c \<and> st c = Some (Some b))
     \<and> (\<forall>k c. (\<exists>xs. om_get k (co_tombstones plan) = Some xs \<and> c \<in> set xs)
          \<longleftrightarrow> k = region_key_of c \<and> st c = Some None)"

lemma grouped_mem:
  "grouped g key xs \<Longrightarrow> (\<exists>ys. om_get k g = Some ys \<and> x \<in> set ys) \<longleftrightarrow> key x = k \<and> x \<in> set xs"
  by (auto simp: grouped_def Let_def filter_empty_conv split: if_splits)

lemma sorted_present_rows: "sorted_wrt (<) (map he_coord es) \<Longrightarrow> sorted_wrt (<) (map fst (present_rows es))"
proof (induction es)
  case (Cons e es)
  have "fst ` set (present_rows es) \<subseteq> he_coord ` set es" using present_rows_mem [of _ _ es] by force
  then show ?case
    using Cons by (auto simp: present_rows_def List.map_filter_def split: option.split)
qed (simp add: present_rows_simps)

lemma sorted_find_mem:
  assumes "sorted_wrt (<) (map he_coord es)"
  shows "map_option he_blob (find (\<lambda>e. he_coord e = c) es) = Some b
    \<longleftrightarrow> (\<exists>e \<in> set es. he_coord e = c \<and> he_blob e = b)"
  using assms by (induction es) auto

context history_store begin

lemma plan_checkout_spec:
  assumes "valid m" "find_record (commits m) i = Some c"
  shows "\<exists>plan. plan_checkout port m i = Inr plan \<and> co_created_at_ms plan = c_created_at_ms c
    \<and> checkout_of plan (state m i)"
proof -
  obtain es where es: "mp_visit_commit_chunks port m i = (es, None)" "sorted_wrt (<) (map he_coord es)"
    "\<And>k. map_option he_blob (find (\<lambda>e. he_coord e = k) es) = state m i k"
    using visit_chunks [OF assms(1)] by blast
  obtain g t where gt: "foldl (\<lambda>(groups, tombs) e.
           case he_blob e of
             Some b \<Rightarrow> (push_group (region_key_of (he_coord e)) (he_coord e, b) groups, tombs)
           | None \<Rightarrow> (groups, push_group (region_key_of (he_coord e)) (he_coord e) tombs)) ([], []) es = (g, t)"
     "grouped g (\<lambda>x. region_key_of (fst x)) (present_rows es)" "grouped t region_key_of (tombstone_rows es)"
    using checkout_groups by blast
  let ?plan = "\<lparr>co_created_at_ms = c_created_at_ms c, co_groups = g, co_tombstones = t\<rparr>"
  have "plan_checkout port m i = Inr ?plan"
    using gt(1) by (simp add: plan_checkout_def lookup_commit [OF assms(1)] assms(2) es(1) visit_each_eq)
  moreover have "xs \<noteq> [] \<and> sorted_wrt (<) (map fst xs)" if "om_get k g = Some xs" for k xs
    using gt(2) that sorted_present_rows [OF es(2)]
    by (auto simp: grouped_def Let_def sorted_wrt_map sorted_wrt_filter split: if_splits)
  moreover have "xs \<noteq> []" if "om_get k t = Some xs" for k xs
    using gt(3) that by (auto simp: grouped_def Let_def split: if_splits)
  moreover have "(\<exists>xs. om_get k g = Some xs \<and> (c, b) \<in> set xs) \<longleftrightarrow> k = region_key_of c \<and> state m i c = Some (Some b)" for k c b
    using grouped_mem [OF gt(2)] es(3) [of c] sorted_find_mem [OF es(2), of c "Some b"] by (auto simp: present_rows_mem)
  moreover have "(\<exists>xs. om_get k t = Some xs \<and> c \<in> set xs) \<longleftrightarrow> k = region_key_of c \<and> state m i c = Some None" for k c
    using grouped_mem [OF gt(3)] es(3) [of c] sorted_find_mem [OF es(2), of c None] by (auto simp: tombstone_rows_mem)
  moreover have "om_ok g" "om_ok t" using gt(2,3) by (simp_all add: grouped_def)
  ultimately show ?thesis by (auto simp: checkout_of_def)
qed

lemma plan_checkout_unknown:
  "valid m \<Longrightarrow> find_record (commits m) i = None \<Longrightarrow> plan_checkout port m i = Inl (CoUnknownCommit i)"
  by (simp add: plan_checkout_def lookup_commit)

end

context recording_store begin

definition base_state :: "'m \<Rightarrow> chunk_coord \<Rightarrow> chunk_hash option option" where
  "base_state m = (case head m of Some (Some b) \<Rightarrow> state m b | _ \<Rightarrow> (\<lambda>_. None))"

lemma plan_commit_spec:
  assumes m: "valid m"
  shows "\<exists>prev plan. plan_commit port m discovered sc = Inr (prev, plan)
    \<and> om_ok (pv_state prev)
    \<and> (\<forall>c. map_option he_blob (om_get c (pv_state prev)) = map_option Some (present_at (base_state m) c))
    \<and> map_option c_id (pv_commit prev) = Option.bind (head m) id
    \<and> cp_ingest plan = filter (scope_matches_region sc) discovered
    \<and> cp_discovered plan = set (cp_ingest plan)
    \<and> set (cp_removed plan) = {k. scope_matches_region sc k \<and> k \<notin> set discovered
         \<and> (\<exists>c. region_key_of c = k \<and> present_at (base_state m) c \<noteq> None)}"
proof -
  obtain x where x: "mp_active_ref port m = Inr x" "map_option cr_commit x = head m"
    using active_head [OF m] by blast
  show ?thesis
  proof (cases "Option.bind (head m) id")
    case None
    then have hb: "head m = None \<or> head m = Some None" by (cases "head m") simp_all
    then have st: "base_state m = (\<lambda>_. None)" by (elim disjE) (simp_all add: base_state_def)
    have "Option.bind x cr_commit = None"
    proof (cases x)
      case (Some r)
      then have "head m = Some (cr_commit r)" using x(2) by simp
      with hb Some show ?thesis by auto
    qed simp
    then show ?thesis
      using None x(1) st by (simp add: plan_commit_def present_at_def Let_def)
  next
    case (Some b)
    then have h: "head m = Some (Some b)" by (cases "head m") auto
    have xb: "Option.bind x cr_commit = Some b"
    proof (cases x)
      case None
      then show ?thesis using x(2) h by simp
    next
      case (Some r)
      then have "Some (cr_commit r) = Some (Some b)" using x(2) h by simp
      with Some show ?thesis by simp
    qed
    have st: "base_state m = state m b" using h by (simp add: base_state_def)
    obtain c where c: "find_record (commits m) b = Some c" "c_id c = b"
    proof -
      have "find_record (commits m) b \<noteq> None" using head_known [OF m h] by (simp add: find_record_None)
      then obtain c where "find_record (commits m) b = Some c" by blast
      moreover from this have "c_id c = b" by (simp add: find_record_Some [OF distinct_commits [OF m]])
      ultimately show thesis by (rule that)
    qed
    obtain es where es: "mp_visit_commit_chunks port m b = (es, None)" "sorted_wrt (<) (map he_coord es)"
      "\<And>k. map_option he_blob (find (\<lambda>e. he_coord e = k) es) = state m b k"
      using visit_chunks [OF m] by blast
    have rows: "map_option he_blob (om_get k (state_rows es)) = map_option Some (present_at (state m b) k)" for k
      using state_rows_get [OF es(2), of k] es(3) [of k] by (auto simp: present_at_def split: option.splits)
    have mem: "k \<in> set (map fst (state_rows es)) \<longleftrightarrow> present_at (state m b) k \<noteq> None" for k
      using om_keys_get [OF om_ok_state_rows] rows [of k] by (cases "present_at (state m b) k") auto
    let ?gone = "filter (\<lambda>k. scope_matches_region sc k \<and> k \<notin> set (filter (scope_matches_region sc) discovered))
                    (map (\<lambda>e. region_key_of (fst e)) (state_rows es))"
    have plan: "plan_commit port m discovered sc
        = Inr (\<lparr>pv_commit = Some c, pv_state = state_rows es\<rparr>,
               \<lparr>cp_ingest = filter (scope_matches_region sc) discovered,
                cp_removed = sorted_list_of_set (set ?gone),
                cp_discovered = set (filter (scope_matches_region sc) discovered)\<rparr>)"
      using x(1) xb c es(1)
      by (simp add: plan_commit_def lookup_commit [OF m] visit_each_eq state_rows_def Let_def)
    have "set (sorted_list_of_set (set ?gone)) = {k. scope_matches_region sc k \<and> k \<notin> set discovered
         \<and> (\<exists>c. region_key_of c = k \<and> present_at (state m b) c \<noteq> None)}"
    proof -
      have "set ?gone = {k. scope_matches_region sc k \<and> k \<notin> set discovered
         \<and> k \<in> region_key_of ` set (map fst (state_rows es))}" by auto
      moreover have "set (map fst (state_rows es)) = {c. present_at (state m b) c \<noteq> None}" using mem by blast
      moreover have "set (sorted_list_of_set (set ?gone)) = set ?gone" by (rule set_sorted_list_of_set) simp
      ultimately have "set (sorted_list_of_set (set ?gone)) = {k. scope_matches_region sc k \<and> k \<notin> set discovered
         \<and> k \<in> region_key_of ` {c. present_at (state m b) c \<noteq> None}}" by (simp only:)
      then show ?thesis by (simp add: image_iff Bex_def conj_commute eq_commute)
    qed
    note removed = this
    show ?thesis
      by (intro exI conjI, rule plan) (simp_all del: set_sorted_list_of_set set_filter add: removed rows om_ok_state_rows c(2) Some st)
  qed
qed

end

context recording_store begin

lemma commit_records_scan:
  assumes m: "valid m" and h: "head m = Some h"
    and plan: "plan_commit port m discovered sc = Inr (prev, plan)"
    and scan: "scanned ing kvs" and t: "uint t < 2 ^ 63"
    and new: "new_id t (case h of None \<Rightarrow> [] | Some b \<Rightarrow> [b]) (as_entries (assemble plan prev ing sc))
      \<notin> set (ids_of (commits m))"
  shows "\<exists>rep m'. record_commit port prev (assemble plan prev ing sc) t m = Inr (rep, m') \<and> valid m'
    \<and> head m' = Some (Some (rep_commit rep))
    \<and> commits m' = commits m @ [commit_new (rep_commit rep) t (case h of None \<Rightarrow> [] | Some b \<Rightarrow> [b])]
    \<and> state m' (rep_commit rep) = commit_result (base_state m) (map_of kvs) sc
    \<and> (\<forall>i \<in> set (ids_of (commits m)). state m' i = state m i)
    \<and> rep_chunks rep = length kvs"
proof -
  let ?es = "as_entries (assemble plan prev ing sc)"
  let ?ps = "case h of None \<Rightarrow> [] | Some b \<Rightarrow> [b]"
  have prev: "om_ok (pv_state prev)"
      "\<And>c. map_option he_blob (om_get c (pv_state prev)) = map_option Some (present_at (base_state m) c)"
      "map_option c_id (pv_commit prev) = h"
    using plan_commit_spec [OF m, of discovered sc] plan h by simp_all
  have ps: "(case pv_commit prev of None \<Rightarrow> [] | Some c \<Rightarrow> [c_id c]) = ?ps"
    using prev(3) by (auto split: option.splits)
  have delta: "distinct (map entry_coord ?es)" "over ?es (base_state m) = commit_result (base_state m) (map_of kvs) sc"
    using assemble_delta [OF prev(1,2) scan] by blast+
  have "set ?ps \<subseteq> set (ids_of (commits m))" using head_known [OF m] h by (auto split: option.split)
  then obtain out m' where ok: "mp_apply_commit_incremental port t ?ps ?es m = Inr (out, m')"
    using apply_total [OF m h, of ?ps t ?es] t delta(1) new by (auto split: option.splits)
  have m': "valid m'" "ao_id out = new_id t ?ps ?es" "head m' = Some (Some (ao_id out))"
    using apply_ok [OF m ok] by blast+
  have fresh_id: "ao_id out \<notin> set (ids_of (commits m))" using new m'(2) by simp
  have dedup: "sort_dedup ?ps = ?ps" by (simp add: sort_dedup_def split: option.split)
  note app = apply_new [OF m ok fresh_id]
  have st: "state m' (ao_id out) = over ?es (base_state m)"
    using app h by (cases h) (simp_all add: base_state_def)
  have len: "card (in_present ing) = length kvs"
    using scan distinct_card [of "map fst kvs"] by (simp add: scanned_def)
  have "record_commit port prev (assemble plan prev ing sc) t m
      = Inr (\<lparr>rep_commit = ao_id out, rep_chunks = length kvs, rep_new_blobs = in_new_blobs ing,
              rep_tombstones = as_tombstones (assemble plan prev ing sc)\<rparr>, m')"
    using ok len by (simp add: record_commit_def ps) (simp add: assemble_def Let_def)
  then show ?thesis using m' app st delta(2) dedup by simp
qed

text \<open>Committing the whole world and checking the commit out again gives the scanned chunks.\<close>

lemma checkout_after_commit:
  assumes m: "valid m" and h: "head m = Some h"
    and plan: "plan_commit port m discovered World = Inr (prev, plan)"
    and scan: "scanned ing kvs" and t: "uint t < 2 ^ 63"
    and new: "new_id t (case h of None \<Rightarrow> [] | Some b \<Rightarrow> [b]) (as_entries (assemble plan prev ing World))
      \<notin> set (ids_of (commits m))"
    and ok: "record_commit port prev (assemble plan prev ing World) t m = Inr (rep, m')"
  shows "\<exists>co. plan_checkout port m' (rep_commit rep) = Inr co \<and> co_created_at_ms co = t
    \<and> (\<forall>k c b. (\<exists>xs. om_get k (co_groups co) = Some xs \<and> (c, b) \<in> set xs)
         \<longleftrightarrow> k = region_key_of c \<and> (c, b) \<in> set kvs)"
proof -
  have m': "valid m'" "commits m' = commits m @ [commit_new (rep_commit rep) t (case h of None \<Rightarrow> [] | Some b \<Rightarrow> [b])]"
    "state m' (rep_commit rep) = commit_result (base_state m) (map_of kvs) World"
    using commit_records_scan [OF m h plan scan t new] ok by simp_all
  let ?c = "commit_new (rep_commit rep) t (case h of None \<Rightarrow> [] | Some b \<Rightarrow> [b])"
  have "find_record (commits m') (rep_commit rep) = Some ?c"
    using find_record_Some [OF distinct_commits [OF m'(1)]] m'(2) by (simp add: commit_new_def)
  from plan_checkout_spec [OF m'(1) this]
  obtain co where co: "plan_checkout port m' (rep_commit rep) = Inr co" "co_created_at_ms co = t"
      "checkout_of co (state m' (rep_commit rep))"
    by (auto simp: commit_new_def)
  have kd: "distinct (map fst kvs)" using scan by (simp add: scanned_def)
  have "state m' (rep_commit rep) c = Some (Some b) \<longleftrightarrow> map_of kvs c = Some b" for c b
    by (cases "base_state m c") (auto simp: m'(3) commit_result_def present_at_def split: option.splits)
  then show ?thesis using co kd by (auto simp: checkout_of_def)
qed

end

end
