(* ===== verification/Blob_Store.thy ===== *)
theory Blob_Store
  imports Loops Storage_Api Hex
begin

section \<open>The blob store\<close>

text \<open>
  \<open>crates/core/src/port/blob.rs\<close>: the trait \<open>BlobStore\<close> as a record of operations over a state
  \<open>'b\<close>, and its documented promises as the locale \<open>blob_store\<close>.
  \<open>crates/storage-sqlite/src/blob.rs\<close>: the one table that implements it, with its statements, and
  the interpretation that discharges the promises. The write-ahead log and its checkpoint change no
  row, so \<open>sync\<close> keeps the table.
\<close>

subsection \<open>The port\<close>

record ('b, 'e) blob_port =
  bp_contains :: "'b \<Rightarrow> chunk_hash \<Rightarrow> ('e, bool) result"
  bp_put :: "chunk_hash \<Rightarrow> bytes \<Rightarrow> 'b \<Rightarrow> ('e, bool \<times> 'b) result"
  bp_sync :: "'b \<Rightarrow> ('e, 'b) result"
  bp_fetch_into :: "'b \<Rightarrow> chunk_hash \<Rightarrow> bytes \<Rightarrow> bytes \<times> ('e, unit) result"
  bp_remove :: "chunk_hash \<Rightarrow> 'b \<Rightarrow> ('e, bool \<times> 'b) result"
  bp_visit_blobs :: "'b \<Rightarrow> ('e, chunk_hash) visit"

locale blob_store =
  fixes bport :: "('b, 'e) blob_port"
    and bvalid :: "'b \<Rightarrow> bool"
    and blobs :: "'b \<Rightarrow> chunk_hash \<Rightarrow> bytes option"
  assumes contains: "bvalid b \<Longrightarrow> bp_contains bport b h = Inr (blobs b h \<noteq> None)"
    and put:
      "bvalid b \<Longrightarrow> \<exists>b'. bp_put bport h p b = Inr (blobs b h = None, b') \<and> bvalid b'
         \<and> blobs b' = (case blobs b h of None \<Rightarrow> (blobs b)(h \<mapsto> p) | Some _ \<Rightarrow> blobs b)"
    and sync: "bvalid b \<Longrightarrow> \<exists>b'. bp_sync bport b = Inr b' \<and> bvalid b' \<and> blobs b' = blobs b"
    and fetch_hit: "bvalid b \<Longrightarrow> blobs b h = Some p \<Longrightarrow> bp_fetch_into bport b h out = (p, Inr ())"
    and fetch_miss: "bvalid b \<Longrightarrow> blobs b h = None \<Longrightarrow> \<exists>e. bp_fetch_into bport b h out = ([], Inl e)"
    and remove:
      "bvalid b \<Longrightarrow> \<exists>b'. bp_remove bport h b = Inr (blobs b h \<noteq> None, b') \<and> bvalid b'
         \<and> blobs b' = (blobs b)(h := None)"
    and visit:
      "bvalid b \<Longrightarrow> \<exists>hs. bp_visit_blobs bport b = (hs, None) \<and> distinct hs \<and> set hs = dom (blobs b)"
begin

text \<open>Every stored payload is stored under its own digest.\<close>

definition addressed :: "(bytes \<Rightarrow> chunk_hash) \<Rightarrow> 'b \<Rightarrow> bool" where
  "addressed digest b \<longleftrightarrow> (\<forall>h p. blobs b h = Some p \<longrightarrow> digest p = h)"

lemma put_ok:
  assumes "bvalid b" "bp_put bport h p b = Inr (new, b')"
  shows "bvalid b'" "new \<longleftrightarrow> blobs b h = None"
    "blobs b' = (case blobs b h of None \<Rightarrow> (blobs b)(h \<mapsto> p) | Some _ \<Rightarrow> blobs b)"
  using put [OF assms(1), of h p] assms(2) by auto

lemma remove_ok:
  assumes "bvalid b" "bp_remove bport h b = Inr (old, b')"
  shows "bvalid b'" "old \<longleftrightarrow> blobs b h \<noteq> None" "blobs b' = (blobs b)(h := None)"
  using remove [OF assms(1), of h] assms(2) by auto

lemma put_keeps: "bvalid b \<Longrightarrow> bp_put bport h p b = Inr (new, b') \<Longrightarrow> blobs b k = Some q \<Longrightarrow> blobs b' k = Some q"
  using put_ok(3) [of b h p new b'] by (auto split: option.splits)

lemma addressed_put:
  assumes "bvalid b" "bp_put bport (digest p) p b = Inr (new, b')" "addressed digest b"
  shows "addressed digest b' \<and> bp_fetch_into bport b' (digest p) out = (case blobs b (digest p) of Some q \<Rightarrow> (q, Inr ()) | None \<Rightarrow> (p, Inr ()))"
proof -
  note b' = put_ok [OF assms(1,2)]
  have "addressed digest b'"
    using assms(3) b'(3) by (auto simp: addressed_def split: option.splits if_splits)
  moreover have "blobs b' (digest p) = Some (case blobs b (digest p) of Some q \<Rightarrow> q | None \<Rightarrow> p)"
    using b'(3) by (auto split: option.splits)
  ultimately show ?thesis using fetch_hit [OF b'(1)] by (auto split: option.splits)
qed

lemma addressed_remove:
  "bvalid b \<Longrightarrow> bp_remove bport h b = Inr (old, b') \<Longrightarrow> addressed digest b \<Longrightarrow> addressed digest b'"
  using remove_ok(3) [of b h old b'] by (auto simp: addressed_def split: if_splits)

text \<open>With a digest that separates the payloads at hand, a put payload is fetched back.\<close>

lemma put_fetch:
  assumes "bvalid b" "bp_put bport (digest p) p b = Inr (new, b')" "addressed digest b"
    and "\<And>q. digest q = digest p \<Longrightarrow> q = p"
  shows "bp_fetch_into bport b' (digest p) out = (p, Inr ())"
  using addressed_put [OF assms(1-3)] assms(3,4) by (auto simp: addressed_def split: option.splits)

end

subsection \<open>The table\<close>

record blob_row =
  bl_hash :: bytes
  bl_payload :: bytes

record blob_db =
  t_blobs :: "blob_row list"
  blob_user_version :: int

definition BLOB_SCHEMA_VERSION :: int where
  "BLOB_SCHEMA_VERSION = 1"

definition blank_blob_db :: blob_db where
  "blank_blob_db = \<lparr>t_blobs = [], blob_user_version = 0\<rparr>"

definition missing :: "chunk_hash \<Rightarrow> storage_error" where
  "missing h = BlobMissing (hex_string h)"

definition blob_hash_col :: "bytes \<Rightarrow> (storage_error, chunk_hash) result" where
  "blob_hash_col bs =
     (if length bs = 32 then Inr (hash_of_bytes bs) else Inl (InvalidHashLength (length bs)))"

definition find_blob :: "blob_db \<Rightarrow> bytes \<Rightarrow> blob_row option" where
  "find_blob db k = find (\<lambda>r. bl_hash r = k) (t_blobs db)"

definition blob_open :: "blob_db \<Rightarrow> (storage_error, blob_db) result" where
  "blob_open db =
     (let db' = (if blob_user_version db = 0
                 then db\<lparr>blob_user_version := BLOB_SCHEMA_VERSION\<rparr> else db)
      in if blob_user_version db' \<noteq> BLOB_SCHEMA_VERSION
         then Inl (UnsupportedSchema (blob_user_version db') BLOB_SCHEMA_VERSION)
         else Inr db')"

definition contains_impl :: "blob_db \<Rightarrow> chunk_hash \<Rightarrow> (storage_error, bool) result" where
  "contains_impl db h = Inr (find_blob db (hash_bytes_list h) \<noteq> None)"

definition fetch_impl :: "blob_db \<Rightarrow> chunk_hash \<Rightarrow> bytes \<Rightarrow> bytes \<times> (storage_error, unit) result" where
  "fetch_impl db h out =
     (case find_blob db (hash_bytes_list h) of
        None \<Rightarrow> ([], Inl (missing h))
      | Some r \<Rightarrow> ([] @ bl_payload r, Inr ()))"

definition put_impl :: "chunk_hash \<Rightarrow> bytes \<Rightarrow> blob_db \<Rightarrow> (storage_error, bool \<times> blob_db) result" where
  "put_impl h p db =
     (case find_blob db (hash_bytes_list h) of
        Some _ \<Rightarrow> Inr (False, db)
      | None \<Rightarrow>
          Inr (True, db\<lparr>t_blobs := t_blobs db @ [\<lparr>bl_hash = hash_bytes_list h, bl_payload = p\<rparr>]\<rparr>))"

definition remove_impl :: "chunk_hash \<Rightarrow> blob_db \<Rightarrow> (storage_error, bool \<times> blob_db) result" where
  "remove_impl h db =
     (let gone = filter (\<lambda>r. bl_hash r = hash_bytes_list h) (t_blobs db)
      in Inr (length gone > 0,
              db\<lparr>t_blobs := filter (\<lambda>r. bl_hash r \<noteq> hash_bytes_list h) (t_blobs db)\<rparr>))"

definition visit_hashes :: "blob_db \<Rightarrow> (storage_error, chunk_hash) visit" where
  "visit_hashes db = decode_visit blob_hash_col (sort (map bl_hash (t_blobs db)))"

definition checkpoint :: "blob_db \<Rightarrow> (storage_error, blob_db) result" where
  "checkpoint db = Inr db"

definition sqlite_blob :: "(blob_db, storage_error) blob_port" where
  "sqlite_blob = \<lparr>bp_contains = contains_impl, bp_put = put_impl, bp_sync = checkpoint,
     bp_fetch_into = fetch_impl, bp_remove = remove_impl, bp_visit_blobs = visit_hashes\<rparr>"

definition wf_blobs :: "blob_db \<Rightarrow> bool" where
  "wf_blobs db \<longleftrightarrow> distinct (map bl_hash (t_blobs db)) \<and> (\<forall>r \<in> set (t_blobs db). length (bl_hash r) = 32)"

definition blobs_view :: "blob_db \<Rightarrow> chunk_hash \<Rightarrow> bytes option" where
  "blobs_view db h = map_option bl_payload (find_blob db (hash_bytes_list h))"

lemma find_blob_None: "find_blob db k = None \<longleftrightarrow> k \<notin> bl_hash ` set (t_blobs db)"
  by (auto simp: find_blob_def find_None_iff)

lemma find_blob_append:
  "find_blob (db\<lparr>t_blobs := t_blobs db @ [r]\<rparr>) k
     = (case find_blob db k of Some q \<Rightarrow> Some q | None \<Rightarrow> if bl_hash r = k then Some r else None)"
  by (auto simp: find_blob_def find_append_cases split: option.split)

lemma find_filter_key:
  "find (\<lambda>r. f r = k) (filter (\<lambda>r. f r \<noteq> j) rs) = (if k = j then None else find (\<lambda>r. f r = k) rs)"
  by (induction rs) auto

lemma wf_blobs_blank: "wf_blobs blank_blob_db"
  by (simp add: wf_blobs_def blank_blob_db_def)

lemma wf_blobs_open: "wf_blobs db \<Longrightarrow> blob_open db = Inr db' \<Longrightarrow> wf_blobs db' \<and> blobs_view db' = blobs_view db"
  by (auto simp: blob_open_def Let_def wf_blobs_def blobs_view_def find_blob_def fun_eq_iff split: if_splits)

lemma wf_blobs_put: "wf_blobs db \<Longrightarrow> put_impl h p db = Inr (b, db') \<Longrightarrow> wf_blobs db'"
  by (auto simp: put_impl_def wf_blobs_def find_blob_None split: option.splits)

lemma wf_blobs_remove: "wf_blobs db \<Longrightarrow> remove_impl h db = Inr (b, db') \<Longrightarrow> wf_blobs db'"
  by (auto simp: remove_impl_def Let_def wf_blobs_def distinct_map_filter)

lemma hash_rows:
  assumes "wf_blobs db"
  shows "hash_bytes_list ` dom (blobs_view db) = bl_hash ` set (t_blobs db)"
proof -
  have dom: "h \<in> dom (blobs_view db) \<longleftrightarrow> hash_bytes_list h \<in> bl_hash ` set (t_blobs db)" for h
    using find_blob_None [of db "hash_bytes_list h"] by (auto simp: blobs_view_def)
  have "k = hash_bytes_list (hash_of_bytes k)" if "k \<in> bl_hash ` set (t_blobs db)" for k
    using assms that hash_bytes_list_of_bytes by (auto simp: wf_blobs_def)
  note again = this
  show ?thesis
  proof (intro set_eqI iffI)
    fix k
    assume "k \<in> hash_bytes_list ` dom (blobs_view db)"
    then show "k \<in> bl_hash ` set (t_blobs db)" using dom by blast
  next
    fix k
    assume k: "k \<in> bl_hash ` set (t_blobs db)"
    then have "hash_of_bytes k \<in> dom (blobs_view db)" using dom again by metis
    then show "k \<in> hash_bytes_list ` dom (blobs_view db)" using again [OF k] by (rule rev_image_eqI)
  qed
qed

interpretation sqb: blob_store sqlite_blob wf_blobs blobs_view
proof (unfold_locales, goal_cases)
  case (1 b h)
  then show ?case by (simp add: sqlite_blob_def contains_impl_def blobs_view_def)
next
  case (2 b h p)
  show ?case
  proof (cases "find_blob b (hash_bytes_list h)")
    case None
    then have put: "put_impl h p b
        = Inr (True, b\<lparr>t_blobs := t_blobs b @ [\<lparr>bl_hash = hash_bytes_list h, bl_payload = p\<rparr>]\<rparr>)"
      by (simp add: put_impl_def)
    show ?thesis
      using None wf_blobs_put [OF 2 put] put
      by (auto simp: sqlite_blob_def blobs_view_def find_blob_append fun_eq_iff split: option.split)
  next
    case (Some r)
    then show ?thesis using 2 by (simp add: sqlite_blob_def put_impl_def blobs_view_def)
  qed
next
  case (3 b)
  then show ?case by (simp add: sqlite_blob_def checkpoint_def)
next
  case (4 b h p out)
  then show ?case by (auto simp: sqlite_blob_def fetch_impl_def blobs_view_def)
next
  case (5 b h out)
  then show ?case by (simp add: sqlite_blob_def fetch_impl_def blobs_view_def)
next
  case (6 b h)
  have some: "filter (\<lambda>r. bl_hash r = k) rs \<noteq> [] \<longleftrightarrow> find (\<lambda>r. bl_hash r = k) rs \<noteq> None" for k rs
    by (auto simp: find_None_iff filter_empty_conv)
  show ?case
    using 6 wf_blobs_remove [OF 6, of h]
    by (auto simp: sqlite_blob_def remove_impl_def Let_def blobs_view_def find_blob_def find_filter_key fun_eq_iff some)
next
  case (7 b)
  let ?hs = "map hash_of_bytes (sort (map bl_hash (t_blobs b)))"
  have len: "length k = 32" if "k \<in> bl_hash ` set (t_blobs b)" for k using 7 that by (auto simp: wf_blobs_def)
  have "visit_hashes b = (?hs, None)"
    unfolding visit_hashes_def using len by (intro decode_visit_ok) (simp add: blob_hash_col_def)
  moreover have "inj_on hash_of_bytes (bl_hash ` set (t_blobs b))"
    using len hash_bytes_list_of_bytes by (metis inj_on_inverseI)
  then have "distinct ?hs" using 7 by (simp add: distinct_map wf_blobs_def)
  moreover have "set ?hs = hash_of_bytes ` hash_bytes_list ` dom (blobs_view b)"
    by (simp add: hash_rows [OF 7])
  then have "set ?hs = dom (blobs_view b)" by (simp add: image_image)
  ultimately show ?case by (simp add: sqlite_blob_def)
qed

end
