(* ===== verification/Usecase_Gc.thy ===== *)
theory Usecase_Gc
  imports Blob_Store Meta_Apply
begin

section \<open>Garbage collection\<close>

text \<open>
  \<open>crates/core/src/usecase/gc.rs\<close>. A plan lists the stored blobs that no effective state of a
  commit holds; applying one plans afresh and removes the candidates that are still orphans. The
  locale \<open>gc_stores\<close> joins the promises of the two ports; the facts proved in it say that no
  plan, however stale, removes a blob a commit needs, and that a fresh plan leaves none it does
  not.
\<close>

record gc_report =
  gr_candidates :: usize
  gr_orphans :: usize
  gr_removed :: usize

datatype ('b, 'm) gc_error = GcBlob 'b | GcMeta 'm

definition gc_plan ::
  "('b, 'be) blob_port \<Rightarrow> ('m, 'me) meta_port \<Rightarrow> 'b \<Rightarrow> 'm \<Rightarrow> (('be, 'me) gc_error, gc_plan_rec) result" where
  "gc_plan bp mp b m =
     bindE (map_err GcMeta (visit_each (\<lambda>ids c. ids @ [c_id c]) (mp_visit_commits mp m) [])) (\<lambda>commits.
     bindE (foldE (\<lambda>i refd. map_err GcMeta
              (visit_each (\<lambda>refd e. case he_blob e of Some h \<Rightarrow> insert h refd | None \<Rightarrow> refd)
                 (mp_visit_commit_chunks mp m i) refd)) commits {}) (\<lambda>referenced.
     bindE (map_err GcBlob
              (visit_each (\<lambda>(orphans, examined) h.
                 (if h \<notin> referenced then orphans @ [h] else orphans, examined + 1))
                 (bp_visit_blobs bp b) ([], 0))) (\<lambda>(orphans, examined).
       Inr (gc_plan_new orphans examined))))"

text \<open>The removal loop: the blobs after it, the progress calls, and the counts or the error.\<close>

primrec gc_loop ::
  "('b, 'be) blob_port \<Rightarrow> chunk_hash set \<Rightarrow> usize \<Rightarrow> chunk_hash list \<Rightarrow> usize \<Rightarrow> usize \<Rightarrow> usize
     \<Rightarrow> (usize \<times> usize) list \<Rightarrow> 'b
     \<Rightarrow> 'b \<times> (usize \<times> usize) list \<times> (('be, 'me) gc_error, usize \<times> usize) result" where
  "gc_loop bp still n [] ready orphans removed calls b = (b, calls, Inr (orphans, removed))"
| "gc_loop bp still n (h # hs) ready orphans removed calls b =
     (if h \<in> still
      then (case bp_remove bp h b of
              Inl e \<Rightarrow> (b, calls, Inl (GcBlob e))
            | Inr (gone, b') \<Rightarrow>
                gc_loop bp still n hs (ready + 1) (orphans + 1) (if gone then removed + 1 else removed)
                  (calls @ [(ready + 1, n)]) b')
      else gc_loop bp still n hs (ready + 1) orphans removed (calls @ [(ready + 1, n)]) b)"

definition gc_apply ::
  "('b, 'be) blob_port \<Rightarrow> ('m, 'me) meta_port \<Rightarrow> gc_plan_rec \<Rightarrow> 'm \<Rightarrow> 'b
     \<Rightarrow> 'b \<times> (usize \<times> usize) list \<times> (('be, 'me) gc_error, gc_report) result" where
  "gc_apply bp mp plan m b =
     (case gc_plan bp mp b m of
        Inl e \<Rightarrow> (b, [], Inl e)
      | Inr fresh \<Rightarrow>
          (case gc_loop bp (set (into_orphans fresh)) (length (gp_orphans plan)) (gp_orphans plan) 0 0 0 [] b of
             (b', calls, Inl e) \<Rightarrow> (b', calls, Inl e)
           | (b', calls, Inr (orphans, removed)) \<Rightarrow>
               (b', calls, Inr \<lparr>gr_candidates = length (gp_orphans plan), gr_orphans = orphans,
                                gr_removed = removed\<rparr>)))"

subsection \<open>What a collection may remove\<close>

lemma foldl_insert_blobs:
  "foldl (\<lambda>refd e. case he_blob e of Some h \<Rightarrow> insert h refd | None \<Rightarrow> refd) R es
     = R \<union> {h. \<exists>e \<in> set es. he_blob e = Some h}"
  by (induction es arbitrary: R) (auto split: option.split)

lemma foldl_orphans:
  "foldl (\<lambda>(orphans, examined) h. (if h \<notin> R then orphans @ [h] else orphans, examined + 1)) (os, n) hs
     = (os @ filter (\<lambda>h. h \<notin> R) hs, n + length hs)"
  by (induction hs arbitrary: os n) simp_all

lemma foldl_push_ids: "foldl (\<lambda>ids c. ids @ [c_id c]) is cs = is @ map c_id cs"
  by (induction cs arbitrary: "is") simp_all

locale gc_stores = blob_store bport bvalid blobs + history_store mport valid commits state fresh
  for bport :: "('b, 'be) blob_port" and bvalid blobs
    and mport :: "('m, 'me) meta_port" and valid commits state fresh
begin

definition referenced :: "'m \<Rightarrow> chunk_hash set" where
  "referenced m = {h. \<exists>i \<in> set (ids_of (commits m)). \<exists>c. state m i c = Some (Some h)}"

lemma visit_blobs_of:
  assumes "valid m"
  shows "visit_each (\<lambda>refd e. case he_blob e of Some h \<Rightarrow> insert h refd | None \<Rightarrow> refd)
      (mp_visit_commit_chunks mport m i) R = Inr (R \<union> {h. \<exists>c. state m i c = Some (Some h)})"
proof -
  obtain es where es: "mp_visit_commit_chunks mport m i = (es, None)" "sorted_wrt (<) (map he_coord es)"
    "\<And>k. map_option he_blob (find (\<lambda>e. he_coord e = k) es) = state m i k"
    using visit_chunks [OF assms] by blast
  have "{h. \<exists>e \<in> set es. he_blob e = Some h} = {h. \<exists>c. state m i c = Some (Some h)}"
  proof (intro set_eqI iffI; clarify)
    fix h e
    assume e: "e \<in> set es" "he_blob e = Some h"
    have "inj_on he_coord (set es)" using es(2) by (simp add: strict_sorted_iff distinct_map)
    then have "find (\<lambda>d. he_coord d = he_coord e) es = Some e"
      using e(1) by (induction es) (auto simp: inj_on_def)
    then show "\<exists>c. state m i c = Some (Some h)" using e(2) es(3) [of "he_coord e"] by force
  next
    fix h c
    assume "state m i c = Some (Some h)"
    then obtain e where "find (\<lambda>e. he_coord e = c) es = Some e" "he_blob e = Some h"
      using es(3) [of c] by auto
    then show "\<exists>e \<in> set es. he_blob e = Some h" by (auto simp: find_Some_iff)
  qed
  then show ?thesis by (simp add: es(1) visit_each_eq foldl_insert_blobs)
qed

lemma visit_all_blobs:
  assumes "valid m"
  shows "foldE (\<lambda>i refd. map_err GcMeta
      (visit_each (\<lambda>refd e. case he_blob e of Some h \<Rightarrow> insert h refd | None \<Rightarrow> refd)
        (mp_visit_commit_chunks mport m i) refd)) is R
    = Inr (R \<union> {h. \<exists>i \<in> set is. \<exists>c. state m i c = Some (Some h)})"
  by (induction "is" arbitrary: R) (auto simp: visit_blobs_of [OF assms] intro: arg_cong [where f = Inr])

lemma gc_plan_spec:
  assumes "bvalid b" "valid m"
  shows "\<exists>plan. gc_plan bport mport b m = Inr plan \<and> distinct (gp_orphans plan)
    \<and> set (gp_orphans plan) = dom (blobs b) - referenced m \<and> gp_examined plan = card (dom (blobs b))"
proof -
  obtain hs where hs: "bp_visit_blobs bport b = (hs, None)" "distinct hs" "set hs = dom (blobs b)"
    using visit [OF assms(1)] by blast
  have "gc_plan bport mport b m = Inr (gc_plan_new (filter (\<lambda>h. h \<notin> referenced m) hs) (length hs))"
    unfolding gc_plan_def visit_commits [OF assms(2)] hs(1) visit_each_eq [of _ "(commits m, None)"]
      visit_each_eq [of _ "(hs, None)"] fst_conv snd_conv option.case foldl_push_ids map_err_simps bindE_simps
      visit_all_blobs [OF assms(2)] foldl_orphans prod.case
    by (simp add: referenced_def ids_of_def)
  moreover have "length hs = card (dom (blobs b))" using hs(2,3) distinct_card by metis
  ultimately show ?thesis using hs(2,3) by (auto simp: gc_plan_new_def)
qed

lemma gc_loop_spec:
  assumes "bvalid b"
  shows "\<exists>b' x. gc_loop bport still n hs d o' r calls b
      = (b', calls @ map (\<lambda>k. (d + k + 1, n)) [0..<length hs], (Inr (o' + length (filter (\<lambda>h. h \<in> still) hs), r + x) :: (('be, 'me) gc_error, usize \<times> usize) result))
    \<and> bvalid b' \<and> blobs b' = (\<lambda>h. if h \<in> set hs \<and> h \<in> still then None else blobs b h)
    \<and> x = card (set hs \<inter> still \<inter> dom (blobs b))"
  using assms
proof (induction hs arbitrary: b d o' r calls)
  case Nil
  then show ?case by (simp add: fun_eq_iff)
next
  case (Cons h hs)
  have calls: "(calls @ [(d + 1, n)]) @ map (\<lambda>k. (d + 1 + k + 1, n)) [0..<length hs]
      = calls @ map (\<lambda>k. (d + k + 1, n)) [0..<length (h # hs)]"
    by (simp add: upt_conv_Cons map_Suc_upt [symmetric] del: upt_Suc)
  show ?case
  proof (cases "h \<in> still")
    case False
    then have "set (h # hs) \<inter> still = set hs \<inter> still" by auto
    with False Cons.IH [OF Cons.prems, of "d + 1" o' r "calls @ [(d + 1, n)]"] show ?thesis
      unfolding calls by (auto simp: fun_eq_iff)
  next
    case True
    obtain b1 where b1: "bp_remove bport h b = Inr (blobs b h \<noteq> None, b1)" "bvalid b1" "blobs b1 = (blobs b)(h := None)"
      using remove [OF Cons.prems] by blast
    obtain b' x where b': "gc_loop bport still n hs (d + 1) (o' + 1) (if blobs b h \<noteq> None then r + 1 else r)
          (calls @ [(d + 1, n)]) b1
        = (b', (calls @ [(d + 1, n)]) @ map (\<lambda>k. (d + 1 + k + 1, n)) [0..<length hs],
           (Inr (o' + 1 + length (filter (\<lambda>h. h \<in> still) hs), (if blobs b h \<noteq> None then r + 1 else r) + x)
             :: (('be, 'me) gc_error, usize \<times> usize) result))"
        "bvalid b'" "blobs b' = (\<lambda>k. if k \<in> set hs \<and> k \<in> still then None else blobs b1 k)"
        "x = card (set hs \<inter> still \<inter> dom (blobs b1))"
      using Cons.IH [OF b1(2)] by blast
    have "set (h # hs) \<inter> still \<inter> dom (blobs b)
        = (if blobs b h \<noteq> None then insert h (set hs \<inter> still \<inter> dom (blobs b1)) else set hs \<inter> still \<inter> dom (blobs b1))"
      using True b1(3) by auto
    moreover have "h \<notin> set hs \<inter> still \<inter> dom (blobs b1)" using b1(3) by auto
    ultimately have x: "card (set (h # hs) \<inter> still \<inter> dom (blobs b)) = (if blobs b h \<noteq> None then 1 else 0) + x"
      using b'(4) by simp
    show ?thesis
      using True b1 b' x unfolding calls by (auto simp: fun_eq_iff)
  qed
qed

lemma gc_apply_spec:
  assumes "bvalid b" "valid m"
  shows "\<exists>b' rep. gc_apply bport mport plan m b
      = (b', map (\<lambda>k. (k + 1, length (gp_orphans plan))) [0..<length (gp_orphans plan)], Inr rep)
    \<and> bvalid b'
    \<and> blobs b' = (\<lambda>h. if h \<in> set (gp_orphans plan) \<and> h \<notin> referenced m then None else blobs b h)
    \<and> gr_candidates rep = length (gp_orphans plan)
    \<and> gr_orphans rep = length (filter (\<lambda>h. h \<in> dom (blobs b) - referenced m) (gp_orphans plan))
    \<and> gr_removed rep = card ((set (gp_orphans plan) - referenced m) \<inter> dom (blobs b))"
proof -
  obtain fresh where f: "gc_plan bport mport b m = Inr fresh"
      "set (gp_orphans fresh) = dom (blobs b) - referenced m"
    using gc_plan_spec [OF assms] by blast
  obtain b' x where l: "gc_loop bport (set (into_orphans fresh)) (length (gp_orphans plan)) (gp_orphans plan) 0 0 0 [] b
      = (b', [] @ map (\<lambda>k. (0 + k + 1, length (gp_orphans plan))) [0..<length (gp_orphans plan)],
         (Inr (0 + length (filter (\<lambda>h. h \<in> set (into_orphans fresh)) (gp_orphans plan)), 0 + x)
           :: (('be, 'me) gc_error, usize \<times> usize) result))"
      "bvalid b'"
      "blobs b' = (\<lambda>h. if h \<in> set (gp_orphans plan) \<and> h \<in> set (into_orphans fresh) then None else blobs b h)"
      "x = card (set (gp_orphans plan) \<inter> set (into_orphans fresh) \<inter> dom (blobs b))"
    using gc_loop_spec [OF assms(1)] by blast
  have orphans: "set (into_orphans fresh) = dom (blobs b) - referenced m" using f(2) by (simp add: into_orphans_def)
  have "set (gp_orphans plan) \<inter> (dom (blobs b) - referenced m) \<inter> dom (blobs b)
      = (set (gp_orphans plan) - referenced m) \<inter> dom (blobs b)" by auto
  moreover have "gc_apply bport mport plan m b
      = (b', map (\<lambda>k. (k + 1, length (gp_orphans plan))) [0..<length (gp_orphans plan)],
         Inr \<lparr>gr_candidates = length (gp_orphans plan),
              gr_orphans = length (filter (\<lambda>h. h \<in> set (into_orphans fresh)) (gp_orphans plan)), gr_removed = x\<rparr>)"
    using f(1) l(1) by (simp add: gc_apply_def)
  moreover have "blobs b' = (\<lambda>h. if h \<in> set (gp_orphans plan) \<and> h \<notin> referenced m then None else blobs b h)"
    unfolding l(3) orphans by (rule ext) auto
  ultimately show ?thesis using l(2,4) unfolding orphans by simp
qed

text \<open>A fresh plan, applied, leaves exactly the blobs the commits need.\<close>

lemma gc_complete:
  assumes "bvalid b" "valid m" "gc_plan bport mport b m = Inr plan"
  shows "\<exists>b' calls rep. gc_apply bport mport plan m b = (b', calls, Inr rep)
    \<and> dom (blobs b') = dom (blobs b) \<inter> referenced m
    \<and> gr_orphans rep = length (gp_orphans plan) \<and> gr_removed rep = length (gp_orphans plan)"
proof -
  obtain fresh where "gc_plan bport mport b m = Inr fresh" "distinct (gp_orphans fresh)"
      "set (gp_orphans fresh) = dom (blobs b) - referenced m"
    using gc_plan_spec [OF assms(1,2)] by blast
  then have p: "distinct (gp_orphans plan)" "set (gp_orphans plan) = dom (blobs b) - referenced m"
    using assms(3) by simp_all
  obtain b' calls rep where a: "gc_apply bport mport plan m b = (b', calls, Inr rep)"
      "blobs b' = (\<lambda>h. if h \<in> set (gp_orphans plan) \<and> h \<notin> referenced m then None else blobs b h)"
      "gr_orphans rep = length (filter (\<lambda>h. h \<in> dom (blobs b) - referenced m) (gp_orphans plan))"
      "gr_removed rep = card ((set (gp_orphans plan) - referenced m) \<inter> dom (blobs b))"
    using gc_apply_spec [OF assms(1,2)] by blast
  have "dom (blobs b') = dom (blobs b) \<inter> referenced m"
    using a(2) p(2) by (auto simp: dom_def split: if_splits)
  moreover have "gr_orphans rep = length (gp_orphans plan)"
    using a(3) p(2) by (simp add: filter_id_conv [THEN iffD2])
  moreover have "(set (gp_orphans plan) - referenced m) \<inter> dom (blobs b) = set (gp_orphans plan)" using p(2) by auto
  then have "gr_removed rep = length (gp_orphans plan)" using a(4) p(1) by (simp add: distinct_card)
  ultimately show ?thesis using a(1) by blast
qed

text \<open>Whatever the plan, every blob a commit needs is still fetched, byte for byte.\<close>

lemma gc_safe:
  assumes "bvalid b" "valid m" "i \<in> set (ids_of (commits m))" "state m i c = Some (Some h)" "blobs b h = Some p"
  shows "\<exists>b' calls rep. gc_apply bport mport plan m b = (b', calls, Inr rep) \<and> bvalid b'
    \<and> bp_fetch_into bport b' h out = (p, Inr ())"
proof -
  have "h \<in> referenced m" using assms(3,4) by (auto simp: referenced_def)
  moreover obtain b' calls rep where a: "gc_apply bport mport plan m b = (b', calls, Inr rep)" "bvalid b'"
      "blobs b' = (\<lambda>h. if h \<in> set (gp_orphans plan) \<and> h \<notin> referenced m then None else blobs b h)"
    using gc_apply_spec [OF assms(1,2)] by blast
  ultimately have "blobs b' h = Some p" using assms(5) by simp
  then show ?thesis using a(1,2) fetch_hit by blast
qed

end

interpretation sqg: gc_stores sqlite_blob wf_blobs blobs_view "sqlite_port H" wf_db commits_view chunk_view fresh_view for H
  by unfold_locales

end
