(* ===== verification/Anvil_Codec.thy ===== *)
theory Anvil_Codec
  imports Anvil_Reader
begin

section \<open>Chunk compression\<close>

text \<open>
  \<open>crates/anvil/src/codec.rs\<close>. The inflater of \<open>miniz_oxide\<close>, the block decoder of
  \<open>lz4_flex\<close>, the CRC of \<open>crc32fast\<close> and the hash of \<open>twox_hash\<close> are not part of the
  repository: they are the fields of \<open>codec_lib\<close>, an argument of the decoders. The framing around
  them (gzip header and trailer, Java's LZ4 blocks, the output limit) is modelled branch by branch,
  with the contents of the caller's buffer after a failure. \<open>inflate_loop\<close> is a loop the code
  does not bound by itself; \<open>inflate_ends\<close> shows that it ends for an inflater that only asks for
  more room when the room it had is full.
\<close>

datatype compression = Gzip | Zlib | Raw | Lz4

declare bindE_cong [fundef_cong]

datatype tinfl_status = Done | HasMoreOutput | OtherStatus

record 'd codec_lib =
  lib_zlib_limit :: "bytes \<Rightarrow> nat \<Rightarrow> (tinfl_status, bytes) result"
  lib_inflate_new :: 'd
  lib_inflate :: "'d \<Rightarrow> bytes \<Rightarrow> bytes \<Rightarrow> nat \<Rightarrow> 'd \<times> bytes \<times> tinfl_status \<times> nat \<times> nat"
  lib_crc32 :: "bytes \<Rightarrow> u32"
  lib_lz4_block :: "bytes \<Rightarrow> bytes \<Rightarrow> (unit, nat \<times> bytes) result"
  lib_xxh32 :: "u32 \<Rightarrow> bytes \<Rightarrow> u64"

definition compression_of :: "u8 \<Rightarrow> (anvil_error, compression) result" where
  "compression_of byte =
     (if byte = 1 then Inr Gzip
      else if byte = 2 then Inr Zlib
      else if byte = 3 then Inr Raw
      else if byte = 4 then Inr Lz4
      else if byte = 127 then Inl CustomCompression
      else if 128 \<le> byte then Inl (ExternalBody byte)
      else Inl (UnknownCompression byte))"

definition MAX_DECOMPRESSED :: nat where
  "MAX_DECOMPRESSED = 67108864"

subsection \<open>Zlib and raw deflate\<close>

definition inflate_zlib_capped :: "'d codec_lib \<Rightarrow> bytes \<Rightarrow> (anvil_error, bytes) result" where
  "inflate_zlib_capped lib body =
     (case lib_zlib_limit lib body MAX_DECOMPRESSED of
        Inr out \<Rightarrow> Inr out
      | Inl st \<Rightarrow> if st = HasMoreOutput then Inl OutputTooLarge else Inl AeZlib)"

partial_function (option) inflate_loop ::
  "'d codec_lib \<Rightarrow> 'd \<Rightarrow> bytes \<Rightarrow> bytes \<Rightarrow> (anvil_error, bytes) result option" where
  "inflate_loop lib d out input =
     (let room = MAX_DECOMPRESSED - length out in
      if room = 0 then Some (Inl OutputTooLarge)
      else let base = length out;
               buf = out @ replicate (min room 65536) 0
           in (case lib_inflate lib d input buf base of
                 (d', buf', st, in_consumed, out_consumed) \<Rightarrow>
                   let out' = take (base + out_consumed) buf' in
                   (case slice_get input in_consumed (length input) of
                      None \<Rightarrow> Some (Inl AeGzip)
                    | Some input' \<Rightarrow>
                        (case st of
                           Done \<Rightarrow> Some (if input' = [] then Inr out' else Inl AeGzip)
                         | HasMoreOutput \<Rightarrow> inflate_loop lib d' out' input'
                         | OtherStatus \<Rightarrow> Some (Inl AeGzip)))))"

definition inflate_raw_exact :: "'d codec_lib \<Rightarrow> bytes \<Rightarrow> (anvil_error, bytes) result option" where
  "inflate_raw_exact lib body = inflate_loop lib (lib_inflate_new lib) [] body"

subsection \<open>Gzip framing\<close>

definition read_u8 :: "bytes \<Rightarrow> nat \<Rightarrow> (anvil_error, u8 \<times> nat) result" where
  "read_u8 input pos = (if pos < length input then Inr (input ! pos, pos + 1) else Inl AeGzip)"

definition read_u16_le :: "bytes \<Rightarrow> nat \<Rightarrow> (anvil_error, nat \<times> nat) result" where
  "read_u16_le input pos =
     bindE (ok_or AeGzip (slice_get input pos (pos + 2))) (\<lambda>bs. Inr (from_le bs, pos + 2))"

definition skip :: "bytes \<Rightarrow> nat \<Rightarrow> nat \<Rightarrow> (anvil_error, nat) result" where
  "skip input pos len = (if pos + len > length input then Inl AeGzip else Inr (pos + len))"

text \<open>\<open>while read_u8(body, &mut pos)? != 0 {}\<close>.\<close>

function skip_string :: "bytes \<Rightarrow> nat \<Rightarrow> (anvil_error, nat) result" where
  "skip_string input pos =
     bindE (read_u8 input pos) (\<lambda>(b, pos'). if b \<noteq> 0 then skip_string input pos' else Inr pos')"
  by auto
termination
  by (relation "measure (\<lambda>(input, pos). length input - pos)") (auto simp: read_u8_def split: if_splits)

declare skip_string.simps [simp del]

definition gzip_header :: "bytes \<Rightarrow> (anvil_error, nat) result" where
  "gzip_header body =
     bindE (read_u8 body 0) (\<lambda>(m0, pos).
     if m0 \<noteq> 0x1F then Inl AeGzip else
     bindE (read_u8 body pos) (\<lambda>(m1, pos).
     if m1 \<noteq> 0x8B then Inl AeGzip else
     bindE (read_u8 body pos) (\<lambda>(m2, pos).
     if m2 \<noteq> 8 then Inl AeGzip else
     bindE (read_u8 body pos) (\<lambda>(flags, pos).
     if flags AND 0xE0 \<noteq> 0 then Inl AeGzip else
     bindE (skip body pos 6) (\<lambda>pos.
     bindE (if flags AND 0x04 \<noteq> 0
            then bindE (read_u16_le body pos) (\<lambda>(len, pos). skip body pos len) else Inr pos) (\<lambda>pos.
     bindE (if flags AND 0x08 \<noteq> 0 then skip_string body pos else Inr pos) (\<lambda>pos.
     bindE (if flags AND 0x10 \<noteq> 0 then skip_string body pos else Inr pos) (\<lambda>pos.
     if flags AND 0x02 \<noteq> 0 then skip body pos 2 else Inr pos))))))))"

definition gunzip_capped ::
  "'d codec_lib \<Rightarrow> bytes \<Rightarrow> bytes \<Rightarrow> (bytes \<times> (anvil_error, unit) result) option" where
  "gunzip_capped lib body out =
     (case gzip_header body of
        Inl e \<Rightarrow> Some (out, Inl e)
      | Inr pos \<Rightarrow>
          if length body < 8 then Some (out, Inl AeGzip)
          else let fin = length body - 8 in
            if pos > fin then Some (out, Inl AeGzip)
            else let stream = take (fin - pos) (drop pos body); footer = drop fin body in
              (case inflate_raw_exact lib stream of
                 None \<Rightarrow> None
               | Some (Inl e) \<Rightarrow> Some (out, Inl e)
               | Some (Inr decoded) \<Rightarrow>
                   Some (if lib_crc32 lib decoded \<noteq> of_nat (from_le (take 4 footer)) then (out, Inl AeGzip)
                         else if length decoded \<noteq> from_le (take 4 (drop 4 footer)) then (out, Inl AeGzip)
                         else (out @ decoded, Inr ()))))"

subsection \<open>LZ4 blocks\<close>

definition LZ4_HEADER_LEN :: nat where "LZ4_HEADER_LEN = 21"

definition LZ4_MAGIC :: bytes where
  "LZ4_MAGIC = [0x4C, 0x5A, 0x34, 0x42, 0x6C, 0x6F, 0x63, 0x6B]"

definition checked_shl :: "nat \<Rightarrow> nat \<Rightarrow> nat option" where
  "checked_shl v n = (if n < 64 then Some (v * 2 ^ n mod 2 ^ 64) else None)"

record lz4_header =
  lh_raw :: bool
  lh_compressed_len :: nat
  lh_decompressed_len :: nat
  lh_checksum :: u32

text \<open>The checks of one block header, up to the choice between its body and the end mark.\<close>

definition lz4_header_of :: "bytes \<Rightarrow> (anvil_error, lz4_header) result" where
  "lz4_header_of header =
     (if take 8 header \<noteq> LZ4_MAGIC then Inl AeLz4
      else let token = header ! 8; meth = token AND 0xF0; level = token AND 0x0F in
        if meth \<noteq> 0x10 \<and> meth \<noteq> 0x20 then Inl AeLz4
        else let compressed_len = from_le (take 4 (drop 9 header));
                 decompressed_len = from_le (take 4 (drop 13 header));
                 checksum = of_nat (from_le (take 4 (drop 17 header)))
          in bindE (ok_or AeLz4 (checked_shl 1 (10 + unat level))) (\<lambda>max_body.
             if decompressed_len > max_body then Inl AeLz4
             else if (compressed_len = 0) \<noteq> (decompressed_len = 0) then Inl AeLz4
             else if meth = 0x10 \<and> compressed_len \<noteq> decompressed_len then Inl AeLz4
             else Inr \<lparr>lh_raw = (meth = 0x10), lh_compressed_len = compressed_len,
                       lh_decompressed_len = decompressed_len, lh_checksum = checksum\<rparr>))"

definition lz4_checksum :: "'d codec_lib \<Rightarrow> bytes \<Rightarrow> u32" where
  "lz4_checksum lib bs = ucast (lib_xxh32 lib 0x9747b28c bs AND 0x0FFFFFFF)"

function lz4_loop :: "'d codec_lib \<Rightarrow> bytes \<Rightarrow> nat \<Rightarrow> bytes \<Rightarrow> bytes \<times> (anvil_error, unit) result" where
  "lz4_loop lib body pos out =
     (case slice_get body pos (pos + LZ4_HEADER_LEN) of
        None \<Rightarrow> (out, Inl AeLz4)
      | Some header \<Rightarrow>
          (case lz4_header_of header of
             Inl e \<Rightarrow> (out, Inl e)
           | Inr h \<Rightarrow>
               if lh_decompressed_len h = 0
               then (out, if lh_checksum h = 0 then Inr () else Inl AeLz4)
               else let pos1 = pos + LZ4_HEADER_LEN;
                        start = length out;
                        end_output = start + lh_decompressed_len h
                 in if end_output > MAX_DECOMPRESSED then (out, Inl OutputTooLarge)
                    else (case slice_get body pos1 (pos1 + lh_compressed_len h) of
                            None \<Rightarrow> (out, Inl AeLz4)
                          | Some block \<Rightarrow>
                              (case (if lh_raw h then Inr (out @ block)
                                     else (case lib_lz4_block lib block (replicate (lh_decompressed_len h) 0) of
                                             Inl _ \<Rightarrow> Inl AeLz4
                                           | Inr (decoded, buf) \<Rightarrow>
                                               if decoded \<noteq> lh_decompressed_len h then Inl AeLz4 else Inr (out @ buf))) of
                                 Inl e \<Rightarrow> (out, Inl e)
                               | Inr out1 \<Rightarrow>
                                   if lz4_checksum lib (drop start out1) \<noteq> lh_checksum h
                                   then (take start out1, Inl AeLz4)
                                   else lz4_loop lib body (pos1 + lh_compressed_len h) out1))))"
  by auto
termination
  by (relation "measure (\<lambda>(lib, body, pos, out). length body - pos)")
    (auto simp: slice_get_def LZ4_HEADER_LEN_def split: if_splits)

declare lz4_loop.simps [simp del]

definition unlz4 :: "'d codec_lib \<Rightarrow> bytes \<Rightarrow> bytes \<Rightarrow> bytes \<times> (anvil_error, unit) result" where
  "unlz4 lib body out = lz4_loop lib body 0 out"

subsection \<open>Decompressing a payload\<close>

definition decompress_into ::
  "'d codec_lib \<Rightarrow> bytes \<Rightarrow> bytes \<Rightarrow> (bytes \<times> (anvil_error, compression) result) option" where
  "decompress_into lib payload out =
     (case payload of
        [] \<Rightarrow> Some ([], Inl EmptyPayload)
      | kind # body \<Rightarrow>
          (case compression_of kind of
             Inl e \<Rightarrow> Some ([], Inl e)
           | Inr codec \<Rightarrow>
               (case codec of
                  Raw \<Rightarrow> Some (if length body > MAX_DECOMPRESSED then ([], Inl OutputTooLarge)
                               else ([] @ body, Inr codec))
                | Zlib \<Rightarrow> Some (case inflate_zlib_capped lib body of
                                  Inl e \<Rightarrow> ([], Inl e) | Inr out' \<Rightarrow> (out', Inr codec))
                | Gzip \<Rightarrow> (case gunzip_capped lib body [] of
                             None \<Rightarrow> None
                           | Some (out', r) \<Rightarrow> Some (out', bindE r (\<lambda>_. Inr codec)))
                | Lz4 \<Rightarrow> (case unlz4 lib body [] of
                            (out', r) \<Rightarrow> Some (out', bindE r (\<lambda>_. Inr codec))))))"

subsection \<open>The inflate loop ends\<close>

text \<open>
  What the loop relies on of the inflater: it keeps the length of the buffer, reports no more output
  than there was room for, and asks for more room only when it has filled the room it had.
\<close>

definition inflater_fills :: "'d codec_lib \<Rightarrow> bool" where
  "inflater_fills lib \<longleftrightarrow>
     (\<forall>d input buf base. base \<le> length buf \<longrightarrow>
        (case lib_inflate lib d input buf base of
           (d', buf', st, ic, oc) \<Rightarrow> length buf' = length buf \<and> base + oc \<le> length buf
             \<and> (st = HasMoreOutput \<longrightarrow> base + oc = length buf)))"

lemma inflater_fillsD:
  assumes "inflater_fills lib" "base \<le> length buf" "lib_inflate lib d input buf base = (d', buf', st, ic, oc)"
  shows "length buf' = length buf" "base + oc \<le> length buf" "st = HasMoreOutput \<Longrightarrow> base + oc = length buf"
proof -
  have "case lib_inflate lib d input buf base of
         (d', buf', st, ic, oc) \<Rightarrow> length buf' = length buf \<and> base + oc \<le> length buf
           \<and> (st = HasMoreOutput \<longrightarrow> base + oc = length buf)"
    using assms(1,2) by (simp add: inflater_fills_def)
  then show "length buf' = length buf" "base + oc \<le> length buf" "st = HasMoreOutput \<Longrightarrow> base + oc = length buf"
    by (simp_all add: assms(3))
qed

lemma inflate_ends:
  assumes "inflater_fills lib" "length out \<le> MAX_DECOMPRESSED"
  shows "\<exists>r. inflate_loop lib d out input = Some r \<and> (\<forall>x. r = Inr x \<longrightarrow> length x \<le> MAX_DECOMPRESSED)"
  using assms(2)
proof (induction "MAX_DECOMPRESSED - length out" arbitrary: d out input rule: less_induct)
  case less
  let ?room = "MAX_DECOMPRESSED - length out"
  let ?buf = "out @ replicate (min ?room 65536) 0"
  show ?case
  proof (cases "?room = 0")
    case True
    then show ?thesis by (subst inflate_loop.simps) simp
  next
    case False
    obtain d' buf' st ic oc where lib: "lib_inflate lib d input ?buf (length out) = (d', buf', st, ic, oc)"
      by (metis prod_cases5)
    note fill = inflater_fillsD [OF assms(1) _ lib, simplified]
    have len: "length ?buf \<le> MAX_DECOMPRESSED" using less.prems by simp
    show ?thesis
    proof (cases "slice_get input ic (length input)")
      case None
      then show ?thesis using False lib by (subst inflate_loop.simps) (simp add: Let_def)
    next
      case (Some input')
      show ?thesis
      proof (cases st)
        case HasMoreOutput
        let ?out' = "take (length out + oc) buf'"
        have out': "length ?out' = length out + min ?room 65536" using fill HasMoreOutput by simp
        then have "\<exists>r. inflate_loop lib d' ?out' input' = Some r \<and> (\<forall>x. r = Inr x \<longrightarrow> length x \<le> MAX_DECOMPRESSED)"
          using False less.prems by (intro less.hyps) auto
        then show ?thesis using False lib Some HasMoreOutput by (subst inflate_loop.simps) (simp add: Let_def)
      next
        case Done
        have "length (take (length out + oc) buf') \<le> MAX_DECOMPRESSED" using fill(1,2) len less.prems by auto
        then show ?thesis using False lib Some Done by (subst inflate_loop.simps) (simp add: Let_def)
      next
        case OtherStatus
        then show ?thesis using False lib Some by (subst inflate_loop.simps) (simp add: Let_def)
      qed
    qed
  qed
qed

lemma decompress_ends:
  assumes "inflater_fills lib"
  shows "\<exists>out' r. decompress_into lib payload out = Some (out', r)"
proof (cases payload)
  case (Cons kind body)
  have ex: "\<exists>r. inflate_raw_exact lib stream = Some r" for stream
    using inflate_ends [OF assms, of "[]" "lib_inflate_new lib" stream] by (auto simp: inflate_raw_exact_def)
  have "\<exists>x. gunzip_capped lib body [] = Some x"
  proof (cases "gzip_header body")
    case (Inr pos)
    obtain r where "inflate_raw_exact lib (take (length body - 8 - pos) (drop pos body)) = Some r" using ex by blast
    then show ?thesis by (cases r) (simp_all add: gunzip_capped_def Inr Let_def)
  qed (simp add: gunzip_capped_def)
  then show ?thesis
    using Cons by (auto simp: decompress_into_def split: sum.split compression.split option.split prod.split)
qed (simp add: decompress_into_def)

subsection \<open>What a gzip body must satisfy\<close>

lemma gunzip_ok_iff:
  "gunzip_capped lib body out = Some (out', Inr ()) \<longleftrightarrow>
    (\<exists>pos decoded. gzip_header body = Inr pos \<and> pos + 8 \<le> length body
       \<and> inflate_raw_exact lib (take (length body - 8 - pos) (drop pos body)) = Some (Inr decoded)
       \<and> lib_crc32 lib decoded = of_nat (from_le (take 4 (drop (length body - 8) body)))
       \<and> length decoded = from_le (drop 4 (drop (length body - 8) body))
       \<and> out' = out @ decoded)"
proof -
  have t4: "take 4 (drop 4 (drop (length body - 8) body)) = drop 4 (drop (length body - 8) body)" if "8 \<le> length body"
    using that by (intro take_all) simp
  show ?thesis
    using t4
    by (auto simp: gunzip_capped_def Let_def split: sum.splits option.splits)
qed

lemma gunzip_failed: "gunzip_capped lib body out = Some (out', Inl e) \<Longrightarrow> out' = out"
  by (auto simp: gunzip_capped_def Let_def split: sum.splits option.splits if_splits)

subsection \<open>LZ4 frames\<close>

text \<open>What Java's \<open>LZ4BlockOutputStream\<close> writes for stored blocks: one frame per block and an end mark.\<close>

definition lz4_frame :: "'d codec_lib \<Rightarrow> u8 \<Rightarrow> bytes \<Rightarrow> bytes" where
  "lz4_frame lib level block =
     LZ4_MAGIC @ [0x10 OR level] @ le_bytes 4 (length block) @ le_bytes 4 (length block)
       @ le_bytes 4 (unat (lz4_checksum lib block)) @ block"

definition lz4_end :: "u8 \<Rightarrow> bytes" where
  "lz4_end level = LZ4_MAGIC @ [0x10 OR level] @ replicate 12 0"

definition lz4_stream :: "'d codec_lib \<Rightarrow> u8 \<Rightarrow> bytes list \<Rightarrow> bytes" where
  "lz4_stream lib level blocks = concat (map (lz4_frame lib level) blocks) @ lz4_end level"

definition lz4_block_ok :: "u8 \<Rightarrow> bytes \<Rightarrow> bool" where
  "lz4_block_ok level block \<longleftrightarrow> block \<noteq> [] \<and> length block \<le> 2 ^ (10 + unat level)"

lemma level_token:
  assumes "level < 16"
  shows "(0x10 OR level) AND 0xF0 = (0x10 :: u8)" "(0x10 OR level) AND 0x0F = level"
proof -
  have "\<forall>n < 16. (0x10 OR (of_nat n :: u8)) AND 0xF0 = 0x10 \<and> (0x10 OR of_nat n) AND 0x0F = (of_nat n :: u8)"
    by code_simp
  moreover have "unat level < 16" using assms by (simp add: word_less_nat_alt)
  moreover have "of_nat (unat level) = level" by simp
  ultimately show "(0x10 OR level) AND 0xF0 = (0x10 :: u8)" "(0x10 OR level) AND 0x0F = level"
    by metis+
qed

lemma slice_get_at:
  "n \<le> length xs \<Longrightarrow> slice_get (pre @ xs @ rest) (length pre) (length pre + n) = Some (take n xs)"
  by (simp add: slice_get_def)

definition lz4_raw_header :: "'d codec_lib \<Rightarrow> u8 \<Rightarrow> bytes \<Rightarrow> bytes" where
  "lz4_raw_header lib level block =
     LZ4_MAGIC @ [0x10 OR level] @ le_bytes 4 (length block) @ le_bytes 4 (length block)
       @ le_bytes 4 (unat (lz4_checksum lib block))"

lemma lz4_frame_eq: "lz4_frame lib level block = lz4_raw_header lib level block @ block"
  by (simp add: lz4_frame_def lz4_raw_header_def)

lemma length_lz4_raw_header [simp]: "length (lz4_raw_header lib level block) = 21"
  by (simp add: lz4_raw_header_def LZ4_MAGIC_def)

lemma max_body: "level < 16 \<Longrightarrow> checked_shl 1 (10 + unat (level :: u8)) = Some (2 ^ (10 + unat level)) \<and> (2 :: nat) ^ (10 + unat level) < 2 ^ 32"
proof -
  assume "level < 16"
  then have l: "10 + unat level < 32" by (simp add: word_less_nat_alt)
  then have "(2 :: nat) ^ (10 + unat level) < 2 ^ 32" by (rule power_strict_increasing) simp
  moreover from this have "(2 :: nat) ^ (10 + unat level) mod 2 ^ 64 = 2 ^ (10 + unat level)" by (intro mod_less) simp
  ultimately show ?thesis using l by (simp add: checked_shl_def)
qed

lemma lz4_header_ok:
  assumes "level < 16" "lz4_block_ok level block"
  shows "lz4_header_of (lz4_raw_header lib level block)
    = Inr \<lparr>lh_raw = True, lh_compressed_len = length block, lh_decompressed_len = length block,
           lh_checksum = lz4_checksum lib block\<rparr>"
proof -
  let ?h = "lz4_raw_header lib level block"
  have parts: "take 8 ?h = LZ4_MAGIC" "?h ! 8 = 0x10 OR level" "take 4 (drop 9 ?h) = le_bytes 4 (length block)"
      "take 4 (drop 13 ?h) = le_bytes 4 (length block)" "take 4 (drop 17 ?h) = le_bytes 4 (unat (lz4_checksum lib block))"
    by (simp_all add: lz4_raw_header_def LZ4_MAGIC_def)
  note m = max_body [OF assms(1)]
  have len: "length block \<noteq> 0" "length block \<le> 2 ^ (10 + unat level)" using assms(2) by (simp_all add: lz4_block_ok_def)
  then have "length block < 2 ^ 32" using m by linarith
  then have l: "from_le (le_bytes 4 (length block)) = length block" by (simp add: from_le_le_bytes)
  have "unat (lz4_checksum lib block) < 2 ^ 32" using unsigned_less [where ?'a = nat, of "lz4_checksum lib block"] by simp
  then have c: "of_nat (from_le (le_bytes 4 (unat (lz4_checksum lib block)))) = lz4_checksum lib block"
    by (simp add: from_le_le_bytes)
  show ?thesis
    using m len by (simp add: lz4_header_of_def parts level_token [OF assms(1)] Let_def l c)
qed

lemma lz4_end_header: "level < 16 \<Longrightarrow> lz4_header_of (lz4_end level)
    = Inr \<lparr>lh_raw = True, lh_compressed_len = 0, lh_decompressed_len = 0, lh_checksum = 0\<rparr>"
proof -
  assume l: "level < 16"
  have r: "replicate 12 (0 :: u8) = [0,0,0,0,0,0,0,0,0,0,0,0]" by (simp add: numeral_eq_Suc)
  have "take 8 (lz4_end level) = LZ4_MAGIC" "lz4_end level ! 8 = 0x10 OR level"
      "take 4 (drop 9 (lz4_end level)) = [0,0,0,0]" "take 4 (drop 13 (lz4_end level)) = [0,0,0,0]"
      "take 4 (drop 17 (lz4_end level)) = [0,0,0,0]"
    by (simp_all add: lz4_end_def LZ4_MAGIC_def r)
  moreover have "from_le [0,0,0,0] = 0" by (simp add: from_le_def from_be_def)
  ultimately show ?thesis
    using max_body [OF l] by (simp add: lz4_header_of_def level_token [OF l] Let_def)
qed

lemma lz4_loop_stream:
  assumes "level < 16" "\<forall>b \<in> set blocks. lz4_block_ok level b"
    and "length out + length (concat blocks) \<le> MAX_DECOMPRESSED"
  shows "lz4_loop lib (pre @ lz4_stream lib level blocks) (length pre) out = (out @ concat blocks, Inr ())"
  using assms(2,3)
proof (induction blocks arbitrary: pre out)
  case Nil
  have "slice_get (pre @ lz4_end level @ []) (length pre) (length pre + 21) = Some (take 21 (lz4_end level))"
    by (rule slice_get_at) (simp add: lz4_end_def LZ4_MAGIC_def)
  moreover have "take 21 (lz4_end level) = lz4_end level" by (simp add: lz4_end_def LZ4_MAGIC_def)
  ultimately show ?case
    by (subst lz4_loop.simps) (simp add: lz4_stream_def LZ4_HEADER_LEN_def lz4_end_header [OF assms(1)])
next
  case (Cons b bs)
  let ?h = "lz4_raw_header lib level b"
  let ?rest = "lz4_stream lib level bs"
  let ?body = "pre @ lz4_stream lib level (b # bs)"
  have body: "?body = pre @ ?h @ b @ ?rest" by (simp add: lz4_stream_def lz4_frame_eq)
  have ok: "lz4_block_ok level b" using Cons.prems by simp
  have head: "slice_get ?body (length pre) (length pre + 21) = Some ?h"
    unfolding body using slice_get_at [of 21 ?h pre "b @ ?rest"] by simp
  have block: "slice_get ?body (length pre + 21) (length pre + 21 + length b) = Some b"
    unfolding body using slice_get_at [of "length b" b "pre @ ?h" ?rest] by simp
  have "lz4_loop lib ((pre @ ?h @ b) @ ?rest) (length (pre @ ?h @ b)) (out @ b) = ((out @ b) @ concat bs, Inr ())"
    using Cons.prems by (intro Cons.IH) simp_all
  then have rest: "lz4_loop lib ?body (length pre + 21 + length b) (out @ b) = (out @ b @ concat bs, Inr ())"
    unfolding body by (simp add: add.assoc)
  have "b \<noteq> []" "length out + length b \<le> MAX_DECOMPRESSED" using ok Cons.prems by (simp_all add: lz4_block_ok_def)
  then show ?case
    using rest by (subst lz4_loop.simps) (simp add: LZ4_HEADER_LEN_def head lz4_header_ok [OF assms(1) ok] Let_def block)
qed

text \<open>A failed decoder leaves whole blocks in the buffer and never more than the limit.\<close>

lemma lz4_header_raw: "lz4_header_of header = Inr h \<Longrightarrow> lh_raw h \<Longrightarrow> lh_compressed_len h = lh_decompressed_len h"
  by (auto simp: lz4_header_of_def Let_def bindE_eq_Inr split: if_splits)

lemma lz4_loop_bound:
  assumes "length out \<le> MAX_DECOMPRESSED"
    and keeps: "\<And>block buf n buf'. lib_lz4_block lib block buf = Inr (n, buf') \<Longrightarrow> length buf' = length buf"
  shows "length (fst (lz4_loop lib body pos out)) \<le> MAX_DECOMPRESSED
    \<and> take (length out) (fst (lz4_loop lib body pos out)) = out"
  using assms(1)
proof (induction "length body - pos" arbitrary: pos out rule: less_induct)
  case less
  let ?next = "lz4_loop lib body pos out"
  show ?case
  proof (cases "\<exists>header h ext. slice_get body pos (pos + LZ4_HEADER_LEN) = Some header
      \<and> lz4_header_of header = Inr h \<and> length ext = lh_decompressed_len h \<and> length (out @ ext) \<le> MAX_DECOMPRESSED
      \<and> ?next = lz4_loop lib body (pos + LZ4_HEADER_LEN + lh_compressed_len h) (out @ ext)")
    case True
    then obtain header ext and h :: lz4_header where s: "slice_get body pos (pos + LZ4_HEADER_LEN) = Some header"
        "length (out @ ext) \<le> MAX_DECOMPRESSED"
        "?next = lz4_loop lib body (pos + LZ4_HEADER_LEN + lh_compressed_len h) (out @ ext)" by blast
    have "length body - (pos + LZ4_HEADER_LEN + lh_compressed_len h) < length body - pos"
      using s(1) by (auto simp: slice_get_eq_Some LZ4_HEADER_LEN_def)
    from less.hyps [OF this s(2)] have r: "length (fst ?next) \<le> MAX_DECOMPRESSED"
        "take (length (out @ ext)) (fst ?next) = out @ ext" unfolding s(3) by blast+
    have "take (length out) (fst ?next) = out"
      using arg_cong [OF r(2), of "take (length out)"] by (simp add: min_def)
    then show ?thesis using r(1) by simp
  next
    case False
    have "fst ?next = out"
    proof (rule ccontr)
      assume ne: "fst ?next \<noteq> out"
      obtain header where h1: "slice_get body pos (pos + LZ4_HEADER_LEN) = Some header"
        using ne by (cases "slice_get body pos (pos + LZ4_HEADER_LEN)") (simp_all add: lz4_loop.simps [of lib body pos])
      obtain h where h2: "lz4_header_of header = Inr h"
        using ne by (cases "lz4_header_of header") (simp_all add: lz4_loop.simps [of lib body pos] h1)
      have h3: "lh_decompressed_len h \<noteq> 0" "length out + lh_decompressed_len h \<le> MAX_DECOMPRESSED"
        using ne by (auto simp: lz4_loop.simps [of lib body pos] h1 h2 Let_def split: if_splits)
      obtain block where h4: "slice_get body (pos + LZ4_HEADER_LEN) (pos + LZ4_HEADER_LEN + lh_compressed_len h) = Some block"
        using ne h3 by (cases "slice_get body (pos + LZ4_HEADER_LEN) (pos + LZ4_HEADER_LEN + lh_compressed_len h)")
          (simp_all add: lz4_loop.simps [of lib body pos] h1 h2)
      have bl: "length block = lh_compressed_len h" using h4 by (auto simp: slice_get_eq_Some)
      have "\<exists>ext. length ext = lh_decompressed_len h \<and> length (out @ ext) \<le> MAX_DECOMPRESSED
          \<and> ?next = lz4_loop lib body (pos + LZ4_HEADER_LEN + lh_compressed_len h) (out @ ext)"
      proof (cases "lh_raw h")
        case True
        have "?next = lz4_loop lib body (pos + LZ4_HEADER_LEN + lh_compressed_len h) (out @ block)"
          using ne h3 True by (auto simp: lz4_loop.simps [of lib body pos] h1 h2 h4 Let_def split: if_splits)
        moreover have "length block = lh_decompressed_len h" using bl lz4_header_raw [OF h2 True] by simp
        ultimately show ?thesis using h3(2) by (intro exI [of _ block]) simp
      next
        case raw: False
        have "\<exists>buf. lib_lz4_block lib block (replicate (lh_decompressed_len h) 0) = Inr (lh_decompressed_len h, buf)
            \<and> ?next = lz4_loop lib body (pos + LZ4_HEADER_LEN + lh_compressed_len h) (out @ buf)"
          using ne h3 raw
          by (auto simp: lz4_loop.simps [of lib body pos] h1 h2 h4 Let_def split: if_splits sum.splits)
        then obtain buf where buf: "lib_lz4_block lib block (replicate (lh_decompressed_len h) 0) = Inr (lh_decompressed_len h, buf)"
            "?next = lz4_loop lib body (pos + LZ4_HEADER_LEN + lh_compressed_len h) (out @ buf)" by blast
        moreover have "length buf = lh_decompressed_len h" using keeps [OF buf(1)] by simp
        ultimately show ?thesis using h3(2) by (intro exI [of _ buf]) simp
      qed
      then show False using False h1 h2 by blast
    qed
    then show ?thesis using less.prems by simp
  qed
qed

end
