(* ===== verification/Chunk_Keys.thy ===== *)
theory Chunk_Keys
  imports Anvil_Codec Blob_Store
begin

section \<open>Chunk keys and chunk differences\<close>

text \<open>
  \<open>crates/anvil/src/nbt/mod.rs\<close>, \<open>nbt/chunk.rs\<close>, \<open>nbt/chunk/legacy.rs\<close>, \<open>hash.rs\<close> and
  \<open>crates/core/src/usecase/diff.rs\<close>: which bytes of a chunk its key is the digest of. The NBT
  reader and writer (\<open>nanonbt\<close> and the code its derive macros generate) are not part of the
  repository: \<open>nbt_lib\<close> holds the two decoders, the two encoders of the normalized views and the
  two steps of the plain traversal. Values the code never looks into are opaque. The digest
  function is the argument \<open>H\<close>, as for commits.
\<close>

subsection \<open>The two chunk shapes\<close>

record 'x level_chunk =
  lc_data_version :: i32
  lc_x_pos :: i32
  lc_z_pos :: i32
  lc_y_pos :: i32
  lc_status :: bytes
  lc_last_update :: u64
  lc_sections :: "'x list"
  lc_block_entities :: "'x list"
  lc_heightmaps :: 'x
  lc_fluid_ticks :: "'x list"
  lc_block_ticks :: "'x list"
  lc_inhabited_time :: u64
  lc_blending_data :: "'x"
  lc_post_processing :: "'x list"
  lc_structures :: "'x"
  lc_is_light_on :: bool

record 'x normalized_chunk =
  nc_data_version :: i32
  nc_x_pos :: i32
  nc_z_pos :: i32
  nc_y_pos :: i32
  nc_status :: bytes
  nc_sections :: "'x list"
  nc_block_entities :: "'x list"
  nc_heightmaps :: 'x
  nc_fluid_ticks :: "'x list"
  nc_block_ticks :: "'x list"
  nc_blending_data :: "'x"
  nc_post_processing :: "'x list"
  nc_structures :: "'x"
  nc_is_light_on :: bool

record 'x legacy_inner =
  li_data_version :: i32
  li_x_pos :: i32
  li_y_pos :: i32
  li_z_pos :: i32
  li_inhabited_time :: u64
  li_last_update :: u64
  li_terrain_populated :: u8
  li_sections :: "'x list"
  li_height_map :: "i32 list"
  li_block_entities :: "'x list"
  li_block_ticks :: "'x list"
  li_fluid_ticks :: "'x list"

record 'x legacy_chunk =
  lg_level :: "'x legacy_inner"
  lg_data_version :: i32

record 'x normalized_legacy =
  nl_data_version :: i32
  nl_x_pos :: i32
  nl_y_pos :: i32
  nl_z_pos :: i32
  nl_sections :: "'x list"
  nl_height_map :: "i32 list"
  nl_terrain_populated :: u8
  nl_block_entities :: "'x list"
  nl_block_ticks :: "'x list"
  nl_fluid_ticks :: "'x list"

datatype nbt_error = UnexpectedEof | MissingField string | InvalidTag nat nat | NbtOther

datatype 'x nbt_chunk = Modern "'x level_chunk" | Legacy "'x legacy_chunk"

text \<open>
  \<open>nbt_name\<close> is \<open>read_string_into\<close> and \<open>nbt_skip_compound\<close> is \<open>skip_nbt\<close> on a compound:
  both answer the position after what they read.
\<close>

record 'x nbt_lib =
  nbt_modern :: "bytes \<Rightarrow> (nbt_error, 'x level_chunk) result"
  nbt_legacy :: "bytes \<Rightarrow> (nbt_error, 'x legacy_chunk) result"
  nbt_encode_modern :: "'x normalized_chunk \<Rightarrow> (nbt_error, bytes) result"
  nbt_encode_legacy :: "'x normalized_legacy \<Rightarrow> (nbt_error, bytes) result"
  nbt_name :: "bytes \<Rightarrow> nat \<Rightarrow> (nbt_error, nat) result"
  nbt_skip_compound :: "bytes \<Rightarrow> nat \<Rightarrow> (nbt_error, nat) result"

datatype chunk_hash_error = Decompress anvil_error | Invalid nbt_error | Normalize nbt_error

definition is_truncated :: "chunk_hash_error \<Rightarrow> bool" where
  "is_truncated e = (case e of Invalid src \<Rightarrow> src = UnexpectedEof | _ \<Rightarrow> False)"

subsection \<open>Keys\<close>

definition parse_nbt :: "'x nbt_lib \<Rightarrow> bytes \<Rightarrow> (nbt_error, 'x nbt_chunk) result" where
  "parse_nbt lib bs =
     (case nbt_modern lib bs of
        Inr modern \<Rightarrow> Inr (Modern modern)
      | Inl modern \<Rightarrow>
          (case nbt_legacy lib bs of
             Inr legacy \<Rightarrow> Inr (Legacy legacy)
           | Inl legacy \<Rightarrow> if modern = MissingField ''Level'' then Inl legacy else Inl modern))"

definition normalize_modern :: "'x level_chunk \<Rightarrow> 'x normalized_chunk" where
  "normalize_modern p =
     \<lparr>nc_data_version = lc_data_version p, nc_x_pos = lc_x_pos p, nc_z_pos = lc_z_pos p,
      nc_y_pos = lc_y_pos p, nc_status = lc_status p, nc_sections = lc_sections p,
      nc_block_entities = lc_block_entities p, nc_heightmaps = lc_heightmaps p,
      nc_fluid_ticks = lc_fluid_ticks p, nc_block_ticks = lc_block_ticks p,
      nc_blending_data = lc_blending_data p, nc_post_processing = lc_post_processing p,
      nc_structures = lc_structures p, nc_is_light_on = lc_is_light_on p\<rparr>"

definition normalize_legacy :: "'x legacy_chunk \<Rightarrow> 'x normalized_legacy" where
  "normalize_legacy p =
     \<lparr>nl_data_version = lg_data_version p, nl_x_pos = li_x_pos (lg_level p),
      nl_y_pos = li_y_pos (lg_level p), nl_z_pos = li_z_pos (lg_level p),
      nl_sections = li_sections (lg_level p), nl_height_map = li_height_map (lg_level p),
      nl_terrain_populated = li_terrain_populated (lg_level p),
      nl_block_entities = li_block_entities (lg_level p),
      nl_block_ticks = li_block_ticks (lg_level p), nl_fluid_ticks = li_fluid_ticks (lg_level p)\<rparr>"

definition modern_hash :: "(bytes \<Rightarrow> hash32) \<Rightarrow> 'x nbt_lib \<Rightarrow> 'x level_chunk \<Rightarrow> (nbt_error, chunk_hash) result" where
  "modern_hash H lib p = bindE (nbt_encode_modern lib (normalize_modern p)) (\<lambda>bs. Inr (H bs))"

definition legacy_hash :: "(bytes \<Rightarrow> hash32) \<Rightarrow> 'x nbt_lib \<Rightarrow> 'x legacy_chunk \<Rightarrow> (nbt_error, chunk_hash) result" where
  "legacy_hash H lib p = bindE (nbt_encode_legacy lib (normalize_legacy p)) (\<lambda>bs. Inr (H bs))"

definition nbt_chunk_hash :: "(bytes \<Rightarrow> hash32) \<Rightarrow> 'x nbt_lib \<Rightarrow> 'x nbt_chunk \<Rightarrow> (nbt_error, chunk_hash) result" where
  "nbt_chunk_hash H lib c = (case c of Modern p \<Rightarrow> modern_hash H lib p | Legacy p \<Rightarrow> legacy_hash H lib p)"

definition validate_nbt :: "'x nbt_lib \<Rightarrow> bytes \<Rightarrow> (nbt_error, unit) result" where
  "validate_nbt lib bs =
     (case bs of
        [] \<Rightarrow> Inl UnexpectedEof
      | tag # _ \<Rightarrow>
          if tag \<noteq> 10 then Inl (InvalidTag 10 (unat tag))
          else bindE (nbt_name lib bs 1) (\<lambda>pos. bindE (nbt_skip_compound lib bs pos) (\<lambda>_. Inr ())))"

definition chunk_key ::
  "(bytes \<Rightarrow> hash32) \<Rightarrow> 'x nbt_lib \<Rightarrow> region_kind \<Rightarrow> bytes \<Rightarrow> (chunk_hash_error, chunk_hash) result" where
  "chunk_key H lib kind raw_nbt =
     (case kind of
        Region \<Rightarrow>
          bindE (map_err Invalid (parse_nbt lib raw_nbt)) (\<lambda>c. map_err Normalize (nbt_chunk_hash H lib c))
      | _ \<Rightarrow> bindE (map_err Invalid (validate_nbt lib raw_nbt)) (\<lambda>_. Inr (H raw_nbt)))"

definition normalized_hash ::
  "(bytes \<Rightarrow> hash32) \<Rightarrow> 'd codec_lib \<Rightarrow> 'x nbt_lib \<Rightarrow> chunk \<Rightarrow> (chunk_hash_error, chunk_hash) result option" where
  "normalized_hash H codec lib c =
     map_option (\<lambda>(raw_nbt, r). bindE (map_err Decompress r) (\<lambda>_. chunk_key H lib (ch_kind c) raw_nbt))
       (decompress_into codec (ch_payload c) [])"

definition custom_dimension_id_bytes :: "(bytes \<Rightarrow> hash32) \<Rightarrow> bytes \<Rightarrow> dimension" where
  "custom_dimension_id_bytes H key = Dimension (I32 (of_nat (from_le (take 4 (hash_bytes_list (H key))))))"

definition custom_dimension_id :: "(bytes \<Rightarrow> hash32) \<Rightarrow> rstr \<Rightarrow> dimension" where
  "custom_dimension_id H key = custom_dimension_id_bytes H (as_bytes key)"

subsection \<open>Differences\<close>

record payload_diff =
  pd_old :: "chunk_hash option"
  pd_new :: "chunk_hash option"

definition from_sides :: "chunk_hash option \<Rightarrow> chunk_hash option \<Rightarrow> payload_diff" where
  "from_sides old new = \<lparr>pd_old = old, pd_new = new\<rparr>"

definition diff_is_empty :: "payload_diff \<Rightarrow> bool" where
  "diff_is_empty d \<longleftrightarrow> pd_old d = pd_new d"

datatype 'b diff_error = DiffBlob 'b | DiffAnvil anvil_error | DiffChunkHash chunk_hash_error

definition chunk_digest ::
  "(bytes \<Rightarrow> hash32) \<Rightarrow> 'd codec_lib \<Rightarrow> 'x nbt_lib \<Rightarrow> bytes \<Rightarrow> ('b diff_error, chunk_hash) result option" where
  "chunk_digest H codec lib payload =
     map_option (map_err (\<lambda>e. case e of Decompress src \<Rightarrow> DiffAnvil src | _ \<Rightarrow> DiffChunkHash e))
       (normalized_hash H codec lib (chunk_new Region (I32 0) (I32 0) payload))"

definition diff_blobs ::
  "(bytes \<Rightarrow> hash32) \<Rightarrow> 'd codec_lib \<Rightarrow> 'x nbt_lib \<Rightarrow> ('b, 'e) blob_port \<Rightarrow> 'b \<Rightarrow> chunk_hash \<Rightarrow> chunk_hash
     \<Rightarrow> ('e diff_error, payload_diff) result option" where
  "diff_blobs H codec lib bp b old_hash new_hash =
     (case bp_fetch_into bp b old_hash [] of
        (_, Inl e) \<Rightarrow> Some (Inl (DiffBlob e))
      | (old_payload, Inr _) \<Rightarrow>
          (case bp_fetch_into bp b new_hash [] of
             (_, Inl e) \<Rightarrow> Some (Inl (DiffBlob e))
           | (new_payload, Inr _) \<Rightarrow>
               Option.bind (chunk_digest H codec lib old_payload) (\<lambda>old.
                 case old of
                   Inl e \<Rightarrow> Some (Inl e)
                 | Inr old' \<Rightarrow>
                     map_option (\<lambda>new. bindE new (\<lambda>new'. Inr (from_sides (Some old') (Some new'))))
                       (chunk_digest H codec lib new_payload))))"

subsection \<open>What a key depends on\<close>

text \<open>The tags the server rewrites on its own never reach the digest.\<close>

lemma modern_hash_volatile:
  "modern_hash H lib (p\<lparr>lc_last_update := u, lc_inhabited_time := v\<rparr>) = modern_hash H lib p"
  by (simp add: modern_hash_def normalize_modern_def)

lemma legacy_hash_volatile:
  "legacy_hash H lib (p\<lparr>lg_level := (lg_level p)\<lparr>li_last_update := u, li_inhabited_time := v\<rparr>\<rparr>) = legacy_hash H lib p"
  by (simp add: legacy_hash_def normalize_legacy_def)

text \<open>Everything else does, when the encoder and the digest separate what they are given.\<close>

lemma normalize_modern_inject:
  "normalize_modern p = normalize_modern q \<longleftrightarrow>
     p\<lparr>lc_last_update := 0, lc_inhabited_time := 0\<rparr> = q\<lparr>lc_last_update := 0, lc_inhabited_time := 0\<rparr>"
  by (cases p; cases q) (auto simp: normalize_modern_def)

lemma modern_hash_separates:
  assumes "nbt_encode_modern lib (normalize_modern p) = Inr x" "nbt_encode_modern lib (normalize_modern q) = Inr y"
    and enc: "\<And>a b bs. nbt_encode_modern lib a = Inr bs \<Longrightarrow> nbt_encode_modern lib b = Inr bs \<Longrightarrow> a = b"
    and dig: "H x = H y \<Longrightarrow> x = y"
  shows "modern_hash H lib p = modern_hash H lib q
    \<longleftrightarrow> p\<lparr>lc_last_update := 0, lc_inhabited_time := 0\<rparr> = q\<lparr>lc_last_update := 0, lc_inhabited_time := 0\<rparr>"
proof -
  have "modern_hash H lib p = modern_hash H lib q \<longleftrightarrow> H x = H y" using assms(1,2) by (simp add: modern_hash_def)
  also have "\<dots> \<longleftrightarrow> x = y" using dig by blast
  also have "\<dots> \<longleftrightarrow> normalize_modern p = normalize_modern q" using assms(1,2) enc by auto
  finally show ?thesis by (simp only: normalize_modern_inject)
qed

text \<open>No payload is keyed by default.\<close>

lemma chunk_key_ok:
  "chunk_key H lib kind bs = Inr h \<Longrightarrow>
     (case kind of
        Region \<Rightarrow> \<exists>c. parse_nbt lib bs = Inr c \<and> nbt_chunk_hash H lib c = Inr h
      | _ \<Rightarrow> validate_nbt lib bs = Inr () \<and> h = H bs)"
  by (cases kind) (auto simp: chunk_key_def bindE_eq_Inr map_err_eq_Inr)

lemma parse_nbt_ok_iff:
  "(\<exists>c. parse_nbt lib bs = Inr c) \<longleftrightarrow> (\<exists>m. nbt_modern lib bs = Inr m) \<or> (\<exists>l. nbt_legacy lib bs = Inr l)"
  by (auto simp: parse_nbt_def split: sum.splits)

text \<open>
  The modern shape has no field \<open>Level\<close>, so its decoder never misses one: the first arm of the
  error selection is never taken and a failed legacy chunk always reports the modern failure.
\<close>

lemma parse_error_is_modern:
  assumes "nbt_modern lib bs \<noteq> Inl (MissingField ''Level'')" "parse_nbt lib bs = Inl e"
  shows "nbt_modern lib bs = Inl e"
  using assms by (auto simp: parse_nbt_def split: sum.splits if_splits)

context blob_store begin

lemma diff_blobs_stored:
  assumes "bvalid b" "blobs b old = Some p" "blobs b new = Some q"
    and "chunk_digest H codec lib p = Some (Inr x :: ('e diff_error, chunk_hash) result)"
    and "chunk_digest H codec lib q = Some (Inr y :: ('e diff_error, chunk_hash) result)"
  shows "diff_blobs H codec lib bport b old new = Some (Inr (from_sides (Some x) (Some y)))"
  using assms by (simp add: diff_blobs_def fetch_hit)

lemma diff_blobs_missing:
  assumes "bvalid b" "blobs b old = None \<or> blobs b new = None"
  shows "\<exists>e. diff_blobs H codec lib bport b old new = Some (Inl (DiffBlob e))"
proof (cases "blobs b old")
  case None
  then show ?thesis using fetch_miss [OF assms(1), of old "[]"] by (auto simp: diff_blobs_def)
next
  case (Some p)
  then show ?thesis
    using assms fetch_hit [OF assms(1) Some, of "[]"] fetch_miss [OF assms(1), of new "[]"]
    by (auto simp: diff_blobs_def)
qed

end

end
