(* ===== verification/Examples.thy ===== *)
theory Examples
  imports Usecase_Prune
begin

section \<open>A small store\<close>

text \<open>
  Concrete databases the witnesses evaluate. \<open>demo_db\<close> holds three commits in a line, each with
  rows, one ref on the newest, one on the oldest, and one scope. The digest of the examples is the
  length of the bytes: nothing depends on which function it is.
\<close>

definition demo_H :: "bytes \<Rightarrow> hash32" where
  "demo_H bs = of_nat (length bs)"

definition demo_coord :: "int \<Rightarrow> chunk_coord" where
  "demo_coord x = ChunkCoord (Dimension (i32_of 0)) Region (i32_of x) (i32_of 0)"

definition demo_db :: meta_db where
  "demo_db =
     \<lparr>t_commits =
        [\<lparr>cm_seq = 1, cm_id = commit_param 11, cm_created_at_ms = 100\<rparr>,
         \<lparr>cm_seq = 2, cm_id = commit_param 12, cm_created_at_ms = 200\<rparr>,
         \<lparr>cm_seq = 3, cm_id = commit_param 13, cm_created_at_ms = 300\<rparr>],
      t_parents = [(commit_param 12, commit_param 11), (commit_param 13, commit_param 12)],
      t_history =
        [history_row_of 11 1 (demo_coord 0) (Some 5), history_row_of 11 1 (demo_coord 1) (Some 6),
         history_row_of 12 2 (demo_coord 0) (Some 7), history_row_of 13 3 (demo_coord 1) None],
      t_refs =
        [\<lparr>rr_name = DEFAULT_REF_NAME, rr_commit = Some (commit_param 13), rr_active = 1,
          rr_created_at_ms = 50\<rparr>,
         \<lparr>rr_name = lit ''old'', rr_commit = Some (commit_param 11), rr_active = 0,
          rr_created_at_ms = 60\<rparr>],
      t_scopes = [\<lparr>sr_id = 1, sr_name = lit ''spawn'', sr_created_at_ms = 70\<rparr>],
      t_areas = [\<lparr>ar_scope = 1, ar_dim = 0, ar_x0 = -4, ar_z0 = -4, ar_x1 = 3, ar_z1 = 3\<rparr>],
      commits_autoinc = 3, scopes_autoinc = 1, user_version = 15\<rparr>"

lemma demo_wf: "wf_db demo_db"
  by code_simp

lemma demo_linear: "linear_db demo_db"
  by code_simp

lemma demo_plan: "prune_plan (sqlite_port demo_H) demo_db {12, 13} = Inr \<lparr>pp_delete = [11], pp_retained = [12, 13]\<rparr>"
  by code_simp

end
