(* ===== verification/Value_Properties.thy ===== *)
theory Value_Properties
  imports Hex Scopes Commit_Hash Storage_Api
begin

section \<open>Properties of the value types\<close>

text \<open>
  The claims about \<open>crates/util\<close>, the commit hash of \<open>crates/core\<close> and the backend URL of
  \<open>crates/storage\<close>, each with a closed instance where it has a hypothesis.
\<close>

text \<open>C38: The preimage of a commit hash determines the set of parents, the time and the set of
  entries, and nothing else does: two commits have the same preimage exactly when they have the same
  parents, time and entries up to order and repetition.\<close>

theorem commit_preimage_canonical:
  assumes "length p < 2 ^ 64" "length p' < 2 ^ 64" "length e < 2 ^ 64" "length e' < 2 ^ 64"
  shows "commit_preimage p t e = commit_preimage p' t' e'
    \<longleftrightarrow> set p = set p' \<and> t = t' \<and> set e = set e'"
proof
  assume "commit_preimage p t e = commit_preimage p' t' e'"
  then show "set p = set p' \<and> t = t' \<and> set e = set e'" by (rule commit_preimage_inject [OF assms])
next
  assume "set p = set p' \<and> t = t' \<and> set e = set e'"
  then show "commit_preimage p t e = commit_preimage p' t' e'" using commit_preimage_cong by blast
qed

theorem commit_preimage_canonical_witness:
  "commit_preimage [2, 1, 2] 7 [] = commit_preimage [1, 2] 7 [] \<and> commit_preimage [1] 7 [] \<noteq> commit_preimage [] 7 []"
  using commit_preimage_canonical [of "[2, 1, 2]" "[1, 2]" "[]" "[]" 7 7]
    commit_preimage_canonical [of "[1]" "[]" "[]" "[]" 7 7] by (simp add: insert_commute)

lemma unhex_loop_err:
  "even (length s) \<Longrightarrow> find (\<lambda>b. \<not> hex_char b) s = Some b \<Longrightarrow> unhex_loop s = Inl (BadHexChar b)"
proof (induction s rule: unhex_loop.induct)
  case (1 h l rest)
  show ?case
  proof (cases "hex_char h \<and> hex_char l")
    case True
    then obtain m n where "decode_nibble h = Inr m" "decode_nibble l = Inr n"
      using decode_nibble_ok_iff by blast
    then show ?thesis using 1 True by simp
  next
    case False
    show ?thesis
    proof (cases "hex_char h")
      case True
      then obtain m where "decode_nibble h = Inr m" using decode_nibble_ok_iff by blast
      then show ?thesis using "1.prems"(2) False True decode_nibble_err [of l] by simp
    next
      case False
      then show ?thesis using "1.prems"(2) decode_nibble_err [of h] by simp
    qed
  qed
qed simp_all

text \<open>\<open>from_hex\<close> of any bytes: a wrong length is reported with the length, otherwise the first
  character that is not a hexadecimal digit, and otherwise the value whose lowercase form the
  input spells.\<close>

lemma from_hex_answers:
  "case from_hex s of
     Inl e \<Rightarrow> e = (if length s \<noteq> 64 then BadHexLength (length s)
                   else BadHexChar (the (find (\<lambda>b. \<not> hex_char b) s)))
   | Inr h \<Rightarrow> length s = 64 \<and> filter hex_char s = s \<and> hex_into h = map lower_u8 s"
proof (cases "length s = 64")
  case False
  then show ?thesis by (simp add: from_hex_def hex32_from_def)
next
  case len: True
  then have ev: "even (length s)" by simp
  show ?thesis
  proof (cases "find (\<lambda>b. \<not> hex_char b) s")
    case (Some b)
    then show ?thesis using len unhex_loop_err [OF ev] by (simp add: from_hex_def hex32_from_def)
  next
    case None
    then have all: "\<forall>b \<in> set s. hex_char b" by (simp add: find_None_iff)
    then obtain bs where bs: "unhex_loop s = Inr bs" using unhex_loop_ok_iff [OF ev] by blast
    then have hex: "hex_loop bs = map lower_u8 s" using hex_unhex_loop ev by blast
    then have "length (hex_loop bs) = 64" using len by simp
    then have "length bs = 32" by simp
    then show ?thesis using bs len hex all
      by (simp add: from_hex_def hex32_from_def hex_into_def hex32_into_def hash_bytes_list_of_bytes filter_id_conv)
  qed
qed

text \<open>A commit id prints as 64 ASCII digits that parse back to it.\<close>

lemma commit_id_print_parse:
  "\<exists>s. commit_id_display i = Some s \<and> length s = 64 \<and> commit_id_from_str s = Inr i"
proof -
  have "as_bytes (map unat (hex_into i)) = hex_into i"
    using as_bytes_ascii_str ascii_hex_into by blast
  then show ?thesis by (simp add: commit_id_display_def ascii_hex_into commit_id_from_str_def)
qed

text \<open>A string is accepted as a ref name exactly when it has 1 to 64 characters of the allowed
  ASCII ones, no empty component, no dot segment, is not all digits and does not spell \<open>HEAD\<close> in
  any case; the name then is the string itself.\<close>

lemma ref_name_grammar:
  "ref_name_parse s = Inr n \<longleftrightarrow>
     n = RefName s \<and> s \<noteq> [] \<and> length s \<le> 64 \<and> list_all name_char s
     \<and> list_all (\<lambda>p. p \<notin> {[], [46], [46, 46]}) (split_on 47 s)
     \<and> (\<exists>c \<in> set s. \<not> is_ascii_digit c) \<and> to_ascii_lowercase s \<noteq> lit ''head''"
  by (auto simp: ref_name_parse_ok_iff valid_ref_name_def valid_name_def list_all_iff)

text \<open>The first rule a ref name breaks decides the error: a name over 64 bytes is too long
  whatever it holds, and otherwise the first character that is not allowed is the one reported.\<close>

lemma ref_name_errors:
  assumes "s \<noteq> []" "find (\<lambda>c. \<not> name_char c) s = Some c"
  shows "ref_name_parse s = Inl (if byte_len s > 64 then RefTooLong 64 else RefBadChar c)"
  using assms by (simp add: ref_name_parse_def name_check_def NAME_MAX_LEN_def)

text \<open>The filters of a scope over regions bracket its filter over chunks: a region it does not
  match holds no chunk of the scope, a region it covers holds only chunks of the scope.\<close>

lemma scope_region_filters:
  assumes "region_key_of c = k"
  shows "(scope_contains s c \<longrightarrow> scope_matches_region s k) \<and> (scope_covers_region s k \<longrightarrow> scope_contains s c)"
  using assms scope_contains_matches scope_covers_contains by blast

text \<open>The rectangle of a region file holds exactly the chunks that file owns, for every region
  whose chunks have coordinates.\<close>

lemma rect_of_region:
  assumes "in_i32 (32 * sval rx)" "in_i32 (32 * sval rz)"
  shows "rect_contains (rect_region rx rz) (coord_x c) (coord_z c) \<longleftrightarrow> region_x c = rx \<and> region_z c = rz"
  using rect_region_contains_iff [OF assms] by (simp add: region_x_def region_z_def)

text \<open>A named scope keeps one spelling of its areas: rectangles normalized, sorted, without
  repetition, so that it depends on the set of areas given and not on their order, and it selects
  the union of the rectangles between the given corners, in every region family.\<close>

lemma named_scope_canonical:
  assumes "as \<noteq> []" "set bs = set as"
  shows "\<exists>s. named_scope_new n as t = Inr s \<and> named_scope_new n bs t = Inr s \<and> normal_areas (ns_areas s)
    \<and> named_scope_new n (ns_areas s) t = Inr s
    \<and> (scope_contains (to_scope s) c \<longleftrightarrow>
        (\<exists>(d, r) \<in> set as. d = coord_dim c \<and> rect_contains (rect_new (x0 r) (z0 r) (x1 r) (z1 r)) (coord_x c) (coord_z c)))"
proof -
  obtain s where s: "named_scope_new n as t = Inr s" "normal_areas (ns_areas s)" "ns_name s = n" "ns_created_at_ms s = t"
    "set (ns_areas s) = (\<lambda>(d, r). (d, rect_new (x0 r) (z0 r) (x1 r) (z1 r))) ` set as"
    using named_scope_new_ok [OF assms(1)] by blast
  have "bs \<noteq> []" using assms by auto
  then obtain s' where s': "named_scope_new n bs t = Inr s'" "normal_areas (ns_areas s')" "ns_name s' = n" "ns_created_at_ms s' = t"
    "set (ns_areas s') = (\<lambda>(d, r). (d, rect_new (x0 r) (z0 r) (x1 r) (z1 r))) ` set bs"
    using named_scope_new_ok by blast
  have "ns_areas s' = ns_areas s"
    using s(2,5) s'(2,5) assms(2) by (auto simp: normal_areas_def intro: sorted_distinct_set_unique)
  then have "s' = s" using s(3,4) s'(3,4) by simp
  moreover have "named_scope_new n (ns_areas s) t = Inr s"
    using named_scope_new_normal [OF s(2)] s(3,4) by simp
  moreover have "scope_contains (to_scope s) c \<longleftrightarrow>
        (\<exists>(d, r) \<in> set as. d = coord_dim c \<and> rect_contains (rect_new (x0 r) (z0 r) (x1 r) (z1 r)) (coord_x c) (coord_z c))"
    unfolding to_scope_contains s(5) by (simp add: case_prod_unfold)
  ultimately show ?thesis using s(1,2) s'(1) by blast
qed

text \<open>A backend URL with a path parses to the backend its scheme names and the rest; anything
  accepted is such a URL or a bare path, which means SQLite; nothing accepted has an empty path.\<close>

lemma backend_url_parse:
  assumes "rest \<noteq> []"
  shows "parse_backend_url (backend_url k rest) = Inr (k, rest)
    \<and> (parse_backend_url url = Inr (k', path) \<longrightarrow> path \<noteq> [] \<and> (url = backend_url k' path \<or> k' = Sqlite \<and> url = path))"
  using parse_backend_url_scheme [OF assms] parse_backend_url_ok parse_backend_url_not_empty by blast

end
