(* ===== verification/Anvil_Walk.thy ===== *)
theory Anvil_Walk
  imports Anvil_Writer
begin

section \<open>Walking an image and looking chunks up\<close>

text \<open>
  What users of \<open>crates/anvil\<close> rely on: a builder holds what was staged last per coordinate, its
  image reads back as that, and on an image without corrupt entries the walk of
  \<open>RegionImage::visit_chunks\<close> and the lookup of \<open>chunk_payload\<close> see the same chunks.
\<close>

subsection \<open>What a builder holds\<close>

definition staged_at :: "region_builder \<Rightarrow> i32 \<times> i32 \<Rightarrow> bytes option" where
  "staged_at b c = (case slot_of (rb_loc b) (fst c) (snd c) of Inl _ \<Rightarrow> None | Inr s \<Rightarrow> om_get s (rb_staged b))"

lemma builder_new_staged:
  assumes "builder_new rx rz ts = Inr b"
  shows "wf_builder b \<and> region_loc_new rx rz = Inr (rb_loc b) \<and> staged_at b = (\<lambda>_. None)"
proof -
  have b: "region_loc_new rx rz = Inr (rb_loc b)" "rb_staged b = []"
    using assms by (auto simp: builder_new_def bindE_eq_Inr)
  then show ?thesis
    using wf_builder_new [OF assms] by (simp add: fun_eq_iff staged_at_def om_get_def split: sum.split)
qed

lemma builder_new_ok:
  "region_fits rx \<Longrightarrow> region_fits rz \<Longrightarrow> \<exists>b. builder_new rx rz ts = Inr b"
  using region_loc_new_iff [of rx rz] by (auto simp: builder_new_def)

lemma one_slot:
  "wf_loc loc \<Longrightarrow> slot_of loc x z = Inr s \<Longrightarrow> slot_of loc x' z' = Inr s \<longleftrightarrow> x' = x \<and> z' = z"
  by (metis prod.inject slot_coord_at)

lemma stage_chunk_staged:
  assumes wf: "wf_builder b" and ok: "stage_chunk x z p b = Inr b'"
  shows "wf_builder b' \<and> rb_loc b' = rb_loc b \<and> staged_at b' = (staged_at b)((x, z) \<mapsto> p)"
proof -
  have loc: "wf_loc (rb_loc b)" using wf by (simp add: wf_builder_def)
  obtain s where s: "wf_builder b'" "rb_loc b' = rb_loc b" "slot_of (rb_loc b) x z = Inr s"
    "\<And>k. om_get k (rb_staged b') = (if k = s then Some p else om_get k (rb_staged b))"
    using wf_builder_stage [OF wf ok] by blast
  have "staged_at b' c = ((staged_at b)((x, z) \<mapsto> p)) c" for c
    using s(2-4) one_slot [OF loc s(3), of "fst c" "snd c"]
    by (cases "c = (x, z)") (auto simp: staged_at_def prod_eq_iff split: sum.split)
  then show ?thesis using s(1,2) by blast
qed

lemma remove_chunk_staged:
  assumes wf: "wf_builder b" and ok: "remove_chunk x z b = Inr b'"
  shows "wf_builder b' \<and> rb_loc b' = rb_loc b \<and> staged_at b' = (staged_at b)((x, z) := None)"
proof -
  have loc: "wf_loc (rb_loc b)" using wf by (simp add: wf_builder_def)
  obtain s where s: "wf_builder b'" "rb_loc b' = rb_loc b" "slot_of (rb_loc b) x z = Inr s"
    "\<And>k. om_get k (rb_staged b') = (if k = s then None else om_get k (rb_staged b))"
    using wf_builder_remove [OF wf ok] by blast
  have "staged_at b' c = ((staged_at b)((x, z) := None)) c" for c
    using s(2-4) one_slot [OF loc s(3), of "fst c" "snd c"]
    by (cases "c = (x, z)") (auto simp: staged_at_def prod_eq_iff split: sum.split)
  then show ?thesis using s(1,2) by blast
qed

subsection \<open>Clean images\<close>

definition clean_image :: "region_image \<Rightarrow> bool" where
  "clean_image img \<longleftrightarrow> (\<forall>item \<in> set (image_items img). is_ok item)"

lemma built_reads:
  assumes b: "wf_builder b" "region_loc_new rx rz = Inr (rb_loc b)"
  shows "\<exists>img ri. builder_image b = Inr img \<and> from_bytes_with_kind img rx rz kind = Inr ri \<and> clean_image ri
    \<and> (\<forall>x z. chunk_payload ri x z = Inr (staged_at b (x, z)))"
proof -
  obtain img where img: "builder_image b = Inr img" using builder_image_layout [OF b(1)] by blast
  define ri where "ri = \<lparr>ri_loc = rb_loc b, ri_kind = kind, ri_bytes = img\<rparr>"
  have "HEADER_LEN \<le> length img" using built_image_len [OF b(1) img] by simp
  then have "from_bytes_with_kind img rx rz kind = Inr ri"
    using b(2) by (simp add: from_bytes_with_kind_def check_image_len_def ri_def)
  moreover have "chunk_payload ri x z = Inr (staged_at b (x, z))" for x z
    using built_payload [OF b(1) img, of ri x z] by (simp add: ri_def staged_at_def)
  moreover have "clean_image ri" using built_items [OF b(1) img, of ri] by (auto simp: clean_image_def ri_def)
  ultimately show ?thesis using img by blast
qed

lemma chunk_at_chunk:
  assumes "chunk_at img s = Inr (Some c)"
  shows "(ch_x c, ch_z c) = coord_at (ri_loc img) s" "ri_bytes img \<noteq> []"
  using assms by (auto simp: chunk_at_def chunk_new_def bindE_eq_Inr case_prod_unfold split: if_splits)

lemma present_items_all:
  "(\<forall>item \<in> set (present_items img left). is_ok item) \<Longrightarrow> left \<le> TABLE_ENTRIES \<Longrightarrow>
     TABLE_ENTRIES - left \<le> i \<Longrightarrow> i < TABLE_ENTRIES \<Longrightarrow> is_ok (chunk_at img i)"
proof (induction left)
  case (Suc left)
  show ?case
  proof (cases "i = TABLE_ENTRIES - Suc left")
    case True
    then show ?thesis using Suc.prems(1) by (auto split: sum.splits option.splits)
  next
    case False
    then have "TABLE_ENTRIES - left \<le> i" using Suc.prems(2,3) by simp
    moreover have "\<forall>item \<in> set (present_items img left). is_ok item"
      using Suc.prems(1) by (auto split: sum.splits option.splits)
    ultimately show ?thesis using Suc.IH Suc.prems(2,4) by simp
  qed
qed simp

lemma distinct_map_filtered:
  assumes "distinct xs"
    and "\<And>i j c d. i \<in> set xs \<Longrightarrow> j \<in> set xs \<Longrightarrow> f i = Some c \<Longrightarrow> f j = Some d \<Longrightarrow> g c = g d \<Longrightarrow> i = j"
  shows "distinct (map g (List.map_filter f xs))"
  using assms
proof (induction xs)
  case (Cons i xs)
  then have IH: "distinct (map g (List.map_filter f xs))" by auto
  have "g c \<notin> g ` set (List.map_filter f xs)" if c: "f i = Some c" for c
  proof
    assume "g c \<in> g ` set (List.map_filter f xs)"
    then obtain j d where "j \<in> set xs" "f j = Some d" "g c = g d" by (auto simp: List.map_filter_def)
    then show False using Cons.prems(1) Cons.prems(2) [of i j c d] c by auto
  qed
  then show ?case using IH by (cases "f i") (simp_all add: List.map_filter_def image_image)
qed (simp add: List.map_filter_def)

lemma walk_of_clean_image:
  assumes "clean_image img" "ri_bytes img \<noteq> []"
  shows "\<exists>f. (\<forall>i < TABLE_ENTRIES. chunk_at img i = Inr (f i)) \<and> image_items img = map Inr (List.map_filter f [0..<TABLE_ENTRIES])"
proof -
  note items = image_items_present [OF assms(2)]
  define f where "f i = projr (chunk_at img i)" for i
  have f: "chunk_at img i = Inr (f i)" if "i < TABLE_ENTRIES" for i
  proof -
    have "is_ok (chunk_at img i)"
      using present_items_all [of img TABLE_ENTRIES i] assms(1) that by (simp add: items clean_image_def)
    then show ?thesis by (auto simp: is_ok_iff f_def)
  qed
  have "present_items img TABLE_ENTRIES = map Inr (List.map_filter f [TABLE_ENTRIES - TABLE_ENTRIES..<TABLE_ENTRIES])"
    by (rule present_items_ok) (use f in simp_all)
  then show ?thesis using f items by auto
qed

lemma chunk_at_kind: "chunk_at img s = Inr (Some c) \<Longrightarrow> ch_kind c = ri_kind img"
  by (auto simp: chunk_at_def chunk_new_def bindE_eq_Inr case_prod_unfold split: if_splits)

lemma image_wf_loc: "from_bytes_with_kind bs rx rz kind = Inr ri \<Longrightarrow> wf_loc (ri_loc ri)"
  using region_loc_new_wf by (auto simp: from_bytes_with_kind_def bindE_eq_Inr)

text \<open>The chunks of a clean image: each coordinate once, with the payload its lookup answers.\<close>

lemma clean_walk:
  assumes rd: "from_bytes_with_kind bs rx rz kind = Inr ri" and clean: "clean_image ri"
  shows "\<exists>cs. image_items ri = map Inr cs \<and> distinct (map (\<lambda>c. (ch_x c, ch_z c)) cs)
    \<and> (\<forall>x z p. (\<exists>c \<in> set cs. ch_x c = x \<and> ch_z c = z \<and> ch_payload c = p) \<longleftrightarrow> chunk_payload ri x z = Inr (Some p))
    \<and> (\<forall>c \<in> set cs. ch_kind c = kind) \<and> (\<forall>x z. is_ok (chunk_payload ri x z))"
proof -
  have loc: "wf_loc (ri_loc ri)" by (rule image_wf_loc [OF rd])
  have kind: "ri_kind ri = kind" using rd by (auto simp: from_bytes_with_kind_def bindE_eq_Inr)
  show ?thesis
  proof (cases "ri_bytes ri = []")
    case True
    then show ?thesis
      by (intro exI [where x = "[]"]) (auto simp: image_items_empty chunk_payload_def split: sum.split)
  next
    case False
    obtain f where f: "\<And>i. i < TABLE_ENTRIES \<Longrightarrow> chunk_at ri i = Inr (f i)"
      and items: "image_items ri = map Inr (List.map_filter f [0..<TABLE_ENTRIES])"
      using walk_of_clean_image [OF clean False] by blast
    let ?cs = "List.map_filter f [0..<TABLE_ENTRIES]"
    have coord: "coord_at (ri_loc ri) i = (ch_x c, ch_z c)" if "i < TABLE_ENTRIES" "f i = Some c" for i c
      using chunk_at_chunk(1) [of ri i c] f that by simp
    have slot: "slot_of (ri_loc ri) (ch_x c) (ch_z c) = Inr i" if "i < TABLE_ENTRIES" "f i = Some c" for i c
      using coord_at_slot(1) [OF loc that(1)] coord [OF that] by simp
    have mem: "c \<in> set ?cs \<longleftrightarrow> (\<exists>i < TABLE_ENTRIES. f i = Some c)" for c
      by (auto simp: List.map_filter_def image_iff)
    have look: "chunk_payload ri x z = Inr (map_option ch_payload (f i))" "i < TABLE_ENTRIES"
      if "slot_of (ri_loc ri) x z = Inr i" for x z i
      using slot_of_bound [OF loc that] f by (simp_all add: chunk_payload_slot [OF that])
    have agree: "(\<exists>c \<in> set ?cs. ch_x c = x \<and> ch_z c = z \<and> ch_payload c = p) \<longleftrightarrow> chunk_payload ri x z = Inr (Some p)"
      for x z p
    proof
      assume "\<exists>c \<in> set ?cs. ch_x c = x \<and> ch_z c = z \<and> ch_payload c = p"
      then obtain c i where "i < TABLE_ENTRIES" "f i = Some c" "ch_x c = x" "ch_z c = z" "ch_payload c = p"
        using mem by blast
      then show "chunk_payload ri x z = Inr (Some p)" using slot [of i c] look(1) [of x z i] by simp
    next
      assume r: "chunk_payload ri x z = Inr (Some p)"
      then obtain i where i: "slot_of (ri_loc ri) x z = Inr i"
        by (cases "slot_of (ri_loc ri) x z") (simp_all add: chunk_payload_outside)
      then obtain c where c: "f i = Some c" "ch_payload c = p" using r look(1) [OF i] by auto
      then have "(ch_x c, ch_z c) = (x, z)" using coord [OF look(2) [OF i]] slot_coord_at [OF loc i] by simp
      then show "\<exists>c \<in> set ?cs. ch_x c = x \<and> ch_z c = z \<and> ch_payload c = p" using mem look(2) [OF i] c by auto
    qed
    have slot_once: "i = j"
      if "i \<in> set [0..<TABLE_ENTRIES]" "j \<in> set [0..<TABLE_ENTRIES]" "f i = Some c" "f j = Some d"
        "(ch_x c, ch_z c) = (ch_x d, ch_z d)" for i j c d
      using slot [of i c] slot [of j d] that by simp
    have "distinct (map (\<lambda>c. (ch_x c, ch_z c)) ?cs)"
      by (rule distinct_map_filtered [OF distinct_upt slot_once])
    moreover have "ch_kind c = kind" if "c \<in> set ?cs" for c
      using chunk_at_kind [of ri _ c] f mem that kind by metis
    moreover have "is_ok (chunk_payload ri x z)" for x z
      using look(1) [of x z] chunk_payload_outside [of ri x z] by (cases "slot_of (ri_loc ri) x z") auto
    ultimately show ?thesis using items agree by blast
  qed
qed

subsection \<open>Which chunks can be staged\<close>

definition storable :: "bytes \<Rightarrow> bool" where
  "storable p \<longleftrightarrow> p \<noteq> [] \<and> length p \<le> 1044476"

lemma stage_chunk_ok:
  assumes b: "wf_builder b" and p: "storable p" "slot_of (rb_loc b) x z = Inr s"
  shows "\<exists>b'. stage_chunk x z p b = Inr b' \<and> wf_builder b' \<and> rb_loc b' = rb_loc b
    \<and> staged_at b' = (staged_at b)((x, z) \<mapsto> p)"
proof -
  have "wf_loc (rb_loc b)" using b by (simp add: wf_builder_def)
  then have "\<exists>b'. stage_chunk x z p b = Inr b'"
    using p by (simp add: stage_chunk_iff storable_def slot_of_eq split: if_splits)
  then show ?thesis using stage_chunk_staged [OF b] by blast
qed

lemma image_payload_storable:
  assumes "chunk_payload img x z = Inr (Some p)"
  shows "storable p \<and> (\<exists>s. slot_of (ri_loc img) x z = Inr s)"
proof -
  obtain index offset sectors where e: "entry img index = Inr (offset, sectors)" "slot_of (ri_loc img) x z = Inr index"
    and sp: "sector_payload img index offset sectors = Inr p"
    using assms by (auto simp: chunk_payload_def bindE_eq_Inr split: if_splits sum.splits)
  have "sectors \<le> 255" using entry_bounds(2) [OF e(1)] by simp
  then have "length p + 4 \<le> 255 * 4096" using sector_payload_ok(2) [OF sp] by (simp add: SECTOR_LEN_def)
  then show ?thesis using sector_payload_ok(1) [OF sp] e(2) by (simp add: storable_def)
qed

lemma region_fits_of: "region_fits (key_rx (region_key_of c)) \<and> region_fits (key_rz (region_key_of c))"
  using sval_bounds [of "coord_x c"] sval_bounds [of "coord_z c"]
  by (auto simp: region_fits_def region_x_def region_z_def)

text \<open>A builder of the region of a chunk has a slot for it.\<close>

lemma owner_slot:
  assumes "region_loc_new (key_rx k) (key_rz k) = Inr loc" "region_key_of c = k"
  shows "\<exists>s. slot_of loc (coord_x c) (coord_z c) = Inr s"
  using assms slot_of_region_key [of loc c] region_loc_new_wf [OF assms(1)] by simp

end
