(* ===== verification/Anvil_Properties.thy ===== *)
theory Anvil_Properties
  imports Anvil_Walk Chunk_Keys
begin

section \<open>Properties of region files and chunk payloads\<close>

text \<open>
  The claims about \<open>crates/anvil\<close>: what a region built by any sequence of stagings reads back as,
  how the reads of an image agree, the bounds of both, the slots of a region, decompression, and
  what a chunk's key depends on.
\<close>

subsection \<open>Building and reading back\<close>

text \<open>A session with a builder, and the payload per coordinate it should leave.\<close>

datatype builder_op = Stage i32 i32 bytes | Unstage i32 i32

fun apply_op :: "builder_op \<Rightarrow> region_builder \<Rightarrow> (anvil_error, region_builder) result" where
  "apply_op (Stage x z p) b = stage_chunk x z p b"
| "apply_op (Unstage x z) b = remove_chunk x z b"

fun op_effect :: "builder_op \<Rightarrow> (i32 \<times> i32 \<Rightarrow> bytes option) \<Rightarrow> i32 \<times> i32 \<Rightarrow> bytes option" where
  "op_effect (Stage x z p) m = m((x, z) \<mapsto> p)"
| "op_effect (Unstage x z) m = m((x, z) := None)"

definition session_effect :: "builder_op list \<Rightarrow> i32 \<times> i32 \<Rightarrow> bytes option" where
  "session_effect ops = foldl (\<lambda>m op. op_effect op m) (\<lambda>_. None) ops"

lemma apply_op_staged:
  assumes wf: "wf_builder b" and ok: "apply_op op b = Inr b'"
  shows "wf_builder b' \<and> rb_loc b' = rb_loc b \<and> staged_at b' = op_effect op (staged_at b)"
proof (cases op)
  case (Stage x z p)
  then show ?thesis using stage_chunk_staged [OF wf, of x z p b'] ok by simp
next
  case (Unstage x z)
  then show ?thesis using remove_chunk_staged [OF wf, of x z b'] ok by simp
qed

lemma session_staged:
  assumes "wf_builder b" "foldE apply_op ops b = Inr b'"
  shows "wf_builder b' \<and> rb_loc b' = rb_loc b \<and> staged_at b' = foldl (\<lambda>m op. op_effect op m) (staged_at b) ops"
  using assms
proof (induction ops arbitrary: b)
  case (Cons op ops)
  then obtain b1 where b1: "apply_op op b = Inr b1" "foldE apply_op ops b1 = Inr b'" by (auto simp: bindE_eq_Inr)
  then show ?case using Cons.IH [OF _ b1(2)] apply_op_staged [OF Cons.prems(1) b1(1)] by simp
qed simp

lemma session_built:
  assumes "builder_new rx rz ts = Inr b0" "foldE apply_op ops b0 = Inr b"
  shows "wf_builder b \<and> region_loc_new rx rz = Inr (rb_loc b) \<and> staged_at b = session_effect ops"
  using session_staged [OF _ assms(2)] builder_new_staged [OF assms(1)] by (simp add: session_effect_def)

text \<open>C28: The image of a builder after any session of staging and removing always builds, is
  accepted by the reader, and answers every coordinate with what the session last left there.\<close>

theorem built_region_reads_back:
  assumes "builder_new rx rz ts = Inr b0" "foldE apply_op ops b0 = Inr b"
  shows "\<exists>img ri. builder_image b = Inr img \<and> from_bytes_with_kind img rx rz kind = Inr ri
    \<and> (\<forall>x z. chunk_payload ri x z = Inr (session_effect ops (x, z)))"
  using built_reads session_built [OF assms] by metis

definition demo_ops :: "builder_op list" where
  "demo_ops = [Stage (I32 (-1)) (I32 3) [2, 9], Stage (I32 (-32)) (I32 0) [3], Unstage (I32 (-32)) (I32 0)]"

lemma demo_session:
  obtains b0 b where "builder_new (I32 (-1)) (I32 0) 77 = Inr b0" "foldE apply_op demo_ops b0 = Inr b"
proof -
  have "is_ok (bindE (builder_new (I32 (-1)) (I32 0) 77) (foldE apply_op demo_ops))" by code_simp
  then show thesis using that by (auto simp: is_ok_iff bindE_eq_Inr simp del: foldE.simps)
qed

lemma demo_effect:
  "session_effect demo_ops (I32 (-1), I32 3) = Some [2, 9]" "session_effect demo_ops (I32 (-32), I32 0) = None"
  by code_simp+

theorem built_region_reads_back_witness:
  "\<exists>img ri. from_bytes_with_kind img (I32 (-1)) (I32 0) Poi = Inr ri
    \<and> chunk_payload ri (I32 (-1)) (I32 3) = Inr (Some [2, 9]) \<and> chunk_payload ri (I32 (-32)) (I32 0) = Inr None"
proof -
  obtain b0 b where b: "builder_new (I32 (-1)) (I32 0) 77 = Inr b0" "foldE apply_op demo_ops b0 = Inr b"
    by (rule demo_session)
  show ?thesis using built_region_reads_back [OF b, of Poi] demo_effect by metis
qed

subsection \<open>Reading any image\<close>

text \<open>The image of the session \<open>demo_ops\<close>, as the reader opens it.\<close>

lemma demo_image:
  obtains img ri where "from_bytes_with_kind img (I32 (-1)) (I32 0) Poi = Inr ri"
    "\<forall>item \<in> set (image_items ri). is_ok item" "chunk_payload ri (I32 (-1)) (I32 3) = Inr (Some [2, 9])"
proof -
  obtain b0 b where b: "builder_new (I32 (-1)) (I32 0) 77 = Inr b0" "foldE apply_op demo_ops b0 = Inr b"
    by (rule demo_session)
  note built = session_built [OF b]
  obtain img ri where ri: "from_bytes_with_kind img (I32 (-1)) (I32 0) Poi = Inr ri" "clean_image ri"
      "\<forall>x z. chunk_payload ri x z = Inr (staged_at b (x, z))"
    using built_reads [of b "I32 (-1)" "I32 0" Poi] built by blast
  then show thesis using that built demo_effect(1) by (simp add: clean_image_def)
qed

text \<open>C35: On an image whose walk reports no corrupt entry, the walk and the point lookup agree: a
  chunk is among the items exactly when the lookup of its coordinates answers its payload, the walk
  yields at most one chunk per coordinate, and the visitor sees the items in order.\<close>

theorem walk_agrees_with_lookup:
  assumes "from_bytes_with_kind bs rx rz kind = Inr ri" "\<forall>item \<in> set (image_items ri). is_ok item"
  shows "((\<exists>c. Inr c \<in> set (image_items ri) \<and> ch_x c = x \<and> ch_z c = z \<and> ch_payload c = p)
      \<longleftrightarrow> chunk_payload ri x z = Inr (Some p))
    \<and> distinct (map (map_sum id (\<lambda>c. (ch_x c, ch_z c))) (image_items ri))
    \<and> (\<exists>cs. image_items ri = map Inr cs \<and> visit_chunks ri (\<lambda>s c. (True, s @ [c])) [] = Inr cs)"
proof -
  obtain cs where cs: "image_items ri = map Inr cs" "distinct (map (\<lambda>c. (ch_x c, ch_z c)) cs)"
      "\<And>x z p. (\<exists>c \<in> set cs. ch_x c = x \<and> ch_z c = z \<and> ch_payload c = p) \<longleftrightarrow> chunk_payload ri x z = Inr (Some p)"
    using clean_walk [OF assms(1)] assms(2) unfolding clean_image_def by blast
  have "distinct (map Inr (map (\<lambda>c. (ch_x c, ch_z c)) cs) :: (anvil_error + _) list)"
    using cs(2) by (simp only: distinct_map) (simp add: inj_on_def)
  then have "distinct (map (map_sum id (\<lambda>c. (ch_x c, ch_z c))) (image_items ri))"
    unfolding cs(1) by (simp add: comp_def)
  moreover have "visit_items (\<lambda>s c. (True, s @ [c])) (map Inr cs) s = Inr (s @ cs)" for cs and s :: "chunk list"
    by (induction cs arbitrary: s) simp_all
  then have "visit_chunks ri (\<lambda>s c. (True, s @ [c])) [] = Inr cs" by (simp add: visit_chunks_def cs(1))
  moreover have "(\<exists>c. Inr c \<in> set (image_items ri) \<and> ch_x c = x \<and> ch_z c = z \<and> ch_payload c = p)
      \<longleftrightarrow> chunk_payload ri x z = Inr (Some p)"
    unfolding cs(1) using cs(3) [of x z p] by auto
  ultimately show ?thesis using cs(1) by blast
qed

theorem walk_agrees_with_lookup_witness:
  "\<exists>ri c. Inr c \<in> set (image_items ri) \<and> ch_x c = I32 (-1) \<and> ch_z c = I32 3 \<and> ch_payload c = [2, 9]"
proof -
  obtain img ri where ri: "from_bytes_with_kind img (I32 (-1)) (I32 0) Poi = Inr ri" "\<forall>item \<in> set (image_items ri). is_ok item"
      "chunk_payload ri (I32 (-1)) (I32 3) = Inr (Some [2, 9])"
    by (rule demo_image)
  show ?thesis
    using walk_agrees_with_lookup [OF ri(1,2), where x = "I32 (-1)" and z = "I32 3" and p = "[2, 9]"] ri(3) by blast
qed

text \<open>C40: A payload the reader answers is a non-empty slice of the file behind the two header
  sectors and inside the sectors its table entry names; no read goes past the end of the file.\<close>

theorem payload_bounds:
  assumes "chunk_payload ri x z = Inr (Some p)"
  shows "\<exists>at. HEADER_LEN + 4 \<le> at \<and> at + length p \<le> length (ri_bytes ri)
    \<and> p = take (length p) (drop at (ri_bytes ri)) \<and> p \<noteq> [] \<and> length p \<le> 255 * 4096 - 4"
proof -
  obtain index offset sectors where e: "entry ri index = Inr (offset, sectors)" "\<not> offset < FIRST_DATA_SECTOR"
    and sp: "sector_payload ri index offset sectors = Inr p"
    using assms by (auto simp: chunk_payload_def bindE_eq_Inr split: if_splits sum.splits)
  note sp_ok = sector_payload_ok [OF sp]
  have "sectors \<le> 255" using entry_bounds(2) [OF e(1)] by simp
  then have "length p + 4 \<le> 255 * 4096" using sp_ok(2) by (simp add: SECTOR_LEN_def)
  moreover have "HEADER_LEN + 4 \<le> offset * SECTOR_LEN + 4"
    using e(2) by (simp add: layout_consts)
  ultimately show ?thesis using sp_ok by (intro exI [of _ "offset * SECTOR_LEN + 4"]) simp
qed

theorem payload_bounds_witness:
  "\<exists>(ri :: region_image) at. HEADER_LEN + 4 \<le> at \<and> [2, 9] = take 2 (drop at (ri_bytes ri))"
proof -
  obtain ri where ri: "chunk_payload ri (I32 (-1)) (I32 3) = Inr (Some [2, 9])" using demo_image by blast
  have two: "length [2, 9 :: 8 word] = 2" by simp
  show ?thesis using payload_bounds [OF ri] unfolding two by blast
qed

text \<open>The slots of a region number its 1024 chunks: a region has an origin exactly when its
  chunks have coordinates, a chunk gets a slot exactly when the region owns it, and slots and
  coordinates are inverse to each other.\<close>

lemma region_slots:
  "case region_loc_new rx rz of
     Inl e \<Rightarrow> e = CoordinateOverflow rx rz \<and> \<not> (region_fits rx \<and> region_fits rz)
   | Inr loc \<Rightarrow> region_fits rx \<and> region_fits rz
       \<and> (slot_of loc (coord_x c) (coord_z c) = Inr s \<longleftrightarrow> s < 1024 \<and> coord_at loc s = (coord_x c, coord_z c))
       \<and> ((\<exists>t. slot_of loc (coord_x c) (coord_z c) = Inr t) \<longleftrightarrow> region_x c = rx \<and> region_z c = rz)"
proof (cases "region_loc_new rx rz")
  case (Inl e)
  then have "\<not> (region_fits rx \<and> region_fits rz)" using region_loc_new_iff [of rx rz] by simp
  with Inl show ?thesis by (auto simp: region_loc_new_def base_coords_def base_coord_eq split: if_splits)
next
  case (Inr loc)
  then have loc: "wf_loc loc" "loc_region_x loc = rx" "loc_region_z loc = rz" using region_loc_new_wf by blast+
  have "slot_of loc (coord_x c) (coord_z c) = Inr s \<longleftrightarrow> s < 1024 \<and> coord_at loc s = (coord_x c, coord_z c)"
    using slot_of_bound [OF loc(1)] slot_coord_at [OF loc(1)] coord_at_slot(1) [OF loc(1), of s]
    by (auto simp: TABLE_ENTRIES_def)
  then show ?thesis using slot_of_region_key [OF loc(1), of c] loc(2,3) region_loc_new_iff [of rx rz] Inr by auto
qed

text \<open>The canonical file name of a region parses back to its coordinates.\<close>

lemma region_name_parse: "parse_region_name (region_file_name x z) = Inr (x, z)"
  by (rule parse_region_file_name)

text \<open>The image of any session is a whole number of sectors, holds the two header sectors, and
  stays small enough for every sector offset to fit its 24 bits.\<close>

lemma built_region_size:
  assumes "builder_new rx rz ts = Inr b0" "foldE apply_op ops b0 = Inr b" "builder_image b = Inr img"
  shows "8192 \<le> length img \<and> length img mod 4096 = 0 \<and> length img \<le> (2 + 255 * 1024) * 4096
    \<and> length img div 4096 < 2 ^ 24"
proof -
  have "wf_builder b" using session_built [OF assms(1,2)] by simp
  then have "HEADER_LEN \<le> length img" "length img mod SECTOR_LEN = 0" "length img \<le> 1069555712"
    using built_image_len assms(3) by blast+
  then show ?thesis by (simp add: layout_consts div_less_iff_less_mult less_mult_imp_div_less)
qed

subsection \<open>Decompression\<close>

text \<open>C36: Decompression of any payload ends, and never hands over more than 64 MiB, when the
  inflater keeps its documented contract: it fills the room it was given before it asks for more,
  honours the output limit, and a block decoder keeps the length of the buffer it writes.\<close>

theorem decompress_ends_bounded:
  assumes "inflater_fills lib"
    and zlib: "\<And>body n out. lib_zlib_limit lib body n = Inr out \<Longrightarrow> length out \<le> n"
    and lz4: "\<And>block buf n buf'. lib_lz4_block lib block buf = Inr (n, buf') \<Longrightarrow> length buf' = length buf"
  shows "\<exists>out r. decompress_into lib payload buf = Some (out, r) \<and> length out \<le> 64 * 1024 * 1024"
proof -
  obtain out r where res: "decompress_into lib payload buf = Some (out, r)"
    using decompress_ends [OF assms(1)] by blast
  have "length out \<le> MAX_DECOMPRESSED"
  proof (cases payload)
    case (Cons kind body)
    show ?thesis
    proof (cases "compression_of kind")
      case (Inr codec)
      show ?thesis
      proof (cases codec)
        case Gzip
        then obtain r' where g: "gunzip_capped lib body [] = Some (out, r')"
          using res Cons Inr by (auto simp: decompress_into_def split: option.splits)
        show ?thesis
        proof (cases r')
          case (Inl e)
          then show ?thesis using gunzip_failed [of lib body "[]" out e] g by simp
        next
          case (Inr u)
          then obtain pos decoded where "out = decoded"
            "inflate_raw_exact lib (take (length body - 8 - pos) (drop pos body)) = Some (Inr decoded)"
            using gunzip_ok_iff [of lib body "[]" out] g by auto
          then show ?thesis
            using inflate_ends [OF assms(1), of "[]" "lib_inflate_new lib" "take (length body - 8 - pos) (drop pos body)"]
            by (auto simp: inflate_raw_exact_def)
        qed
      next
        case Zlib
        then show ?thesis using res Cons Inr zlib
          by (auto simp: decompress_into_def inflate_zlib_capped_def split: sum.splits if_splits)
      next
        case Raw
        then show ?thesis using res Cons Inr by (auto simp: decompress_into_def split: if_splits)
      next
        case Lz4
        then show ?thesis using res Cons Inr lz4_loop_bound [of "[]" lib body 0] lz4
          by (auto simp: decompress_into_def unlz4_def split: prod.splits)
      qed
    qed (use res Cons in \<open>simp add: decompress_into_def\<close>)
  qed (use res in \<open>simp add: decompress_into_def\<close>)
  then show ?thesis using res by (simp add: MAX_DECOMPRESSED_def)
qed

definition demo_codec :: "unit codec_lib" where
  "demo_codec =
     \<lparr>lib_zlib_limit = \<lambda>body n. if length body \<le> n then Inr body else Inl HasMoreOutput,
      lib_inflate_new = (),
      lib_inflate = \<lambda>d input buf base. (d, buf, Done, length input, 0),
      lib_crc32 = \<lambda>bs. of_nat (sum_list (map unat bs)),
      lib_lz4_block = \<lambda>block buf. if length block = length buf then Inr (length buf, block) else Inl (),
      lib_xxh32 = \<lambda>seed bs. of_nat (sum_list (map unat bs))\<rparr>"

theorem decompress_ends_bounded_witness:
  "\<exists>out r. decompress_into demo_codec (4 # lz4_stream demo_codec 0 [[1, 2]]) [] = Some (out, r) \<and> length out \<le> 67108864"
proof -
  have "inflater_fills demo_codec" by (simp add: inflater_fills_def demo_codec_def)
  then have "\<exists>out r. decompress_into demo_codec (4 # lz4_stream demo_codec 0 [[1, 2]]) [] = Some (out, r)
      \<and> length out \<le> 64 * 1024 * 1024"
    by (rule decompress_ends_bounded) (simp_all add: demo_codec_def split: if_splits)
  then show ?thesis by simp
qed

text \<open>A chunk written by Java's \<open>LZ4BlockOutputStream\<close> as stored blocks of at most the frame's
  block size decompresses to the blocks one after the other, whatever was in the buffer.\<close>

lemma lz4_chunk_reads_back:
  assumes "level < 16" "\<forall>b \<in> set blocks. lz4_block_ok level b" "length (concat blocks) \<le> 64 * 1024 * 1024"
  shows "decompress_into lib (4 # lz4_stream lib level blocks) buf = Some (concat blocks, Inr Lz4)"
proof -
  have "lz4_loop lib ([] @ lz4_stream lib level blocks) (length ([] :: bytes)) [] = ([] @ concat blocks, Inr ())"
    using assms by (intro lz4_loop_stream) (simp_all add: MAX_DECOMPRESSED_def)
  then show ?thesis by (simp add: decompress_into_def compression_of_def unlz4_def)
qed

text \<open>A gzip chunk decompresses exactly when its header parses, its deflate stream ends where
  the eight trailer bytes begin, and the trailer holds the checksum and the length of the output;
  the output is what the inflater gave.\<close>

lemma gzip_chunk_accepted:
  "decompress_into lib (1 # body) buf = Some (out, Inr Gzip) \<longleftrightarrow>
    (\<exists>pos. gzip_header body = Inr pos \<and> pos + 8 \<le> length body
       \<and> inflate_raw_exact lib (take (length body - 8 - pos) (drop pos body)) = Some (Inr out)
       \<and> lib_crc32 lib out = of_nat (from_le (take 4 (drop (length body - 8) body)))
       \<and> length out = from_le (drop 4 (drop (length body - 8) body)))"
proof -
  have "decompress_into lib (1 # body) buf = Some (out, Inr Gzip) \<longleftrightarrow> gunzip_capped lib body [] = Some (out, Inr ())"
  proof (cases "gunzip_capped lib body []")
    case (Some r)
    then show ?thesis by (cases r; cases "snd r") (simp_all add: decompress_into_def compression_of_def)
  qed (simp add: decompress_into_def compression_of_def)
  then show ?thesis unfolding gunzip_ok_iff append_Nil by blast
qed

subsection \<open>Chunk keys\<close>


text \<open>A decoder of one shape of chunk, whose last update is the number of bytes it read.\<close>

definition demo_level :: "nat \<Rightarrow> unit level_chunk" where
  "demo_level n =
     \<lparr>lc_data_version = I32 1, lc_x_pos = I32 0, lc_z_pos = I32 0, lc_y_pos = I32 0, lc_status = [],
      lc_last_update = of_nat n, lc_sections = [], lc_block_entities = [], lc_heightmaps = (),
      lc_fluid_ticks = [], lc_block_ticks = [], lc_inhabited_time = 5, lc_blending_data = (),
      lc_post_processing = [], lc_structures = (), lc_is_light_on = True\<rparr>"

definition demo_nbt :: "unit nbt_lib" where
  "demo_nbt =
     \<lparr>nbt_modern = \<lambda>bs. Inr (demo_level (length bs)),
      nbt_legacy = \<lambda>bs. Inl NbtOther,
      nbt_encode_modern = \<lambda>c. if c = normalize_modern (demo_level 0) then Inr [1, 2] else Inl NbtOther,
      nbt_encode_legacy = \<lambda>c. Inl NbtOther,
      nbt_name = \<lambda>bs pos. Inr pos,
      nbt_skip_compound = \<lambda>bs pos. Inr pos\<rparr>"

lemma demo_normalize: "normalize_modern (demo_level n) = normalize_modern (demo_level 0)"
  by (simp add: normalize_modern_def demo_level_def)


lemma validate_nbt_ok:
  assumes "validate_nbt lib bs = Inr ()"
  shows "bs \<noteq> [] \<and> hd bs = 10 \<and> is_ok (bindE (nbt_name lib bs 1) (nbt_skip_compound lib bs))"
proof (cases bs)
  case (Cons tag rest)
  then have "tag = 10" using assms by (simp add: validate_nbt_def split: if_splits)
  moreover have "is_ok (bindE (nbt_name lib bs 1) (nbt_skip_compound lib bs))"
    using assms Cons by (cases "nbt_name lib bs 1"; cases "nbt_skip_compound lib bs (projr (nbt_name lib bs 1))")
      (simp_all add: validate_nbt_def is_ok_iff split: if_splits)
  ultimately show ?thesis using Cons by simp
qed (use assms in \<open>simp add: validate_nbt_def\<close>)

text \<open>A payload whose chunk cannot be read is never keyed by default: a key is the digest of the
  normalized view of the chunk it decodes to, or, for entities and points of interest, of exactly
  the bytes of one compound.\<close>

lemma chunk_key_source:
  assumes "chunk_key H lib kind bs = Inr h"
  shows "case kind of
      Region \<Rightarrow> \<exists>out. h = H out \<and>
        ((\<exists>p. nbt_modern lib bs = Inr p \<and> nbt_encode_modern lib (normalize_modern p) = Inr out)
         \<or> (\<exists>e p. nbt_modern lib bs = Inl e \<and> nbt_legacy lib bs = Inr p \<and> nbt_encode_legacy lib (normalize_legacy p) = Inr out))
    | _ \<Rightarrow> h = H bs \<and> bs \<noteq> [] \<and> hd bs = 10 \<and> is_ok (bindE (nbt_name lib bs 1) (nbt_skip_compound lib bs))"
proof (cases kind)
  case Region
  then show ?thesis using assms
    by (auto simp: chunk_key_def parse_nbt_def nbt_chunk_hash_def modern_hash_def legacy_hash_def bindE_eq_Inr
        map_err_eq_Inr split: sum.splits if_splits)
next
  case Entities
  then have "validate_nbt lib bs = Inr ()" "h = H bs" using assms by (auto simp: chunk_key_def bindE_eq_Inr map_err_eq_Inr)
  then show ?thesis using Entities validate_nbt_ok by simp
next
  case Poi
  then have "validate_nbt lib bs = Inr ()" "h = H bs" using assms by (auto simp: chunk_key_def bindE_eq_Inr map_err_eq_Inr)
  then show ?thesis using Poi validate_nbt_ok by simp
qed

end
