(* ===== verification/Store_Properties.thy ===== *)
theory Store_Properties
  imports Meta_Overlay Usecase_Commit Usecase_Gc Examples
begin

section \<open>Properties of the stores and their use cases\<close>

text \<open>
  The claims about the metadata store, the blob store and the use cases on SQLite. A property of an
  interface is proved in its locale and reached here through the interpretation on the model of the
  SQLite backend, with the statement written out over the model's definitions.
\<close>

subsection \<open>Invariants of the database\<close>

text \<open>C26: Whatever sequence of operations a store goes through after it is created, its tables stay
  well-formed (every row decodes, every reference resolves, keys are unique) and exactly one ref is
  active.\<close>

theorem reachable_store_wf:
  assumes "reachable H db"
  shows "wf_db db \<and> active_count db = 1"
  using assms by (rule reachable_invariant)

lemma demo_open: "is_ok (meta_open (Some 1000) blank_db)"
  by (simp add: meta_open_def now_ms_def blank_db_def SCHEMA_VERSION_def)

theorem reachable_store_wf_witness: "\<exists>db. meta_open (Some 1000) blank_db = Inr db \<and> wf_db db"
proof -
  obtain db where db: "meta_open (Some 1000) blank_db = Inr db" using demo_open by (auto simp: is_ok_iff)
  then show ?thesis using reachable_store_wf [OF reach_open [OF db]] by blast
qed



subsection \<open>Reading chunk state\<close>



text \<open>C27: The newest-sequence reading of the tables refines the overlay reading of a delta history: on
  linear histories the state of a commit is its own rows laid over the state of the commit it
  continues, down to the root, which starts from nothing.\<close>

theorem state_is_replay:
  assumes "wf_db db" "linear_db db" "i \<in> set (ids_of (commits_view db))" "length (t_commits db) \<le> n"
  shows "replay db n (commit_param i) (coord_cols c) = map_option (map_option hash_bytes_list) (chunk_view db i c)"
  by (rule chunk_view_replay [OF assms])

theorem state_is_replay_witness:
  "replay demo_db 3 (commit_param 13) (coord_cols (demo_coord 0)) = map_option (map_option hash_bytes_list) (chunk_view demo_db 13 (demo_coord 0))"
proof -
  have "(13 :: commit_id) \<in> set (ids_of (commits_view demo_db))" "length (t_commits demo_db) \<le> 3" by code_simp+
  then show ?thesis by (rule state_is_replay [OF demo_wf demo_linear])
qed

subsection \<open>Recording\<close>

text \<open>C31: Recording a commit that continues the active ref, with known parents, a representable time
  and an id the store does not hold, adds exactly one commit, its edges and its rows and moves the
  active ref; it fails, changing nothing, exactly when two entries name one chunk.\<close>

theorem apply_commit_outcome:
  assumes wf: "wf_db db" and act: "find is_active_row (t_refs db) = Some a"
    and cont: "\<And>b. rr_commit a = Some b \<Longrightarrow> hash_of_bytes b \<in> set ps"
    and ps: "set (map commit_param ps) \<subseteq> commit_ids db" and t: "uint t < 2 ^ 63"
    and new: "commit_param (commit_hash H ps t es) \<notin> commit_ids db"
  shows "case apply_commit_incremental H t ps es db of
      Inl e \<Rightarrow> e = db_err PrimaryKeyViolation \<and> \<not> distinct (map entry_coord es)
    | Inr (out, db') \<Rightarrow> distinct (map entry_coord es) \<and> ao_id out = commit_hash H ps t es \<and> wf_db db'
        \<and> commits_view db' = commits_view db @ [commit_new (ao_id out) t (sort_dedup ps)]
        \<and> t_history db' = t_history db @ rows_of (ao_id out) (commits_autoinc db + 1) es
        \<and> head_view db' = Some (Some (ao_id out))"
proof -
  have ms: "millis_param t = Inr (uint t)" using millis_param_total [OF t] .
  let ?i = "commit_hash H ps t es"
  have eq: "apply_commit_incremental H t ps es db = (if distinct (map entry_coord es)
     then Inr (\<lparr>ao_id = ?i\<rparr>, applied_db ?i (uint t) ps es db) else Inl (db_err PrimaryKeyViolation))"
    by (rule apply_commit_total [OF wf act cont ps ms new])
  show ?thesis
  proof (cases "distinct (map entry_coord es)")
    case True
    then have ok: "apply_commit_incremental H t ps es db = Inr (\<lparr>ao_id = ?i\<rparr>, applied_db ?i (uint t) ps es db)"
      using eq by simp
    have "wf_db (applied_db ?i (uint t) ps es db)" using wf_db_apply_commit [OF wf ok] .
    moreover have "head_view (applied_db ?i (uint t) ps es db) = Some (Some ?i)"
      using sqa.apply_ok [of db H t ps es] wf ok by simp
    ultimately show ?thesis using ok True commits_view_applied [OF wf new ms] by simp
  qed (use eq in simp)
qed

lemma demo_apply:
  "find is_active_row (t_refs demo_db) = Some \<lparr>rr_name = DEFAULT_REF_NAME, rr_commit = Some (commit_param 13), rr_active = 1, rr_created_at_ms = 50\<rparr>"
  "set (map commit_param [13]) \<subseteq> commit_ids demo_db"
  "commit_param (commit_hash demo_H [13] 400 [CommitEntry (demo_coord 0) None]) \<notin> commit_ids demo_db"
  subgoal by (simp add: demo_db_def is_active_row_def)
  subgoal by (simp add: demo_db_def commit_ids_def)
  subgoal by (simp add: demo_db_def commit_ids_def commit_hash_def demo_H_def commit_preimage_def
      sort_dedup_def entry_bytes_def optional_blob_bytes_def DOMAIN_def Let_def)
  done

theorem apply_commit_outcome_witness:
  "\<exists>out db'. apply_commit_incremental demo_H 400 [13] [CommitEntry (demo_coord 0) None] demo_db = Inr (out, db')
    \<and> head_view db' = Some (Some (ao_id out))"
  using apply_commit_outcome [OF demo_wf demo_apply(1) _ demo_apply(2) _ demo_apply(3)]
  by (auto split: sum.splits)

subsection \<open>Retiring\<close>



subsection \<open>Refs and scopes\<close>

text \<open>Deleting a ref that is not active removes it and no other; the active ref is protected, and a
  missing one is reported as such.\<close>

lemma delete_ref_outcome:
  assumes "wf_db db"
  shows "case delete_ref n db of
      Inl e \<Rightarrow> e = ActiveRefProtected (ref_str n) \<and> (\<exists>r. refs_view db n = Some r \<and> cr_active r)
    | Inr (found, db') \<Rightarrow> (found \<longleftrightarrow> refs_view db n \<noteq> None) \<and> (\<forall>r. refs_view db n = Some r \<longrightarrow> \<not> cr_active r)
        \<and> refs_view db' = (refs_view db)(n := None) \<and> wf_db db' \<and> active_count db' = active_count db"
proof (cases "delete_ref n db")
  case (Inl e)
  then show ?thesis
    using delete_ref_spec [OF assms, of n]
    by (cases "refs_view db n") (auto split: if_splits)
next
  case (Inr x)
  obtain found db' where x: "x = (found, db')" by (cases x)
  have ok: "wf_db db' \<and> active_count db' = active_count db \<and> (found \<longleftrightarrow> refs_view db n \<noteq> None)
      \<and> refs_view db' n = None \<and> (\<forall>m. m \<noteq> n \<longrightarrow> refs_view db' m = refs_view db m)"
    using delete_ref_ok [OF assms] Inr x by blast
  then have "refs_view db' = (refs_view db)(n := None)" by (intro ext) simp
  moreover have "\<not> cr_active r" if "refs_view db n = Some r" for r
    using delete_ref_spec [OF assms, of n] Inr that by (auto split: if_splits)
  ultimately show ?thesis using ok Inr x by simp
qed

text \<open>Activating a known ref makes it the one active ref and keeps every commit a ref names.\<close>

lemma activate_ref_outcome:
  assumes "wf_db db"
  shows "case activate_ref n db of
      Inl e \<Rightarrow> e = UnknownRef (ref_str n) \<and> refs_view db n = None
    | Inr db' \<Rightarrow> wf_db db' \<and> active_count db' = 1 \<and> refs_view db n \<noteq> None
        \<and> (\<forall>m. refs_view db' m = map_option (\<lambda>r. r\<lparr>cr_active := (m = n)\<rparr>) (refs_view db m))"
proof (cases "activate_ref n db")
  case (Inl e)
  then show ?thesis using activate_ref_spec [OF assms, of n] by (simp split: if_splits)
next
  case (Inr db')
  then have "refs_view db n \<noteq> None" using activate_ref_spec [OF assms, of n] by (auto split: if_splits)
  then show ?thesis unfolding Inr sum.case using activate_ref_ok [OF assms Inr] by blast
qed

text \<open>A scope that was stored reads back with its areas; storing under a name in use keeps the time
  of its first creation, and other scopes keep what they were.\<close>

lemma stored_scope_reads_back:
  assumes "wf_db db" "storable_scope s" "set_scope s db = Inr db'"
  shows "lookup_scope db' (ns_name s) = Inr (Some (case scopes_view db (ns_name s) of None \<Rightarrow> s
      | Some old \<Rightarrow> s\<lparr>ns_created_at_ms := ns_created_at_ms old\<rparr>))
    \<and> (\<forall>n. n \<noteq> ns_name s \<longrightarrow> lookup_scope db' n = lookup_scope db n)"
proof -
  have "wf_db db'" using wf_db_set_scope [OF assms(1,3)] assms(2) by (simp add: storable_scope_def)
  then have wf: "wf_scopes db'" "wf_scopes db" using wf_dbD assms(1) by blast+
  have s: "normal_areas (ns_areas s)" "valid_name (scope_str (ns_name s))"
    using assms(2) by (simp_all add: storable_scope_def)
  show ?thesis
    unfolding lookup_scope_wf [OF wf(1)] lookup_scope_wf [OF wf(2)]
    by (simp add: set_scope_view [OF wf(2) assms(3) s])
qed

definition demo_named :: named_scope where
  "demo_named = \<lparr>ns_name = ScopeName (lit ''spawn''),
     ns_areas = [(Dimension (i32_of 0), Rect (i32_of 0) (i32_of 0) (i32_of 9) (i32_of 9))], ns_created_at_ms = 900\<rparr>"

end
