(* ===== verification/Usecase_Properties.thy ===== *)
theory Usecase_Properties
  imports Usecase_Commit Usecase_Gc Examples
begin

section \<open>Properties of the use cases\<close>

text \<open>
  The claims about committing, checking out, pruning, collecting garbage and walking the graph, on
  the SQLite model: each is a fact of the locale the use case is proved in, read through the
  interpretation of that locale, with the statement written out over the model's definitions.
\<close>

subsection \<open>Committing and checking out\<close>

text \<open>The state a commit starts from.\<close>

definition head_state :: "meta_db \<Rightarrow> commit_id option \<Rightarrow> chunk_coord \<Rightarrow> chunk_hash option option" where
  "head_state db h = (case h of None \<Rightarrow> (\<lambda>_. None) | Some b \<Rightarrow> chunk_view db b)"

lemma head_state_base: "head_view db = Some h \<Longrightarrow> sqa.base_state db = head_state db h"
  by (simp add: sqa.base_state_def head_state_def split: option.split)

definition demo_prev :: previous where
  "demo_prev = \<lparr>pv_commit = Some (commit_new 13 300 [12]), pv_state = [(demo_coord 0, history_entry_new (demo_coord 0) 12 (Some 7))]\<rparr>"

definition demo_commit_plan :: commit_plan where
  "demo_commit_plan = \<lparr>cp_ingest = [region_key_of (demo_coord 0)], cp_removed = [], cp_discovered = {region_key_of (demo_coord 0)}\<rparr>"

lemma demo_commit:
  "plan_commit (sqlite_port demo_H) demo_db [region_key_of (demo_coord 0)] World = Inr (demo_prev, demo_commit_plan)"
  "head_view demo_db = Some (Some 13)"
  "ids_of (commits_view demo_db) = [11, 12, 13]"
    apply code_simp
   apply code_simp
  apply code_simp
  done

text \<open>Planning over a world that holds, inside the scope, exactly the chunks of the head state
  writes no row at all.\<close>

lemma unchanged_world_writes_nothing:
  assumes "wf_db db" "head_view db = Some h"
    and "plan_commit (sqlite_port H) db discovered sc = Inr (prev, plan)"
    and "scanned ing kvs"
    and "\<And>c. map_of kvs c = (if scope_contains sc c then present_at (head_state db h) c else None)"
  shows "as_entries (assemble plan prev ing sc) = [] \<and> as_tombstones (assemble plan prev ing sc) = 0"
proof -
  have prev: "om_ok (pv_state prev)"
      "\<And>c. map_option he_blob (om_get c (pv_state prev)) = map_option Some (present_at (head_state db h) c)"
    using sqa.plan_commit_spec [OF assms(1), of H discovered sc] assms(3) head_state_base [OF assms(2)] by auto
  have "as_entries (assemble plan prev ing sc) = []"
    by (rule assemble_unchanged [OF prev assms(4,5)])
  then show ?thesis by (simp add: assemble_def Let_def)
qed

lemma demo_prev_at:
  "map_option he_blob (om_get c (pv_state demo_prev)) = (if c = demo_coord 0 then Some (Some 7) else None)"
  by (simp add: demo_prev_def om_get_def history_entry_new_def)

subsection \<open>Pruning\<close>

text \<open>The commit a pruned commit folds into is a retained descendant that every retained
  descendant continues; planning fails with no successor exactly when no retained commit descends
  from it, and otherwise only when no retained descendant lies below all of them.\<close>

lemma fold_target_outcome:
  assumes "distinct (ids_of cs)"
  shows "case fold_target (retained_ancestry cs R) R i of
      Inr t \<Rightarrow> t \<in> R \<and> (t, i) \<in> (graph_of cs)\<^sup>+ \<and> (\<forall>j \<in> R. (j, i) \<in> (graph_of cs)\<^sup>+ \<longrightarrow> (j, t) \<in> (graph_of cs)\<^sup>*)
    | Inl e \<Rightarrow> (e = FoldNoSuccessor \<longleftrightarrow> (\<forall>j \<in> R. (j, i) \<notin> (graph_of cs)\<^sup>+))
        \<and> \<not> (\<exists>t \<in> R. (t, i) \<in> (graph_of cs)\<^sup>+ \<and> (\<forall>j \<in> R. (j, i) \<in> (graph_of cs)\<^sup>+ \<longrightarrow> j = t \<or> (j, t) \<in> (graph_of cs)\<^sup>+))"
  using fold_target_ok [OF assms, of R i] fold_target_error [OF assms, of R i]
  by (cases "fold_target (retained_ancestry cs R) R i") simp_all

lemma mapE_err_mem: "mapE f xs = Inl e \<Longrightarrow> \<exists>x \<in> set xs. f x = Inl e"
  by (induction xs) (auto simp: bindE_def split: sum.splits)

text \<open>A plan is answered exactly for a selection of known commits, not empty unless the history
  is, that leaves every other commit a fold target; it then splits the history, oldest first, into
  the commits outside the selection and those inside.\<close>

lemma prune_plan_outcome:
  assumes "wf_db db"
  shows "case prune_plan (sqlite_port H) db R of
      Inl e \<Rightarrow> (e = NothingRetained \<and> commits_view db \<noteq> [] \<and> R = {})
        \<or> (\<exists>i. e = UnknownRetained i \<and> i \<in> R - set (ids_of (commits_view db)))
        \<or> (\<exists>i f. e = fold_failure f i \<and> i \<in> set (ids_of (commits_view db)) - R
             \<and> fold_target (retained_ancestry (commits_view db) R) R i = Inl f)
    | Inr plan \<Rightarrow> R \<subseteq> set (ids_of (commits_view db)) \<and> (commits_view db \<noteq> [] \<longrightarrow> R \<noteq> {})
        \<and> pp_delete plan = filter (\<lambda>i. i \<notin> R) (ids_of (commits_view db))
        \<and> pp_retained plan = filter (\<lambda>i. i \<in> R) (ids_of (commits_view db))"
proof (cases "prune_plan (sqlite_port H) db R")
  case (Inr plan)
  then show ?thesis using sqf.prune_plan_ok [OF assms, of H R plan] by simp
next
  case (Inl e)
  let ?cs = "commits_view db"
  have load: "load_commits (sqlite_port H) db = Inr ?cs"
    by (simp add: load_commits_def visit_commits_wf [OF assms])
  show ?thesis
  proof (cases "?cs \<noteq> [] \<and> R = {}")
    case True
    then show ?thesis using Inl load by (simp add: prune_plan_def)
  next
    case False
    show ?thesis
    proof (cases "sorted_list_of_set (R - set (ids_of ?cs))")
      case (Cons i js)
      then have "i \<in> R - set (ids_of ?cs)"
        by (metis finite list.set_intros(1) set_sorted_list_of_set)
      moreover have "e = UnknownRetained i"
        using Inl False Cons load by (auto simp: prune_plan_def ids_of_def)
      ultimately show ?thesis using Inl by simp
    next
      case Nil
      have "prune_plan (sqlite_port H) db R
          = bindE (mapE (\<lambda>i. map_err (\<lambda>e. fold_failure e i) (fold_target (retained_ancestry ?cs R) R i))
              (filter (\<lambda>i. i \<notin> R) (ids_of ?cs)))
              (\<lambda>_. Inr \<lparr>pp_delete = filter (\<lambda>i. i \<notin> R) (ids_of ?cs), pp_retained = filter (\<lambda>i. i \<in> R) (ids_of ?cs)\<rparr>)"
        unfolding prune_plan_def load bindE_simps if_not_P [OF False] ids_of_def [symmetric] Nil Let_def by simp
      then have "mapE (\<lambda>i. map_err (\<lambda>e. fold_failure e i) (fold_target (retained_ancestry ?cs R) R i))
          (filter (\<lambda>i. i \<notin> R) (ids_of ?cs)) = Inl e"
        using Inl by (auto simp: bindE_def split: sum.splits)
      then obtain i where "i \<in> set (ids_of ?cs) - R"
          "map_err (\<lambda>e. fold_failure e i) (fold_target (retained_ancestry ?cs R) R i) = Inl e"
        using mapE_err_mem by fastforce
      then show ?thesis using Inl by (auto simp: map_err_def split: sum.splits)
    qed
  qed
qed

subsection \<open>Garbage collection\<close>

text \<open>C25: Applying a plan of orphans, however stale, keeps every blob that the effective state of a
  commit holds: it is fetched afterwards, byte for byte.\<close>

theorem gc_keeps_needed_blobs:
  assumes "wf_blobs b" "wf_db db" "i \<in> set (ids_of (commits_view db))"
    and "chunk_view db i c = Some (Some h)" "blobs_view b h = Some p"
  shows "\<exists>b' calls rep. gc_apply sqlite_blob (sqlite_port H) plan db b = (b', calls, Inr rep) \<and> wf_blobs b'
    \<and> bp_fetch_into sqlite_blob b' h out = (p, Inr ())"
  by (rule sqg.gc_safe [OF assms])

text \<open>A blob store with the blobs of \<open>demo_db\<close> and one orphan.\<close>

definition demo_blobs :: blob_db where
  "demo_blobs = \<lparr>t_blobs = map (\<lambda>(h, p). \<lparr>bl_hash = hash_bytes_list h, bl_payload = p\<rparr>)
      [(5, [1]), (6, [2]), (7, [3, 4]), (8, [5])], blob_user_version = 1\<rparr>"

lemma demo_blobs_wf: "wf_blobs demo_blobs"
  by (simp add: wf_blobs_def demo_blobs_def)

lemma demo_blobs_view: "blobs_view demo_blobs 7 = Some [3, 4]" "blobs_view demo_blobs 8 = Some [5]"
  by (simp_all add: blobs_view_def find_blob_def demo_blobs_def)

lemma demo_state: "(13 :: commit_id) \<in> set (ids_of (commits_view demo_db))" "chunk_view demo_db 13 (demo_coord 0) = Some (Some 7)"
  by (simp add: demo_commit(3)) code_simp

theorem gc_keeps_needed_blobs_witness:
  "\<exists>b' calls rep. gc_apply sqlite_blob (sqlite_port demo_H) (gc_plan_new [7, 8] 4) demo_db demo_blobs = (b', calls, Inr rep)
    \<and> bp_fetch_into sqlite_blob b' 7 [] = ([3, 4], Inr ())"
  using gc_keeps_needed_blobs [OF demo_blobs_wf demo_wf demo_state demo_blobs_view(1), where H = demo_H and plan = "gc_plan_new [7, 8] 4" and out = "[]"] by blast

text \<open>C32: A fresh plan examines every blob, and applied at once it removes every blob that no
  effective state of a commit holds, and no other.\<close>

theorem gc_removes_orphans:
  assumes "wf_blobs b" "wf_db db"
  shows "\<exists>plan b' calls rep. gc_plan sqlite_blob (sqlite_port H) b db = Inr plan
    \<and> gp_examined plan = card (dom (blobs_view b))
    \<and> gc_apply sqlite_blob (sqlite_port H) plan db b = (b', calls, Inr rep)
    \<and> dom (blobs_view b') = {h \<in> dom (blobs_view b). \<exists>i \<in> set (ids_of (commits_view db)). \<exists>c. chunk_view db i c = Some (Some h)}
    \<and> gr_removed rep = length (gp_orphans plan)"
proof -
  obtain plan where plan: "gc_plan sqlite_blob (sqlite_port H) b db = Inr plan"
      "gp_examined plan = card (dom (blobs_view b))"
    using sqg.gc_plan_spec [OF assms, of H] by blast
  obtain b' calls rep where a: "gc_apply sqlite_blob (sqlite_port H) plan db b = (b', calls, Inr rep)"
      "dom (blobs_view b') = dom (blobs_view b) \<inter> sqg.referenced db" "gr_removed rep = length (gp_orphans plan)"
    using sqg.gc_complete [OF assms plan(1)] by blast
  have "dom (blobs_view b') = {h \<in> dom (blobs_view b). \<exists>i \<in> set (ids_of (commits_view db)). \<exists>c. chunk_view db i c = Some (Some h)}"
    using a(2) by (auto simp: sqg.referenced_def)
  then show ?thesis using plan a(1,3) by blast
qed

theorem gc_removes_orphans_witness:
  "\<exists>plan b' calls rep. gc_plan sqlite_blob (sqlite_port demo_H) demo_blobs demo_db = Inr plan
    \<and> gc_apply sqlite_blob (sqlite_port demo_H) plan demo_db demo_blobs = (b', calls, Inr rep)
    \<and> 7 \<in> dom (blobs_view b')"
  using gc_removes_orphans [OF demo_blobs_wf demo_wf, of demo_H] demo_state demo_blobs_view by blast

subsection \<open>The commit graph\<close>

text \<open>C39: The ancestors of a known commit are listed level by level: first its parents, then what takes
  two steps and no fewer, and so on until a level is empty, each level in id order; so every proper
  ancestor is listed, and none twice.\<close>

theorem ancestors_by_distance:
  assumes "wf_db db" "find_record (commits_view db) i = Some r"
  shows "\<exists>n. commit_ancestors (sqlite_port H) db i
      = Inr (layers_list (graph_of (commits_view db)) {p. (i, p) \<in> graph_of (commits_view db)} n)
    \<and> layer (graph_of (commits_view db)) {p. (i, p) \<in> graph_of (commits_view db)} n = {}"
  using sq.commit_ancestors_spec [OF assms, of H] by (simp add: sq.graph_def)

theorem ancestors_by_distance_witness:
  "\<exists>xs. commit_ancestors (sqlite_port demo_H) demo_db 13 = Inr xs"
proof -
  have "find_record (commits_view demo_db) 13 = Some (commit_new 13 300 [12])" by code_simp
  from ancestors_by_distance [OF demo_wf this, of demo_H] show ?thesis by blast
qed

text \<open>The history of a known commit lists its record first and the records of all its ancestors, each
  once, nearest first.\<close>

lemma history_lists_ancestry:
  assumes "wf_db db" "i \<in> set (ids_of (commits_view db))"
  shows "\<exists>rs. commit_history (sqlite_port H) db i = Inr rs \<and> set rs \<subseteq> set (commits_view db)
    \<and> distinct (ids_of rs) \<and> set (ids_of rs) = (graph_of (commits_view db))\<^sup>* `` {i}"
proof -
  obtain n rs where h: "commit_history (sqlite_port H) db i = Inr rs"
      "ids_of rs = layers_list (graph_of (commits_view db)) {i} n"
      "layer (graph_of (commits_view db)) {i} n = {}" "set rs \<subseteq> set (commits_view db)"
    using sq.commit_history_spec [OF assms, of H] by (auto simp: sq.graph_def)
  then show ?thesis using distinct_layers_list set_layers_list all_layers [OF h(3)] by auto
qed

subsection \<open>Merges\<close>

text \<open>
  Why the theorem about pruning asks for at most one parent per commit. Two branches of commit 11
  write the chunk, 12 first and 13 later, and 15 merges 14 (which continues 12) and 13: its state
  is the row of 13. Pruning 12 folds its row into 14, whose sequence is above the one of 13, so the
  state of the retained merge changes from blob 6 to blob 5.
\<close>

definition merge_db :: meta_db where
  "merge_db =
     \<lparr>t_commits =
        [\<lparr>cm_seq = 1, cm_id = commit_param 11, cm_created_at_ms = 100\<rparr>,
         \<lparr>cm_seq = 2, cm_id = commit_param 12, cm_created_at_ms = 100\<rparr>,
         \<lparr>cm_seq = 3, cm_id = commit_param 13, cm_created_at_ms = 100\<rparr>,
         \<lparr>cm_seq = 4, cm_id = commit_param 14, cm_created_at_ms = 100\<rparr>,
         \<lparr>cm_seq = 5, cm_id = commit_param 15, cm_created_at_ms = 100\<rparr>],
      t_parents =
        [(commit_param 12, commit_param 11), (commit_param 13, commit_param 11),
         (commit_param 14, commit_param 12), (commit_param 15, commit_param 14), (commit_param 15, commit_param 13)],
      t_history = [history_row_of 12 2 (demo_coord 0) (Some 5), history_row_of 13 3 (demo_coord 0) (Some 6)],
      t_refs = [\<lparr>rr_name = DEFAULT_REF_NAME, rr_commit = Some (commit_param 15), rr_active = 1, rr_created_at_ms = 50\<rparr>],
      t_scopes = [], t_areas = [], commits_autoinc = 5, scopes_autoinc = 0, user_version = 15\<rparr>"

lemma merge_prune:
  "wf_db merge_db" "seq_ordered merge_db"
  "prune_plan (sqlite_port demo_H) merge_db {11, 13, 14, 15} = Inr \<lparr>pp_delete = [12], pp_retained = [11, 13, 14, 15]\<rparr>"
  "chunk_view merge_db 15 (demo_coord 0) = Some (Some 6)"
     apply code_simp
    apply code_simp
   apply code_simp
  apply code_simp
  done

lemma merge_prune_applied:
  "case prune_apply (sqlite_port demo_H) \<lparr>pp_delete = [12], pp_retained = [11, 13, 14, 15]\<rparr> merge_db of
     (res, db', _) \<Rightarrow> is_ok res \<and> chunk_view db' 15 (demo_coord 0) = Some (Some 5)"
  by code_simp


end
