(* ===== verification/App_Base.thy ===== *)
theory App_Base
  imports World_Port Anvil_Walk Usecase_Commit Usecase_Gc Chunk_Keys
begin

section \<open>The application layer: errors, clock and discovery\<close>

text \<open>
  \<open>crates/app/src/error.rs\<close>, \<open>time.rs\<close> and \<open>regions.rs\<close>. The operations of this layer combine a
  world, the two stores and the chunk codecs; every failure of one of them arrives as its variant
  of \<open>app_error\<close>. \<open>discover_regions\<close> is the walk that commit, checkout and diff share: the lemmas
  show that on a valid world it answers a handle for every region file and for nothing else.
\<close>

datatype io_failure = InvalidData region_key | DirectoryNotEmpty

datatype app_error =
    AeWorld world_error
  | AeStorage storage_error
  | AeAnvil anvil_error
  | AeRegionFailed rstr anvil_error
  | AeCheckout "storage_error checkout_error"
  | AeGc "(storage_error, storage_error) gc_error"
  | AePrune "storage_error prune_error"
  | AeChunkHash chunk_hash_error
  | AeTruncatedChunk chunk_coord i32 i32 nbt_error
  | AeUnhashableChunk chunk_coord i32 i32 chunk_hash_error
  | AeCommit "storage_error commit_error"
  | AeCommitRef "storage_error resolve_error"
  | AeRefExists rstr
  | AeUnknownRef rstr
  | AeActiveRef rstr
  | AeScopeExists rstr
  | AeUnknownScope rstr
  | AeInvalidScope named_scope_error
  | AeNoCommits
  | AeIo io_failure
  | AeClock
  | AeClockOutOfRange
  | AeJoin

definition duplicate_region :: "region_key \<Rightarrow> app_error" where
  "duplicate_region k = AeIo (InvalidData k)"

text \<open>The clock is the milliseconds since the epoch, \<open>None\<close> before it.\<close>

definition app_now_ms :: "nat option \<Rightarrow> (app_error, u64) result" where
  "app_now_ms clock =
     bindE (ok_or AeClock clock) (\<lambda>millis.
       if millis > 18446744073709551615 then Inl AeClockOutOfRange else Inr (of_nat millis))"

lemma app_now_ms_ok: "app_now_ms clock = Inr t \<Longrightarrow> clock = Some (unat t)"
  by (auto simp: app_now_ms_def bindE_eq_Inr ok_or_eq_Inr unat_of_nat take_bit_eq_mod split: if_splits)

subsection \<open>Discovery\<close>

definition discover_entry ::
  "region_key \<times> 'r \<Rightarrow> (region_key, 'r) omap \<Rightarrow> (app_error, (region_key, 'r) omap) result" where
  "discover_entry e regions =
     (case om_get (fst e) regions of
        None \<Rightarrow> Inr (om_put (fst e) (snd e) regions)
      | Some _ \<Rightarrow> Inl (duplicate_region (fst e)))"

definition discover_kind ::
  "('w, 'r) world_port \<Rightarrow> 'w \<Rightarrow> dimension \<times> region_kind \<Rightarrow> (region_key, 'r) omap
     \<Rightarrow> (app_error, (region_key, 'r) omap) result" where
  "discover_kind wp w dk regions =
     bindE (map_err AeWorld (wp_get_regions wp w (fst dk) (snd dk))) (\<lambda>found.
       foldE discover_entry found regions)"

definition discover_regions ::
  "('w, 'r) world_port \<Rightarrow> 'w \<Rightarrow> (app_error, (region_key, 'r) omap) result" where
  "discover_regions wp w =
     bindE (map_err AeWorld (wp_get_dims wp w)) (\<lambda>dims.
       foldE (discover_kind wp w) (List.product dims all_region_kinds) [])"

lemma discover_entries:
  assumes "om_ok m" "distinct (map fst rs)" "\<forall>k \<in> fst ` set rs. om_get k m = None"
  shows "\<exists>m'. foldE discover_entry rs m = Inr m' \<and> om_ok m'
    \<and> (\<forall>k. om_get k m' = (case map_of rs k of Some r \<Rightarrow> Some r | None \<Rightarrow> om_get k m))"
  using assms
proof (induction rs arbitrary: m)
  case (Cons e rs)
  let ?m = "om_put (fst e) (snd e) m"
  have one: "discover_entry e m = Inr ?m" using Cons.prems by (simp add: discover_entry_def)
  have "om_get k ?m = None" if "k \<in> fst ` set rs" for k
  proof -
    have "fst e \<notin> fst ` set rs" using Cons.prems(2) by simp
    then have "k \<noteq> fst e" using that by blast
    moreover have "om_get k m = None" using Cons.prems(3) that by auto
    ultimately show ?thesis using Cons.prems(1) by (simp add: om_get_put)
  qed
  then obtain m' where m': "foldE discover_entry rs ?m = Inr m'" "om_ok m'"
      "\<And>k. om_get k m' = (case map_of rs k of Some r \<Rightarrow> Some r | None \<Rightarrow> om_get k ?m)"
    using Cons.IH [of ?m] Cons.prems by (auto simp: om_ok_put)
  have "map_of rs (fst e) = None" using Cons.prems(2) by (simp add: map_of_eq_None_iff)
  then have "om_get k m' = (case map_of (e # rs) k of Some r \<Rightarrow> Some r | None \<Rightarrow> om_get k m)" for k
    using m'(3) [of k] Cons.prems(1) by (cases e) (auto simp: om_get_put split: option.split)
  with one m'(1,2) show ?case by simp
qed simp

context world_tree begin

text \<open>Discovery answers exactly the region files, each with a handle that names it.\<close>

definition observed :: "'w \<Rightarrow> (region_key, 'r) omap \<Rightarrow> bool" where
  "observed w m \<longleftrightarrow> om_ok m \<and> (\<forall>k. om_get k m = None \<longleftrightarrow> files w k = None)
     \<and> (\<forall>k r. om_get k m = Some r \<longrightarrow> names w k r)"

lemma discover_kinds:
  assumes w: "valid w" and dks: "distinct dks" and m: "om_ok m"
    and seen: "\<And>k. om_get k m \<noteq> None \<longleftrightarrow> files w k \<noteq> None \<and> (key_dim k, key_kind k) \<in> done"
    and nm: "\<And>k r. om_get k m = Some r \<Longrightarrow> names w k r" and disj: "set dks \<inter> done = {}"
  shows "\<exists>m'. foldE (discover_kind port w) dks m = Inr m' \<and> om_ok m'
    \<and> (\<forall>k. om_get k m' \<noteq> None \<longleftrightarrow> files w k \<noteq> None \<and> (key_dim k, key_kind k) \<in> done \<union> set dks)
    \<and> (\<forall>k r. om_get k m' = Some r \<longrightarrow> names w k r)"
  using dks m seen nm disj
proof (induction dks arbitrary: m "done")
  case (Cons dk dks)
  obtain rs where rs: "wp_get_regions port w (fst dk) (snd dk) = Inr rs" "distinct (map fst rs)"
      "\<forall>k. k \<in> fst ` set rs \<longleftrightarrow> files w k \<noteq> None \<and> key_dim k = fst dk \<and> key_kind k = snd dk"
      "\<forall>(k, r) \<in> set rs. names w k r"
    using get_regions [OF w, of "fst dk" "snd dk"] by (elim exE conjE)
  have new: "om_get k m = None" if "k \<in> fst ` set rs" for k
  proof -
    have "(key_dim k, key_kind k) = dk" using rs(3) that by (cases dk) simp
    then have "(key_dim k, key_kind k) \<notin> done" using Cons.prems(5) by auto
    then show ?thesis using Cons.prems(3) by blast
  qed
  obtain m1 where m1: "foldE discover_entry rs m = Inr m1" "om_ok m1"
      "\<forall>k. om_get k m1 = (case map_of rs k of Some r \<Rightarrow> Some r | None \<Rightarrow> om_get k m)"
    using discover_entries [OF Cons.prems(2) rs(2)] new by (metis (no_types, lifting))
  have mem: "map_of rs k \<noteq> None \<longleftrightarrow> files w k \<noteq> None \<and> (key_dim k, key_kind k) = dk" for k
    using rs(3) [rule_format, of k] by (cases dk) (auto simp: map_of_eq_None_iff)
  have seen1: "om_get k m1 \<noteq> None \<longleftrightarrow> files w k \<noteq> None \<and> (key_dim k, key_kind k) \<in> insert dk done" for k
    using m1(3) [rule_format, of k] mem [of k] Cons.prems(3) [of k] by (auto split: option.splits)
  have names1: "names w k r" if "om_get k m1 = Some r" for k r
    using that m1(3) [rule_format, of k] Cons.prems(4) rs(4) by (auto split: option.splits dest!: map_of_SomeD)
  have disj1: "set dks \<inter> insert dk done = {}" and dist1: "distinct dks" using Cons.prems(1,5) by auto
  have "\<exists>m'. foldE (discover_kind port w) dks m1 = Inr m' \<and> om_ok m'
    \<and> (\<forall>k. om_get k m' \<noteq> None \<longleftrightarrow> files w k \<noteq> None \<and> (key_dim k, key_kind k) \<in> insert dk done \<union> set dks)
    \<and> (\<forall>k r. om_get k m' = Some r \<longrightarrow> names w k r)"
    by (rule Cons.IH [OF dist1 m1(2) seen1 names1 disj1])
  moreover have "discover_kind port w dk m = Inr m1" using m1(1) rs(1) by (simp add: discover_kind_def)
  ultimately show ?case by simp
next
  case Nil
  then show ?case by simp
qed

lemma discovers:
  assumes w: "valid w"
  shows "\<exists>m. discover_regions port w = Inr m \<and> observed w m"
proof -
  obtain ds where ds: "wp_get_dims port w = Inr ds" "distinct ds" "set ds = dims w" using get_dims [OF w] by blast
  have "kd \<in> set all_region_kinds" for kd by (cases kd) (simp_all add: all_region_kinds_def)
  then have kinds: "set all_region_kinds = UNIV" by blast
  have kinds_once: "distinct all_region_kinds" by (simp add: all_region_kinds_def)
  have "\<exists>m'. foldE (discover_kind port w) (List.product ds all_region_kinds) [] = Inr m' \<and> om_ok m'
    \<and> (\<forall>k. om_get k m' \<noteq> None \<longleftrightarrow> files w k \<noteq> None
          \<and> (key_dim k, key_kind k) \<in> {} \<union> set (List.product ds all_region_kinds))
    \<and> (\<forall>k r. om_get k m' = Some r \<longrightarrow> names w k r)"
    by (rule discover_kinds [OF w]) (simp_all add: distinct_product ds(2) kinds_once)
  then obtain m' where m': "foldE (discover_kind port w) (List.product ds all_region_kinds) [] = Inr m'" "om_ok m'"
    "\<And>k. om_get k m' \<noteq> None \<longleftrightarrow> files w k \<noteq> None \<and> key_dim k \<in> dims w"
    "\<And>k r. om_get k m' = Some r \<Longrightarrow> names w k r"
    by (auto simp: ds(3) kinds)
  have "om_get k m' = None \<longleftrightarrow> files w k = None" for k
    using m'(3) [of k] file_dim [OF w, of k] by auto
  then have "observed w m'" using m'(2,4) by (simp add: observed_def)
  moreover have "discover_regions port w = Inr m'" using m'(1) by (simp add: discover_regions_def ds(1))
  ultimately show ?thesis by blast
qed

end

end
