(* ===== verification/App_Checkout.thy ===== *)
theory App_Checkout
  imports App_Base
begin

section \<open>Checking a commit out into a world\<close>

text \<open>
  \<open>crates/app/src/checkout.rs\<close>. The plan of \<open>plan_checkout\<close> is restricted to the scope; then every
  region file of the world or of the plan is rebuilt from blobs, deleted or left alone. A run threads
  the world, the fetch buffer, the report and the calls of the progress callback; a failed file ends
  it and leaves the world as the files before it made it. Timings, the lock and the hand-over between
  the async side and the blocking pool are left out: one file is finished before the next starts.
\<close>

record checkout_report =
  rpt_files_written :: usize
  rpt_files_deleted :: usize
  rpt_chunks_restored :: usize

record file_progress =
  pg_files_done :: usize
  pg_files_total :: usize
  pg_chunks_done :: usize

datatype missing_blob_policy = AbortOnMissing | SkipChunk

datatype missing_file_policy = SiblingFirst | DerivedOnly | FailOnMissing

record checkout_options =
  opt_keep_files :: bool
  opt_keep_chunks :: bool
  opt_keep_tombstoned :: bool
  opt_missing_blob :: missing_blob_policy
  opt_missing_file :: missing_file_policy

definition checkout_options_default :: checkout_options where
  "checkout_options_default =
     \<lparr>opt_keep_files = False, opt_keep_chunks = False, opt_keep_tombstoned = False,
      opt_missing_blob = AbortOnMissing, opt_missing_file = SiblingFirst\<rparr>"

record ('b, 'r) checkout_job =
  cj_groups :: "(region_key, (chunk_coord \<times> chunk_hash) list) omap"
  cj_tombstones :: "(region_key, chunk_coord list) omap"
  cj_options :: checkout_options
  cj_cas :: 'b
  cj_discovered :: "(region_key, 'r) omap"

record 'w checkout_run =
  run_world :: 'w
  run_buf :: bytes
  run_report :: checkout_report
  run_done :: usize
  run_progress :: "file_progress list"

subsection \<open>One chunk\<close>

definition fetch_or_skip ::
  "('b, storage_error) blob_port \<Rightarrow> 'b \<Rightarrow> chunk_hash \<Rightarrow> missing_blob_policy \<Rightarrow> bytes
     \<Rightarrow> bytes \<times> (app_error, bool) result" where
  "fetch_or_skip bp cas hash policy out =
     (case bp_fetch_into bp cas hash out of
        (buf, Inr _) \<Rightarrow> (buf, Inr True)
      | (buf, Inl e) \<Rightarrow>
          (buf, case e of
                  BlobMissing _ \<Rightarrow> if policy = SkipChunk then Inr False else Inl (AeStorage e)
                | _ \<Rightarrow> Inl (AeStorage e)))"

type_synonym restore_state = "bytes \<times> region_builder \<times> (i32 \<times> i32) set \<times> usize"

definition restore_row ::
  "('b, storage_error) blob_port \<Rightarrow> 'b \<Rightarrow> missing_blob_policy \<Rightarrow> chunk_coord \<times> chunk_hash
     \<Rightarrow> restore_state \<Rightarrow> (app_error, restore_state) result" where
  "restore_row bp cas policy = (\<lambda>(coord, hash) (buf, writer, restored, n).
     (case fetch_or_skip bp cas hash policy buf of
        (buf', fetched) \<Rightarrow>
          bindE fetched (\<lambda>found.
            if \<not> found then Inr (buf', writer, restored, n)
            else bindE (map_err AeAnvil (stage_chunk (coord_x coord) (coord_z coord) buf' writer)) (\<lambda>writer'.
                   Inr (buf', writer', insert (coord_x coord, coord_z coord) restored, n + 1)))))"

text \<open>The visitor of the live image: the builder, and the failure that stopped the visit.\<close>

definition merge_chunk ::
  "(i32 \<times> i32) set \<Rightarrow> (i32 \<times> i32) set \<Rightarrow> checkout_options
     \<Rightarrow> region_builder \<times> anvil_error option \<Rightarrow> chunk \<Rightarrow> bool \<times> region_builder \<times> anvil_error option" where
  "merge_chunk restored tombed options = (\<lambda>(writer, failed) chunk.
     (if (ch_x chunk, ch_z chunk) \<in> restored then (True, writer, failed)
      else
        let keep = (if (ch_x chunk, ch_z chunk) \<in> tombed then opt_keep_tombstoned options
                    else opt_keep_chunks options)
        in if keep
           then (case stage_chunk (ch_x chunk) (ch_z chunk) (ch_payload chunk) writer of
                   Inl source \<Rightarrow> (False, writer, Some source)
                 | Inr writer' \<Rightarrow> (True, writer', failed))
           else (True, writer, failed)))"

definition merge_live_chunks ::
  "('w, 'r) world_port \<Rightarrow> 'w \<Rightarrow> 'r \<Rightarrow> region_key \<Rightarrow> (i32 \<times> i32) set \<Rightarrow> chunk_coord list option
     \<Rightarrow> checkout_options \<Rightarrow> region_builder \<Rightarrow> (app_error, region_builder) result" where
  "merge_live_chunks wp w region key restored tombs options writer =
     (if \<not> wp_exists wp w region then Inr writer
      else bindE (map_err AeWorld (wp_read wp w region key)) (\<lambda>image.
        let tombed = (case tombs of None \<Rightarrow> {} | Some coords \<Rightarrow> set (map (\<lambda>c. (coord_x c, coord_z c)) coords))
        in bindE (map_err AeWorld (run_visit (merge_chunk restored tombed options) (wi_chunks image) (writer, None)))
             (\<lambda>(writer', failed).
                case failed of Some source \<Rightarrow> Inl (AeAnvil source) | None \<Rightarrow> Inr writer')))"

subsection \<open>Where a missing file goes\<close>

definition sibling_or_derived ::
  "('w, 'r) world_port \<Rightarrow> (region_key, 'r) omap \<Rightarrow> 'w \<Rightarrow> region_key \<Rightarrow> (app_error, 'r) result" where
  "sibling_or_derived wp discovered w key =
     (case find (\<lambda>e. key_dim (fst e) = key_dim key \<and> key_kind (fst e) = key_kind key) discovered of
        Some e \<Rightarrow> map_err AeWorld (wp_sibling_region wp w (snd e) key)
      | None \<Rightarrow> map_err AeWorld (wp_derive_region wp w key))"

definition resolve_target ::
  "('w, 'r) world_port \<Rightarrow> (region_key, 'r) omap \<Rightarrow> 'w \<Rightarrow> region_key \<Rightarrow> missing_file_policy
     \<Rightarrow> (app_error, 'r) result" where
  "resolve_target wp discovered w key policy =
     (case policy of
        FailOnMissing \<Rightarrow>
          Inl (AeWorld (WeUnknownRegionPath (key_dim key) (key_kind key) (key_rx key) (key_rz key)))
      | DerivedOnly \<Rightarrow> map_err AeWorld (wp_derive_region wp w key)
      | SiblingFirst \<Rightarrow> sibling_or_derived wp discovered w key)"

subsection \<open>One file\<close>

definition file_finished :: "usize \<Rightarrow> 'w checkout_run \<Rightarrow> 'w checkout_run" where
  "file_finished planned run =
     run\<lparr>run_progress := run_progress run @
           [\<lparr>pg_files_done = run_done run, pg_files_total = planned,
             pg_chunks_done = rpt_chunks_restored (run_report run)\<rparr>]\<rparr>"

definition drop_file ::
  "('w, 'r) world_port \<Rightarrow> ('b, 'r) checkout_job \<Rightarrow> region_key \<Rightarrow> 'r \<Rightarrow> 'w checkout_run
     \<Rightarrow> (app_error, 'w checkout_run) result" where
  "drop_file wp job key region run =
     (let keep = (if om_get key (cj_tombstones job) \<noteq> None then opt_keep_tombstoned (cj_options job)
                  else opt_keep_files (cj_options job));
          deleted = (\<not> keep \<and> wp_exists wp (run_world run) region)
      in bindE (if deleted then map_err AeWorld (wp_remove wp region (run_world run)) else Inr (run_world run))
           (\<lambda>w. Inr (run\<lparr>run_world := w,
                 run_report := (run_report run)\<lparr>rpt_files_deleted :=
                   rpt_files_deleted (run_report run) + (if deleted then 1 else 0)\<rparr>\<rparr>)))"

definition rebuild_file ::
  "('w, 'r) world_port \<Rightarrow> ('b, storage_error) blob_port \<Rightarrow> ('b, 'r) checkout_job \<Rightarrow> u32 \<Rightarrow> region_key \<Rightarrow> 'r
     \<Rightarrow> (chunk_coord \<times> chunk_hash) list \<Rightarrow> 'w checkout_run \<Rightarrow> (app_error, 'w checkout_run) result" where
  "rebuild_file wp bp job ts key region rows run =
     bindE (map_err AeAnvil (builder_new (key_rx key) (key_rz key) ts)) (\<lambda>writer0.
     bindE (foldE (restore_row bp (cj_cas job) (opt_missing_blob (cj_options job))) rows
              (run_buf run, writer0, {}, rpt_chunks_restored (run_report run))) (\<lambda>(buf, writer1, restored, n).
     bindE (if opt_keep_chunks (cj_options job) \<or> opt_keep_tombstoned (cj_options job)
            then merge_live_chunks wp (run_world run) region key restored (om_get key (cj_tombstones job))
                   (cj_options job) writer1
            else Inr writer1) (\<lambda>writer2.
     bindE (map_err AeAnvil (builder_image writer2)) (\<lambda>image.
     bindE (map_err AeWorld (wp_write wp region image (run_world run))) (\<lambda>w.
       Inr (run\<lparr>run_world := w, run_buf := buf,
            run_report := (run_report run)\<lparr>rpt_chunks_restored := n,
              rpt_files_written := rpt_files_written (run_report run) + 1\<rparr>\<rparr>))))))"

definition checkout_key ::
  "('w, 'r) world_port \<Rightarrow> ('b, storage_error) blob_port \<Rightarrow> ('b, 'r) checkout_job \<Rightarrow> u32 \<Rightarrow> usize \<Rightarrow> region_key
     \<Rightarrow> 'w checkout_run \<Rightarrow> (app_error, 'w checkout_run) result" where
  "checkout_key wp bp job ts planned key run0 =
     (let run = run0\<lparr>run_done := run_done run0 + 1\<rparr>;
          rows = om_get key (cj_groups job);
          target = (case om_get key (cj_discovered job) of
                      Some region \<Rightarrow> Inr (Some region)
                    | None \<Rightarrow>
                        (case rows of
                           None \<Rightarrow> Inr None
                         | Some _ \<Rightarrow> bindE (resolve_target wp (cj_discovered job) (run_world run) key
                                       (opt_missing_file (cj_options job))) (\<lambda>region. Inr (Some region))))
      in bindE target (\<lambda>found.
           bindE (case found of
                    None \<Rightarrow> Inr run
                  | Some region \<Rightarrow>
                      (case rows of
                         None \<Rightarrow> drop_file wp job key region run
                       | Some rows \<Rightarrow> rebuild_file wp bp job ts key region rows run)) (\<lambda>run'.
             Inr (file_finished planned run'))))"

subsection \<open>All files\<close>

primrec checkout_keys ::
  "('w, 'r) world_port \<Rightarrow> ('b, storage_error) blob_port \<Rightarrow> ('b, 'r) checkout_job \<Rightarrow> u32 \<Rightarrow> usize \<Rightarrow> region_key list
     \<Rightarrow> 'w checkout_run \<Rightarrow> (app_error, unit) result \<times> 'w checkout_run" where
  "checkout_keys wp bp job ts planned [] run = (Inr (), run)"
| "checkout_keys wp bp job ts planned (k # ks) run =
     (case checkout_key wp bp job ts planned k run of
        Inl e \<Rightarrow> (Inl e, run)
      | Inr run' \<Rightarrow> checkout_keys wp bp job ts planned ks run')"

definition job_keys :: "('b, 'r) checkout_job \<Rightarrow> region_key list" where
  "job_keys job =
     sorted_list_of_set (set (map fst (cj_discovered job)) \<union> set (map fst (cj_groups job))
       \<union> set (map fst (cj_tombstones job)))"

definition checkout_start :: "'w \<Rightarrow> 'w checkout_run" where
  "checkout_start w =
     \<lparr>run_world = w, run_buf = [],
      run_report = \<lparr>rpt_files_written = 0, rpt_files_deleted = 0, rpt_chunks_restored = 0\<rparr>,
      run_done = 0, run_progress = []\<rparr>"

definition checkout_file_pass ::
  "('w, 'r) world_port \<Rightarrow> ('b, storage_error) blob_port \<Rightarrow> ('b, 'r) checkout_job \<Rightarrow> u32 \<Rightarrow> 'w
     \<Rightarrow> (app_error, checkout_report) result \<times> 'w checkout_run" where
  "checkout_file_pass wp bp job ts w =
     (let keys = job_keys job
      in case checkout_keys wp bp job ts (length keys) keys (checkout_start w) of
           (ended, run) \<Rightarrow> (bindE ended (\<lambda>_. Inr (run_report run)), run))"

definition stamp_of :: "u64 \<Rightarrow> u32" where
  "stamp_of created_at_ms =
     (let secs = unat created_at_ms div 1000 in case u32_try secs of Some t \<Rightarrow> t | None \<Rightarrow> 0xFFFFFFFF)"

definition om_retain :: "('k \<Rightarrow> bool) \<Rightarrow> ('k, 'v) omap \<Rightarrow> ('k, 'v) omap" where
  "om_retain keep m = filter (\<lambda>e. keep (fst e)) m"

text \<open>The answer, and the run it ended with: the world as left and the calls of the callback.\<close>

definition checkout ::
  "('w, 'r) world_port \<Rightarrow> ('b, storage_error) blob_port \<Rightarrow> ('m, storage_error) meta_port \<Rightarrow> ('m, 'b) store
     \<Rightarrow> commit_id \<Rightarrow> checkout_options \<Rightarrow> scope \<Rightarrow> 'w
     \<Rightarrow> (app_error, checkout_report) result \<times> 'w checkout_run" where
  "checkout wp bp mp st commit options sc w =
     (case map_err AeCheckout (plan_checkout mp (store_meta st) commit) of
        Inl e \<Rightarrow> (Inl e, checkout_start w)
      | Inr plan \<Rightarrow>
          (case discover_regions wp w of
             Inl e \<Rightarrow> (Inl e, checkout_start w)
           | Inr discovered \<Rightarrow>
               checkout_file_pass wp bp
                 \<lparr>cj_groups = om_retain (scope_matches_region sc) (co_groups plan),
                  cj_tombstones = om_retain (scope_matches_region sc) (co_tombstones plan),
                  cj_options = options, cj_cas = store_blob st,
                  cj_discovered = om_retain (scope_matches_region sc) discovered\<rparr>
                 (stamp_of (co_created_at_ms plan)) w))"

subsection \<open>What a run leaves alone\<close>

context world_tree begin

text \<open>
  After the files \<open>touched\<close>: the layout and every other file are as they were, and the handles that
  discovery observed still name their regions.
\<close>

definition run_inv :: "'w \<Rightarrow> (region_key, 'r) omap \<Rightarrow> region_key set \<Rightarrow> 'w \<Rightarrow> bool" where
  "run_inv w0 disc touched w \<longleftrightarrow> valid w \<and> dims w = dims w0 \<and> (\<forall>j. j \<notin> touched \<longrightarrow> files w j = files w0 j)
     \<and> (\<forall>j r. om_get j disc = Some r \<longrightarrow> names w j r)"

lemma run_inv_more: "run_inv w0 disc touched w \<Longrightarrow> touched \<subseteq> further \<Longrightarrow> run_inv w0 disc further w"
  by (auto simp: run_inv_def)

lemma run_inv_write:
  assumes "run_inv w0 disc touched w" "names w k r" "\<And>s. om_get k disc = Some s \<Longrightarrow> s = r"
    and "wp_write port r bs w = Inr w'"
  shows "run_inv w0 disc (insert k touched) w' \<and> files w' k = Some bs"
proof -
  have inv: "valid w" "dims w = dims w0" "\<forall>j. j \<notin> touched \<longrightarrow> files w j = files w0 j"
      "\<forall>j s. om_get j disc = Some s \<longrightarrow> names w j s"
    using assms(1) by (simp_all add: run_inv_def)
  have w': "valid w'" "dims w' = dims w" "files w' = (files w)(k \<mapsto> bs)"
      "\<And>j s. names w j s \<Longrightarrow> j \<noteq> k \<or> s = r \<Longrightarrow> names w' j s"
    using write_ok [OF inv(1) assms(2), of bs] assms(4) by simp_all
  have "names w' j s" if "om_get j disc = Some s" for j s
    using that inv(4) assms(3) w'(4) [of j s] by (cases "j = k") auto
  then show ?thesis using inv(2,3) w'(1-3) by (simp add: run_inv_def)
qed

lemma run_inv_remove:
  assumes "run_inv w0 disc touched w" "names w k r" "files w k \<noteq> None" "wp_remove port r w = Inr w'"
  shows "run_inv w0 disc (insert k touched) w' \<and> files w' k = None"
  using assms remove_ok [of w k r] unfolding run_inv_def by auto

lemma derive_names:
  assumes "valid w" "files w k = None" "wp_derive_region port w k = Inr r"
  shows "names w k r"
  using assms derive_ok [of w k] derive_outside [of w k] by (cases "key_dim k \<in> dims w") auto

lemma resolve_names:
  assumes inv: "run_inv w0 disc touched w" and disc: "om_ok disc" and gone: "files w k = None"
    and target: "resolve_target port disc w k policy = Inr r"
  shows "names w k r"
proof -
  have w: "valid w" using inv by (simp add: run_inv_def)
  have derived: "names w k r" if "wp_derive_region port w k = Inr r" by (rule derive_names [OF w gone that])
  show ?thesis
  proof (cases policy)
    case SiblingFirst
    show ?thesis
    proof (cases "find (\<lambda>e. key_dim (fst e) = key_dim k \<and> key_kind (fst e) = key_kind k) disc")
      case None
      then show ?thesis
        using target derived SiblingFirst by (simp add: resolve_target_def sibling_or_derived_def map_err_eq_Inr)
    next
      case (Some e)
      note e = find_Some_mem [OF Some]
      have "om_get (fst e) disc = Some (snd e)" using om.entries_mem [OF disc, of "fst e" "snd e"] e by simp
      then have "names w (fst e) (snd e)" using inv by (simp add: run_inv_def)
      moreover have "wp_sibling_region port w (snd e) k = Inr r"
        using target Some SiblingFirst by (simp add: resolve_target_def sibling_or_derived_def map_err_eq_Inr)
      ultimately show ?thesis using sibling_ok [OF w, of "fst e" "snd e" k] e gone by auto
    qed
  qed (use target derived in \<open>simp_all add: resolve_target_def map_err_eq_Inr\<close>)
qed

lemma drop_file_frame:
  assumes "run_inv w0 disc touched (run_world run)" "names (run_world run) k r"
    and "drop_file port job k r run = Inr run'"
  shows "run_inv w0 disc (insert k touched) (run_world run')"
proof -
  have n: "wp_exists port (run_world run) r \<longleftrightarrow> files (run_world run) k \<noteq> None"
    using assms(1,2) exists_iff by (simp add: run_inv_def)
  show ?thesis
    using assms run_inv_remove [OF assms(1,2)] run_inv_more [OF assms(1), of "insert k touched"] n
    by (auto simp: drop_file_def Let_def bindE_eq_Inr map_err_eq_Inr split: if_splits)
qed

lemma rebuild_file_frame:
  assumes "run_inv w0 disc touched (run_world run)" "names (run_world run) k r"
    "\<And>s. om_get k disc = Some s \<Longrightarrow> s = r" and "rebuild_file port bp job ts k r rows run = Inr run'"
  shows "run_inv w0 disc (insert k touched) (run_world run')"
proof -
  obtain image where "wp_write port r image (run_world run) = Inr (run_world run')"
    using assms(4) by (auto simp: rebuild_file_def bindE_eq_Inr map_err_eq_Inr case_prod_unfold)
  then show ?thesis using run_inv_write [OF assms(1-3)] by blast
qed

lemma checkout_key_frame:
  assumes inv: "run_inv w0 (cj_discovered job) touched (run_world run)" and disc: "om_ok (cj_discovered job)"
    and k: "k \<notin> touched" "om_get k (cj_discovered job) = None \<Longrightarrow> files w0 k = None"
    and ok: "checkout_key port bp job ts planned k run = Inr run'"
  shows "run_inv w0 (cj_discovered job) (insert k touched) (run_world run')"
proof -
  let ?run = "run\<lparr>run_done := Suc (run_done run)\<rparr>"
  have inv1: "run_inv w0 (cj_discovered job) touched (run_world ?run)" using inv by simp
  have same: "files (run_world run) k = files w0 k" using inv k(1) by (simp add: run_inv_def)
  have body: "run_inv w0 (cj_discovered job) (insert k touched) (run_world run')"
    if nm: "names (run_world ?run) k r" "\<And>s. om_get k (cj_discovered job) = Some s \<Longrightarrow> s = r"
      and b: "(case om_get k (cj_groups job) of None \<Rightarrow> drop_file port job k r ?run
         | Some rows \<Rightarrow> rebuild_file port bp job ts k r rows ?run) = Inr run1" "run' = file_finished planned run1" for r run1
    using b drop_file_frame [OF inv1 nm(1)] rebuild_file_frame [OF inv1 nm]
    by (auto simp: file_finished_def split: option.splits)
  show ?thesis
  proof (cases "om_get k (cj_discovered job)")
    case (Some r)
    then have nm: "names (run_world ?run) k r" "\<And>s. om_get k (cj_discovered job) = Some s \<Longrightarrow> s = r"
      using inv by (simp_all add: run_inv_def)
    obtain run1 where b: "(case om_get k (cj_groups job) of None \<Rightarrow> drop_file port job k r ?run
         | Some rows \<Rightarrow> rebuild_file port bp job ts k r rows ?run) = Inr run1" "file_finished planned run1 = run'"
      using Some ok by (simp add: checkout_key_def Let_def bindE_eq_Inr) blast
    show ?thesis by (rule body [OF nm b(1) b(2) [symmetric]])
  next
    case None
    show ?thesis
    proof (cases "om_get k (cj_groups job)")
      case None
      then show ?thesis
        using \<open>om_get k (cj_discovered job) = None\<close> ok run_inv_more [OF inv subset_insertI]
        by (auto simp: checkout_key_def Let_def file_finished_def)
    next
      case (Some rows)
      then obtain r run1 where r: "resolve_target port (cj_discovered job) (run_world run) k (opt_missing_file (cj_options job)) = Inr r"
          "rebuild_file port bp job ts k r rows ?run = Inr run1" "run' = file_finished planned run1"
        using None ok by (auto simp: checkout_key_def Let_def bindE_eq_Inr)
      have "files (run_world run) k = None" using same k(2) None by simp
      from resolve_names [OF inv disc this r(1)] have nm: "names (run_world ?run) k r" by simp
      have "(case om_get k (cj_groups job) of None \<Rightarrow> drop_file port job k r ?run
         | Some rows \<Rightarrow> rebuild_file port bp job ts k r rows ?run) = Inr run1" using r(2) Some by simp
      then show ?thesis using None by (intro body [OF nm _ _ r(3)]) simp_all
    qed
  qed
qed

text \<open>Whatever a pass answers, files outside its keys are as they were.\<close>

lemma checkout_keys_frame:
  assumes "run_inv w0 (cj_discovered job) touched (run_world run)" "om_ok (cj_discovered job)"
    and "distinct ks" "set ks \<inter> touched = {}"
    and "\<And>k. k \<in> set ks \<Longrightarrow> om_get k (cj_discovered job) = None \<Longrightarrow> files w0 k = None"
    and "checkout_keys port bp job ts planned ks run = (ended, run')"
  shows "run_inv w0 (cj_discovered job) (touched \<union> set ks) (run_world run')"
  using assms
proof (induction ks arbitrary: run touched)
  case (Cons k ks)
  show ?case
  proof (cases "checkout_key port bp job ts planned k run")
    case (Inl e)
    then have "run' = run" using Cons.prems(6) by simp
    then show ?thesis using run_inv_more [OF Cons.prems(1), of "touched \<union> set (k # ks)"] by blast
  next
    case (Inr run1)
    have "run_inv w0 (cj_discovered job) (insert k touched) (run_world run1)"
      using Cons.prems by (intro checkout_key_frame [OF Cons.prems(1,2) _ _ Inr]) auto
    then have "run_inv w0 (cj_discovered job) (insert k touched \<union> set ks) (run_world run')"
      using Cons.prems Inr by (intro Cons.IH [of "insert k touched" run1]) auto
    then show ?thesis by simp
  qed
qed simp

end

end
