(* ===== verification/App_Restore.thy ===== *)
theory App_Restore
  imports App_Checkout
begin

section \<open>What a checkout restores\<close>

text \<open>
  The chunks of a world after a checkout, for every combination of the options: the locale
  \<open>rebuilding\<close> joins the promises of a world tree and of a blob store whose misses say so, and
  the facts proved in it follow one file through the run: its rows, the live chunks merged into it,
  and the image that is written.
\<close>

subsection \<open>The chunks of a world\<close>

definition file_chunk :: "region_key \<Rightarrow> bytes \<Rightarrow> i32 \<Rightarrow> i32 \<Rightarrow> bytes option" where
  "file_chunk k bs x z =
     (case key_image k bs of
        Inl _ \<Rightarrow> None
      | Inr img \<Rightarrow> (case chunk_payload img x z of Inl _ \<Rightarrow> None | Inr p \<Rightarrow> p))"

definition clean_file :: "region_key \<Rightarrow> bytes \<Rightarrow> bool" where
  "clean_file k bs \<longleftrightarrow> (case key_image k bs of Inl _ \<Rightarrow> False | Inr img \<Rightarrow> clean_image img)"

definition world_chunk :: "(region_key \<Rightarrow> bytes option) \<Rightarrow> chunk_coord \<Rightarrow> bytes option" where
  "world_chunk fs c =
     Option.bind (fs (region_key_of c)) (\<lambda>bs. file_chunk (region_key_of c) bs (coord_x c) (coord_z c))"

lemma same_chunk:
  "region_key_of c = region_key_of d \<Longrightarrow> coord_x c = coord_x d \<Longrightarrow> coord_z c = coord_z d \<Longrightarrow> c = d"
  by (cases c; cases d) (simp add: region_key_of_def)

lemma key_image_loc:
  "key_image k bs = Inr img \<Longrightarrow> region_loc_new (key_rx k) (key_rz k) = Inr (ri_loc img)"
  by (auto simp: key_image_def from_bytes_with_kind_def bindE_eq_Inr)

text \<open>A clean file is a list of chunks that its visit reports, each once.\<close>

lemma clean_file_chunks:
  assumes "clean_file k bs"
  shows "\<exists>img cs. key_image k bs = Inr img \<and> wi_chunks (image_answers p img) = (cs, None)
    \<and> distinct (map (\<lambda>c. (ch_x c, ch_z c)) cs) \<and> (\<forall>c \<in> set cs. ch_kind c = key_kind k)
    \<and> (\<forall>x z q. (\<exists>c \<in> set cs. ch_x c = x \<and> ch_z c = z \<and> ch_payload c = q) \<longleftrightarrow> file_chunk k bs x z = Some q)"
proof -
  obtain img where img: "key_image k bs = Inr img" "clean_image img"
    using assms by (auto simp: clean_file_def split: sum.splits)
  obtain cs where cs: "image_items img = map Inr cs" "distinct (map (\<lambda>c. (ch_x c, ch_z c)) cs)"
    "\<And>x z q. (\<exists>c \<in> set cs. ch_x c = x \<and> ch_z c = z \<and> ch_payload c = q) \<longleftrightarrow> chunk_payload img x z = Inr (Some q)"
    "\<forall>c \<in> set cs. ch_kind c = key_kind k" "\<And>x z. is_ok (chunk_payload img x z)"
    using clean_walk [of bs "key_rx k" "key_rz k" "key_kind k" img] img by (auto simp: key_image_def)
  have "decode_visit (map_err (WeRegionFile p)) (map Inr cs) = (cs, None)" by (induction cs) simp_all
  then have "wi_chunks (image_answers p img) = (cs, None)" by (simp add: image_answers_def cs(1))
  moreover have "file_chunk k bs x z = Some q \<longleftrightarrow> chunk_payload img x z = Inr (Some q)" for x z q
    using img(1) by (simp add: file_chunk_def split: sum.split)
  ultimately show ?thesis using img(1) cs(2-4) by auto
qed

lemma file_chunk_storable:
  assumes "region_loc_new (key_rx k) (key_rz k) = Inr loc" "file_chunk k bs x z = Some p"
  shows "storable p \<and> (\<exists>s. slot_of loc x z = Inr s)"
proof -
  obtain img where "key_image k bs = Inr img" "chunk_payload img x z = Inr (Some p)"
    using assms(2) by (auto simp: file_chunk_def split: sum.splits)
  then show ?thesis using image_payload_storable [of img x z p] key_image_loc [of k bs img] assms(1) by simp
qed

text \<open>The image of a builder as a file.\<close>

lemma built_file:
  assumes "wf_builder b" "region_loc_new (key_rx k) (key_rz k) = Inr (rb_loc b)"
  shows "\<exists>bs. builder_image b = Inr bs \<and> clean_file k bs \<and> (\<forall>x z. file_chunk k bs x z = staged_at b (x, z))"
  using built_reads [OF assms, of "key_kind k"] by (auto simp: clean_file_def file_chunk_def key_image_def)

subsection \<open>The locale\<close>

locale cas_store = blob_store bport bvalid blobs
  for bport :: "('b, storage_error) blob_port" and bvalid blobs +
  assumes miss: "bvalid b \<Longrightarrow> blobs b h = None \<Longrightarrow> \<exists>s. bp_fetch_into bport b h out = ([], Inl (BlobMissing s))"
begin

lemma fetch_or_skip_hit:
  "bvalid b \<Longrightarrow> blobs b h = Some p \<Longrightarrow> fetch_or_skip bport b h policy out = (p, Inr True)"
  by (simp add: fetch_or_skip_def fetch_hit)

lemma fetch_or_skip_miss:
  assumes "bvalid b" "blobs b h = None"
  shows "\<exists>s. fetch_or_skip bport b h policy out
    = ([], if policy = SkipChunk then Inr False else Inl (AeStorage (BlobMissing s)))"
  using miss [OF assms, of out] by (auto simp: fetch_or_skip_def)

text \<open>The rows of one region: what they restore, and when none of them fails.\<close>

definition row_payload :: "'b \<Rightarrow> (chunk_coord \<times> chunk_hash) list \<Rightarrow> i32 \<times> i32 \<Rightarrow> bytes option" where
  "row_payload b rows xz = Option.bind (map_of (map (\<lambda>(c, h). ((coord_x c, coord_z c), h)) rows) xz) (blobs b)"

definition rows_ready :: "'b \<Rightarrow> missing_blob_policy \<Rightarrow> region_key \<Rightarrow> (chunk_coord \<times> chunk_hash) list \<Rightarrow> bool" where
  "rows_ready b policy k rows \<longleftrightarrow> distinct (map fst rows) \<and> (\<forall>(c, h) \<in> set rows. region_key_of c = k
     \<and> (case blobs b h of None \<Rightarrow> policy = SkipChunk | Some p \<Rightarrow> storable p))"

lemma restore_rows:
  assumes b: "bvalid b" and w: "wf_builder w" "region_loc_new (key_rx k) (key_rz k) = Inr (rb_loc w)"
    and rows: "rows_ready b policy k rows"
  shows "\<exists>buf' w'. foldE (restore_row bport b policy) rows (buf, w, R, n)
      = Inr (buf', w', R \<union> {xz. row_payload b rows xz \<noteq> None},
             n + length (filter (\<lambda>(c, h). blobs b h \<noteq> None) rows))
    \<and> wf_builder w' \<and> rb_loc w' = rb_loc w
    \<and> (\<forall>xz. staged_at w' xz = (case row_payload b rows xz of Some p \<Rightarrow> Some p | None \<Rightarrow> staged_at w xz))"
  using w rows
proof (induction rows arbitrary: buf w R n)
  case Nil
  then show ?case by (simp add: row_payload_def)
next
  case (Cons e rows)
  obtain c h where e: "e = (c, h)" by (cases e)
  let ?xz = "(coord_x c, coord_z c)"
  have ready: "rows_ready b policy k rows" and c: "region_key_of c = k"
      "case blobs b h of None \<Rightarrow> policy = SkipChunk | Some p \<Rightarrow> storable p"
    using Cons.prems(3) by (simp_all add: rows_ready_def e)
  have fresh: "row_payload b rows ?xz = None"
  proof -
    have "(coord_x d, coord_z d) \<noteq> ?xz" if "(d, g) \<in> set rows" for d g
    proof
      assume "(coord_x d, coord_z d) = ?xz"
      moreover have "region_key_of d = region_key_of c" using ready that c(1) by (auto simp: rows_ready_def)
      ultimately have "d = c" by (auto intro: same_chunk)
      then show False using Cons.prems(3) that by (force simp: rows_ready_def e)
    qed
    then have "map_of (map (\<lambda>(c, h). ((coord_x c, coord_z c), h)) rows) ?xz = None"
      by (force simp: map_of_eq_None_iff)
    then show ?thesis by (simp add: row_payload_def)
  qed
  have row: "row_payload b (e # rows) xz = (if xz = ?xz then blobs b h else row_payload b rows xz)" for xz
    by (simp add: row_payload_def e)
  show ?case
  proof (cases "blobs b h")
    case None
    then have skip: "restore_row bport b policy e (buf, w, R, n) = Inr ([], w, R, n)"
      using fetch_or_skip_miss [OF b None, of policy buf] c(2) by (auto simp: restore_row_def e)
    have same: "row_payload b (e # rows) = row_payload b rows" using None fresh by (auto simp: row fun_eq_iff)
    show ?thesis
      using Cons.IH [OF Cons.prems(1,2) ready, of "[]" R n] None skip by (simp add: same) (simp add: e)
  next
    case (Some p)
    obtain s where s: "slot_of (rb_loc w) (coord_x c) (coord_z c) = Inr s" using owner_slot [OF Cons.prems(2) c(1)] by blast
    obtain w1 where w1: "stage_chunk (coord_x c) (coord_z c) p w = Inr w1" "wf_builder w1" "rb_loc w1 = rb_loc w"
        "staged_at w1 = (staged_at w)(?xz \<mapsto> p)"
      using stage_chunk_ok [OF Cons.prems(1) _ s, of p] c(2) Some by auto
    have step: "restore_row bport b policy e (buf, w, R, n) = Inr (p, w1, insert ?xz R, n + 1)"
      using fetch_or_skip_hit [OF b Some] w1(1) by (simp add: restore_row_def e)
    have "region_loc_new (key_rx k) (key_rz k) = Inr (rb_loc w1)" using Cons.prems(2) w1(3) by simp
    from Cons.IH [OF w1(2) this ready, of p "insert ?xz R" "n + 1"]
    obtain buf' w' where w': "foldE (restore_row bport b policy) rows (p, w1, insert ?xz R, n + 1)
        = Inr (buf', w', insert ?xz R \<union> {xz. row_payload b rows xz \<noteq> None},
             n + 1 + length (filter (\<lambda>(c, h). blobs b h \<noteq> None) rows))"
      "wf_builder w'" "rb_loc w' = rb_loc w1"
      "\<And>xz. staged_at w' xz = (case row_payload b rows xz of Some p \<Rightarrow> Some p | None \<Rightarrow> staged_at w1 xz)"
      by blast
    have "insert ?xz R \<union> {xz. row_payload b rows xz \<noteq> None} = R \<union> {xz. row_payload b (e # rows) xz \<noteq> None}"
      using Some by (auto simp: row)
    moreover have "staged_at w' xz = (case row_payload b (e # rows) xz of Some p \<Rightarrow> Some p | None \<Rightarrow> staged_at w xz)" for xz
      using w'(4) [of xz] fresh Some by (auto simp: row w1(4) split: option.split)
    ultimately show ?thesis using w' w1(3) step Some by (simp add: e)
  qed
qed

end

interpretation sqc: cas_store sqlite_blob wf_blobs blobs_view
proof
  fix b h out
  assume "wf_blobs b" "blobs_view b h = None"
  then show "\<exists>s. bp_fetch_into sqlite_blob b h out = ([], Inl (BlobMissing s))"
    by (simp add: sqlite_blob_def fetch_impl_def blobs_view_def missing_def)
qed

subsection \<open>Live chunks\<close>

definition tombed_at :: "('b, 'r) checkout_job \<Rightarrow> region_key \<Rightarrow> (i32 \<times> i32) set" where
  "tombed_at job k =
     (case om_get k (cj_tombstones job) of None \<Rightarrow> {} | Some cs \<Rightarrow> set (map (\<lambda>c. (coord_x c, coord_z c)) cs))"

definition keeps_live :: "checkout_options \<Rightarrow> (i32 \<times> i32) set \<Rightarrow> i32 \<times> i32 \<Rightarrow> bool" where
  "keeps_live options tombed xz \<longleftrightarrow> (if xz \<in> tombed then opt_keep_tombstoned options else opt_keep_chunks options)"

definition chunk_list :: "chunk list \<Rightarrow> i32 \<times> i32 \<Rightarrow> bytes option" where
  "chunk_list cs xz = map_of (map (\<lambda>c. ((ch_x c, ch_z c), ch_payload c)) cs) xz"

lemma chunk_list_file:
  assumes "distinct (map (\<lambda>c. (ch_x c, ch_z c)) cs)"
    and "\<And>x z q. (\<exists>c \<in> set cs. ch_x c = x \<and> ch_z c = z \<and> ch_payload c = q) \<longleftrightarrow> file_chunk k bs x z = Some q"
  shows "chunk_list cs (x, z) = file_chunk k bs x z"
proof -
  have d: "distinct (map fst (map (\<lambda>c. ((ch_x c, ch_z c), ch_payload c)) cs))" using assms(1) by (simp add: comp_def)
  have "chunk_list cs (x, z) = Some q \<longleftrightarrow> file_chunk k bs x z = Some q" for q
    unfolding chunk_list_def map_of_eq_Some_iff [OF d] assms(2) [symmetric] by force
  then show ?thesis by (metis not_Some_eq)
qed

lemma merge_chunks:
  assumes "wf_builder w" "distinct (map (\<lambda>c. (ch_x c, ch_z c)) cs)"
    and "\<forall>c \<in> set cs. storable (ch_payload c) \<and> (\<exists>s. slot_of (rb_loc w) (ch_x c) (ch_z c) = Inr s)"
  shows "\<exists>w'. run_rows (merge_chunk R tombed options) None cs (w, None) = (Inr (w', None) :: ('e, _) result)
    \<and> wf_builder w' \<and> rb_loc w' = rb_loc w
    \<and> (\<forall>xz. staged_at w' xz = (if xz \<notin> R \<and> keeps_live options tombed xz \<and> chunk_list cs xz \<noteq> None
                               then chunk_list cs xz else staged_at w xz))"
  using assms
proof (induction cs arbitrary: w)
  case Nil
  then show ?case by (simp add: chunk_list_def)
next
  case (Cons c cs)
  let ?xz = "(ch_x c, ch_z c)"
  have list: "chunk_list (c # cs) xz = (if xz = ?xz then Some (ch_payload c) else chunk_list cs xz)" for xz
    by (simp add: chunk_list_def)
  have fresh: "chunk_list cs ?xz = None"
    using Cons.prems(2) by (auto simp: chunk_list_def map_of_eq_None_iff)
  have dist: "distinct (map (\<lambda>c. (ch_x c, ch_z c)) cs)"
    and rest: "\<forall>c \<in> set cs. storable (ch_payload c) \<and> (\<exists>s. slot_of (rb_loc w) (ch_x c) (ch_z c) = Inr s)"
    using Cons.prems(2,3) by simp_all
  show ?case
  proof (cases "?xz \<notin> R \<and> keeps_live options tombed ?xz")
    case True
    obtain s where "slot_of (rb_loc w) (ch_x c) (ch_z c) = Inr s" using Cons.prems(3) by auto
    then obtain w1 where w1: "stage_chunk (ch_x c) (ch_z c) (ch_payload c) w = Inr w1" "wf_builder w1"
        "rb_loc w1 = rb_loc w" "staged_at w1 = (staged_at w)(?xz \<mapsto> ch_payload c)"
      using stage_chunk_ok [OF Cons.prems(1)] Cons.prems(3) by fastforce
    have "merge_chunk R tombed options (w, None) c = (True, w1, None)"
      using True w1(1) by (auto simp: merge_chunk_def keeps_live_def Let_def)
    moreover obtain w' where "run_rows (merge_chunk R tombed options) None cs (w1, None) = (Inr (w', None) :: ('e, _) result)"
      "wf_builder w'" "rb_loc w' = rb_loc w"
      "\<And>xz. staged_at w' xz = (if xz \<notin> R \<and> keeps_live options tombed xz \<and> chunk_list cs xz \<noteq> None
                               then chunk_list cs xz else staged_at w1 xz)"
      using Cons.IH [OF w1(2) dist, unfolded w1(3), OF rest] by blast
    ultimately show ?thesis using w1(3,4) True fresh by (auto simp: list)
  next
    case False
    then have "merge_chunk R tombed options (w, None) c = (True, w, None)"
      by (auto simp: merge_chunk_def keeps_live_def Let_def)
    moreover obtain w' where "run_rows (merge_chunk R tombed options) None cs (w, None) = (Inr (w', None) :: ('e, _) result)"
      "wf_builder w'" "rb_loc w' = rb_loc w"
      "\<And>xz. staged_at w' xz = (if xz \<notin> R \<and> keeps_live options tombed xz \<and> chunk_list cs xz \<noteq> None
                               then chunk_list cs xz else staged_at w xz)"
      using Cons.IH [OF Cons.prems(1) dist rest] by blast
    ultimately show ?thesis using False fresh by (auto simp: list)
  qed
qed

subsection \<open>One file\<close>

locale rebuilding = world_tree wport wvalid dims files names + cas: cas_store bport bvalid blobs
  for wport :: "('w, 'r) world_port" and wvalid dims files names
    and bport :: "('b, storage_error) blob_port" and bvalid blobs
begin

definition live_at :: "'w \<Rightarrow> region_key \<Rightarrow> i32 \<times> i32 \<Rightarrow> bytes option" where
  "live_at w k xz = Option.bind (files w k) (\<lambda>bs. file_chunk k bs (fst xz) (snd xz))"

lemma merge_live:
  assumes w: "wvalid w" "names w k r" and b: "wf_builder writer" "region_loc_new (key_rx k) (key_rz k) = Inr (rb_loc writer)"
    and clean: "\<And>bs. files w k = Some bs \<Longrightarrow> clean_file k bs"
  shows "\<exists>writer'. merge_live_chunks wport w r k R (om_get k (cj_tombstones job)) options writer = Inr writer'
    \<and> wf_builder writer' \<and> rb_loc writer' = rb_loc writer
    \<and> (\<forall>xz. staged_at writer' xz = (if xz \<notin> R \<and> keeps_live options (tombed_at job k) xz \<and> live_at w k xz \<noteq> None
              then live_at w k xz else staged_at writer xz))"
proof (cases "files w k")
  case None
  then show ?thesis using exists_iff [OF w] b(1) by (simp add: merge_live_chunks_def live_at_def)
next
  case (Some bs)
  obtain img where img: "key_image k bs = Inr img" using clean [OF Some] by (auto simp: clean_file_def split: sum.splits)
  obtain p where rd: "wp_read wport w r k = Inr (image_answers p img)" using read_ok [OF w Some img] by blast
  obtain img' cs where cs: "key_image k bs = Inr img'" "wi_chunks (image_answers p img') = (cs, None)"
      "distinct (map (\<lambda>c. (ch_x c, ch_z c)) cs)"
      "\<forall>x z q. (\<exists>c \<in> set cs. ch_x c = x \<and> ch_z c = z \<and> ch_payload c = q) \<longleftrightarrow> file_chunk k bs x z = Some q"
    using clean_file_chunks [OF clean [OF Some], of p] by (elim exE conjE)
  note lookup = cs(4) [rule_format]
  have stage: "storable (ch_payload c) \<and> (\<exists>s. slot_of (rb_loc writer) (ch_x c) (ch_z c) = Inr s)" if "c \<in> set cs" for c
    using file_chunk_storable [OF b(2), of bs "ch_x c" "ch_z c" "ch_payload c"] lookup that by blast
  have list: "chunk_list cs xz = live_at w k xz" for xz
    using chunk_list_file [OF cs(3) lookup, of "fst xz" "snd xz"] Some by (simp add: live_at_def)
  obtain writer' where m: "run_rows (merge_chunk R (tombed_at job k) options) None cs (writer, None)
        = (Inr (writer', None) :: (world_error, _) result)" "wf_builder writer'" "rb_loc writer' = rb_loc writer"
      "\<forall>xz. staged_at writer' xz = (if xz \<notin> R \<and> keeps_live options (tombed_at job k) xz \<and> live_at w k xz \<noteq> None
              then live_at w k xz else staged_at writer xz)"
    using merge_chunks [OF b(1) cs(3), of R "tombed_at job k" options] stage unfolding list by blast
  have "wp_exists wport w r" using exists_iff [OF w] Some by simp
  moreover have "wi_chunks (image_answers p img) = (cs, None)" using cs(1,2) img by simp
  ultimately have "merge_live_chunks wport w r k R (om_get k (cj_tombstones job)) options writer = Inr writer'"
    using rd m(1) by (simp add: merge_live_chunks_def run_visit_def tombed_at_def)
  then show ?thesis using m(2-4) by blast
qed

definition file_kept :: "('b, 'r) checkout_job \<Rightarrow> region_key \<Rightarrow> bool" where
  "file_kept job k \<longleftrightarrow> (if om_get k (cj_tombstones job) \<noteq> None then opt_keep_tombstoned (cj_options job)
     else opt_keep_files (cj_options job))"

text \<open>What a file needs so that its rebuild cannot fail, and what the checkout makes of it.\<close>

definition key_ready :: "('b, 'r) checkout_job \<Rightarrow> 'w \<Rightarrow> region_key \<Rightarrow> bool" where
  "key_ready job w k \<longleftrightarrow>
     (case om_get k (cj_groups job) of None \<Rightarrow> True
      | Some rows \<Rightarrow> rows \<noteq> [] \<and> cas.rows_ready (cj_cas job) (opt_missing_blob (cj_options job)) k rows
          \<and> (om_get k (cj_discovered job) = None
               \<longrightarrow> opt_missing_file (cj_options job) \<noteq> FailOnMissing \<and> key_dim k \<in> dims w)
          \<and> (opt_keep_chunks (cj_options job) \<or> opt_keep_tombstoned (cj_options job)
               \<longrightarrow> (\<forall>bs. files w k = Some bs \<longrightarrow> clean_file k bs)))"

definition rebuilt_chunk :: "('b, 'r) checkout_job \<Rightarrow> 'w \<Rightarrow> region_key \<Rightarrow> (chunk_coord \<times> chunk_hash) list \<Rightarrow> i32 \<times> i32 \<Rightarrow> bytes option" where
  "rebuilt_chunk job w k rows xz =
     (case cas.row_payload (cj_cas job) rows xz of
        Some p \<Rightarrow> Some p
      | None \<Rightarrow> if keeps_live (cj_options job) (tombed_at job k) xz then live_at w k xz else None)"

definition key_done :: "('b, 'r) checkout_job \<Rightarrow> 'w \<Rightarrow> region_key \<Rightarrow> bytes option \<Rightarrow> bool" where
  "key_done job w k f \<longleftrightarrow>
     (case om_get k (cj_groups job) of
        None \<Rightarrow> f = (if file_kept job k then files w k else None)
      | Some rows \<Rightarrow> \<exists>bs. f = Some bs \<and> clean_file k bs
          \<and> (\<forall>x z. file_chunk k bs x z = rebuilt_chunk job w k rows (x, z)))"

lemma key_done_cong: "files w k = files w' k \<Longrightarrow> key_done job w k f \<longleftrightarrow> key_done job w' k f"
  by (simp add: key_done_def rebuilt_chunk_def live_at_def split: option.split)

lemma rebuild_file_ok:
  assumes w: "wvalid (run_world run)" "names (run_world run) k r" and b: "bvalid (cj_cas job)"
    and k: "om_get k (cj_groups job) = Some rows" "key_ready job (run_world run) k"
  shows "\<exists>run'. rebuild_file wport bport job ts k r rows run = Inr run'
    \<and> key_done job (run_world run) k (files (run_world run') k)
    \<and> rpt_files_written (run_report run') = rpt_files_written (run_report run) + 1"
proof -
  let ?w = "run_world run" and ?opts = "cj_options job"
  have rows: "rows \<noteq> []" "cas.rows_ready (cj_cas job) (opt_missing_blob ?opts) k rows"
    and clean: "opt_keep_chunks ?opts \<or> opt_keep_tombstoned ?opts \<Longrightarrow> files ?w k = Some bs \<Longrightarrow> clean_file k bs" for bs
    using k by (auto simp: key_ready_def)
  obtain c h where "(c, h) \<in> set rows" using rows(1) by (cases rows) auto
  then have "k = region_key_of c" using rows(2) by (auto simp: cas.rows_ready_def)
  then have "region_fits (key_rx k)" "region_fits (key_rz k)" using region_fits_of by simp_all
  then obtain w0 where new: "builder_new (key_rx k) (key_rz k) ts = Inr w0" using builder_new_ok by blast
  note w0 = builder_new_staged [OF new]
  define R where "R = {xz. cas.row_payload (cj_cas job) rows xz \<noteq> None}"
  obtain buf' w1 where w1: "foldE (restore_row bport (cj_cas job) (opt_missing_blob ?opts)) rows
        (run_buf run, w0, {}, rpt_chunks_restored (run_report run))
      = Inr (buf', w1, R, rpt_chunks_restored (run_report run) + length (filter (\<lambda>(c, h). blobs (cj_cas job) h \<noteq> None) rows))"
      "wf_builder w1" "rb_loc w1 = rb_loc w0"
      "\<forall>xz. staged_at w1 xz = (case cas.row_payload (cj_cas job) rows xz of Some p \<Rightarrow> Some p | None \<Rightarrow> staged_at w0 xz)"
    using cas.restore_rows [OF b conjunct1 [OF w0] conjunct1 [OF conjunct2 [OF w0]] rows(2),
        of "run_buf run" "{}" "rpt_chunks_restored (run_report run)"]
    unfolding R_def Un_empty_left by blast
  have staged1: "staged_at w1 xz = cas.row_payload (cj_cas job) rows xz" for xz
    using w1(4) [rule_format, of xz] w0 by (cases "cas.row_payload (cj_cas job) rows xz") simp_all
  have loc1: "region_loc_new (key_rx k) (key_rz k) = Inr (rb_loc w1)" using w0 w1(3) by simp
  have merged: "\<exists>w2. (if opt_keep_chunks ?opts \<or> opt_keep_tombstoned ?opts
        then merge_live_chunks wport ?w r k R (om_get k (cj_tombstones job)) ?opts w1 else Inr w1) = Inr w2
      \<and> wf_builder w2 \<and> rb_loc w2 = rb_loc w1 \<and> (\<forall>xz. staged_at w2 xz = rebuilt_chunk job ?w k rows xz)"
  proof (cases "opt_keep_chunks ?opts \<or> opt_keep_tombstoned ?opts")
    case True
    obtain w2 where w2: "merge_live_chunks wport ?w r k R (om_get k (cj_tombstones job)) ?opts w1 = Inr w2"
        "wf_builder w2" "rb_loc w2 = rb_loc w1"
        "\<forall>xz. staged_at w2 xz = (if xz \<notin> R \<and> keeps_live ?opts (tombed_at job k) xz \<and> live_at ?w k xz \<noteq> None
              then live_at ?w k xz else staged_at w1 xz)"
      using merge_live [OF w w1(2) loc1 clean [OF True], of R job ?opts] by blast
    have "staged_at w2 xz = rebuilt_chunk job ?w k rows xz" for xz
      using w2(4) [rule_format, of xz] staged1 [of xz] by (auto simp: rebuilt_chunk_def R_def split: option.splits)
    then show ?thesis using True w2(1-3) by auto
  next
    case False
    then have "\<not> keeps_live ?opts (tombed_at job k) xz" for xz by (simp add: keeps_live_def)
    then have "staged_at w1 xz = rebuilt_chunk job ?w k rows xz" for xz
      by (simp add: staged1 rebuilt_chunk_def split: option.split)
    then show ?thesis using False w1(2) by simp
  qed
  then obtain w2 where w2: "(if opt_keep_chunks ?opts \<or> opt_keep_tombstoned ?opts
        then merge_live_chunks wport ?w r k R (om_get k (cj_tombstones job)) ?opts w1 else Inr w1) = Inr w2"
      "wf_builder w2" "rb_loc w2 = rb_loc w1" "\<forall>xz. staged_at w2 xz = rebuilt_chunk job ?w k rows xz" by blast
  obtain bs where bs: "builder_image w2 = Inr bs" "clean_file k bs" "\<forall>x z. file_chunk k bs x z = staged_at w2 (x, z)"
    using built_file [OF w2(2), of k] loc1 w2(3) by auto
  obtain w' where w': "wp_write wport r bs ?w = Inr w'" "files w' = (files ?w)(k \<mapsto> bs)"
    using write_ok [OF w] by blast
  have "key_done job ?w k (files w' k)" using bs(2,3) w2(4) w'(2) k(1) by (simp add: key_done_def)
  then show ?thesis
    using new w1(1) w2(1) bs(1) w'(1) by (simp add: rebuild_file_def)
qed

lemma key_ready_cong:
  "files w k = files w' k \<Longrightarrow> dims w = dims w' \<Longrightarrow> key_ready job w k \<longleftrightarrow> key_ready job w' k"
  by (simp add: key_ready_def split: option.split)

lemma drop_file_ok:
  assumes w: "wvalid (run_world run)" "names (run_world run) k r" and k: "om_get k (cj_groups job) = None"
  shows "\<exists>run'. drop_file wport job k r run = Inr run' \<and> key_done job (run_world run) k (files (run_world run') k)
    \<and> rpt_files_written (run_report run') = rpt_files_written (run_report run)"
proof (cases "\<not> file_kept job k \<and> files (run_world run) k \<noteq> None")
  case True
  then obtain w' where w': "wp_remove wport r (run_world run) = Inr w'" "files w' = (files (run_world run))(k := None)"
    using remove_ok [OF w] by blast
  have "\<not> (if om_get k (cj_tombstones job) \<noteq> None then opt_keep_tombstoned (cj_options job) else opt_keep_files (cj_options job))"
    using True by (simp only: file_kept_def simp_thms)
  then have "drop_file wport job k r run = Inr (run\<lparr>run_world := w', run_report :=
      (run_report run)\<lparr>rpt_files_deleted := rpt_files_deleted (run_report run) + 1\<rparr>\<rparr>)"
    using True w'(1) exists_iff [OF w] by (simp only: drop_file_def Let_def) simp
  then show ?thesis using True w'(2) k by (simp add: key_done_def)
next
  case False
  then have "drop_file wport job k r run = Inr (run\<lparr>run_world := run_world run, run_report :=
      (run_report run)\<lparr>rpt_files_deleted := rpt_files_deleted (run_report run) + 0\<rparr>\<rparr>)"
    using exists_iff [OF w] unfolding file_kept_def drop_file_def Let_def by (auto split: if_splits)
  then show ?thesis using False k by (auto simp: key_done_def)
qed

lemma resolve_ok:
  assumes inv: "run_inv w0 disc touched w" and disc: "om_ok disc"
    and k: "policy \<noteq> FailOnMissing" "key_dim k \<in> dims w"
  shows "\<exists>r. resolve_target wport disc w k policy = Inr r"
proof -
  have w: "wvalid w" using inv by (simp add: run_inv_def)
  obtain d where d: "wp_derive_region wport w k = Inr d" using derive_ok [OF w k(2)] by blast
  show ?thesis
  proof (cases "find (\<lambda>e. key_dim (fst e) = key_dim k \<and> key_kind (fst e) = key_kind k) disc")
    case None
    then show ?thesis using d k(1) by (cases policy) (simp_all add: resolve_target_def sibling_or_derived_def)
  next
    case (Some e)
    note e = find_Some_mem [OF Some]
    have "om_get (fst e) disc = Some (snd e)" using om.entries_mem [OF disc, of "fst e" "snd e"] e by simp
    then have "names w (fst e) (snd e)" using inv by (simp add: run_inv_def)
    then obtain s where "wp_sibling_region wport w (snd e) k = Inr s" using sibling_ok [OF w] e by blast
    then show ?thesis using d k(1) Some by (cases policy) (simp_all add: resolve_target_def sibling_or_derived_def)
  qed
qed

lemma checkout_key_ok:
  assumes inv: "run_inv w0 (cj_discovered job) touched (run_world run)" and disc: "om_ok (cj_discovered job)"
    and k: "k \<notin> touched" "om_get k (cj_discovered job) = None \<Longrightarrow> files w0 k = None"
    and b: "bvalid (cj_cas job)" and ready: "key_ready job w0 k"
  shows "\<exists>run'. checkout_key wport bport job ts planned k run = Inr run'
    \<and> key_done job w0 k (files (run_world run') k)
    \<and> rpt_files_written (run_report run') = rpt_files_written (run_report run)
        + (if om_get k (cj_groups job) = None then 0 else 1)"
proof -
  let ?run = "run\<lparr>run_done := Suc (run_done run)\<rparr>"
  have w: "wvalid (run_world ?run)" and d: "dims (run_world run) = dims w0" and same: "files (run_world run) k = files w0 k"
    using inv k(1) by (simp_all add: run_inv_def)
  have ready1: "key_ready job (run_world ?run) k" using ready key_ready_cong [OF same d] by simp
  have body: "\<exists>run'. (case om_get k (cj_groups job) of None \<Rightarrow> drop_file wport job k r ?run
         | Some rows \<Rightarrow> rebuild_file wport bport job ts k r rows ?run) = Inr run'
      \<and> key_done job w0 k (files (run_world run') k)
      \<and> rpt_files_written (run_report run') = rpt_files_written (run_report run)
          + (if om_get k (cj_groups job) = None then 0 else 1)"
    if nm: "names (run_world ?run) k r" for r
    using drop_file_ok [OF w nm] rebuild_file_ok [OF w nm b _ ready1] key_done_cong [OF same]
    by (cases "om_get k (cj_groups job)") auto
  show ?thesis
  proof (cases "om_get k (cj_discovered job)")
    case (Some r)
    then have "names (run_world ?run) k r" using inv by (simp add: run_inv_def)
    then show ?thesis using body [of r] Some by (auto simp: checkout_key_def Let_def file_finished_def)
  next
    case None
    then have gone: "files (run_world run) k = None" using same k(2) by simp
    show ?thesis
    proof (cases "om_get k (cj_groups job)")
      case None
      then show ?thesis
        using gone \<open>om_get k (cj_discovered job) = None\<close> k(2)
        by (auto simp: checkout_key_def Let_def file_finished_def key_done_def)
    next
      case (Some rows)
      then have "opt_missing_file (cj_options job) \<noteq> FailOnMissing" "key_dim k \<in> dims (run_world run)"
        using ready None d by (simp_all add: key_ready_def)
      then obtain r where r: "resolve_target wport (cj_discovered job) (run_world run) k (opt_missing_file (cj_options job)) = Inr r"
        using resolve_ok [OF inv disc] by blast
      have "names (run_world ?run) k r" using resolve_names [OF inv disc gone r] by simp
      then show ?thesis using body [of r] Some None r by (auto simp: checkout_key_def Let_def file_finished_def)
    qed
  qed
qed

lemma checkout_keys_ok:
  assumes "run_inv w0 (cj_discovered job) touched (run_world run)" "om_ok (cj_discovered job)"
    and "distinct ks" "set ks \<inter> touched = {}"
    and "\<And>k. k \<in> set ks \<Longrightarrow> om_get k (cj_discovered job) = None \<Longrightarrow> files w0 k = None"
    and "bvalid (cj_cas job)" "\<And>k. k \<in> set ks \<Longrightarrow> key_ready job w0 k"
  shows "\<exists>run'. checkout_keys wport bport job ts planned ks run = (Inr (), run')
    \<and> (\<forall>k \<in> set ks. key_done job w0 k (files (run_world run') k))
    \<and> rpt_files_written (run_report run') = rpt_files_written (run_report run)
        + length (filter (\<lambda>k. om_get k (cj_groups job) \<noteq> None) ks)"
  using assms
proof (induction ks arbitrary: run touched)
  case (Cons k ks)
  obtain run1 where run1: "checkout_key wport bport job ts planned k run = Inr run1"
      "key_done job w0 k (files (run_world run1) k)"
      "rpt_files_written (run_report run1) = rpt_files_written (run_report run)
        + (if om_get k (cj_groups job) = None then 0 else 1)"
    using checkout_key_ok [OF Cons.prems(1,2), of k ts planned] Cons.prems(4-7) by auto
  have inv1: "run_inv w0 (cj_discovered job) (insert k touched) (run_world run1)"
    using Cons.prems by (intro checkout_key_frame [OF Cons.prems(1,2) _ _ run1(1)]) auto
  have "\<exists>run'. checkout_keys wport bport job ts planned ks run1 = (Inr (), run')
    \<and> (\<forall>k \<in> set ks. key_done job w0 k (files (run_world run') k))
    \<and> rpt_files_written (run_report run') = rpt_files_written (run_report run1)
        + length (filter (\<lambda>k. om_get k (cj_groups job) \<noteq> None) ks)"
    using Cons.prems by (intro Cons.IH [OF inv1]) auto
  then obtain run' where run': "checkout_keys wport bport job ts planned ks run1 = (Inr (), run')"
      "\<forall>k \<in> set ks. key_done job w0 k (files (run_world run') k)"
      "rpt_files_written (run_report run') = rpt_files_written (run_report run1)
        + length (filter (\<lambda>k. om_get k (cj_groups job) \<noteq> None) ks)" by blast
  have "run_inv (run_world run1) (cj_discovered job) {} (run_world run1)" using inv1 by (simp add: run_inv_def)
  moreover have "files (run_world run1) j = None" if "j \<in> set ks" "om_get j (cj_discovered job) = None" for j
  proof -
    have "j \<notin> insert k touched" using Cons.prems(3,4) that(1) by auto
    then show ?thesis using inv1 Cons.prems(5) [of j] that by (simp add: run_inv_def)
  qed
  ultimately have "run_inv (run_world run1) (cj_discovered job) ({} \<union> set ks) (run_world run')"
    using Cons.prems(2,3) run'(1) by (intro checkout_keys_frame [of _ _ "{}" run1 ks bport ts planned "Inr ()"]) auto
  then have "files (run_world run') k = files (run_world run1) k" using Cons.prems(3) by (simp add: run_inv_def)
  then show ?case using run1 run' by auto
qed simp

end

end
