(* ===== verification/App_Restored.thy ===== *)
theory App_Restored
  imports App_Restore World_Host
begin

section \<open>The world after a checkout\<close>

text \<open>
  The functional contract of \<open>WorldHandleMut::checkout\<close>, for any world tree, metadata store and blob
  store that keep their promises: \<open>checked_out\<close> says what each chunk of the world is afterwards, from
  the state of the commit, the stored blobs, the options and the chunks that were there before.
\<close>

definition checked_out ::
  "checkout_options \<Rightarrow> (chunk_coord \<Rightarrow> chunk_hash option option) \<Rightarrow> (chunk_hash \<Rightarrow> bytes option)
     \<Rightarrow> (region_key \<Rightarrow> bytes option) \<Rightarrow> chunk_coord \<Rightarrow> bytes option" where
  "checked_out options st stored fs c =
     (let live = world_chunk fs c; k = region_key_of c in
      if \<exists>d. region_key_of d = k \<and> present_at st d \<noteq> None
      then (case Option.bind (present_at st c) stored of
              Some p \<Rightarrow> Some p
            | None \<Rightarrow> if (if st c = Some None then opt_keep_tombstoned options else opt_keep_chunks options)
                      then live else None)
      else if (if \<exists>d. region_key_of d = k \<and> st d = Some None then opt_keep_tombstoned options
               else opt_keep_files options)
      then live else None)"

text \<open>Under the default options the world of the scope is the state of the commit.\<close>

lemma checked_out_default:
  assumes "\<And>h. present_at st c = Some h \<Longrightarrow> stored h \<noteq> None"
  shows "checked_out checkout_options_default st stored fs c = Option.bind (present_at st c) stored"
  using assms
  by (cases "present_at st c") (auto simp: checked_out_def checkout_options_default_def Let_def split: option.split)

lemma om_get_retain [simp]: "om_get k (om_retain P m) = (if P k then om_get k m else None)"
  by (induction m) (auto simp: om_retain_def om_get_def)

lemma om_ok_retain [simp]: "om_ok m \<Longrightarrow> om_ok (om_retain P m)"
  by (simp add: om_ok_def om_retain_def sorted_wrt_map sorted_wrt_filter)

lemma in_job_keys:
  "k \<in> set (job_keys job) \<longleftrightarrow>
     k \<in> fst ` set (cj_discovered job) \<or> k \<in> fst ` set (cj_groups job) \<or> k \<in> fst ` set (cj_tombstones job)"
  by (simp add: job_keys_def)

lemma om_keys_image: "k \<in> fst ` set m \<longleftrightarrow> om_get k m \<noteq> None"
  by (simp add: om_get_def map_of_eq_None_iff)

lemma present_at_Some: "present_at st c = Some h \<longleftrightarrow> st c = Some (Some h)"
  by (auto simp: present_at_def split: option.splits)

locale checkout_stores = rebuilding wport wvalid dims files names bport bvalid blobs
    + meta: history_store mport mvalid commits state fresh
  for wport :: "('w, 'r) world_port" and wvalid dims files names
    and bport :: "('b, storage_error) blob_port" and bvalid blobs
    and mport :: "('m, storage_error) meta_port" and mvalid commits state fresh
begin

text \<open>The job of a checkout: the plan and the discovered files of the scope.\<close>

definition scoped_job ::
  "checkout_plan \<Rightarrow> (region_key, 'r) omap \<Rightarrow> 'b \<Rightarrow> checkout_options \<Rightarrow> scope \<Rightarrow> ('b, 'r) checkout_job" where
  "scoped_job plan disc b options sc =
     \<lparr>cj_groups = om_retain (scope_matches_region sc) (co_groups plan),
      cj_tombstones = om_retain (scope_matches_region sc) (co_tombstones plan),
      cj_options = options, cj_cas = b, cj_discovered = om_retain (scope_matches_region sc) disc\<rparr>"

lemma scoped_job_sel [simp]:
  "cj_groups (scoped_job plan disc b options sc) = om_retain (scope_matches_region sc) (co_groups plan)"
  "cj_tombstones (scoped_job plan disc b options sc) = om_retain (scope_matches_region sc) (co_tombstones plan)"
  "cj_options (scoped_job plan disc b options sc) = options" "cj_cas (scoped_job plan disc b options sc) = b"
  "cj_discovered (scoped_job plan disc b options sc) = om_retain (scope_matches_region sc) disc"
  by (simp_all add: scoped_job_def)

lemma checkout_eq:
  assumes m: "mvalid m" and w: "wvalid w" and c: "find_record (commits m) i = Some c"
  shows "\<exists>plan disc. checkout_of plan (state m i) \<and> observed w disc
    \<and> checkout wport bport mport \<lparr>store_meta = m, store_blob = b\<rparr> i options sc w
      = checkout_file_pass wport bport (scoped_job plan disc b options sc) (stamp_of (c_created_at_ms c)) w"
proof -
  obtain plan where plan: "plan_checkout mport m i = Inr plan" "co_created_at_ms plan = c_created_at_ms c"
      "checkout_of plan (state m i)" using meta.plan_checkout_spec [OF m c] by blast
  obtain disc where disc: "discover_regions wport w = Inr disc" "observed w disc" using discovers [OF w] by blast
  show ?thesis
    by (rule exI [of _ plan], rule exI [of _ disc]) (simp add: plan disc checkout_def scoped_job_def)
qed

lemma job_start:
  assumes "wvalid w" "observed w disc"
  shows "run_inv w (cj_discovered (scoped_job plan disc b options sc)) {} w"
    "om_ok (cj_discovered (scoped_job plan disc b options sc))"
    "\<And>k. scope_matches_region sc k \<Longrightarrow> om_get k (cj_discovered (scoped_job plan disc b options sc)) = None
       \<Longrightarrow> files w k = None"
  using assms by (auto simp: run_inv_def observed_def split: if_splits)

lemma job_keys_scope:
  "k \<in> set (job_keys (scoped_job plan disc b options sc)) \<Longrightarrow> scope_matches_region sc k"
  by (auto simp: in_job_keys om_keys_image split: if_splits)

text \<open>Whatever the outcome, nothing outside the scope is touched.\<close>

lemma checkout_keeps_rest:
  assumes m: "mvalid m" and w: "wvalid w"
    and run: "checkout wport bport mport \<lparr>store_meta = m, store_blob = b\<rparr> i options sc w = (ended, run)"
  shows "wvalid (run_world run) \<and> dims (run_world run) = dims w
    \<and> (\<forall>k. \<not> scope_matches_region sc k \<longrightarrow> files (run_world run) k = files w k)"
proof (cases "find_record (commits m) i")
  case None
  then have "plan_checkout mport m i = Inl (CoUnknownCommit i)" by (rule meta.plan_checkout_unknown [OF m])
  then show ?thesis using run w by (auto simp: checkout_def checkout_start_def)
next
  case (Some c)
  obtain plan disc where p: "observed w disc"
      "checkout wport bport mport \<lparr>store_meta = m, store_blob = b\<rparr> i options sc w
        = checkout_file_pass wport bport (scoped_job plan disc b options sc) (stamp_of (c_created_at_ms c)) w"
    using checkout_eq [OF m w Some] by blast
  let ?job = "scoped_job plan disc b options sc"
  let ?ks = "job_keys ?job"
  obtain e where keys: "checkout_keys wport bport ?job (stamp_of (c_created_at_ms c)) (length ?ks) ?ks (checkout_start w) = (e, run)"
    using run p(2) by (auto simp: checkout_file_pass_def Let_def split: prod.splits)
  have "run_inv w (cj_discovered ?job) ({} \<union> set ?ks) (run_world run)"
  proof (rule checkout_keys_frame [OF _ _ _ _ _ keys])
    show "run_inv w (cj_discovered ?job) {} (run_world (checkout_start w))"
      using job_start(1) [OF w p(1)] by (simp add: checkout_start_def)
    show "om_ok (cj_discovered ?job)" by (rule job_start(2) [OF w p(1)])
    show "files w k = None" if "k \<in> set ?ks" "om_get k (cj_discovered ?job) = None" for k
      by (rule job_start(3) [OF w p(1) job_keys_scope [OF that(1)] that(2)])
  qed (simp_all add: job_keys_def)
  then show ?thesis using job_keys_scope [of _ plan disc b options sc] by (auto simp: run_inv_def)
qed

lemma tombed_of_state:
  assumes "checkout_of plan st" "scope_matches_region sc (region_key_of c)"
  shows "(coord_x c, coord_z c) \<in> tombed_at (scoped_job plan disc b options sc) (region_key_of c) \<longleftrightarrow> st c = Some None"
proof -
  have mem: "(\<exists>xs. om_get k (co_tombstones plan) = Some xs \<and> d \<in> set xs) \<longleftrightarrow> k = region_key_of d \<and> st d = Some None" for k d
    using assms(1) by (simp add: checkout_of_def)
  have "(coord_x c, coord_z c) \<in> tombed_at (scoped_job plan disc b options sc) (region_key_of c)
      \<longleftrightarrow> (\<exists>d. (\<exists>xs. om_get (region_key_of c) (co_tombstones plan) = Some xs \<and> d \<in> set xs)
            \<and> coord_x c = coord_x d \<and> coord_z c = coord_z d)"
    using assms(2) by (cases "om_get (region_key_of c) (co_tombstones plan)") (auto simp: tombed_at_def)
  also have "\<dots> \<longleftrightarrow> st c = Some None" unfolding mem using same_chunk by metis
  finally show ?thesis .
qed

lemma rows_of_state:
  assumes "checkout_of plan st" "om_get k (co_groups plan) = Some rows"
  shows "rows \<noteq> []" "distinct (map fst rows)" "(c, h) \<in> set rows \<longleftrightarrow> region_key_of c = k \<and> st c = Some (Some h)"
    "region_key_of c = k \<Longrightarrow> cas.row_payload b rows (coord_x c, coord_z c) = Option.bind (present_at st c) (blobs b)"
proof -
  show "rows \<noteq> []" "distinct (map fst rows)"
    using assms by (auto simp: checkout_of_def strict_sorted_iff)
  have mem: "(d, g) \<in> set rows \<longleftrightarrow> region_key_of d = k \<and> st d = Some (Some g)" for d g
  proof -
    have "(\<exists>xs. om_get k (co_groups plan) = Some xs \<and> (d, g) \<in> set xs) \<longleftrightarrow> k = region_key_of d \<and> st d = Some (Some g)"
      using assms(1) by (simp add: checkout_of_def)
    then show ?thesis using assms(2) by auto
  qed
  then show "(c, h) \<in> set rows \<longleftrightarrow> region_key_of c = k \<and> st c = Some (Some h)" .
  assume c: "region_key_of c = k"
  let ?kvs = "map (\<lambda>(c, h). ((coord_x c, coord_z c), h)) rows"
  have "map_of ?kvs (coord_x c, coord_z c) = present_at st c"
  proof (cases "present_at st c")
    case None
    have "(coord_x c, coord_z c) \<notin> fst ` set ?kvs"
    proof
      assume "(coord_x c, coord_z c) \<in> fst ` set ?kvs"
      then obtain d g where d: "(d, g) \<in> set rows" "coord_x d = coord_x c" "coord_z d = coord_z c" by auto
      then have "d = c" using mem c by (auto intro: same_chunk)
      then show False using d(1) mem None by (simp add: present_at_def)
    qed
    then show ?thesis using None by (simp add: map_of_eq_None_iff)
  next
    case (Some h)
    have "distinct (map fst ?kvs)"
    proof -
      have "inj_on (\<lambda>e. (coord_x (fst e), coord_z (fst e))) (set rows)"
      proof (rule inj_onI)
        fix e f
        assume ef: "e \<in> set rows" "f \<in> set rows" "(coord_x (fst e), coord_z (fst e)) = (coord_x (fst f), coord_z (fst f))"
        then have "fst e = fst f" using mem [of "fst e" "snd e"] mem [of "fst f" "snd f"] by (auto intro: same_chunk)
        then show "e = f" using ef(1,2) \<open>distinct (map fst rows)\<close> by (auto simp: distinct_map dest: inj_onD)
      qed
      moreover have "distinct rows" using \<open>distinct (map fst rows)\<close> by (simp add: distinct_map)
      ultimately show ?thesis by (simp add: distinct_map comp_def case_prod_unfold)
    qed
    moreover have "((coord_x c, coord_z c), h) \<in> set ?kvs" using mem [of c h] c Some by (force simp: present_at_Some)
    ultimately show ?thesis using Some by simp
  qed
  then show "cas.row_payload b rows (coord_x c, coord_z c) = Option.bind (present_at st c) (blobs b)"
    by (simp add: cas.row_payload_def)
qed

lemma groups_present:
  assumes "checkout_of plan st"
  shows "om_get k (co_groups plan) \<noteq> None \<longleftrightarrow> (\<exists>c. region_key_of c = k \<and> present_at st c \<noteq> None)"
proof
  assume "om_get k (co_groups plan) \<noteq> None"
  then obtain rows where rows: "om_get k (co_groups plan) = Some rows" by blast
  obtain e where "e \<in> set rows" using rows_of_state(1) [OF assms rows] by (cases rows) auto
  then have "region_key_of (fst e) = k \<and> present_at st (fst e) \<noteq> None"
    using rows_of_state(3) [OF assms rows, of "fst e" "snd e"] by (simp add: present_at_Some)
  then show "\<exists>c. region_key_of c = k \<and> present_at st c \<noteq> None" by blast
next
  assume "\<exists>c. region_key_of c = k \<and> present_at st c \<noteq> None"
  then obtain c h where "region_key_of c = k" "st c = Some (Some h)" by (auto simp: present_at_Some)
  then show "om_get k (co_groups plan) \<noteq> None" using assms unfolding checkout_of_def by fastforce
qed

lemma key_done_chunk:
  assumes plan: "checkout_of plan (state m i)" and c: "scope_matches_region sc (region_key_of c)"
    and fin: "key_done (scoped_job plan disc b options sc) w (region_key_of c) (fs (region_key_of c))"
  shows "world_chunk fs c = checked_out options (state m i) (blobs b) (files w) c"
proof -
  let ?st = "state m i" and ?k = "region_key_of c" and ?job = "scoped_job plan disc b options sc"
  have tomb: "om_get ?k (co_tombstones plan) \<noteq> None \<longleftrightarrow> (\<exists>d. region_key_of d = ?k \<and> ?st d = Some None)"
    using plan unfolding checkout_of_def by (metis (no_types, lifting) ex_in_conv not_None_eq set_empty)
  show ?thesis
  proof (cases "om_get ?k (co_groups plan)")
    case None
    then have "present_at ?st d = None" if "region_key_of d = ?k" for d
      using groups_present [OF plan, of ?k] that by blast
    moreover have "fs ?k = (if file_kept ?job ?k then files w ?k else None)"
      using fin None c by (simp add: key_done_def)
    moreover have "file_kept ?job ?k \<longleftrightarrow> (if \<exists>d. region_key_of d = ?k \<and> ?st d = Some None
        then opt_keep_tombstoned options else opt_keep_files options)"
      using c by (simp only: file_kept_def scoped_job_sel om_get_retain if_True tomb)
    ultimately show ?thesis by (auto simp: checked_out_def world_chunk_def Let_def)
  next
    case (Some rows)
    note rows = rows_of_state [OF plan Some]
    obtain bs where bs: "fs ?k = Some bs" "file_chunk ?k bs (coord_x c) (coord_z c)
        = rebuilt_chunk ?job w ?k rows (coord_x c, coord_z c)"
      using fin Some c by (auto simp: key_done_def)
    have some: "\<exists>d. region_key_of d = ?k \<and> present_at ?st d \<noteq> None"
      using groups_present [OF plan, of ?k] Some by simp
    have "live_at w ?k (coord_x c, coord_z c) = world_chunk (files w) c" by (simp add: live_at_def world_chunk_def)
    then show ?thesis
      using bs some rows(4) [of c b] tombed_of_state [OF plan c, of disc b options]
      by (simp add: checked_out_def world_chunk_def Let_def rebuilt_chunk_def keeps_live_def split: option.split)
  qed
qed

lemma job_ready:
  assumes plan: "checkout_of plan (state m i)" and disc: "wvalid w" "observed w disc"
    and stored: "\<And>c h. scope_matches_region sc (region_key_of c) \<Longrightarrow> present_at (state m i) c = Some h
      \<Longrightarrow> (case blobs b h of None \<Rightarrow> opt_missing_blob options = SkipChunk | Some p \<Rightarrow> storable p)"
    and place: "\<And>c. scope_matches_region sc (region_key_of c) \<Longrightarrow> present_at (state m i) c \<noteq> None
      \<Longrightarrow> files w (region_key_of c) = None \<Longrightarrow> opt_missing_file options \<noteq> FailOnMissing \<and> coord_dim c \<in> dims w"
    and clean: "\<And>k bs. opt_keep_chunks options \<or> opt_keep_tombstoned options \<Longrightarrow> scope_matches_region sc k
      \<Longrightarrow> files w k = Some bs \<Longrightarrow> clean_file k bs"
    and k: "scope_matches_region sc k"
  shows "key_ready (scoped_job plan disc b options sc) w k"
proof (cases "om_get k (co_groups plan)")
  case None
  then show ?thesis using k by (simp add: key_ready_def)
next
  case (Some rows)
  note rows = rows_of_state [OF plan Some]
  have row: "region_key_of c = k \<and> (case blobs b h of None \<Rightarrow> opt_missing_blob options = SkipChunk | Some p \<Rightarrow> storable p)"
    if "(c, h) \<in> set rows" for c h
    using stored [of c h] rows(3) [of c h] that k by (simp add: present_at_Some)
  obtain c h where ch: "(c, h) \<in> set rows" using rows(1) by (cases rows) auto
  then have c: "region_key_of c = k" "present_at (state m i) c \<noteq> None" using rows(3) [of c h] by (simp_all add: present_at_Some)
  have "opt_missing_file options \<noteq> FailOnMissing \<and> key_dim k \<in> dims w" if "om_get k disc = None"
  proof -
    have "files w k = None" using disc(2) that by (simp add: observed_def)
    moreover have "coord_dim c = key_dim k" using c(1) by auto
    ultimately show ?thesis using place [of c] c k by simp
  qed
  then show ?thesis
    using Some k row rows(1,2) clean by (auto simp: key_ready_def cas.rows_ready_def)
qed

text \<open>A checkout whose files are all ready ends with every file of its keys done.\<close>

lemma checkout_done:
  assumes m: "mvalid m" and w: "wvalid w" and b: "bvalid b" and c: "find_record (commits m) i = Some rec"
    and ready: "\<And>plan disc k. checkout_of plan (state m i) \<Longrightarrow> observed w disc \<Longrightarrow> scope_matches_region sc k
      \<Longrightarrow> key_ready (scoped_job plan disc b options sc) w k"
  shows "\<exists>plan disc run. checkout_of plan (state m i)
    \<and> checkout wport bport mport \<lparr>store_meta = m, store_blob = b\<rparr> i options sc w = (Inr (run_report run), run)
    \<and> (\<forall>k \<in> set (job_keys (scoped_job plan disc b options sc)).
          key_done (scoped_job plan disc b options sc) w k (files (run_world run) k))
    \<and> (\<forall>k. scope_matches_region sc k \<longrightarrow> k \<notin> set (job_keys (scoped_job plan disc b options sc))
          \<longrightarrow> files w k = None \<and> files (run_world run) k = None \<and> om_get k (co_groups plan) = None)
    \<and> rpt_files_written (run_report run) = length (filter (\<lambda>k. om_get k (cj_groups (scoped_job plan disc b options sc)) \<noteq> None)
          (job_keys (scoped_job plan disc b options sc)))"
proof -
  obtain plan disc where p: "checkout_of plan (state m i)" "observed w disc"
      "checkout wport bport mport \<lparr>store_meta = m, store_blob = b\<rparr> i options sc w
        = checkout_file_pass wport bport (scoped_job plan disc b options sc) (stamp_of (c_created_at_ms rec)) w"
    using checkout_eq [OF m w c] by blast
  let ?job = "scoped_job plan disc b options sc"
  let ?ks = "job_keys ?job"
  note start = job_start [OF w p(2), where plan = plan and b = b and options = options and sc = sc]
  have scope: "scope_matches_region sc k" if "k \<in> set ?ks" for k by (rule job_keys_scope [OF that])
  have "\<exists>run. checkout_keys wport bport ?job (stamp_of (c_created_at_ms rec)) (length ?ks) ?ks (checkout_start w) = (Inr (), run)
    \<and> (\<forall>k \<in> set ?ks. key_done ?job w k (files (run_world run) k))
    \<and> rpt_files_written (run_report run) = rpt_files_written (run_report (checkout_start w))
        + length (filter (\<lambda>k. om_get k (cj_groups ?job) \<noteq> None) ?ks)"
  proof (rule checkout_keys_ok)
    show "run_inv w (cj_discovered ?job) {} (run_world (checkout_start w))"
      using start(1) by (simp add: checkout_start_def)
    show "key_ready ?job w k" if "k \<in> set ?ks" for k by (rule ready [OF p(1,2) scope [OF that]])
  qed (use start scope b in \<open>simp_all add: job_keys_def\<close>)
  then obtain run where run: "checkout_keys wport bport ?job (stamp_of (c_created_at_ms rec)) (length ?ks) ?ks (checkout_start w) = (Inr (), run)"
    "\<forall>k \<in> set ?ks. key_done ?job w k (files (run_world run) k)"
    "rpt_files_written (run_report run) = length (filter (\<lambda>k. om_get k (cj_groups ?job) \<noteq> None) ?ks)"
    by (auto simp: checkout_start_def)
  have ok: "checkout wport bport mport \<lparr>store_meta = m, store_blob = b\<rparr> i options sc w = (Inr (run_report run), run)"
    using run(1) by (simp add: p(3) checkout_file_pass_def)
  have inv: "run_inv w (cj_discovered ?job) ({} \<union> set ?ks) (run_world run)"
    by (rule checkout_keys_frame [OF _ start(2) _ _ _ run(1)])
      (use start scope in \<open>simp_all add: checkout_start_def job_keys_def\<close>)
  have "files w k = None \<and> files (run_world run) k = None \<and> om_get k (co_groups plan) = None"
    if k: "scope_matches_region sc k" "k \<notin> set ?ks" for k
  proof -
    have none: "om_get k (cj_discovered ?job) = None" "om_get k (cj_groups ?job) = None"
      using k(2) unfolding in_job_keys om_keys_image by blast+
    then have "files w k = None" using start(3) k(1) by blast
    then show ?thesis using inv k none(2) by (simp add: run_inv_def)
  qed
  then show ?thesis using p(1) ok run(2,3) by blast
qed

lemma keys_written:
  assumes plan: "checkout_of plan (state m i)"
    and rest: "\<And>k. scope_matches_region sc k \<Longrightarrow> k \<notin> set (job_keys (scoped_job plan disc b options sc)) \<Longrightarrow> om_get k (co_groups plan) = None"
  shows "length (filter (\<lambda>k. om_get k (cj_groups (scoped_job plan disc b options sc)) \<noteq> None)
        (job_keys (scoped_job plan disc b options sc)))
    = card {k. scope_matches_region sc k \<and> (\<exists>c. region_key_of c = k \<and> present_at (state m i) c \<noteq> None)}"
proof -
  let ?job = "scoped_job plan disc b options sc"
  have "set (filter (\<lambda>k. om_get k (cj_groups ?job) \<noteq> None) (job_keys ?job))
      = {k. scope_matches_region sc k \<and> om_get k (co_groups plan) \<noteq> None}"
  proof (rule set_eqI)
    fix k
    show "k \<in> set (filter (\<lambda>k. om_get k (cj_groups ?job) \<noteq> None) (job_keys ?job))
        \<longleftrightarrow> k \<in> {k. scope_matches_region sc k \<and> om_get k (co_groups plan) \<noteq> None}"
      using job_keys_scope [of k plan disc b options sc] rest [of k] by (cases "k \<in> set (job_keys ?job)") auto
  qed
  moreover have "length (filter (\<lambda>k. om_get k (cj_groups ?job) \<noteq> None) (job_keys ?job))
      = card (set (filter (\<lambda>k. om_get k (cj_groups ?job) \<noteq> None) (job_keys ?job)))"
    by (rule distinct_card [symmetric]) (simp add: job_keys_def)
  ultimately show ?thesis unfolding groups_present [OF plan] by (simp only:)
qed

lemma checkout_restores:
  assumes m: "mvalid m" and w: "wvalid w" and b: "bvalid b" and c: "find_record (commits m) i = Some rec"
    and stored: "\<And>c h. scope_matches_region sc (region_key_of c) \<Longrightarrow> present_at (state m i) c = Some h
      \<Longrightarrow> (case blobs b h of None \<Rightarrow> opt_missing_blob options = SkipChunk | Some p \<Rightarrow> storable p)"
    and place: "\<And>c. scope_matches_region sc (region_key_of c) \<Longrightarrow> present_at (state m i) c \<noteq> None
      \<Longrightarrow> files w (region_key_of c) = None \<Longrightarrow> opt_missing_file options \<noteq> FailOnMissing \<and> coord_dim c \<in> dims w"
    and clean: "\<And>k bs. opt_keep_chunks options \<or> opt_keep_tombstoned options \<Longrightarrow> scope_matches_region sc k
      \<Longrightarrow> files w k = Some bs \<Longrightarrow> clean_file k bs"
  shows "\<exists>rep run. checkout wport bport mport \<lparr>store_meta = m, store_blob = b\<rparr> i options sc w = (Inr rep, run)
    \<and> wvalid (run_world run) \<and> dims (run_world run) = dims w
    \<and> (\<forall>k. \<not> scope_matches_region sc k \<longrightarrow> files (run_world run) k = files w k)
    \<and> (\<forall>c. scope_matches_region sc (region_key_of c)
          \<longrightarrow> world_chunk (files (run_world run)) c = checked_out options (state m i) (blobs b) (files w) c)
    \<and> (\<forall>k bs. files (run_world run) k = Some bs \<longrightarrow> clean_file k bs \<or> files w k = Some bs)
    \<and> (\<forall>k. \<not> (\<exists>c. region_key_of c = k \<and> present_at (state m i) c \<noteq> None)
          \<longrightarrow> files (run_world run) k = None \<or> files (run_world run) k = files w k)
    \<and> rpt_files_written rep = card {k. scope_matches_region sc k
          \<and> (\<exists>c. region_key_of c = k \<and> present_at (state m i) c \<noteq> None)}"
proof -
  have ready: "key_ready (scoped_job plan disc b options sc) w k"
    if "checkout_of plan (state m i)" "observed w disc" "scope_matches_region sc k" for plan disc k
    using that(1) w that(2) stored place clean that(3) by (rule job_ready)
  obtain plan disc run where p: "checkout_of plan (state m i)"
      "checkout wport bport mport \<lparr>store_meta = m, store_blob = b\<rparr> i options sc w = (Inr (run_report run), run)"
      "\<forall>k \<in> set (job_keys (scoped_job plan disc b options sc)).
          key_done (scoped_job plan disc b options sc) w k (files (run_world run) k)"
      and rest: "\<forall>k. scope_matches_region sc k \<longrightarrow> k \<notin> set (job_keys (scoped_job plan disc b options sc))
          \<longrightarrow> files w k = None \<and> files (run_world run) k = None \<and> om_get k (co_groups plan) = None"
      and written: "rpt_files_written (run_report run) = length (filter (\<lambda>k. om_get k (cj_groups (scoped_job plan disc b options sc)) \<noteq> None)
          (job_keys (scoped_job plan disc b options sc)))"
    using checkout_done [OF m w b c ready] by blast
  let ?ks = "job_keys (scoped_job plan disc b options sc)"
  note kept = checkout_keeps_rest [OF m w p(2)]
  have chunk: "world_chunk (files (run_world run)) c = checked_out options (state m i) (blobs b) (files w) c"
    if c: "scope_matches_region sc (region_key_of c)" for c
  proof (cases "region_key_of c \<in> set ?ks")
    case True
    then show ?thesis using p(3) by (intro key_done_chunk [OF p(1) c]) blast
  next
    case False
    then have "\<not> (\<exists>d. region_key_of d = region_key_of c \<and> present_at (state m i) d \<noteq> None)"
      using rest c groups_present [OF p(1)] by blast
    then show ?thesis using rest c False by (simp add: checked_out_def world_chunk_def Let_def)
  qed
  have filed: "(\<forall>bs. files (run_world run) k = Some bs \<longrightarrow> clean_file k bs \<or> files w k = Some bs)
    \<and> (\<not> (\<exists>c. region_key_of c = k \<and> present_at (state m i) c \<noteq> None)
        \<longrightarrow> files (run_world run) k = None \<or> files (run_world run) k = files w k)" for k
  proof (cases "k \<in> set ?ks")
    case True
    then have fin: "key_done (scoped_job plan disc b options sc) w k (files (run_world run) k)" using p(3) by blast
    have "om_get k (co_groups plan) = None" if "\<not> (\<exists>c. region_key_of c = k \<and> present_at (state m i) c \<noteq> None)"
      using groups_present [OF p(1), of k] that by blast
    then show ?thesis using fin by (auto simp: key_done_def split: option.splits if_splits)
  next
    case False
    then show ?thesis using rest kept by (cases "scope_matches_region sc k") auto
  qed
  have "rpt_files_written (run_report run)
      = card {k. scope_matches_region sc k \<and> (\<exists>c. region_key_of c = k \<and> present_at (state m i) c \<noteq> None)}"
    unfolding written by (rule keys_written [OF p(1)]) (use rest in blast)
  then show ?thesis using p(2) kept chunk filed by blast
qed

end

text \<open>The host world tree over the SQLite stores.\<close>

interpretation hr: rebuilding host_port host_valid host_dims host_files host_names sqlite_blob wf_blobs blobs_view
  by unfold_locales

interpretation hc: checkout_stores host_port host_valid host_dims host_files host_names sqlite_blob wf_blobs blobs_view
    "sqlite_port H" wf_db commits_view chunk_view fresh_view for H
  by unfold_locales

end
