(* ===== verification/App_Ingest.thy ===== *)
theory App_Ingest
  imports App_Restored "HOL-Library.Multiset"
begin

section \<open>Ingesting region files\<close>

text \<open>
  \<open>crates/app/src/commit.rs\<close>, the passes over the region files. \<open>stage_file\<close> reads one file and keys
  its chunks, a worker stages the files of its group one after the other and hands every payload to
  the blob store, and \<open>ingest_changed\<close> splits the files over the workers and joins them. Workers run
  concurrently: a schedule, the list of the workers whose turn it is, interleaves their steps, and
  one step stages a file, stores one payload, closes a file, or ends the worker. The blob store is
  the state they share; the world does not change, which is what its lock is for. The order in
  which workers end is the order in which they are joined. Timings are left out.
\<close>

subsection \<open>Staging a file\<close>

text \<open>What is not under \<open>src/\<close>: the digest, the decompressors and the NBT codec.\<close>

record ('d, 'x) chunk_env =
  env_digest :: "bytes \<Rightarrow> hash32"
  env_codec :: "'d codec_lib"
  env_nbt :: "'x nbt_lib"

definition hash_chunk :: "('d, 'x) chunk_env \<Rightarrow> chunk \<Rightarrow> (chunk_hash_error, chunk_hash) result option" where
  "hash_chunk env c = normalized_hash (env_digest env) (env_codec env) (env_nbt env) c"

record staged_file =
  sg_writes :: "(chunk_hash \<times> bytes) list"
  sg_entries :: "commit_entry list"
  sg_present :: "chunk_coord set"
  sg_chunks :: usize

definition staged_none :: staged_file where
  "staged_none = \<lparr>sg_writes = [], sg_entries = [], sg_present = {}, sg_chunks = 0\<rparr>"

definition hash_failure :: "chunk_coord \<Rightarrow> region_key \<Rightarrow> chunk_hash_error \<Rightarrow> app_error" where
  "hash_failure coord key e =
     (case e of Decompress source \<Rightarrow> AeAnvil source | _ \<Rightarrow> AeUnhashableChunk coord (key_rx key) (key_rz key) e)"

text \<open>\<open>None\<close> is a decompression that never returns.\<close>

definition stage_row ::
  "('d, 'x) chunk_env \<Rightarrow> region_key \<Rightarrow> scope \<Rightarrow> chunk \<Rightarrow> staged_file
     \<Rightarrow> (app_error, bool \<times> staged_file) result option" where
  "stage_row env key sc chunk staged =
     (let coord = ChunkCoord (key_dim key) (key_kind key) (ch_x chunk) (ch_z chunk) in
      if \<not> scope_contains sc coord then Some (Inr (True, staged))
      else map_option (\<lambda>r. bindE (map_err (hash_failure coord key) r) (\<lambda>hash.
             Inr (True, \<lparr>sg_writes = sg_writes staged @ [(hash, ch_payload chunk)],
                         sg_entries = sg_entries staged @ [CommitEntry coord (Some hash)],
                         sg_present = insert coord (sg_present staged),
                         sg_chunks = sg_chunks staged + 1\<rparr>)))
             (hash_chunk env chunk))"

definition stage_visitor ::
  "('d, 'x) chunk_env \<Rightarrow> region_key \<Rightarrow> scope \<Rightarrow> (staged_file \<times> app_error option) option \<Rightarrow> chunk
     \<Rightarrow> bool \<times> (staged_file \<times> app_error option) option" where
  "stage_visitor env key sc st chunk =
     (case st of
        None \<Rightarrow> (False, None)
      | Some (staged, failure) \<Rightarrow>
          (case stage_row env key sc chunk staged of
             None \<Rightarrow> (False, None)
           | Some (Inl e) \<Rightarrow> (False, Some (staged, Some e))
           | Some (Inr (keep_going, staged')) \<Rightarrow> (keep_going, Some (staged', failure))))"

definition stage_file ::
  "('d, 'x) chunk_env \<Rightarrow> ('w, 'r) world_port \<Rightarrow> 'w \<Rightarrow> 'r \<Rightarrow> region_key \<Rightarrow> scope
     \<Rightarrow> (app_error, staged_file) result option" where
  "stage_file env wp w region key sc =
     (case wp_read wp w region key of
        Inl e \<Rightarrow> Some (Inl (AeWorld e))
      | Inr img \<Rightarrow>
          (case run_visit (stage_visitor env key sc) (wi_chunks img) (Some (staged_none, None)) of
             Inl e \<Rightarrow> Some (Inl (AeWorld e))
           | Inr None \<Rightarrow> None
           | Inr (Some (staged, failure)) \<Rightarrow>
               Some (case failure of Some e \<Rightarrow> Inl e | None \<Rightarrow> Inr staged)))"

subsection \<open>Groups of files\<close>

record 'r planned_file =
  pf_key :: region_key
  pf_region :: 'r
  pf_size :: u64

definition size_planned ::
  "('w, 'r) world_port \<Rightarrow> 'w \<Rightarrow> (region_key \<times> 'r) list \<Rightarrow> (app_error, 'r planned_file list) result" where
  "size_planned wp w planned =
     mapE (\<lambda>(key, region). bindE (map_err AeWorld (wp_size wp w region)) (\<lambda>size.
       Inr \<lparr>pf_key = key, pf_region = region, pf_size = size\<rparr>)) planned"

text \<open>The index of the first of the smallest loads.\<close>

definition lightest :: "u64 list \<Rightarrow> nat" where
  "lightest loads = (case position (\<lambda>l. \<forall>k \<in> set loads. l \<le> k) loads of Some i \<Rightarrow> i | None \<Rightarrow> 0)"

definition assign_file ::
  "'r planned_file \<Rightarrow> 'r planned_file list list \<times> u64 list \<Rightarrow> 'r planned_file list list \<times> u64 list" where
  "assign_file file = (\<lambda>(groups, loads).
     (let i = lightest loads in
      (groups[i := groups ! i @ [file]], loads[i := loads ! i + pf_size file])))"

definition partition_groups :: "'r planned_file list \<Rightarrow> nat \<Rightarrow> 'r planned_file list list" where
  "partition_groups changed workers =
     (let ordered = sort_key (\<lambda>file. - uint (pf_size file)) changed
      in filter (\<lambda>group. group \<noteq> []) (fst (fold assign_file ordered (replicate workers [], replicate workers 0))))"

subsection \<open>Workers\<close>

record file_outcome =
  fo_key :: region_key
  fo_entries :: "commit_entry list"
  fo_present :: "chunk_coord set"
  fo_new_blobs :: usize
  fo_chunks :: usize

record 'r worker =
  wk_files :: "'r planned_file list"
  wk_open :: "(file_outcome \<times> (chunk_hash \<times> bytes) list) option"
  wk_outcomes :: "file_outcome list"
  wk_ended :: "(app_error, file_outcome list) result option"

definition worker_start :: "'r planned_file list \<Rightarrow> 'r worker" where
  "worker_start files = \<lparr>wk_files = files, wk_open = None, wk_outcomes = [], wk_ended = None\<rparr>"

definition store_write ::
  "('b, storage_error) blob_port \<Rightarrow> bool \<Rightarrow> chunk_hash \<times> bytes \<Rightarrow> 'b \<Rightarrow> (storage_error, bool \<times> 'b) result" where
  "store_write bp dry_run write cas =
     (if dry_run then bindE (bp_contains bp cas (fst write)) (\<lambda>exists. Inr (\<not> exists, cas))
      else bp_put bp (fst write) (snd write) cas)"

definition open_file :: "region_key \<Rightarrow> staged_file \<Rightarrow> file_outcome \<times> (chunk_hash \<times> bytes) list" where
  "open_file key staged =
     (\<lparr>fo_key = key, fo_entries = sg_entries staged, fo_present = sg_present staged, fo_new_blobs = 0,
       fo_chunks = sg_chunks staged\<rparr>, sg_writes staged)"

definition worker_step ::
  "('d, 'x) chunk_env \<Rightarrow> ('w, 'r) world_port \<Rightarrow> 'w \<Rightarrow> ('b, storage_error) blob_port \<Rightarrow> scope \<Rightarrow> bool
     \<Rightarrow> 'r worker \<times> 'b \<Rightarrow> 'r worker \<times> 'b" where
  "worker_step env wp w bp sc dry_run = (\<lambda>(wk, cas).
     (case wk_ended wk of
        Some _ \<Rightarrow> (wk, cas)
      | None \<Rightarrow>
          (case wk_open wk of
             Some (outcome, []) \<Rightarrow>
               (wk\<lparr>wk_open := None, wk_outcomes := wk_outcomes wk @ [outcome]\<rparr>, cas)
           | Some (outcome, write # writes) \<Rightarrow>
               (case store_write bp dry_run write cas of
                  Inl e \<Rightarrow> (wk\<lparr>wk_ended := Some (Inl (AeStorage e))\<rparr>, cas)
                | Inr (stored, cas') \<Rightarrow>
                    (wk\<lparr>wk_open := Some (outcome\<lparr>fo_new_blobs := fo_new_blobs outcome + (if stored then 1 else 0)\<rparr>,
                                        writes)\<rparr>, cas'))
           | None \<Rightarrow>
               (case wk_files wk of
                  file # files \<Rightarrow>
                    (case stage_file env wp w (pf_region file) (pf_key file) sc of
                       None \<Rightarrow> (wk, cas)
                     | Some (Inl e) \<Rightarrow> (wk\<lparr>wk_ended := Some (Inl e)\<rparr>, cas)
                     | Some (Inr staged) \<Rightarrow>
                         (wk\<lparr>wk_files := files, wk_open := Some (open_file (pf_key file) staged)\<rparr>, cas))
                | [] \<Rightarrow>
                    (if dry_run then (wk\<lparr>wk_ended := Some (Inr (wk_outcomes wk))\<rparr>, cas)
                     else (case bp_sync bp cas of
                             Inl e \<Rightarrow> (wk\<lparr>wk_ended := Some (Inl (AeStorage e))\<rparr>, cas)
                           | Inr cas' \<Rightarrow> (wk\<lparr>wk_ended := Some (Inr (wk_outcomes wk))\<rparr>, cas')))))))"

subsection \<open>All workers\<close>

record ('r, 'b) ingest_run =
  ig_workers :: "'r worker list"
  ig_cas :: 'b
  ig_joined :: "(app_error, file_outcome list) result list"

definition ingest_turn ::
  "('d, 'x) chunk_env \<Rightarrow> ('w, 'r) world_port \<Rightarrow> 'w \<Rightarrow> ('b, storage_error) blob_port \<Rightarrow> scope \<Rightarrow> bool
     \<Rightarrow> nat \<Rightarrow> ('r, 'b) ingest_run \<Rightarrow> ('r, 'b) ingest_run" where
  "ingest_turn env wp w bp sc dry_run i run =
     (if i < length (ig_workers run) \<and> wk_ended (ig_workers run ! i) = None
      then (case worker_step env wp w bp sc dry_run (ig_workers run ! i, ig_cas run) of
              (wk, cas) \<Rightarrow>
                \<lparr>ig_workers = (ig_workers run)[i := wk], ig_cas = cas,
                 ig_joined = ig_joined run @ (case wk_ended wk of None \<Rightarrow> [] | Some r \<Rightarrow> [r])\<rparr>)
      else run)"

definition ingest_start :: "'r planned_file list list \<Rightarrow> 'b \<Rightarrow> ('r, 'b) ingest_run" where
  "ingest_start groups cas = \<lparr>ig_workers = map worker_start groups, ig_cas = cas, ig_joined = []\<rparr>"

text \<open>Joining: the walk so far and the progress calls, one per file.\<close>

record region_walk =
  rw_ingested :: ingested
  rw_files :: usize
  rw_chunks :: usize
  rw_progress :: "file_progress list"

definition walk_start :: region_walk where
  "walk_start =
     \<lparr>rw_ingested = \<lparr>in_entries = [], in_present = {}, in_new_blobs = 0\<rparr>, rw_files = 0, rw_chunks = 0, rw_progress = []\<rparr>"

definition merge_outcome :: "usize \<Rightarrow> region_walk \<Rightarrow> file_outcome \<Rightarrow> region_walk" where
  "merge_outcome planned walk outcome =
     (let done_now = rw_files walk + 1; chunks_now = rw_chunks walk + fo_chunks outcome in
      \<lparr>rw_ingested = \<lparr>in_entries = in_entries (rw_ingested walk) @ fo_entries outcome,
                     in_present = in_present (rw_ingested walk) \<union> fo_present outcome,
                     in_new_blobs = in_new_blobs (rw_ingested walk) + fo_new_blobs outcome\<rparr>,
       rw_files = done_now, rw_chunks = chunks_now,
       rw_progress = rw_progress walk @ [\<lparr>pg_files_done = done_now, pg_files_total = planned, pg_chunks_done = chunks_now\<rparr>]\<rparr>)"

text \<open>\<open>None\<close> while a worker that has not failed is still running.\<close>

fun join_workers ::
  "usize \<Rightarrow> nat \<Rightarrow> (app_error, file_outcome list) result list \<Rightarrow> region_walk \<Rightarrow> (app_error, region_walk) result option" where
  "join_workers planned 0 joined walk = Some (Inr walk)"
| "join_workers planned (Suc n) [] walk = None"
| "join_workers planned (Suc n) (Inl e # joined) walk = Some (Inl e)"
| "join_workers planned (Suc n) (Inr outcomes # joined) walk =
     join_workers planned n joined (foldl (merge_outcome planned) walk outcomes)"

definition worker_count :: "nat \<Rightarrow> nat option \<Rightarrow> nat \<Rightarrow> nat" where
  "worker_count concurrency cpus files =
     max 1 (min (if concurrency = 0 then (case cpus of None \<Rightarrow> 4 | Some n \<Rightarrow> n) else concurrency) files)"

text \<open>The answer, once there is one, and the blob store as the schedule left it.\<close>

definition ingest_changed ::
  "('d, 'x) chunk_env \<Rightarrow> ('w, 'r) world_port \<Rightarrow> 'w \<Rightarrow> ('b, storage_error) blob_port \<Rightarrow> scope \<Rightarrow> bool
     \<Rightarrow> nat \<Rightarrow> nat option \<Rightarrow> nat list \<Rightarrow> 'r planned_file list \<Rightarrow> 'b
     \<Rightarrow> (app_error, region_walk) result option \<times> 'b" where
  "ingest_changed env wp w bp sc dry_run concurrency cpus schedule changed cas =
     (if changed = [] then (Some (Inr walk_start), cas)
      else
        let groups = partition_groups changed (worker_count concurrency cpus (length changed));
            run = fold (ingest_turn env wp w bp sc dry_run) schedule (ingest_start groups cas)
        in (join_workers (length (concat groups)) (length groups) (ig_joined run) walk_start, ig_cas run))"

end
