(* ===== verification/App_Ingested.thy ===== *)
theory App_Ingested
  imports App_Ingest
begin

section \<open>What an ingest hands over\<close>

text \<open>
  Whatever the schedule, an ingest of clean, hashable files reports one row per chunk of the scope,
  stores a payload for every key, and counts the new blobs: by distinct key when it stores them, by
  chunk when it only probes. \<open>file_rows\<close> is what staging a file yields; the invariant \<open>run_at\<close> relates
  the workers to how much of their groups is done, and \<open>turns_left\<close> counts the steps that remain.
\<close>

subsection \<open>The rows of a file\<close>

definition chunk_of :: "chunk_coord \<Rightarrow> bytes \<Rightarrow> chunk" where
  "chunk_of c p = chunk_new (coord_kind c) (coord_x c) (coord_z c) p"

definition hashable :: "('d, 'x) chunk_env \<Rightarrow> (region_key \<Rightarrow> bytes option) \<Rightarrow> scope \<Rightarrow> bool" where
  "hashable env fs sc \<longleftrightarrow> (\<forall>c p. scope_contains sc c \<longrightarrow> world_chunk fs c = Some p
     \<longrightarrow> (\<exists>h. hash_chunk env (chunk_of c p) = Some (Inr h)))"

type_synonym scan_row = "chunk_coord \<times> chunk_hash \<times> bytes"

text \<open>The chunk \<open>c\<close> of the scope has the key \<open>h\<close> and the payload \<open>p\<close>.\<close>

definition scan_of ::
  "('d, 'x) chunk_env \<Rightarrow> (region_key \<Rightarrow> bytes option) \<Rightarrow> scope \<Rightarrow> scan_row \<Rightarrow> bool" where
  "scan_of env fs sc = (\<lambda>(c, h, p). scope_contains sc c \<and> world_chunk fs c = Some p
     \<and> hash_chunk env (chunk_of c p) = Some (Inr h))"

definition file_rows ::
  "('d, 'x) chunk_env \<Rightarrow> (region_key \<Rightarrow> bytes option) \<Rightarrow> scope \<Rightarrow> region_key \<Rightarrow> staged_file \<Rightarrow> scan_row list \<Rightarrow> bool" where
  "file_rows env fs sc k sg rows \<longleftrightarrow> distinct (map fst rows)
     \<and> (\<forall>c h p. (c, h, p) \<in> set rows \<longleftrightarrow> region_key_of c = k \<and> scan_of env fs sc (c, h, p))
     \<and> sg = \<lparr>sg_writes = map snd rows, sg_entries = map (\<lambda>(c, h, p). stage_present c h) rows,
            sg_present = set (map fst rows), sg_chunks = length rows\<rparr>"

lemma scan_of_key: "scan_of env fs sc (c, h, p) \<Longrightarrow> scan_of env fs sc (c, g, q) \<Longrightarrow> g = h \<and> q = p"
  by (simp add: scan_of_def)

definition coord_in :: "region_key \<Rightarrow> chunk \<Rightarrow> chunk_coord" where
  "coord_in k ch = ChunkCoord (key_dim k) (key_kind k) (ch_x ch) (ch_z ch)"

text \<open>Staging hashes the chunks of the scope in the order of the image.\<close>

lemma stage_visit:
  assumes "\<And>ch. ch \<in> set cs \<Longrightarrow> scope_contains sc (coord_in k ch) \<Longrightarrow> hash_chunk env ch = Some (Inr (key ch))"
  defines "sel \<equiv> filter (\<lambda>ch. scope_contains sc (coord_in k ch)) cs"
  shows "run_rows (stage_visitor env k sc) None cs (Some (sg, None))
    = (Inr (Some (\<lparr>sg_writes = sg_writes sg @ map (\<lambda>ch. (key ch, ch_payload ch)) sel,
                   sg_entries = sg_entries sg @ map (\<lambda>ch. stage_present (coord_in k ch) (key ch)) sel,
                   sg_present = sg_present sg \<union> set (map (coord_in k) sel),
                   sg_chunks = sg_chunks sg + length sel\<rparr>, None)) :: ('e, _) result)"
  using assms(1) unfolding sel_def
proof (induction cs arbitrary: sg)
  case Nil
  then show ?case by simp
next
  case (Cons ch cs)
  show ?case
  proof (cases "scope_contains sc (coord_in k ch)")
    case True
    then have "hash_chunk env ch = Some (Inr (key ch))" using Cons.prems by simp
    then have "stage_visitor env k sc (Some (sg, None)) ch
        = (True, Some (\<lparr>sg_writes = sg_writes sg @ [(key ch, ch_payload ch)],
                        sg_entries = sg_entries sg @ [stage_present (coord_in k ch) (key ch)],
                        sg_present = insert (coord_in k ch) (sg_present sg), sg_chunks = sg_chunks sg + 1\<rparr>, None))"
      using True by (simp add: stage_visitor_def stage_row_def coord_in_def stage_present_def Let_def)
    then show ?thesis using Cons.IH Cons.prems True by simp
  next
    case False
    then have "stage_visitor env k sc (Some (sg, None)) ch = (True, Some (sg, None))"
      by (simp add: stage_visitor_def stage_row_def coord_in_def Let_def)
    then show ?thesis using Cons.IH Cons.prems False by simp
  qed
qed

lemma file_chunk_region:
  assumes "file_chunk k bs x z = Some p"
  shows "region_key_of (ChunkCoord (key_dim k) (key_kind k) x z) = k"
proof -
  obtain img where img: "key_image k bs = Inr img" using assms by (auto simp: file_chunk_def split: sum.splits)
  note loc = key_image_loc [OF img]
  have "\<exists>s. slot_of (ri_loc img) x z = Inr s" using file_chunk_storable [OF loc assms] by blast
  then show ?thesis
    using slot_of_region_key [of "ri_loc img" "ChunkCoord (key_dim k) (key_kind k) x z"] region_loc_new_wf [OF loc]
    by (cases k) (auto simp: region_key_of_def)
qed

lemma coord_split: "region_key_of c = k \<Longrightarrow> c = ChunkCoord (key_dim k) (key_kind k) (coord_x c) (coord_z c)"
  by (cases c) (auto simp: region_key_of_def)

context world_tree begin

lemma stage_file_rows:
  assumes w: "valid w" "names w k r" "files w k = Some bs" and clean: "clean_file k bs"
    and hash: "hashable env (files w) sc"
  shows "\<exists>sg rows. stage_file env port w r k sc = Some (Inr sg) \<and> file_rows env (files w) sc k sg rows"
proof -
  obtain img where img: "key_image k bs = Inr img" using clean by (auto simp: clean_file_def split: sum.splits)
  obtain p where rd: "wp_read port w r k = Inr (image_answers p img)" using read_ok [OF w img] by blast
  obtain img' cs where cs: "key_image k bs = Inr img'" "wi_chunks (image_answers p img') = (cs, None)"
      "distinct (map (\<lambda>c. (ch_x c, ch_z c)) cs)" "\<forall>c \<in> set cs. ch_kind c = key_kind k"
      "\<forall>x z q. (\<exists>c \<in> set cs. ch_x c = x \<and> ch_z c = z \<and> ch_payload c = q) \<longleftrightarrow> file_chunk k bs x z = Some q"
    using clean_file_chunks [OF clean, of p] by (elim exE conjE)
  have chunk: "world_chunk (files w) (coord_in k ch) = Some (ch_payload ch)" "region_key_of (coord_in k ch) = k"
      "chunk_of (coord_in k ch) (ch_payload ch) = ch" if "ch \<in> set cs" for ch
  proof -
    have f: "file_chunk k bs (ch_x ch) (ch_z ch) = Some (ch_payload ch)" using cs(5) that by blast
    show r: "region_key_of (coord_in k ch) = k" unfolding coord_in_def by (rule file_chunk_region [OF f])
    show "world_chunk (files w) (coord_in k ch) = Some (ch_payload ch)"
      using f w(3) r by (simp add: world_chunk_def) (simp add: coord_in_def)
    show "chunk_of (coord_in k ch) (ch_payload ch) = ch" using cs(4) that by (simp add: chunk_of_def coord_in_def chunk_new_def)
  qed
  define key where "key ch = (case hash_chunk env ch of Some (Inr h) \<Rightarrow> h | _ \<Rightarrow> 0)" for ch
  have keyed: "hash_chunk env ch = Some (Inr (key ch))" if "ch \<in> set cs" "scope_contains sc (coord_in k ch)" for ch
    using hash chunk(1,3) [OF that(1)] that(2) unfolding hashable_def by (force simp: key_def)
  define sel where "sel = filter (\<lambda>ch. scope_contains sc (coord_in k ch)) cs"
  define rows where "rows = map (\<lambda>ch. (coord_in k ch, key ch, ch_payload ch)) sel"
  define sg where "sg = \<lparr>sg_writes = map snd rows, sg_entries = map (\<lambda>(c, h, p). stage_present c h) rows,
      sg_present = set (map fst rows), sg_chunks = length rows\<rparr>"
  have "stage_file env port w r k sc = Some (Inr sg)"
    using rd cs(1,2) img stage_visit [where 'e = world_error, of cs sc k env key staged_none, OF keyed]
    by (simp add: stage_file_def run_visit_def staged_none_def sg_def rows_def sel_def comp_def)
  moreover have "distinct (map fst rows)"
  proof -
    have "distinct (map (\<lambda>ch. (ch_x ch, ch_z ch)) sel)" unfolding sel_def using cs(3) by (rule distinct_map_filter)
    then have "distinct (map (coord_in k) sel)" by (auto simp: distinct_map coord_in_def inj_on_def)
    then show ?thesis by (simp add: rows_def comp_def)
  qed
  moreover have "(c, h, q) \<in> set rows \<longleftrightarrow> region_key_of c = k \<and> scan_of env (files w) sc (c, h, q)" for c h q
  proof
    assume "(c, h, q) \<in> set rows"
    then obtain ch where ch: "ch \<in> set cs" "scope_contains sc (coord_in k ch)" "c = coord_in k ch" "h = key ch" "q = ch_payload ch"
      by (auto simp: rows_def sel_def)
    then show "region_key_of c = k \<and> scan_of env (files w) sc (c, h, q)"
      using chunk [OF ch(1)] keyed [OF ch(1,2)] by (simp add: scan_of_def)
  next
    assume c: "region_key_of c = k \<and> scan_of env (files w) sc (c, h, q)"
    then have "file_chunk k bs (coord_x c) (coord_z c) = Some q"
      using w(3) by (auto simp: scan_of_def world_chunk_def)
    then obtain ch where ch: "ch \<in> set cs" "ch_x ch = coord_x c" "ch_z ch = coord_z c" "ch_payload ch = q"
      using cs(5) by blast
    then have at: "c = coord_in k ch" using coord_split [of c k] c by (simp add: coord_in_def)
    then have "scope_contains sc (coord_in k ch)" using c by (simp add: scan_of_def)
    moreover have "key ch = h"
      using c keyed [OF ch(1) calculation] chunk(3) [OF ch(1)] ch(4) at by (simp add: scan_of_def)
    ultimately show "(c, h, q) \<in> set rows" using ch at by (auto simp: rows_def sel_def)
  qed
  ultimately show ?thesis unfolding file_rows_def sg_def by blast
qed

end

subsection \<open>Groups\<close>

lemma lightest_less: "loads \<noteq> [] \<Longrightarrow> lightest loads < length loads"
proof -
  have "position P xs = Some i \<Longrightarrow> i < length xs" for P and xs :: "u64 list" and i
    by (induction xs arbitrary: i) (auto split: if_splits)
  then show "loads \<noteq> [] \<Longrightarrow> lightest loads < length loads" by (auto simp: lightest_def split: option.split)
qed

lemma mset_update: "i < length xs \<Longrightarrow> mset (concat (xs[i := xs ! i @ [x]])) = add_mset x (mset (concat xs))"
proof (induction xs arbitrary: i)
  case (Cons ys xs)
  then show ?case by (cases i) simp_all
qed simp

lemma assign_files:
  assumes "length gs = length ls" "gs \<noteq> []"
  shows "mset (concat (fst (fold assign_file files (gs, ls)))) = mset files + mset (concat gs)
    \<and> length (fst (fold assign_file files (gs, ls))) = length gs"
  using assms
proof (induction files arbitrary: gs ls)
  case (Cons f files)
  let ?i = "lightest ls"
  have "ls \<noteq> []" using Cons.prems by auto
  then have i: "?i < length gs" using lightest_less Cons.prems(1) by metis
  have "assign_file f (gs, ls) = (gs[?i := gs ! ?i @ [f]], ls[?i := ls ! ?i + pf_size f])"
    by (simp add: assign_file_def Let_def)
  then show ?case using Cons.IH [of "gs[?i := gs ! ?i @ [f]]" "ls[?i := ls ! ?i + pf_size f]"] Cons.prems mset_update [OF i, of f] by simp
qed simp

lemma concat_nonempty: "concat (filter (\<lambda>g. g \<noteq> []) gs) = concat gs"
  by (induction gs) auto

text \<open>Every file is in one group, and no group is empty.\<close>

lemma partition_groups_files:
  assumes "0 < n"
  shows "mset (concat (partition_groups changed n)) = mset changed" "[] \<notin> set (partition_groups changed n)"
    "length (partition_groups changed n) \<le> n"
proof -
  let ?gs = "fst (fold assign_file (sort_key (\<lambda>file. - uint (pf_size file)) changed) (replicate n [], replicate n 0))"
  have "mset (concat ?gs) = mset changed \<and> length ?gs = n"
    using assms assign_files [of "replicate n []" "replicate n 0" "sort_key (\<lambda>file. - uint (pf_size file)) changed"] by simp
  then show "mset (concat (partition_groups changed n)) = mset changed" "[] \<notin> set (partition_groups changed n)"
    "length (partition_groups changed n) \<le> n"
    by (simp_all add: partition_groups_def Let_def concat_nonempty) (metis length_filter_le)
qed

subsection \<open>One worker\<close>

definition outcome_of :: "('r planned_file \<Rightarrow> staged_file) \<Rightarrow> 'r planned_file \<Rightarrow> file_outcome \<Rightarrow> bool" where
  "outcome_of sg f o' \<longleftrightarrow> fo_key o' = pf_key f \<and> fo_entries o' = sg_entries (sg f)
     \<and> fo_present o' = sg_present (sg f) \<and> fo_chunks o' = sg_chunks (sg f)"

definition writes_of :: "('r planned_file \<Rightarrow> staged_file) \<Rightarrow> 'r planned_file list \<Rightarrow> (chunk_hash \<times> bytes) list" where
  "writes_of sg fs = concat (map (\<lambda>f. sg_writes (sg f)) fs)"

text \<open>The worker of the group \<open>g\<close> after it handed over \<open>W\<close>.\<close>

definition worker_at ::
  "('r planned_file \<Rightarrow> staged_file) \<Rightarrow> 'r planned_file list \<Rightarrow> 'r worker \<Rightarrow> (chunk_hash \<times> bytes) list \<Rightarrow> bool" where
  "worker_at sg g wk W \<longleftrightarrow>
     (\<exists>D. list_all2 (outcome_of sg) D (wk_outcomes wk) \<and>
       (case wk_open wk of
          None \<Rightarrow> g = D @ wk_files wk \<and> W = writes_of sg D
            \<and> (wk_ended wk = None \<or> wk_files wk = [] \<and> wk_ended wk = Some (Inr (wk_outcomes wk)))
        | Some (o', rest) \<Rightarrow> wk_ended wk = None \<and> (\<exists>f pre. g = D @ f # wk_files wk \<and> outcome_of sg f o'
            \<and> sg_writes (sg f) = pre @ rest \<and> W = writes_of sg D @ pre)))"

definition new_of :: "'r worker \<Rightarrow> nat" where
  "new_of wk = sum_list (map fo_new_blobs (wk_outcomes wk))
     + (case wk_open wk of None \<Rightarrow> 0 | Some (o', _) \<Rightarrow> fo_new_blobs o')"

definition turns_left :: "('r planned_file \<Rightarrow> staged_file) \<Rightarrow> 'r worker \<Rightarrow> nat" where
  "turns_left sg wk =
     (if wk_ended wk \<noteq> None then 0
      else 1 + sum_list (map (\<lambda>f. 2 + length (sg_writes (sg f))) (wk_files wk))
         + (case wk_open wk of None \<Rightarrow> 0 | Some (_, rest) \<Rightarrow> 1 + length rest))"

lemma worker_at_start: "worker_at sg g (worker_start g) []"
  by (simp add: worker_at_def worker_start_def writes_of_def)

lemma worker_at_ended:
  assumes "worker_at sg g wk W" "wk_ended wk = Some r"
  shows "r = Inr (wk_outcomes wk) \<and> list_all2 (outcome_of sg) g (wk_outcomes wk) \<and> W = writes_of sg g
    \<and> new_of wk = sum_list (map fo_new_blobs (wk_outcomes wk))"
  using assms by (auto simp: worker_at_def new_of_def split: option.splits)

lemma turns_left_0: "turns_left sg wk = 0 \<longleftrightarrow> wk_ended wk \<noteq> None"
  by (simp add: turns_left_def)

text \<open>A step either stores one payload or leaves the blobs alone, and it is one of the turns left.\<close>

definition step_effect ::
  "('b, storage_error) blob_port \<Rightarrow> bool \<Rightarrow> 'b \<Rightarrow> 'b \<Rightarrow> nat \<Rightarrow> nat \<Rightarrow> (chunk_hash \<times> bytes) list \<Rightarrow> (chunk_hash \<times> bytes) list \<Rightarrow> bool" where
  "step_effect bp dry_run cas cas' n n' W W' \<longleftrightarrow>
     (W' = W \<and> n' = n \<and> (cas' = cas \<or> \<not> dry_run \<and> bp_sync bp cas = Inr cas'))
     \<or> (\<exists>it stored. W' = W @ [it] \<and> store_write bp dry_run it cas = Inr (stored, cas')
         \<and> n' = n + (if stored then 1 else 0))"

context cas_store begin

lemma store_write_total: "bvalid b \<Longrightarrow> \<exists>stored b'. store_write bport dry_run it b = Inr (stored, b')"
  using put [of b "fst it" "snd it"] contains [of b "fst it"]
  by (cases dry_run) (auto simp: store_write_def)

lemma worker_step_at:
  assumes at: "worker_at sg g wk W" and run: "wk_ended wk = None" and b: "bvalid cas"
    and staged: "\<And>f. f \<in> set g \<Longrightarrow> stage_file env wp w (pf_region f) (pf_key f) sc = Some (Inr (sg f))"
    and step: "worker_step env wp w bport sc dry_run (wk, cas) = (wk', cas')"
  shows "\<exists>W'. worker_at sg g wk' W' \<and> step_effect bport dry_run cas cas' (new_of wk) (new_of wk') W W'
    \<and> turns_left sg wk = Suc (turns_left sg wk')"
proof -
  obtain D where D: "list_all2 (outcome_of sg) D (wk_outcomes wk)"
    and rest: "case wk_open wk of
          None \<Rightarrow> g = D @ wk_files wk \<and> W = writes_of sg D
            \<and> (wk_ended wk = None \<or> wk_files wk = [] \<and> wk_ended wk = Some (Inr (wk_outcomes wk)))
        | Some (o', left) \<Rightarrow> wk_ended wk = None \<and> (\<exists>f pre. g = D @ f # wk_files wk \<and> outcome_of sg f o'
            \<and> sg_writes (sg f) = pre @ left \<and> W = writes_of sg D @ pre)"
    using at by (auto simp: worker_at_def)
  show ?thesis
  proof (cases "wk_open wk")
    case None
    then have g: "g = D @ wk_files wk" "W = writes_of sg D" using rest by simp_all
    show ?thesis
    proof (cases "wk_files wk")
      case Nil
      obtain b' where sync: "bp_sync bport cas = Inr b'" using sync [OF b] by blast
      have "wk' = wk\<lparr>wk_ended := Some (Inr (wk_outcomes wk))\<rparr>" "cas' = (if dry_run then cas else b')"
        using step run None Nil sync by (auto simp: worker_step_def split: if_splits)
      then show ?thesis
        using D g None Nil run sync
        by (intro exI [of _ W]) (auto simp: worker_at_def step_effect_def new_of_def turns_left_def)
    next
      case (Cons f files)
      have "stage_file env wp w (pf_region f) (pf_key f) sc = Some (Inr (sg f))" using staged g Cons by simp
      then have wk': "wk' = wk\<lparr>wk_files := files, wk_open := Some (open_file (pf_key f) (sg f))\<rparr>" "cas' = cas"
        using step run None Cons by (auto simp: worker_step_def)
      show ?thesis
        using D g None Cons run
        by (intro exI [of _ W]) (auto simp: wk' worker_at_def step_effect_def new_of_def turns_left_def open_file_def outcome_of_def)
    qed
  next
    case (Some op)
    obtain o' left where op: "op = (o', left)" by (cases op)
    then obtain f pre where f: "g = D @ f # wk_files wk" "outcome_of sg f o'" "sg_writes (sg f) = pre @ left"
        "W = writes_of sg D @ pre" using rest Some by auto
    show ?thesis
    proof (cases left)
      case Nil
      have wk': "wk' = wk\<lparr>wk_open := None, wk_outcomes := wk_outcomes wk @ [o']\<rparr>" "cas' = cas"
        using step run Some op Nil by (auto simp: worker_step_def)
      have "list_all2 (outcome_of sg) (D @ [f]) (wk_outcomes wk @ [o'])" using D f(2) by (simp add: list_all2_appendI)
      then show ?thesis
        using f Some op Nil run
        by (intro exI [of _ W] conjI)
          (auto simp: wk' worker_at_def step_effect_def new_of_def turns_left_def writes_of_def intro!: exI [of _ "D @ [f]"])
    next
      case (Cons it its)
      obtain stored b' where st: "store_write bport dry_run it cas = Inr (stored, b')" using store_write_total [OF b] by blast
      have wk': "wk' = wk\<lparr>wk_open := Some (o'\<lparr>fo_new_blobs := fo_new_blobs o' + (if stored then 1 else 0)\<rparr>, its)\<rparr>" "cas' = b'"
        using step run Some op Cons st by (auto simp: worker_step_def)
      have "worker_at sg g wk' (W @ [it])"
        unfolding worker_at_def
        using D f run Cons by (intro exI [of _ D]) (auto simp: wk' outcome_of_def)
      then show ?thesis
        using st Some op Cons run
        by (intro exI [of _ "W @ [it]"]) (auto simp: wk' step_effect_def new_of_def turns_left_def)
    qed
  qed
qed

subsection \<open>The shared blob store\<close>

text \<open>After the payloads \<open>M\<close>, \<open>N\<close> of them new: stored ones exist under their keys, nothing else changed.\<close>

definition cas_at :: "bool \<Rightarrow> 'b \<Rightarrow> (chunk_hash \<times> bytes) multiset \<Rightarrow> nat \<Rightarrow> 'b \<Rightarrow> bool" where
  "cas_at dry_run cas0 M N cas \<longleftrightarrow>
     (if dry_run then cas = cas0 \<and> N = size (filter_mset (\<lambda>e. blobs cas0 (fst e) = None) M)
      else (\<forall>h. blobs cas h \<noteq> None \<longleftrightarrow> blobs cas0 h \<noteq> None \<or> h \<in> fst ` set_mset M)
        \<and> (\<forall>h p. blobs cas0 h = Some p \<longrightarrow> blobs cas h = Some p)
        \<and> (\<forall>h p. blobs cas h = Some p \<longrightarrow> blobs cas0 h = Some p \<or> (h, p) \<in># M)
        \<and> N = card {h \<in> fst ` set_mset M. blobs cas0 h = None})"

lemma cas_at_start: "cas_at dry_run cas {#} 0 cas"
  by (simp add: cas_at_def)

lemma cas_at_sync: "bvalid cas \<Longrightarrow> bp_sync bport cas = Inr cas' \<Longrightarrow> cas_at False cas0 M N cas \<Longrightarrow> cas_at False cas0 M N cas'"
  using sync [of cas] by (auto simp: cas_at_def)

lemma cas_at_write:
  assumes at: "cas_at dry_run cas0 M N cas" and b: "bvalid cas"
    and st: "store_write bport dry_run it cas = Inr (stored, cas')"
  shows "cas_at dry_run cas0 (add_mset it M) (N + (if stored then 1 else 0)) cas' \<and> bvalid cas'"
proof (cases dry_run)
  case True
  then have "cas' = cas" "stored \<longleftrightarrow> blobs cas (fst it) = None"
    using st contains [OF b] by (auto simp: store_write_def)
  then show ?thesis using at b True by (auto simp: cas_at_def)
next
  case False
  obtain h p where it: "it = (h, p)" by (cases it)
  have p: "bvalid cas'" "stored \<longleftrightarrow> blobs cas h = None"
      "blobs cas' = (case blobs cas h of None \<Rightarrow> (blobs cas)(h \<mapsto> p) | Some _ \<Rightarrow> blobs cas)"
    using put_ok [OF b] st False by (auto simp: store_write_def it)
  have at1: "\<And>g. blobs cas g \<noteq> None \<longleftrightarrow> blobs cas0 g \<noteq> None \<or> g \<in> fst ` set_mset M"
      "\<And>g q. blobs cas0 g = Some q \<Longrightarrow> blobs cas g = Some q"
      "\<And>g q. blobs cas g = Some q \<Longrightarrow> blobs cas0 g = Some q \<or> (g, q) \<in># M"
      "N = card {g \<in> fst ` set_mset M. blobs cas0 g = None}"
    using at False by (simp_all add: cas_at_def)
  let ?S = "{g \<in> fst ` set_mset M. blobs cas0 g = None}"
  have count: "card {g \<in> fst ` set_mset (add_mset it M). blobs cas0 g = None} = N + (if stored then 1 else 0)"
  proof (cases "blobs cas h")
    case None
    then have "h \<notin> ?S" "blobs cas0 h = None" using at1(1) [of h] by auto
    then have "{g \<in> fst ` set_mset (add_mset it M). blobs cas0 g = None} = insert h ?S" by (auto simp: it)
    then show ?thesis using \<open>h \<notin> ?S\<close> None p(2) at1(4) by (simp del: mem_Collect_eq)
  next
    case (Some q)
    then have "{g \<in> fst ` set_mset (add_mset it M). blobs cas0 g = None} = ?S" using at1(1) [of h] by (auto simp: it)
    then show ?thesis using Some p(2) at1(4) by simp
  qed
  have "blobs cas' g \<noteq> None \<longleftrightarrow> blobs cas0 g \<noteq> None \<or> g \<in> fst ` set_mset (add_mset it M)" for g
    using at1(1) [of g] p(3) by (cases "blobs cas h") (auto simp: it)
  moreover have "blobs cas' g = Some q" if "blobs cas0 g = Some q" for g q
    using at1(2) [OF that] p(3) by (cases "blobs cas h") auto
  moreover have "blobs cas0 g = Some q \<or> (g, q) \<in># add_mset it M" if "blobs cas' g = Some q" for g q
    using at1(3) [of g q] p(3) that by (cases "blobs cas h") (auto simp: it split: if_splits)
  ultimately show ?thesis using count p(1) False by (auto simp: cas_at_def)
qed

lemma cas_at_effect:
  assumes "cas_at dry_run cas0 M N cas" "bvalid cas" "step_effect bport dry_run cas cas' n n' W W'"
  shows "\<exists>d. n' = n + d \<and> cas_at dry_run cas0 (M + (mset W' - mset W)) (N + d) cas' \<and> mset W \<subseteq># mset W' \<and> bvalid cas'"
proof -
  consider (same) "W' = W" "n' = n" "cas' = cas" | (sync) "W' = W" "n' = n" "\<not> dry_run" "bp_sync bport cas = Inr cas'"
    | (stored) it stored where "W' = W @ [it]" "store_write bport dry_run it cas = Inr (stored, cas')"
        "n' = n + (if stored then 1 else 0)"
    using assms(3) unfolding step_effect_def by blast
  then show ?thesis
  proof cases
    case same
    then show ?thesis using assms(1,2) by simp
  next
    case sync
    then show ?thesis using assms(1,2) cas_at_sync [OF assms(2) sync(4)] blob_store.sync [OF blob_store_axioms assms(2)] by auto
  next
    case stored
    then show ?thesis using cas_at_write [OF assms(1,2) stored(2)] by simp
  qed
qed

end

subsection \<open>A run\<close>

lemma sum_change:
  fixes f f' :: "nat \<Rightarrow> 'm :: comm_monoid_add"
  assumes "i < n" "\<And>j. j \<noteq> i \<Longrightarrow> f' j = f j"
  shows "(\<Sum>j<n. f' j) + f i = (\<Sum>j<n. f j) + f' i"
proof -
  have "(\<Sum>j<n. g j) = g i + (\<Sum>j\<in>{..<n} - {i}. g j)" for g :: "nat \<Rightarrow> 'm" using assms(1) by (simp add: sum.remove)
  moreover have "(\<Sum>j\<in>{..<n} - {i}. f' j) = (\<Sum>j\<in>{..<n} - {i}. f j)" using assms(2) by (intro sum.cong) auto
  ultimately show ?thesis by (simp add: ac_simps)
qed

context cas_store begin

definition run_at ::
  "bool \<Rightarrow> 'b \<Rightarrow> ('r planned_file \<Rightarrow> staged_file) \<Rightarrow> 'r planned_file list list \<Rightarrow> ('r, 'b) ingest_run
     \<Rightarrow> (nat \<Rightarrow> (chunk_hash \<times> bytes) list) \<Rightarrow> nat list \<Rightarrow> bool" where
  "run_at dry_run cas0 sg gs run W js \<longleftrightarrow>
     length (ig_workers run) = length gs \<and> bvalid (ig_cas run)
     \<and> (\<forall>i < length gs. worker_at sg (gs ! i) (ig_workers run ! i) (W i))
     \<and> cas_at dry_run cas0 (\<Sum>i<length gs. mset (W i)) (\<Sum>i<length gs. new_of (ig_workers run ! i)) (ig_cas run)
     \<and> distinct js \<and> set js = {i. i < length gs \<and> wk_ended (ig_workers run ! i) \<noteq> None}
     \<and> ig_joined run = map (\<lambda>i. the (wk_ended (ig_workers run ! i))) js"

lemma run_at_start: "bvalid cas \<Longrightarrow> run_at dry_run cas sg gs (ingest_start gs cas) (\<lambda>_. []) []"
  by (auto simp: run_at_def ingest_start_def worker_at_start cas_at_start)
    (simp_all add: new_of_def worker_start_def cas_at_start)

lemma ingest_turn_at:
  fixes i
  assumes at: "run_at dry_run cas0 sg gs run W js"
    and staged: "\<And>f. f \<in> set (concat gs) \<Longrightarrow> stage_file env wp w (pf_region f) (pf_key f) sc = Some (Inr (sg f))"
  defines "run' \<equiv> ingest_turn env wp w bport sc dry_run i run"
  shows "(\<exists>W' js'. run_at dry_run cas0 sg gs run' W' js')
    \<and> (\<forall>j < length gs. turns_left sg (ig_workers run' ! j)
         = turns_left sg (ig_workers run ! j) - (if j = i then 1 else 0))"
proof (cases "i < length gs \<and> wk_ended (ig_workers run ! i) = None")
  case False
  then have "run' = run" using at by (auto simp: run'_def ingest_turn_def run_at_def)
  moreover have "turns_left sg (ig_workers run ! j) - 1 = turns_left sg (ig_workers run ! j)" if "j = i" "j < length gs" for j
    using False that turns_left_0 [of sg "ig_workers run ! i"] by simp
  ultimately show ?thesis using at by auto
next
  case True
  note r = at [unfolded run_at_def]
  let ?wk = "ig_workers run ! i"
  obtain wk' cas' where step: "worker_step env wp w bport sc dry_run (?wk, ig_cas run) = (wk', cas')" by fastforce
  have run': "run' = \<lparr>ig_workers = (ig_workers run)[i := wk'], ig_cas = cas',
      ig_joined = ig_joined run @ (case wk_ended wk' of None \<Rightarrow> [] | Some r \<Rightarrow> [r])\<rparr>"
    using True r step by (simp add: run'_def ingest_turn_def)
  have wi: "worker_at sg (gs ! i) ?wk (W i)" using r True by blast
  have staged_i: "stage_file env wp w (pf_region f) (pf_key f) sc = Some (Inr (sg f))" if "f \<in> set (gs ! i)" for f
    using staged [of f] that True by (auto intro: nth_mem)
  obtain W1 where W1: "worker_at sg (gs ! i) wk' W1" "turns_left sg ?wk = Suc (turns_left sg wk')"
      "step_effect bport dry_run (ig_cas run) cas' (new_of ?wk) (new_of wk') (W i) W1"
    using worker_step_at [OF wi _ _ staged_i step] True r by blast
  let ?W' = "W(i := W1)" and ?ws = "(ig_workers run)[i := wk']"
  have c: "cas_at dry_run cas0 (\<Sum>i<length gs. mset (W i)) (\<Sum>i<length gs. new_of (ig_workers run ! i)) (ig_cas run)"
    "bvalid (ig_cas run)" using r by blast+
  obtain d where d: "new_of wk' = new_of ?wk + d" "mset (W i) \<subseteq># mset W1" "bvalid cas'"
      "cas_at dry_run cas0 ((\<Sum>i<length gs. mset (W i)) + (mset W1 - mset (W i)))
        ((\<Sum>i<length gs. new_of (ig_workers run ! i)) + d) cas'"
    using cas_at_effect [OF c W1(3)] by blast
  have "(\<Sum>j<length gs. mset (?W' j)) + mset (W i) = (\<Sum>j<length gs. mset (W j)) + mset W1"
    using sum_change [of i "length gs" "\<lambda>j. mset (?W' j)" "\<lambda>j. mset (W j)"] True by simp
  then have M: "(\<Sum>j<length gs. mset (?W' j)) = (\<Sum>j<length gs. mset (W j)) + (mset W1 - mset (W i))"
    using d(2) by (metis (no_types, lifting) add.assoc add_right_cancel subset_mset.diff_add)
  have "(\<Sum>j<length gs. new_of (?ws ! j)) + new_of ?wk = (\<Sum>j<length gs. new_of (ig_workers run ! j)) + new_of wk'"
    using sum_change [of i "length gs" "\<lambda>j. new_of (?ws ! j)" "\<lambda>j. new_of (ig_workers run ! j)"] True r by simp
  then have N: "(\<Sum>j<length gs. new_of (?ws ! j)) = (\<Sum>j<length gs. new_of (ig_workers run ! j)) + d"
    using d(1) by simp
  define js' where "js' = (if wk_ended wk' = None then js else js @ [i])"
  have "i \<notin> set js" using r True by auto
  then have "distinct js'" "set js' = {j. j < length gs \<and> wk_ended (?ws ! j) \<noteq> None}"
    "ig_joined run' = map (\<lambda>j. the (wk_ended (?ws ! j))) js'"
    using r True by (auto simp: js'_def run' nth_list_update split: option.split)
  then have "run_at dry_run cas0 sg gs run' ?W' js'"
    using r W1(1) d(3,4) M N by (simp add: run_at_def run' nth_list_update)
  moreover have "turns_left sg (ig_workers run' ! j) = turns_left sg (ig_workers run ! j) - (if j = i then 1 else 0)"
    if "j < length gs" for j
    using that r W1(2) by (simp add: run' nth_list_update)
  ultimately show ?thesis by blast
qed


lemma schedule_at:
  assumes "run_at dry_run cas0 sg gs run W js"
    and "\<And>f. f \<in> set (concat gs) \<Longrightarrow> stage_file env wp w (pf_region f) (pf_key f) sc = Some (Inr (sg f))"
  shows "(\<exists>W' js'. run_at dry_run cas0 sg gs (fold (ingest_turn env wp w bport sc dry_run) schedule run) W' js')
    \<and> (\<forall>j < length gs. turns_left sg (ig_workers (fold (ingest_turn env wp w bport sc dry_run) schedule run) ! j)
         = turns_left sg (ig_workers run ! j) - count_list schedule j)"
  using assms(1)
proof (induction schedule arbitrary: run W js)
  case Nil
  then show ?case by auto
next
  case (Cons i schedule)
  let ?run = "ingest_turn env wp w bport sc dry_run i run"
  obtain W1 js1 where at1: "run_at dry_run cas0 sg gs ?run W1 js1"
      "\<forall>j < length gs. turns_left sg (ig_workers ?run ! j) = turns_left sg (ig_workers run ! j) - (if j = i then 1 else 0)"
    using ingest_turn_at [OF Cons.prems assms(2), of i] by blast
  show ?case using Cons.IH [OF at1(1)] at1(2) by auto
qed

end

lemma join_ok:
  "join_workers planned n (map Inr oss) walk
     = (if n \<le> length oss then Some (Inr (foldl (merge_outcome planned) walk (concat (take n oss)))) else None)"
proof (induction n arbitrary: oss walk)
  case (Suc n)
  then show ?case by (cases oss) simp_all
qed simp

lemma merge_outcomes:
  "rw_ingested (foldl (merge_outcome planned) walk os) =
     \<lparr>in_entries = in_entries (rw_ingested walk) @ concat (map fo_entries os),
      in_present = in_present (rw_ingested walk) \<union> \<Union> (set (map fo_present os)),
      in_new_blobs = in_new_blobs (rw_ingested walk) + sum_list (map fo_new_blobs os)\<rparr>
   \<and> rw_files (foldl (merge_outcome planned) walk os) = rw_files walk + length os
   \<and> length (rw_progress (foldl (merge_outcome planned) walk os)) = length (rw_progress walk) + length os"
proof (induction os arbitrary: walk)
  case (Cons o' os)
  then show ?case by (simp add: merge_outcome_def Let_def ac_simps Un_assoc)
qed simp

lemma outcomes_of:
  assumes "list_all2 (outcome_of sg) fs os"
  shows "map fo_entries os = map (\<lambda>f. sg_entries (sg f)) fs" "map fo_present os = map (\<lambda>f. sg_present (sg f)) fs"
  using assms by (induction fs os rule: list_all2_induct) (simp_all add: outcome_of_def)

lemma mset_nths: "mset js = mset [0..<length gs] \<Longrightarrow> mset (concat (map (\<lambda>i. gs ! i) js)) = mset (concat gs)"
proof -
  assume "mset js = mset [0..<length gs]"
  then have "mset (map (\<lambda>i. gs ! i) js) = mset (map (\<lambda>i. gs ! i) [0..<length gs])" by (simp only: mset_map)
  then have "mset (map (\<lambda>i. gs ! i) js) = mset gs" by (simp only: map_nth)
  then show ?thesis by (simp only: mset_concat sum_mset_sum_list [symmetric] mset_map)
qed

lemma mset_writes: "mset fs = mset fs' \<Longrightarrow> mset (writes_of sg fs) = mset (writes_of sg fs')"
  by (simp only: writes_of_def mset_concat sum_mset_sum_list [symmetric] mset_map)

context cas_store begin

text \<open>What a schedule that has answered stands for: the files in some order, each staged once.\<close>

definition ingest_result ::
  "bool \<Rightarrow> 'b \<Rightarrow> ('r planned_file \<Rightarrow> staged_file) \<Rightarrow> 'r planned_file list \<Rightarrow> region_walk \<Rightarrow> 'b \<Rightarrow> bool" where
  "ingest_result dry_run cas0 sg changed walk cas \<longleftrightarrow>
     (\<exists>fs. mset fs = mset changed \<and> in_entries (rw_ingested walk) = concat (map (\<lambda>f. sg_entries (sg f)) fs)
        \<and> in_present (rw_ingested walk) = (\<Union>f \<in> set changed. sg_present (sg f)))
     \<and> cas_at dry_run cas0 (mset (writes_of sg changed)) (in_new_blobs (rw_ingested walk)) cas \<and> bvalid cas
     \<and> rw_files walk = length changed \<and> length (rw_progress walk) = length changed"

lemma ingest_result_perm:
  assumes "mset fs = mset changed" "ingest_result dry_run cas0 sg fs walk cas"
  shows "ingest_result dry_run cas0 sg changed walk cas"
proof -
  have "set fs = set changed" "length fs = length changed" "mset (writes_of sg fs) = mset (writes_of sg changed)"
    using assms(1) by (rule mset_eq_setD, rule mset_eq_length, rule mset_writes)
  then show ?thesis using assms by (simp add: ingest_result_def)
qed

lemma run_at_joined:
  assumes at: "run_at dry_run cas0 sg gs run W js"
  shows "i \<in> set js \<Longrightarrow> wk_ended (ig_workers run ! i) = Some (Inr (wk_outcomes (ig_workers run ! i)))
      \<and> list_all2 (outcome_of sg) (gs ! i) (wk_outcomes (ig_workers run ! i)) \<and> W i = writes_of sg (gs ! i)
      \<and> new_of (ig_workers run ! i) = sum_list (map fo_new_blobs (wk_outcomes (ig_workers run ! i)))"
    "ig_joined run = map Inr (map (\<lambda>i. wk_outcomes (ig_workers run ! i)) js)"
proof -
  note a = at [unfolded run_at_def]
  let ?ws = "ig_workers run"
  show ended: "wk_ended (?ws ! i) = Some (Inr (wk_outcomes (?ws ! i))) \<and> list_all2 (outcome_of sg) (gs ! i) (wk_outcomes (?ws ! i))
      \<and> W i = writes_of sg (gs ! i) \<and> new_of (?ws ! i) = sum_list (map fo_new_blobs (wk_outcomes (?ws ! i)))" if "i \<in> set js" for i
  proof -
    have "i \<in> {i. i < length gs \<and> wk_ended (?ws ! i) \<noteq> None}" using a that by simp
    then obtain x where "wk_ended (?ws ! i) = Some x" "i < length gs" by blast
    then show ?thesis using worker_at_ended [of sg "gs ! i" "?ws ! i" "W i"] a by auto
  qed
  have "ig_joined run = map (\<lambda>i. the (wk_ended (?ws ! i))) js" using a by blast
  also have "\<dots> = map (\<lambda>i. Inr (wk_outcomes (?ws ! i))) js" by (intro map_cong refl) (simp add: ended)
  finally show "ig_joined run = map Inr (map (\<lambda>i. wk_outcomes (?ws ! i)) js)" by (simp add: comp_def)
qed

lemma run_at_answer:
  assumes at: "run_at dry_run cas0 sg gs run W js" and join: "join_workers planned (length gs) (ig_joined run) walk_start = Some r"
  shows "\<exists>walk. r = Inr walk \<and> ingest_result dry_run cas0 sg (concat gs) walk (ig_cas run)"
proof -
  note a = at [unfolded run_at_def]
  let ?ws = "ig_workers run"
  define oss where "oss = map (\<lambda>i. wk_outcomes (?ws ! i)) js"
  note ended = run_at_joined(1) [OF at]
  have joined: "ig_joined run = map Inr oss" using run_at_joined(2) [OF at] by (simp add: oss_def)
  have "set js = {i. i < length gs \<and> wk_ended (?ws ! i) \<noteq> None}" "distinct js" using a by blast+
  then have js: "set js \<subseteq> {..<length gs}" "distinct js" by auto
  have short: "length js \<le> length gs" using card_mono [OF _ js(1)] distinct_card [OF js(2)] by simp
  have oss: "length oss = length js" by (simp add: oss_def)
  have long: "length gs \<le> length js" using join by (simp add: joined join_ok oss split: if_splits)
  have "card (set js) = card {..<length gs}" using short long distinct_card [OF js(2)] by simp
  then have all: "set js = {..<length gs}" using js(1) by (intro card_subset_eq) auto
  then have perm: "mset js = mset [0..<length gs]"
    using set_eq_iff_mset_eq_distinct [OF js(2) distinct_upt, of 0 "length gs"] by (simp add: atLeast0LessThan)
  define fs where "fs = concat (map (\<lambda>i. gs ! i) js)"
  have fs: "mset fs = mset (concat gs)" unfolding fs_def by (rule mset_nths [OF perm])
  have l2: "list_all2 (outcome_of sg) fs (concat oss)"
    unfolding fs_def oss_def using ended by (intro concat_transfer [THEN rel_funD]) (auto simp: list_all2_conv_all_nth)
  have r: "r = Inr (foldl (merge_outcome planned) walk_start (concat oss))"
    using join short long by (simp add: joined join_ok oss)
  have sums: "(\<Sum>i<length gs. f i) = sum_list (map f js)" for f :: "nat \<Rightarrow> 'c :: comm_monoid_add"
    using sum_list_distinct_conv_sum_set [OF js(2), of f] all by simp
  have "(\<Sum>i<length gs. mset (W i)) = mset (writes_of sg fs)"
  proof -
    have "sum_list (map (\<lambda>i. mset (W i)) js) = sum_list (map (\<lambda>i. mset (writes_of sg (gs ! i))) js)"
      using ended by (intro arg_cong [where f = sum_list] map_cong) auto
    also have "\<dots> = mset (writes_of sg fs)" unfolding fs_def by (induction js) (simp_all add: writes_of_def)
    finally show ?thesis by (simp add: sums)
  qed
  moreover have "(\<Sum>i<length gs. new_of (?ws ! i)) = sum_list (map fo_new_blobs (concat oss))"
  proof -
    have "sum_list (map (\<lambda>i. new_of (?ws ! i)) js) = sum_list (map (\<lambda>i. sum_list (map fo_new_blobs (wk_outcomes (?ws ! i)))) js)"
      using ended by (intro arg_cong [where f = sum_list] map_cong) auto
    also have "\<dots> = sum_list (map fo_new_blobs (concat oss))" unfolding oss_def by (induction js) simp_all
    finally show ?thesis by (simp add: sums)
  qed
  ultimately have cas: "cas_at dry_run cas0 (mset (writes_of sg (concat gs))) (sum_list (map fo_new_blobs (concat oss))) (ig_cas run)"
    using a mset_writes [OF fs, of sg] by simp
  have len: "length (concat oss) = length (concat gs)" using list_all2_lengthD [OF l2] mset_eq_length [OF fs] by simp
  let ?walk = "foldl (merge_outcome planned) walk_start (concat oss)"
  note m = merge_outcomes [of planned walk_start "concat oss"]
  have "in_entries (rw_ingested ?walk) = concat (map (\<lambda>f. sg_entries (sg f)) fs)"
    using m outcomes_of(1) [OF l2] by (simp add: walk_start_def)
  moreover have "in_present (rw_ingested ?walk) = (\<Union>f \<in> set (concat gs). sg_present (sg f))"
    using m outcomes_of(2) [OF l2] mset_eq_setD [OF fs] by (simp only: walk_start_def) simp
  moreover have "in_new_blobs (rw_ingested ?walk) = sum_list (map fo_new_blobs (concat oss))"
    using m by (simp add: walk_start_def)
  ultimately show ?thesis
    using r fs cas a len m by (intro exI [of _ ?walk]) (auto simp: ingest_result_def walk_start_def)
qed

end

end
