(* ===== verification/App_Scanned.thy ===== *)
theory App_Scanned
  imports App_Ingested
begin

section \<open>The scan an ingest answers\<close>

text \<open>
  The runs of \<open>App_Ingested\<close> over the files of a scope: once a schedule has answered, the rows are the
  chunks of the scope with their keys, whatever the order of the workers (\<open>ingest_scans\<close>), and a
  schedule that gives every worker enough turns does answer (\<open>ingest_answers\<close>).
\<close>

subsection \<open>The whole ingest\<close>

lemma length_concat_sum: "length (concat (map f xs)) = sum_list (map (\<lambda>x. length (f x)) xs)"
  by (induction xs) simp_all

lemma sum_list_part: "g \<in> set gs \<Longrightarrow> sum_list (map f g) \<le> (sum_list (map f (concat gs)) :: nat)"
  by (induction gs) auto

lemma sum_list_mset: "mset xs = mset ys \<Longrightarrow> sum_list (map f xs) = (sum_list (map f ys) :: nat)"
  by (simp only: sum_mset_sum_list [symmetric] mset_map)

lemma distinct_concat_keyed:
  assumes "distinct (map key fs)" "\<And>f. f \<in> set fs \<Longrightarrow> distinct (g f)" "\<And>f x. f \<in> set fs \<Longrightarrow> x \<in> set (g f) \<Longrightarrow> h x = key f"
  shows "distinct (concat (map g fs))"
  using assms
proof (induction fs)
  case (Cons f fs)
  have "x \<notin> set (concat (map g fs))" if x: "x \<in> set (g f)" for x
  proof
    assume "x \<in> set (concat (map g fs))"
    then obtain e where e: "e \<in> set fs" "x \<in> set (g e)" by auto
    then have "key e = key f" using Cons.prems(3) [of f x] Cons.prems(3) [of e x] x by simp
    then show False using Cons.prems(1) e(1) by (metis distinct.simps(2) image_eqI list.simps(9) set_map)
  qed
  then show ?case using Cons by auto
qed simp

text \<open>The files of an ingest: each is read once, cleanly, and no file of the scope is missing.\<close>

context world_tree begin

definition ingests :: "'w \<Rightarrow> scope \<Rightarrow> 'r planned_file list \<Rightarrow> bool" where
  "ingests w sc changed \<longleftrightarrow> distinct (map pf_key changed)
     \<and> (\<forall>f \<in> set changed. names w (pf_key f) (pf_region f)
          \<and> (\<exists>bs. files w (pf_key f) = Some bs \<and> clean_file (pf_key f) bs))
     \<and> pf_key ` set changed = {k. scope_matches_region sc k \<and> files w k \<noteq> None}"

definition scan_rows :: "('d, 'x) chunk_env \<Rightarrow> 'w \<Rightarrow> scope \<Rightarrow> scan_row list \<Rightarrow> bool" where
  "scan_rows env w sc rows \<longleftrightarrow> distinct (map fst rows) \<and> (\<forall>row. row \<in> set rows \<longleftrightarrow> scan_of env (files w) sc row)"

lemma staged_files:
  assumes w: "valid w" and fs: "ingests w sc changed" and hash: "hashable env (files w) sc"
  shows "\<exists>sg rs. \<forall>f \<in> set changed. stage_file env port w (pf_region f) (pf_key f) sc = Some (Inr (sg f))
    \<and> file_rows env (files w) sc (pf_key f) (sg f) (rs f)"
proof -
  have "\<exists>p. stage_file env port w (pf_region f) (pf_key f) sc = Some (Inr (fst p))
    \<and> file_rows env (files w) sc (pf_key f) (fst p) (snd p)" if f: "f \<in> set changed" for f
  proof -
    obtain bs where "names w (pf_key f) (pf_region f)" "files w (pf_key f) = Some bs" "clean_file (pf_key f) bs"
      using fs f unfolding ingests_def by blast
    then obtain sg rows where "stage_file env port w (pf_region f) (pf_key f) sc = Some (Inr sg)"
        "file_rows env (files w) sc (pf_key f) sg rows" using stage_file_rows [OF w _ _ _ hash] by blast
    then show ?thesis by (intro exI [of _ "(sg, rows)"]) simp
  qed
  then obtain q where "\<forall>f \<in> set changed. stage_file env port w (pf_region f) (pf_key f) sc = Some (Inr (fst (q f)))
    \<and> file_rows env (files w) sc (pf_key f) (fst (q f)) (snd (q f))" by metis
  then show ?thesis by (intro exI [of _ "fst \<circ> q"] exI [of _ "snd \<circ> q"]) simp
qed

text \<open>The rows of the files, in any order of the files, are the rows of the scope.\<close>

lemma rows_of_files:
  assumes fs: "ingests w sc changed" and perm: "mset fs = mset changed"
    and rows: "\<And>f. f \<in> set changed \<Longrightarrow> file_rows env (files w) sc (pf_key f) (sg f) (rs f)"
  shows "scan_rows env w sc (concat (map rs fs))"
proof -
  have fset: "set fs = set changed" using mset_eq_setD [OF perm] .
  have keys: "distinct (map pf_key fs)"
    using fs perm mset_eq_imp_distinct_iff [of "map pf_key fs" "map pf_key changed"] by (simp add: ingests_def)
  have mem: "row \<in> set (rs f) \<longleftrightarrow> region_key_of (fst row) = pf_key f \<and> scan_of env (files w) sc row"
    if "f \<in> set fs" for f row
    using rows [of f] that fset by (cases row) (simp add: file_rows_def)
  have "distinct (map fst (concat (map rs fs)))"
    using distinct_concat_keyed [OF keys, of "\<lambda>f. map fst (rs f)" region_key_of] rows fset mem
    by (fastforce simp: map_concat comp_def file_rows_def)
  moreover have "row \<in> set (concat (map rs fs)) \<longleftrightarrow> scan_of env (files w) sc row" for row
  proof
    assume "row \<in> set (concat (map rs fs))"
    then show "scan_of env (files w) sc row" using mem by auto
  next
    assume s: "scan_of env (files w) sc row"
    obtain c h p where row: "row = (c, h, p)" by (cases row)
    have "scope_matches_region sc (region_key_of c)" "files w (region_key_of c) \<noteq> None"
      using s by (auto simp: row scan_of_def world_chunk_def scope_contains_matches bind_eq_Some_conv)
    then have "region_key_of c \<in> pf_key ` set fs" using fs fset unfolding ingests_def by blast
    then obtain f where "f \<in> set fs" "pf_key f = region_key_of c" by auto
    then show "row \<in> set (concat (map rs fs))" using mem [of f row] s row by auto
  qed
  ultimately show ?thesis by (simp add: scan_rows_def)
qed

end

context rebuilding begin

text \<open>A run over files that stage cleanly.\<close>

lemma ingest_run_at:
  assumes b: "bvalid cas" and staged: "\<And>f. f \<in> set changed \<Longrightarrow> stage_file env wport w (pf_region f) (pf_key f) sc = Some (Inr (sg f))"
    and ne: "changed \<noteq> []"
  shows "\<exists>gs run W js. mset (concat gs) = mset changed \<and> [] \<notin> set gs
    \<and> length gs \<le> worker_count concurrency cpus (length changed)
    \<and> cas.run_at dry_run cas sg gs run W js
    \<and> (\<forall>j < length gs. turns_left sg (ig_workers run ! j) = turns_left sg (worker_start (gs ! j)) - count_list schedule j)
    \<and> ingest_changed env wport w bport sc dry_run concurrency cpus schedule changed cas
        = (join_workers (length changed) (length gs) (ig_joined run) walk_start, ig_cas run)"
proof -
  let ?n = "worker_count concurrency cpus (length changed)"
  let ?gs = "partition_groups changed ?n"
  let ?run = "fold (ingest_turn env wport w bport sc dry_run) schedule (ingest_start ?gs cas)"
  have n: "0 < ?n" by (simp add: worker_count_def)
  note gs = partition_groups_files [OF n, of changed]
  have "stage_file env wport w (pf_region f) (pf_key f) sc = Some (Inr (sg f))" if "f \<in> set (concat ?gs)" for f
    using staged that mset_eq_setD [OF gs(1)] by blast
  note at = cas.schedule_at [OF cas.run_at_start [OF b] this, where schedule = schedule and dry_run = dry_run]
  then obtain W js where "cas.run_at dry_run cas sg ?gs ?run W js"
      "\<forall>j < length ?gs. turns_left sg (ig_workers ?run ! j)
         = turns_left sg (ig_workers (ingest_start ?gs cas) ! j) - count_list schedule j"
    by blast
  then show ?thesis
    using gs ne mset_eq_length [OF gs(1)]
    by (intro exI [of _ ?gs] exI [of _ ?run] exI [of _ W] exI [of _ js])
      (simp add: ingest_changed_def Let_def ingest_start_def)
qed

text \<open>Any schedule that has answered reports the rows of the scope and has stored their payloads.\<close>

lemma ingest_scans:
  assumes w: "wvalid w" and b: "bvalid cas" and fs: "ingests w sc changed" and hash: "hashable env (files w) sc"
    and run: "ingest_changed env wport w bport sc dry_run concurrency cpus schedule changed cas = (Some r, cas')"
  shows "\<exists>walk rows. r = Inr walk \<and> scan_rows env w sc rows
    \<and> scanned (rw_ingested walk) (map (\<lambda>(c, h, p). (c, h)) rows)
    \<and> cas.cas_at dry_run cas (mset (map snd rows)) (in_new_blobs (rw_ingested walk)) cas' \<and> bvalid cas'
    \<and> rw_files walk = length changed \<and> length (rw_progress walk) = length changed"
proof -
  obtain sg rs where sg: "\<And>f. f \<in> set changed \<Longrightarrow> stage_file env wport w (pf_region f) (pf_key f) sc = Some (Inr (sg f))"
      "\<And>f. f \<in> set changed \<Longrightarrow> file_rows env (files w) sc (pf_key f) (sg f) (rs f)"
    using staged_files [OF w fs hash] by blast
  have "\<exists>walk. r = Inr walk \<and> cas.ingest_result dry_run cas sg changed walk cas'"
  proof (cases "changed = []")
    case True
    then have "r = Inr walk_start" "cas' = cas" using run by (simp_all add: ingest_changed_def)
    then show ?thesis using True b
      by (simp add: cas.ingest_result_def walk_start_def writes_of_def cas.cas_at_start cas.cas_at_def)
  next
    case False
    obtain gs ig W js where ig: "mset (concat gs) = mset changed" "cas.run_at dry_run cas sg gs ig W js"
        "ingest_changed env wport w bport sc dry_run concurrency cpus schedule changed cas
          = (join_workers (length changed) (length gs) (ig_joined ig) walk_start, ig_cas ig)"
      using ingest_run_at [OF b sg(1) False] by blast
    have "join_workers (length changed) (length gs) (ig_joined ig) walk_start = Some r" "cas' = ig_cas ig"
      using run ig(3) by simp_all
    then obtain walk where walk: "r = Inr walk" "cas.ingest_result dry_run cas sg (concat gs) walk cas'"
      using cas.run_at_answer [OF ig(2)] by blast
    then show ?thesis using cas.ingest_result_perm [OF ig(1)] by blast
  qed
  then obtain walk where walk: "r = Inr walk" "cas.ingest_result dry_run cas sg changed walk cas'" by blast
  note res = walk(2) [unfolded cas.ingest_result_def]
  obtain fs' where fs': "mset fs' = mset changed" "in_entries (rw_ingested walk) = concat (map (\<lambda>f. sg_entries (sg f)) fs')"
      "in_present (rw_ingested walk) = (\<Union>f \<in> set changed. sg_present (sg f))" using res by blast
  let ?rows = "concat (map rs fs')"
  have rows: "scan_rows env w sc ?rows" by (rule rows_of_files [OF fs fs'(1) sg(2)])
  have set: "set fs' = set changed" by (rule mset_eq_setD [OF fs'(1)])
  have entries: "concat (map (\<lambda>f. sg_entries (sg f)) fs') = map (\<lambda>(c, h). stage_present c h) (map (\<lambda>(c, h, p). (c, h)) ?rows)"
  proof -
    have "sg_entries (sg f) = map (\<lambda>(c, h). stage_present c h) (map (\<lambda>(c, h, p). (c, h)) (rs f))" if "f \<in> set fs'" for f
      using sg(2) [of f] that set by (simp add: file_rows_def comp_def case_prod_unfold)
    then show ?thesis by (simp add: map_concat comp_def cong: map_cong)
  qed
  have "(\<Union>f \<in> set changed. sg_present (sg f)) = fst ` set ?rows"
    using sg(2) set by (auto simp: file_rows_def)
  moreover have "fst ` set ?rows = set (map fst (map (\<lambda>(c, h, p). (c, h)) ?rows))" by (force simp: image_iff)
  ultimately have scan: "scanned (rw_ingested walk) (map (\<lambda>(c, h, p). (c, h)) ?rows)"
    using rows fs' entries by (simp add: scanned_def scan_rows_def comp_def case_prod_unfold)
  have "writes_of sg fs' = map snd ?rows"
  proof -
    have "sg_writes (sg f) = map snd (rs f)" if "f \<in> set fs'" for f using sg(2) [of f] that set by (simp add: file_rows_def)
    then show ?thesis by (simp add: writes_of_def map_concat comp_def cong: map_cong)
  qed
  then have "mset (writes_of sg changed) = mset (map snd ?rows)" using mset_writes [OF fs'(1), of sg] by simp
  then show ?thesis using walk(1) rows scan res by (intro exI [of _ walk] exI [of _ ?rows]) simp
qed

text \<open>Enough turns for every worker: every file is opened and closed, and every payload handed over.\<close>

lemma turns_of_group:
  assumes "mset (concat gs) = mset changed" "j < length gs"
  shows "turns_left sg (worker_start (gs ! j)) \<le> 1 + 2 * length changed + length (writes_of sg changed)"
proof -
  let ?f = "\<lambda>f. 2 + length (sg_writes (sg f))"
  have "sum_list (map ?f (gs ! j)) \<le> sum_list (map ?f (concat gs))" using assms(2) by (intro sum_list_part nth_mem)
  also have "\<dots> = sum_list (map ?f changed)" by (rule sum_list_mset [OF assms(1)])
  also have "\<dots> = 2 * length changed + length (writes_of sg changed)"
    by (induction changed) (simp_all add: writes_of_def)
  finally show ?thesis by (simp add: turns_left_def worker_start_def)
qed

lemma scan_rows_count:
  assumes "scan_rows env w sc rows" "hashable env (files w) sc"
  shows "length rows = card {c. scope_contains sc c \<and> world_chunk (files w) c \<noteq> None}"
proof -
  have "fst ` set rows = {c. scope_contains sc c \<and> world_chunk (files w) c \<noteq> None}"
  proof (intro set_eqI iffI)
    fix c
    assume "c \<in> fst ` set rows"
    then show "c \<in> {c. scope_contains sc c \<and> world_chunk (files w) c \<noteq> None}"
      using assms(1) by (auto simp: scan_rows_def scan_of_def)
  next
    fix c
    assume "c \<in> {c. scope_contains sc c \<and> world_chunk (files w) c \<noteq> None}"
    then obtain p where p: "scope_contains sc c" "world_chunk (files w) c = Some p" by blast
    then obtain h where "hash_chunk env (chunk_of c p) = Some (Inr h)" using assms(2) unfolding hashable_def by blast
    then have "(c, h, p) \<in> set rows" using assms(1) p by (simp add: scan_rows_def scan_of_def)
    then show "c \<in> fst ` set rows" by force
  qed
  moreover have "length rows = card (fst ` set rows)"
    using assms(1) distinct_card [of "map fst rows"] by (simp add: scan_rows_def)
  ultimately show ?thesis by simp
qed

lemma ingest_answers:
  assumes w: "wvalid w" and b: "bvalid cas" and fs: "ingests w sc changed" and hash: "hashable env (files w) sc"
    and turns: "\<And>i. i < worker_count concurrency cpus (length changed) \<Longrightarrow>
      1 + 2 * length changed + card {c. scope_contains sc c \<and> world_chunk (files w) c \<noteq> None} \<le> count_list schedule i"
  shows "\<exists>r. fst (ingest_changed env wport w bport sc dry_run concurrency cpus schedule changed cas) = Some r"
proof (cases "changed = []")
  case True
  then show ?thesis by (simp add: ingest_changed_def)
next
  case False
  obtain sg rs where sg: "\<And>f. f \<in> set changed \<Longrightarrow> stage_file env wport w (pf_region f) (pf_key f) sc = Some (Inr (sg f))"
      "\<And>f. f \<in> set changed \<Longrightarrow> file_rows env (files w) sc (pf_key f) (sg f) (rs f)"
    using staged_files [OF w fs hash] by blast
  obtain gs ig W js where ig: "mset (concat gs) = mset changed" "cas.run_at dry_run cas sg gs ig W js"
      "length gs \<le> worker_count concurrency cpus (length changed)"
      "\<forall>j < length gs. turns_left sg (ig_workers ig ! j) = turns_left sg (worker_start (gs ! j)) - count_list schedule j"
      "ingest_changed env wport w bport sc dry_run concurrency cpus schedule changed cas
        = (join_workers (length changed) (length gs) (ig_joined ig) walk_start, ig_cas ig)"
    using ingest_run_at [OF b sg(1) False] by blast
  have rows: "scan_rows env w sc (concat (map rs changed))" by (rule rows_of_files [OF fs refl sg(2)])
  have "length (sg_writes (sg f)) = length (rs f)" if "f \<in> set changed" for f using sg(2) [OF that] by (simp add: file_rows_def)
  then have "length (writes_of sg changed) = length (concat (map rs changed))"
    by (simp add: writes_of_def length_concat comp_def cong: map_cong)
  note n = this [unfolded scan_rows_count [OF rows hash]]
  have "wk_ended (ig_workers ig ! j) \<noteq> None" if "j < length gs" for j
  proof -
    have "turns_left sg (worker_start (gs ! j)) \<le> count_list schedule j"
      using turns_of_group [OF ig(1) that, of sg] turns [of j] ig(3) that n by linarith
    then have "turns_left sg (ig_workers ig ! j) = 0" using ig(4) that by simp
    then show ?thesis using turns_left_0 [of sg "ig_workers ig ! j"] by blast
  qed
  then have "set js = {..<length gs}" "distinct js" using ig(2) by (auto simp: cas.run_at_def)
  then have "length js = length gs" using distinct_card [of js] by simp
  then show ?thesis using cas.run_at_joined(2) [OF ig(2)] ig(5) by (simp add: join_ok del: map_map)
qed

end

end
