(* ===== verification/App_Commit.thy ===== *)
theory App_Commit
  imports App_Scanned
begin

section \<open>Committing a world, and the preview\<close>

text \<open>
  \<open>crates/app/src/commit.rs\<close>: \<open>prepare\<close> discovers the world, plans against the active ref, sizes and
  ingests the files of the scope and assembles the rows; \<open>WorldHandleMut::commit\<close> then reads the
  clock, syncs the blob store and records the rows, and \<open>status\<close> only counts them. The schedule of
  the workers is an argument, \<open>None\<close> is the answer while a worker still runs. Locks and timings are
  left out.
\<close>

subsection \<open>The operations\<close>

record prepared =
  pr_previous :: previous
  pr_staged :: assembled
  pr_progress :: "file_progress list"

text \<open>\<open>BTreeMap::remove_entry\<close> for every key, those that are found.\<close>

fun remove_entries :: "region_key list \<Rightarrow> (region_key, 'r) omap \<Rightarrow> (region_key \<times> 'r) list" where
  "remove_entries [] regions = []"
| "remove_entries (k # ks) regions =
     (case om_get k regions of
        None \<Rightarrow> remove_entries ks regions
      | Some r \<Rightarrow> (k, r) # remove_entries ks (om_del k regions))"

definition prepare ::
  "('d, 'x) chunk_env \<Rightarrow> ('w, 'r) world_port \<Rightarrow> ('b, storage_error) blob_port \<Rightarrow> ('m, storage_error) meta_port
     \<Rightarrow> ('m, 'b) store \<Rightarrow> 'w \<Rightarrow> nat \<Rightarrow> nat option \<Rightarrow> nat list \<Rightarrow> scope \<Rightarrow> bool
     \<Rightarrow> (app_error, prepared) result option \<times> 'b" where
  "prepare env wp bp mp st w concurrency cpus schedule sc dry_run =
     (case bindE (discover_regions wp w) (\<lambda>regions.
           bindE (map_err AeStorage (plan_commit mp (store_meta st) (map fst regions) sc)) (\<lambda>(previous, plan).
           bindE (size_planned wp w (remove_entries (cp_ingest plan) regions)) (\<lambda>changed.
             Inr (previous, plan, changed)))) of
        Inl e \<Rightarrow> (Some (Inl e), store_blob st)
      | Inr (previous, plan, changed) \<Rightarrow>
          (case ingest_changed env wp w bp sc dry_run concurrency cpus schedule changed (store_blob st) of
             (answer, cas) \<Rightarrow>
               (map_option (\<lambda>r. bindE r (\<lambda>walk.
                  Inr \<lparr>pr_previous = previous, pr_staged = assemble plan previous (rw_ingested walk) sc,
                       pr_progress = rw_progress walk\<rparr>)) answer, cas)))"

definition commit_world ::
  "('d, 'x) chunk_env \<Rightarrow> ('w, 'r) world_port \<Rightarrow> ('b, storage_error) blob_port \<Rightarrow> ('m, storage_error) meta_port
     \<Rightarrow> 'w \<Rightarrow> nat \<Rightarrow> nat option \<Rightarrow> nat list \<Rightarrow> scope \<Rightarrow> nat option \<Rightarrow> ('m, 'b) store
     \<Rightarrow> (app_error, commit_report) result option \<times> ('m, 'b) store" where
  "commit_world env wp bp mp w concurrency cpus schedule sc clock st =
     (case prepare env wp bp mp st w concurrency cpus schedule sc False of
        (None, cas) \<Rightarrow> (None, st\<lparr>store_blob := cas\<rparr>)
      | (Some (Inl e), cas) \<Rightarrow> (Some (Inl e), st\<lparr>store_blob := cas\<rparr>)
      | (Some (Inr p), cas) \<Rightarrow>
          (case app_now_ms clock of
             Inl e \<Rightarrow> (Some (Inl e), st\<lparr>store_blob := cas\<rparr>)
           | Inr created_at_ms \<Rightarrow>
               (case bp_sync bp cas of
                  Inl e \<Rightarrow> (Some (Inl (AeStorage e)), st\<lparr>store_blob := cas\<rparr>)
                | Inr cas' \<Rightarrow>
                    (case record_commit mp (pr_previous p) (pr_staged p) created_at_ms (store_meta st) of
                       Inl e \<Rightarrow> (Some (Inl (AeStorage e)), st\<lparr>store_blob := cas'\<rparr>)
                     | Inr (rep, meta) \<Rightarrow> (Some (Inr rep), st\<lparr>store_meta := meta, store_blob := cas'\<rparr>)))))"

record status_report =
  sr_clean :: bool
  sr_latest :: "commit_id option"
  sr_changed_regions :: usize
  sr_new_files :: usize
  sr_deleted_files :: usize
  sr_new_chunks :: usize
  sr_tombstones :: usize
  sr_new_blobs :: usize

definition status_of :: "previous \<Rightarrow> assembled \<Rightarrow> status_report" where
  "status_of previous staged =
     \<lparr>sr_clean = (as_entries staged = [] \<and> as_removed staged = [] \<and> as_new_files staged = 0),
      sr_latest = map_option c_id (pv_commit previous),
      sr_changed_regions = card (set (map (\<lambda>e. region_key_of (entry_coord e)) (as_entries staged))),
      sr_new_files = as_new_files staged,
      sr_deleted_files = length (as_removed staged),
      sr_new_chunks = length (filter (\<lambda>e. entry_blob e \<noteq> None) (as_entries staged)),
      sr_tombstones = as_tombstones staged,
      sr_new_blobs = as_new_blobs staged\<rparr>"

definition status_world ::
  "('d, 'x) chunk_env \<Rightarrow> ('w, 'r) world_port \<Rightarrow> ('b, storage_error) blob_port \<Rightarrow> ('m, storage_error) meta_port
     \<Rightarrow> 'w \<Rightarrow> nat \<Rightarrow> nat option \<Rightarrow> nat list \<Rightarrow> scope \<Rightarrow> ('m, 'b) store
     \<Rightarrow> (app_error, status_report) result option" where
  "status_world env wp bp mp w concurrency cpus schedule sc st =
     map_option (\<lambda>r. bindE r (\<lambda>p. Inr (status_of (pr_previous p) (pr_staged p))))
       (fst (prepare env wp bp mp st w concurrency cpus schedule sc True))"

subsection \<open>The scan of a world\<close>

text \<open>The keys of the chunks of a scope, as a commit should find them, and the rows it should write.\<close>

definition world_scan ::
  "('d, 'x) chunk_env \<Rightarrow> (region_key \<Rightarrow> bytes option) \<Rightarrow> scope \<Rightarrow> chunk_coord \<Rightarrow> chunk_hash option" where
  "world_scan env fs sc c =
     (if scope_contains sc c
      then (case world_chunk fs c of
              None \<Rightarrow> None
            | Some p \<Rightarrow> (case hash_chunk env (chunk_of c p) of Some (Inr h) \<Rightarrow> Some h | _ \<Rightarrow> None))
      else None)"

definition scan_delta ::
  "(chunk_coord \<Rightarrow> chunk_hash option option) \<Rightarrow> (chunk_coord \<Rightarrow> chunk_hash option) \<Rightarrow> scope \<Rightarrow> commit_entry set" where
  "scan_delta base scan sc =
     {CommitEntry c (Some h) |c h. scan c = Some h \<and> present_at base c \<noteq> Some h}
     \<union> {CommitEntry c None |c. scope_contains sc c \<and> scan c = None \<and> present_at base c \<noteq> None}"

lemma world_scan_row: "world_scan env fs sc c = Some h \<longleftrightarrow> (\<exists>p. scan_of env fs sc (c, h, p))"
  by (auto simp: world_scan_def scan_of_def split: option.splits sum.splits)

lemma world_scan_None:
  "hashable env fs sc \<Longrightarrow> world_scan env fs sc c = None \<longleftrightarrow> \<not> scope_contains sc c \<or> world_chunk fs c = None"
  unfolding hashable_def world_scan_def by (cases "world_chunk fs c") (auto split: option.splits sum.splits)

end
