(* ===== verification/App_Committed.thy ===== *)
theory App_Committed
  imports App_Commit
begin

section \<open>What a commit of a world records\<close>

text \<open>
  For any world tree, metadata store and blob store that keep their promises: a commit records, over
  the state of the active ref, the key of every chunk of the scope and a tombstone for every chunk of
  the scope that is gone, and its payloads are in the blob store before the row that names them is
  written. A status counts the same rows. \<open>prepared_for\<close> is what both start from.
\<close>

subsection \<open>The files to ingest\<close>

lemma remove_entries_found:
  assumes "om_ok m" "distinct ks" "\<And>k. k \<in> set ks \<Longrightarrow> om_get k m \<noteq> None"
  shows "map fst (remove_entries ks m) = ks" "(k, r) \<in> set (remove_entries ks m) \<Longrightarrow> om_get k m = Some r"
proof -
  have "map fst (remove_entries ks m) = ks \<and> (\<forall>(k, r) \<in> set (remove_entries ks m). om_get k m = Some r)"
    using assms
  proof (induction ks arbitrary: m)
    case (Cons k ks)
    obtain r where r: "om_get k m = Some r" using Cons.prems(3) [of k] by auto
    have "om_get j (om_del k m) \<noteq> None" if "j \<in> set ks" for j
      using Cons.prems that by (auto simp: om_get_del)
    then have "map fst (remove_entries ks (om_del k m)) = ks
        \<and> (\<forall>(j, s) \<in> set (remove_entries ks (om_del k m)). om_get j (om_del k m) = Some s)"
      using Cons.prems by (intro Cons.IH) (auto simp: om_ok_del)
    then show ?case using r by (auto simp: om_get_del split: if_splits)
  qed simp
  then show "map fst (remove_entries ks m) = ks" "(k, r) \<in> set (remove_entries ks m) \<Longrightarrow> om_get k m = Some r" by auto
qed

context world_tree begin

lemma observed_keys: "observed w m \<Longrightarrow> k \<in> set (map fst m) \<longleftrightarrow> files w k \<noteq> None"
  using om_keys_get [of m k] by (simp add: observed_def)

lemma files_to_ingest:
  assumes w: "valid w" and obs: "observed w m"
    and clean: "\<And>k bs. scope_matches_region sc k \<Longrightarrow> files w k = Some bs \<Longrightarrow> clean_file k bs"
  shows "\<exists>changed. size_planned port w (remove_entries (filter (scope_matches_region sc) (map fst m)) m) = Inr changed
    \<and> ingests w sc changed"
proof -
  let ?ks = "filter (scope_matches_region sc) (map fst m)" and ?rs = "remove_entries (filter (scope_matches_region sc) (map fst m)) m"
  have m: "om_ok m" using obs by (simp add: observed_def)
  then have ks: "distinct ?ks" by (simp add: om_ok_def strict_sorted_iff)
  have found: "om_get k m \<noteq> None" if "k \<in> set ?ks" for k using that om_keys_get [OF m, of k] by simp
  have fst: "map fst ?rs = ?ks" by (rule remove_entries_found(1) [OF m ks found])
  have row: "names w k r \<and> (\<exists>bs. files w k = Some bs \<and> clean_file k bs)" if e: "(k, r) \<in> set ?rs" for k r
  proof -
    have g: "om_get k m = Some r" by (rule remove_entries_found(2) [OF m ks found e])
    have "k \<in> set ?ks" using e fst by (metis fst_conv image_eqI set_map)
    moreover obtain bs where "files w k = Some bs" using obs g unfolding observed_def by (metis not_None_eq option.distinct(1))
    ultimately show ?thesis using clean obs g by (auto simp: observed_def)
  qed
  let ?f = "\<lambda>(k, r). \<lparr>pf_key = k, pf_region = r, pf_size = of_nat (length (the (files w k)))\<rparr>"
  have sized: "size_planned port w ?rs = Inr (map ?f ?rs)"
    unfolding size_planned_def
  proof (rule mapE_all_ok)
    fix e
    assume e: "e \<in> set ?rs"
    obtain k r where kr: "e = (k, r)" by (cases e)
    obtain bs where "names w k r" "files w k = Some bs" using row e kr by blast
    then show "(case e of (key, region) \<Rightarrow> bindE (map_err AeWorld (wp_size port w region))
        (\<lambda>size. Inr \<lparr>pf_key = key, pf_region = region, pf_size = size\<rparr>)) = Inr (?f e)"
      using size_ok [OF w, of k r bs] by (simp add: kr)
  qed
  have keys: "map pf_key (map ?f ?rs) = ?ks" using fst by (simp add: comp_def case_prod_unfold)
  have "ingests w sc (map ?f ?rs)"
    unfolding ingests_def
  proof (intro conjI allI impI ballI)
    show "distinct (map pf_key (map ?f ?rs))" unfolding keys by (rule ks)
    show "names w (pf_key f) (pf_region f)" "\<exists>bs. files w (pf_key f) = Some bs \<and> clean_file (pf_key f) bs"
      if "f \<in> set (map ?f ?rs)" for f
      using that row by auto
    have "pf_key ` set (map ?f ?rs) = set (map pf_key (map ?f ?rs))" by (rule set_map [symmetric])
    also have "\<dots> = set ?ks" by (simp only: keys)
    also have "\<dots> = {k. scope_matches_region sc k \<and> files w k \<noteq> None}"
      using observed_keys [OF obs] by (auto simp del: set_map)
    finally show "pf_key ` set (map ?f ?rs) = {k. scope_matches_region sc k \<and> files w k \<noteq> None}" .
  qed
  then show ?thesis using sized by blast
qed

end

subsection \<open>What the rows amount to\<close>

lemma assemble_rows:
  fixes plan sc
  assumes ok: "om_ok (pv_state prev)"
    and base: "\<And>c. map_option he_blob (om_get c (pv_state prev)) = map_option Some (present_at base c)"
    and scan: "scanned ing kvs"
  defines "s \<equiv> assemble plan prev ing sc"
  shows "set (as_entries s) = scan_delta base (map_of kvs) sc" "distinct (map entry_coord (as_entries s))"
    "as_tombstones s = card {c. scope_contains sc c \<and> map_of kvs c = None \<and> present_at base c \<noteq> None}"
    "as_entries s = [] \<Longrightarrow> as_new_files s = 0" "as_removed s = cp_removed plan"
    "as_new_blobs s = in_new_blobs ing" "as_chunks s = length kvs"
proof -
  let ?st = "pv_state prev"
  define new where "new = (\<lambda>e. case om_get (entry_coord e) ?st of None \<Rightarrow> True | Some b \<Rightarrow> he_blob b \<noteq> entry_blob e)"
  let ?rows = "map (\<lambda>(c, h). stage_present c h) kvs"
  let ?gone = "filter (\<lambda>c. scope_contains sc c \<and> c \<notin> set (map fst kvs)) (map fst ?st)"
  have es: "as_entries s = filter new ?rows @ map (\<lambda>c. CommitEntry c None) ?gone"
    using scan by (simp add: s_def assemble_def Let_def scanned_def new_def)
  have kd: "distinct (map fst kvs)" using scan by (simp add: scanned_def)
  have new: "new (CommitEntry c (Some h)) \<longleftrightarrow> present_at base c \<noteq> Some h" for c h
    using base [of c] by (cases "om_get c ?st"; cases "present_at base c") (auto simp: new_def)
  have "set (filter new ?rows) = {CommitEntry c (Some h) |c h. map_of kvs c = Some h \<and> present_at base c \<noteq> Some h}"
  proof -
    have "map_of kvs c = Some h \<longleftrightarrow> (c, h) \<in> set kvs" for c h using kd by simp
    then show ?thesis by (auto simp: new stage_present_def)
  qed
  moreover have gone: "set ?gone = {c. scope_contains sc c \<and> map_of kvs c = None \<and> present_at base c \<noteq> None}"
  proof -
    have "om_get c ?st \<noteq> None \<longleftrightarrow> present_at base c \<noteq> None" for c
      using base [of c] by (cases "om_get c ?st"; cases "present_at base c") auto
    then have "c \<in> set (map fst ?st) \<longleftrightarrow> present_at base c \<noteq> None" for c using om_keys_get [OF ok, of c] by blast
    then show ?thesis by (auto simp: map_of_eq_None_iff simp del: set_map) (auto simp: image_iff)
  qed
  ultimately show "set (as_entries s) = scan_delta base (map_of kvs) sc"
    unfolding es scan_delta_def set_append by (auto simp del: set_filter)
  show "distinct (map entry_coord (as_entries s))" unfolding s_def using assemble_delta [OF ok base scan] by blast
  have "distinct (map fst ?st)" using ok by (simp add: om_ok_def strict_sorted_iff)
  then have "length ?gone = card (set ?gone)" by (simp only: distinct_card distinct_filter)
  moreover have "as_tombstones s = length ?gone" using scan by (simp add: s_def assemble_def Let_def scanned_def)
  ultimately show "as_tombstones s = card {c. scope_contains sc c \<and> map_of kvs c = None \<and> present_at base c \<noteq> None}"
    using gone by simp
  show "as_entries s = [] \<Longrightarrow> as_new_files s = 0" "as_removed s = cp_removed plan" "as_new_blobs s = in_new_blobs ing"
    by (simp_all add: s_def assemble_def Let_def)
  have "card (in_present ing) = length kvs" using scan distinct_card [OF kd] by (simp add: scanned_def)
  then show "as_chunks s = length kvs" by (simp add: s_def assemble_def Let_def)
qed

lemma finite_delta: "set es = scan_delta base scan sc \<Longrightarrow> finite (scan_delta base scan sc)"
  by (metis List.finite_set)

text \<open>Rows that record a chunk, counted by chunk.\<close>

lemma new_chunk_rows:
  assumes "set es = scan_delta base scan sc" "distinct (map entry_coord es)"
  shows "length (filter (\<lambda>e. entry_blob e \<noteq> None) es) = card {c. \<exists>h. scan c = Some h \<and> present_at base c \<noteq> Some h}"
proof -
  let ?sel = "filter (\<lambda>e. entry_blob e \<noteq> None) es"
  have "length ?sel = card (entry_coord ` set ?sel)"
    using assms(2) distinct_card [of "map entry_coord ?sel"] by (simp add: distinct_map_filter)
  also have "entry_coord ` set ?sel = {c. \<exists>h. scan c = Some h \<and> present_at base c \<noteq> Some h}"
  proof (rule set_eqI)
    fix c
    have "c \<in> entry_coord ` set ?sel \<longleftrightarrow> (\<exists>e. e \<in> scan_delta base scan sc \<and> entry_coord e = c \<and> entry_blob e \<noteq> None)"
      using assms(1) by (auto simp: image_iff Bex_def)
    also have "\<dots> \<longleftrightarrow> c \<in> {c. \<exists>h. scan c = Some h \<and> present_at base c \<noteq> Some h}"
    proof
      assume "c \<in> {c. \<exists>h. scan c = Some h \<and> present_at base c \<noteq> Some h}"
      then obtain h where "CommitEntry c (Some h) \<in> scan_delta base scan sc" by (auto simp: scan_delta_def)
      then show "\<exists>e. e \<in> scan_delta base scan sc \<and> entry_coord e = c \<and> entry_blob e \<noteq> None" by force
    qed (auto simp: scan_delta_def)
    finally show "c \<in> entry_coord ` set ?sel \<longleftrightarrow> c \<in> {c. \<exists>h. scan c = Some h \<and> present_at base c \<noteq> Some h}" .
  qed
  finally show ?thesis .
qed

lemma plan_removed_distinct: "plan_commit port m discovered sc = Inr (prev, plan) \<Longrightarrow> distinct (cp_removed plan)"
  by (auto simp: plan_commit_def bindE_eq_Inr Let_def)

subsection \<open>Preparing\<close>

context world_tree begin

definition scan_ready :: "('d, 'x) chunk_env \<Rightarrow> 'w \<Rightarrow> scope \<Rightarrow> bool" where
  "scan_ready env w sc \<longleftrightarrow> hashable env (files w) sc
     \<and> (\<forall>k bs. scope_matches_region sc k \<longrightarrow> files w k = Some bs \<longrightarrow> clean_file k bs)"

lemma scan_rows_map:
  assumes "scan_rows env w sc rows"
  shows "map_of (map (\<lambda>(c, h, p). (c, h)) rows) = world_scan env (files w) sc"
proof
  fix c
  let ?kvs = "map (\<lambda>(c, h, p). (c, h)) rows"
  have d: "distinct (map fst ?kvs)" using assms by (simp add: scan_rows_def comp_def case_prod_unfold)
  show "map_of ?kvs c = world_scan env (files w) sc c"
  proof (cases "world_scan env (files w) sc c")
    case (Some h)
    then obtain p where "(c, h, p) \<in> set rows" using assms world_scan_row by (metis scan_rows_def)
    then have "(c, h) \<in> set ?kvs" by force
    then show ?thesis using Some d by simp
  next
    case None
    have "c \<notin> fst ` set ?kvs"
    proof
      assume "c \<in> fst ` set ?kvs"
      then obtain h p where "(c, h, p) \<in> set rows" by auto
      then have "world_scan env (files w) sc c = Some h" using assms world_scan_row by (metis scan_rows_def)
      then show False using None by simp
    qed
    then show ?thesis using None by (simp add: map_of_eq_None_iff)
  qed
qed

text \<open>A scan of the world with its keys, and how many of them a blob store lacks.\<close>

lemma scan_rows_keys:
  assumes "scan_rows env w sc rows"
  shows "fst ` set_mset (mset (map snd rows)) = {h. \<exists>c. world_scan env (files w) sc c = Some h}"
    "(h, p) \<in># mset (map snd rows) \<longleftrightarrow> (\<exists>c. scan_of env (files w) sc (c, h, p))"
    "size (filter_mset (\<lambda>e. P (fst e)) (mset (map snd rows))) = card {c. \<exists>h. world_scan env (files w) sc c = Some h \<and> P h}"
proof -
  have mem: "(c, h, p) \<in> set rows \<longleftrightarrow> scan_of env (files w) sc (c, h, p)" for c h p
    using assms by (simp add: scan_rows_def)
  show "(h, p) \<in># mset (map snd rows) \<longleftrightarrow> (\<exists>c. scan_of env (files w) sc (c, h, p))" for h p
    using mem by (force simp: image_iff)
  have key: "(\<exists>c p. (c, h, p) \<in> set rows) \<longleftrightarrow> (\<exists>c. world_scan env (files w) sc c = Some h)" for h
    by (simp add: world_scan_row mem)
  have "h \<in> fst ` set (map snd rows) \<longleftrightarrow> (\<exists>c p. (c, h, p) \<in> set rows)" for h
    by (force simp: image_iff)
  then show "fst ` set_mset (mset (map snd rows)) = {h. \<exists>c. world_scan env (files w) sc c = Some h}"
    using key by auto
  let ?sel = "filter (\<lambda>row. P (fst (snd row))) rows"
  have "size (filter_mset (\<lambda>e. P (fst e)) (mset (map snd rows))) = length ?sel"
    by (induction rows) simp_all
  also have "\<dots> = card (fst ` set ?sel)"
    using assms distinct_card [of "map fst ?sel"] distinct_map_filter [of fst rows "\<lambda>row. P (fst (snd row))"]
    by (simp add: scan_rows_def)
  also have "fst ` set ?sel = {c. \<exists>h. world_scan env (files w) sc c = Some h \<and> P h}"
    using mem by (force simp: world_scan_row image_iff)
  finally show "size (filter_mset (\<lambda>e. P (fst e)) (mset (map snd rows)))
      = card {c. \<exists>h. world_scan env (files w) sc c = Some h \<and> P h}" .
qed

end

locale workspace = checkout_stores wport wvalid dims files names bport bvalid blobs mport mvalid commits state fresh
    + meta: recording_store mport mvalid commits state fresh head new_id
  for wport :: "('w, 'r) world_port" and wvalid dims files names
    and bport :: "('b, storage_error) blob_port" and bvalid blobs
    and mport :: "('m, storage_error) meta_port" and mvalid commits state fresh head new_id
begin

text \<open>Enough turns for the workers of a scope, whatever the groups.\<close>

definition enough_turns :: "'w \<Rightarrow> nat \<Rightarrow> nat option \<Rightarrow> scope \<Rightarrow> nat list \<Rightarrow> bool" where
  "enough_turns w concurrency cpus sc schedule \<longleftrightarrow>
     (let n = card {k. scope_matches_region sc k \<and> files w k \<noteq> None} in
      \<forall>i < worker_count concurrency cpus n.
        1 + 2 * n + card {c. scope_contains sc c \<and> world_chunk (files w) c \<noteq> None} \<le> count_list schedule i)"

lemma prepare_eq:
  assumes w: "wvalid w" and m: "mvalid m" and ready: "scan_ready env w sc"
  shows "\<exists>discovered previous plan changed. plan_commit mport m discovered sc = Inr (previous, plan)
    \<and> (\<forall>k. k \<in> set discovered \<longleftrightarrow> files w k \<noteq> None) \<and> ingests w sc changed
    \<and> (\<forall>b schedule dry_run. prepare env wport bport mport \<lparr>store_meta = m, store_blob = b\<rparr> w concurrency cpus schedule sc dry_run
        = (case ingest_changed env wport w bport sc dry_run concurrency cpus schedule changed b of
             (answer, cas) \<Rightarrow> (map_option (\<lambda>r. bindE r (\<lambda>walk.
                Inr \<lparr>pr_previous = previous, pr_staged = assemble plan previous (rw_ingested walk) sc,
                     pr_progress = rw_progress walk\<rparr>)) answer, cas)))"
proof -
  obtain regions where disc: "discover_regions wport w = Inr regions" "observed w regions" using discovers [OF w] by blast
  obtain previous plan where plan: "plan_commit mport m (map fst regions) sc = Inr (previous, plan)"
      "cp_ingest plan = filter (scope_matches_region sc) (map fst regions)"
    using meta.plan_commit_spec [OF m, of "map fst regions" sc] by blast
  obtain changed where changed: "size_planned wport w (remove_entries (cp_ingest plan) regions) = Inr changed" "ingests w sc changed"
    using files_to_ingest [OF w disc(2), of sc] ready plan(2) by (auto simp: scan_ready_def)
  show ?thesis
    by (rule exI [of _ "map fst regions"], rule exI [of _ previous], rule exI [of _ plan], rule exI [of _ changed])
      (use observed_keys [OF disc(2)] disc(1) plan(1) changed in \<open>simp add: prepare_def\<close>)
qed

text \<open>Whatever the schedule, what was prepared is the scan of the world over the plan.\<close>

definition prepared_for ::
  "('d, 'x) chunk_env \<Rightarrow> 'w \<Rightarrow> 'm \<Rightarrow> 'b \<Rightarrow> scope \<Rightarrow> bool \<Rightarrow> prepared \<Rightarrow> 'b \<Rightarrow> bool" where
  "prepared_for env w m b sc dry_run p cas \<longleftrightarrow>
     (\<exists>discovered plan ing rows. plan_commit mport m discovered sc = Inr (pr_previous p, plan)
        \<and> (\<forall>k. k \<in> set discovered \<longleftrightarrow> files w k \<noteq> None)
        \<and> pr_staged p = assemble plan (pr_previous p) ing sc \<and> scan_rows env w sc rows
        \<and> scanned ing (map (\<lambda>(c, h, p). (c, h)) rows)
        \<and> cas.cas_at dry_run b (mset (map snd rows)) (in_new_blobs ing) cas \<and> bvalid cas)"

lemma prepare_spec:
  assumes w: "wvalid w" and m: "mvalid m" and b: "bvalid b" and ready: "scan_ready env w sc"
    and run: "prepare env wport bport mport \<lparr>store_meta = m, store_blob = b\<rparr> w concurrency cpus schedule sc dry_run = (Some r, cas)"
  shows "\<exists>p. r = Inr p \<and> prepared_for env w m b sc dry_run p cas
    \<and> length (pr_progress p) = card {k. scope_matches_region sc k \<and> files w k \<noteq> None}"
proof -
  obtain discovered previous plan changed where e: "plan_commit mport m discovered sc = Inr (previous, plan)"
      "\<forall>k. k \<in> set discovered \<longleftrightarrow> files w k \<noteq> None" "ingests w sc changed"
      "prepare env wport bport mport \<lparr>store_meta = m, store_blob = b\<rparr> w concurrency cpus schedule sc dry_run
        = (case ingest_changed env wport w bport sc dry_run concurrency cpus schedule changed b of
             (answer, cas) \<Rightarrow> (map_option (\<lambda>r. bindE r (\<lambda>walk.
                Inr \<lparr>pr_previous = previous, pr_staged = assemble plan previous (rw_ingested walk) sc,
                     pr_progress = rw_progress walk\<rparr>)) answer, cas))"
    using prepare_eq [OF w m ready, where concurrency = concurrency and cpus = cpus] by (elim exE conjE) blast
  obtain answer cas' where ig: "ingest_changed env wport w bport sc dry_run concurrency cpus schedule changed b = (answer, cas')"
    by fastforce
  then obtain r' where r': "answer = Some r'" "cas' = cas"
      "r = bindE r' (\<lambda>walk. Inr \<lparr>pr_previous = previous, pr_staged = assemble plan previous (rw_ingested walk) sc,
                     pr_progress = rw_progress walk\<rparr>)"
    using run e(4) by auto
  have hash: "hashable env (files w) sc" using ready by (simp add: scan_ready_def)
  have ig': "ingest_changed env wport w bport sc dry_run concurrency cpus schedule changed b = (Some r', cas)"
    using ig r' by simp
  obtain walk rows where walk: "r' = Inr walk" "scan_rows env w sc rows"
      "scanned (rw_ingested walk) (map (\<lambda>(c, h, p). (c, h)) rows)"
      "cas.cas_at dry_run b (mset (map snd rows)) (in_new_blobs (rw_ingested walk)) cas" "bvalid cas"
      "length (rw_progress walk) = length changed"
    using ingest_scans [OF w b e(3) hash ig'] by blast
  have "length changed = card {k. scope_matches_region sc k \<and> files w k \<noteq> None}"
    using e(3) distinct_card [of "map pf_key changed"] by (simp add: ingests_def)
  moreover let ?p = "\<lparr>pr_previous = previous, pr_staged = assemble plan previous (rw_ingested walk) sc, pr_progress = rw_progress walk\<rparr>"
  have "prepared_for env w m b sc dry_run ?p cas"
    unfolding prepared_for_def
    by (rule exI [of _ discovered], rule exI [of _ plan], rule exI [of _ "rw_ingested walk"], rule exI [of _ rows])
      (use walk e(1,2) in simp)
  moreover have "r = Inr ?p" using r'(3) walk(1) by simp
  ultimately show ?thesis using walk(6) by (intro exI [of _ ?p]) simp
qed

lemma prepare_answers:
  assumes w: "wvalid w" and m: "mvalid m" and b: "bvalid b" and ready: "scan_ready env w sc"
    and turns: "enough_turns w concurrency cpus sc schedule"
  shows "fst (prepare env wport bport mport \<lparr>store_meta = m, store_blob = b\<rparr> w concurrency cpus schedule sc dry_run) \<noteq> None"
proof -
  obtain discovered previous plan changed where e: "ingests w sc changed"
      "prepare env wport bport mport \<lparr>store_meta = m, store_blob = b\<rparr> w concurrency cpus schedule sc dry_run
        = (case ingest_changed env wport w bport sc dry_run concurrency cpus schedule changed b of
             (answer, cas) \<Rightarrow> (map_option (\<lambda>r. bindE r (\<lambda>walk.
                Inr \<lparr>pr_previous = previous, pr_staged = assemble plan previous (rw_ingested walk) sc,
                     pr_progress = rw_progress walk\<rparr>)) answer, cas))"
    using prepare_eq [OF w m ready, where concurrency = concurrency and cpus = cpus] by (elim exE conjE) blast
  have n: "length changed = card {k. scope_matches_region sc k \<and> files w k \<noteq> None}"
    using e(1) distinct_card [of "map pf_key changed"] by (simp add: ingests_def)
  have hash: "hashable env (files w) sc" using ready by (simp add: scan_ready_def)
  have "\<exists>r. fst (ingest_changed env wport w bport sc dry_run concurrency cpus schedule changed b) = Some r"
    by (rule ingest_answers [OF w b e(1) hash]) (use turns in \<open>simp add: enough_turns_def Let_def n\<close>)
  then show ?thesis using e(2) by (auto split: prod.splits)
qed

end

subsection \<open>Commit and status\<close>

definition parent_list :: "commit_id option \<Rightarrow> commit_id list" where
  "parent_list h = (case h of None \<Rightarrow> [] | Some b \<Rightarrow> [b])"

lemma present_at_result:
  assumes "\<And>c h. scan c = Some h \<Longrightarrow> scope_contains sc c"
  shows "present_at (commit_result base scan sc) c = (if scope_contains sc c then scan c else present_at base c)"
  using assms [of c] by (cases "scan c") (auto simp: commit_result_def present_at_def split: option.splits)

context workspace begin

lemma prepared_rows:
  assumes m: "mvalid m" and p: "prepared_for env w m b sc dry_run p cas"
  defines "scan \<equiv> world_scan env (files w) sc" and "base \<equiv> meta.base_state m"
  shows "set (as_entries (pr_staged p)) = scan_delta base scan sc" "distinct (map entry_coord (as_entries (pr_staged p)))"
    "as_tombstones (pr_staged p) = card {c. scope_contains sc c \<and> scan c = None \<and> present_at base c \<noteq> None}"
    "as_entries (pr_staged p) = [] \<Longrightarrow> as_new_files (pr_staged p) = 0"
    "distinct (as_removed (pr_staged p))"
    "set (as_removed (pr_staged p)) = {k. scope_matches_region sc k \<and> files w k = None
       \<and> (\<exists>c. region_key_of c = k \<and> present_at base c \<noteq> None)}"
    "map_option c_id (pv_commit (pr_previous p)) = Option.bind (head m) id"
    "as_new_blobs (pr_staged p) = (if dry_run then card {c. \<exists>h. scan c = Some h \<and> blobs b h = None}
       else card {h. blobs b h = None \<and> (\<exists>c. scan c = Some h)})"
    "bvalid cas" "dry_run \<Longrightarrow> cas = b"
    "\<not> dry_run \<Longrightarrow> blobs cas h \<noteq> None \<longleftrightarrow> blobs b h \<noteq> None \<or> (\<exists>c. scan c = Some h)"
    "\<not> dry_run \<Longrightarrow> blobs b h = Some q \<Longrightarrow> blobs cas h = Some q"
    "\<not> dry_run \<Longrightarrow> blobs cas h = Some q \<Longrightarrow> blobs b h = Some q \<or> (\<exists>c. scan_of env (files w) sc (c, h, q))"
proof -
  obtain discovered plan ing rows where plan: "plan_commit mport m discovered sc = Inr (pr_previous p, plan)"
      "\<forall>k. k \<in> set discovered \<longleftrightarrow> files w k \<noteq> None" "pr_staged p = assemble plan (pr_previous p) ing sc"
      and rows: "scan_rows env w sc rows" "scanned ing (map (\<lambda>(c, h, p). (c, h)) rows)"
      and cas: "cas.cas_at dry_run b (mset (map snd rows)) (in_new_blobs ing) cas" "bvalid cas"
    using p unfolding prepared_for_def by (elim exE conjE) blast
  obtain prev' plan' where spec: "plan_commit mport m discovered sc = Inr (prev', plan')" "om_ok (pv_state prev')"
      "\<forall>c. map_option he_blob (om_get c (pv_state prev')) = map_option Some (present_at (meta.base_state m) c)"
      "map_option c_id (pv_commit prev') = Option.bind (head m) id"
      "set (cp_removed plan') = {k. scope_matches_region sc k \<and> k \<notin> set discovered
         \<and> (\<exists>c. region_key_of c = k \<and> present_at (meta.base_state m) c \<noteq> None)}"
    using meta.plan_commit_spec [OF m, of discovered sc] by blast
  then have same: "prev' = pr_previous p" "plan' = plan" using plan(1) by simp_all
  note kvs = scan_rows_map [OF rows(1)]
  note r = assemble_rows [OF spec(2) spec(3) [rule_format] rows(2), unfolded same kvs, where plan = plan and sc = sc, folded plan(3)]
  note keys = scan_rows_keys [OF rows(1)]
  show "set (as_entries (pr_staged p)) = scan_delta base scan sc" "distinct (map entry_coord (as_entries (pr_staged p)))"
    "as_tombstones (pr_staged p) = card {c. scope_contains sc c \<and> scan c = None \<and> present_at base c \<noteq> None}"
    "as_entries (pr_staged p) = [] \<Longrightarrow> as_new_files (pr_staged p) = 0"
    unfolding scan_def base_def using r by blast+
  show "distinct (as_removed (pr_staged p))" using r(5) plan_removed_distinct [OF plan(1)] by simp
  show "set (as_removed (pr_staged p)) = {k. scope_matches_region sc k \<and> files w k = None
       \<and> (\<exists>c. region_key_of c = k \<and> present_at base c \<noteq> None)}"
    unfolding r(5) base_def using spec(5) same plan(2) by auto
  show "map_option c_id (pv_commit (pr_previous p)) = Option.bind (head m) id" using spec(4) same by simp
  show "as_new_blobs (pr_staged p) = (if dry_run then card {c. \<exists>h. scan c = Some h \<and> blobs b h = None}
       else card {h. blobs b h = None \<and> (\<exists>c. scan c = Some h)})"
    using cas(1) r(6) keys(3) [of "\<lambda>h. blobs b h = None"] keys(1)
    by (simp add: cas.cas_at_def scan_def conj_commute)
  show "bvalid cas" "dry_run \<Longrightarrow> cas = b" using cas by (simp_all add: cas.cas_at_def)
  show "\<not> dry_run \<Longrightarrow> blobs cas h \<noteq> None \<longleftrightarrow> blobs b h \<noteq> None \<or> (\<exists>c. scan c = Some h)"
    using cas(1) keys(1) unfolding cas.cas_at_def scan_def by simp
  show "\<not> dry_run \<Longrightarrow> blobs b h = Some q \<Longrightarrow> blobs cas h = Some q"
    using cas(1) unfolding cas.cas_at_def by simp
  show "\<not> dry_run \<Longrightarrow> blobs cas h = Some q \<Longrightarrow> blobs b h = Some q \<or> (\<exists>c. scan_of env (files w) sc (c, h, q))"
    using cas(1) keys(2) unfolding cas.cas_at_def by simp
qed

end

context workspace begin

lemma app_now_small: "n < 2 ^ 63 \<Longrightarrow> app_now_ms (Some n) = Inr (of_nat n) \<and> uint (of_nat n :: u64) < 2 ^ 63"
  by (simp add: app_now_ms_def uint_nat unat_of_nat take_bit_eq_mod)

text \<open>Recording what was prepared.\<close>

lemma record_prepared:
  fixes n :: nat
  assumes m: "mvalid m" and h: "head m = Some h" and n: "n < 2 ^ 63" and p: "prepared_for env w m b sc dry_run p cas"
    and hash: "hashable env (files w) sc"
  defines "scan \<equiv> world_scan env (files w) sc" and "base \<equiv> meta.base_state m"
  assumes new: "\<And>es. set es = scan_delta base scan sc \<Longrightarrow> new_id (of_nat n) (parent_list h) es \<notin> set (ids_of (commits m))"
  shows "\<exists>rep m'. record_commit mport (pr_previous p) (pr_staged p) (of_nat n) m = Inr (rep, m') \<and> mvalid m'
    \<and> head m' = Some (Some (rep_commit rep))
    \<and> (\<exists>es. set es = scan_delta base scan sc \<and> rep_commit rep = new_id (of_nat n) (parent_list h) es)
    \<and> commits m' = commits m @ [commit_new (rep_commit rep) (of_nat n) (parent_list h)]
    \<and> state m' (rep_commit rep) = commit_result base scan sc
    \<and> (\<forall>i \<in> set (ids_of (commits m)). state m' i = state m i)
    \<and> rep_chunks rep = card {c. scope_contains sc c \<and> world_chunk (files w) c \<noteq> None}
    \<and> rep_new_blobs rep = as_new_blobs (pr_staged p) \<and> rep_tombstones rep = as_tombstones (pr_staged p)"
proof -
  note rows = prepared_rows [OF m p, folded scan_def base_def]
  obtain discovered plan ing rws where plan: "plan_commit mport m discovered sc = Inr (pr_previous p, plan)"
      "pr_staged p = assemble plan (pr_previous p) ing sc" "scan_rows env w sc rws"
      and scan: "scanned ing (map (\<lambda>(c, h, p). (c, h)) rws)" using p unfolding prepared_for_def by (elim exE conjE) blast
  have kvs: "map_of (map (\<lambda>(c, h, p). (c, h)) rws) = scan" using scan_rows_map [OF plan(3)] by (simp add: scan_def)
  have t: "uint (of_nat n :: u64) < 2 ^ 63" using app_now_small [OF n] by blast
  have fresh_id: "new_id (of_nat n) (case h of None \<Rightarrow> [] | Some b \<Rightarrow> [b])
      (as_entries (assemble plan (pr_previous p) ing sc)) \<notin> set (ids_of (commits m))"
    using new [OF rows(1)] by (simp add: parent_list_def plan(2))
  obtain rep m' where rec: "record_commit mport (pr_previous p) (pr_staged p) (of_nat n) m = Inr (rep, m')" "mvalid m'"
      "head m' = Some (Some (rep_commit rep))"
      "commits m' = commits m @ [commit_new (rep_commit rep) (of_nat n) (parent_list h)]"
      "state m' (rep_commit rep) = commit_result base scan sc"
      "\<forall>i \<in> set (ids_of (commits m)). state m' i = state m i" "rep_chunks rep = length rws"
    using meta.commit_records_scan [OF m h plan(1) scan t fresh_id] unfolding kvs by (auto simp: plan(2) parent_list_def base_def)
  have counts: "rep_new_blobs rep = as_new_blobs (pr_staged p)" "rep_tombstones rep = as_tombstones (pr_staged p)"
    using rec(1) by (auto simp: record_commit_def bindE_eq_Inr Let_def)
  have "map_option c_id (pv_commit (pr_previous p)) = h" using rows(7) h by simp
  then have "(case pv_commit (pr_previous p) of None \<Rightarrow> [] | Some c \<Rightarrow> [c_id c]) = parent_list h"
    by (auto simp: parent_list_def split: option.splits)
  then have "rep_commit rep = new_id (of_nat n) (parent_list h) (as_entries (pr_staged p))"
    using rec(1) meta.apply_ok [OF m] by (auto simp: record_commit_def bindE_eq_Inr Let_def)
  then have "\<exists>es. set es = scan_delta base scan sc \<and> rep_commit rep = new_id (of_nat n) (parent_list h) es"
    using rows(1) by blast
  then show ?thesis using rec counts scan_rows_count [OF plan(3) hash] by (intro exI [of _ rep] exI [of _ m']) simp
qed

text \<open>A commit that has answered recorded the scan of the world.\<close>

lemma commit_recorded:
  fixes n :: nat
  assumes w: "wvalid w" and m: "mvalid m" and b: "bvalid b" and ready: "scan_ready env w sc"
    and h: "head m = Some h" and n: "n < 2 ^ 63"
  defines "scan \<equiv> world_scan env (files w) sc" and "base \<equiv> meta.base_state m"
  assumes new: "\<And>es. set es = scan_delta base scan sc \<Longrightarrow> new_id (of_nat n) (parent_list h) es \<notin> set (ids_of (commits m))"
    and run: "commit_world env wport bport mport w concurrency cpus schedule sc (Some n) \<lparr>store_meta = m, store_blob = b\<rparr> = (Some r, st)"
  shows "\<exists>rep m' b'. r = Inr rep \<and> st = \<lparr>store_meta = m', store_blob = b'\<rparr> \<and> mvalid m' \<and> bvalid b'
    \<and> head m' = Some (Some (rep_commit rep))
    \<and> (\<exists>es. set es = scan_delta base scan sc \<and> rep_commit rep = new_id (of_nat n) (parent_list h) es)
    \<and> commits m' = commits m @ [commit_new (rep_commit rep) (of_nat n) (parent_list h)]
    \<and> state m' (rep_commit rep) = commit_result base scan sc
    \<and> (\<forall>i \<in> set (ids_of (commits m)). state m' i = state m i)
    \<and> rep_chunks rep = card {c. scope_contains sc c \<and> world_chunk (files w) c \<noteq> None}
    \<and> rep_new_blobs rep = card {h. blobs b h = None \<and> (\<exists>c. scan c = Some h)}
    \<and> rep_tombstones rep = card {c. scope_contains sc c \<and> scan c = None \<and> present_at base c \<noteq> None}
    \<and> (\<forall>h. blobs b' h \<noteq> None \<longleftrightarrow> blobs b h \<noteq> None \<or> (\<exists>c. scan c = Some h))
    \<and> (\<forall>h q. blobs b h = Some q \<longrightarrow> blobs b' h = Some q)
    \<and> (\<forall>h q. blobs b' h = Some q \<longrightarrow> blobs b h = Some q \<or> (\<exists>c. scan_of env (files w) sc (c, h, q)))"
proof -
  let ?st = "\<lparr>store_meta = m, store_blob = b\<rparr>"
  obtain a cas where prep: "prepare env wport bport mport ?st w concurrency cpus schedule sc False = (a, cas)" by fastforce
  then obtain r0 where r0: "a = Some r0" using run by (cases a) (simp_all add: commit_world_def)
  obtain p where p: "r0 = Inr p" "prepared_for env w m b sc False p cas"
    using prepare_spec [OF w m b ready, of concurrency cpus schedule False r0 cas] prep r0 by blast
  note rows = prepared_rows [OF m p(2), folded scan_def base_def]
  obtain b' where sync: "bp_sync bport cas = Inr b'" "bvalid b'" "blobs b' = blobs cas"
    using cas.sync [OF rows(9)] by blast
  have hash: "hashable env (files w) sc" using ready by (simp add: scan_ready_def)
  obtain rep m' where rec: "record_commit mport (pr_previous p) (pr_staged p) (of_nat n) m = Inr (rep, m')" "mvalid m'"
      "head m' = Some (Some (rep_commit rep))"
      "\<exists>es. set es = scan_delta base scan sc \<and> rep_commit rep = new_id (of_nat n) (parent_list h) es"
      "commits m' = commits m @ [commit_new (rep_commit rep) (of_nat n) (parent_list h)]"
      "state m' (rep_commit rep) = commit_result base scan sc"
      "\<forall>i \<in> set (ids_of (commits m)). state m' i = state m i"
      "rep_chunks rep = card {c. scope_contains sc c \<and> world_chunk (files w) c \<noteq> None}"
      "rep_new_blobs rep = as_new_blobs (pr_staged p)" "rep_tombstones rep = as_tombstones (pr_staged p)"
    using record_prepared [OF m h n p(2) hash new [unfolded scan_def base_def]] unfolding scan_def base_def by blast
  have "r = Inr rep" "st = \<lparr>store_meta = m', store_blob = b'\<rparr>"
    using run prep r0 p(1) app_now_small [OF n] sync(1) rec(1) by (simp_all add: commit_world_def)
  then show ?thesis
    using sync(2,3) rec(2-10) rows(3,8,11,12,13) by (intro exI [of _ rep] exI [of _ m'] exI [of _ b']) simp
qed

lemma commit_answers:
  assumes w: "wvalid w" and m: "mvalid m" and b: "bvalid b" and ready: "scan_ready env w sc"
    and turns: "enough_turns w concurrency cpus sc schedule"
  shows "fst (commit_world env wport bport mport w concurrency cpus schedule sc clock \<lparr>store_meta = m, store_blob = b\<rparr>) \<noteq> None"
    "status_world env wport bport mport w concurrency cpus schedule sc \<lparr>store_meta = m, store_blob = b\<rparr> \<noteq> None"
proof -
  let ?st = "\<lparr>store_meta = m, store_blob = b\<rparr>"
  obtain a cas where prep: "prepare env wport bport mport ?st w concurrency cpus schedule sc False = (a, cas)" by fastforce
  then obtain r0 where "a = Some r0" using prepare_answers [OF w m b ready turns, where dry_run = False] by auto
  then show "fst (commit_world env wport bport mport w concurrency cpus schedule sc clock ?st) \<noteq> None"
    using prep by (simp add: commit_world_def split: sum.split prod.split)
  show "status_world env wport bport mport w concurrency cpus schedule sc ?st \<noteq> None"
    using prepare_answers [OF w m b ready turns, where dry_run = True] by (simp add: status_world_def)
qed

text \<open>What a status counts.\<close>

lemma status_spec:
  assumes w: "wvalid w" and m: "mvalid m" and b: "bvalid b" and ready: "scan_ready env w sc"
    and run: "status_world env wport bport mport w concurrency cpus schedule sc \<lparr>store_meta = m, store_blob = b\<rparr> = Some r"
  defines "scan \<equiv> world_scan env (files w) sc" and "base \<equiv> meta.base_state m"
  shows "\<exists>rep. r = Inr rep \<and> sr_latest rep = Option.bind (head m) id
    \<and> (sr_clean rep \<longleftrightarrow> (\<forall>c. scope_contains sc c \<longrightarrow> scan c = present_at base c)
        \<and> \<not> (\<exists>c. scope_matches_region sc (region_key_of c) \<and> files w (region_key_of c) = None \<and> present_at base c \<noteq> None))
    \<and> sr_new_chunks rep = card {c. \<exists>h. scan c = Some h \<and> present_at base c \<noteq> Some h}
    \<and> sr_tombstones rep = card {c. scope_contains sc c \<and> scan c = None \<and> present_at base c \<noteq> None}
    \<and> sr_deleted_files rep = card {k. scope_matches_region sc k \<and> files w k = None
          \<and> (\<exists>c. region_key_of c = k \<and> present_at base c \<noteq> None)}
    \<and> sr_changed_regions rep = card ((region_key_of \<circ> entry_coord) ` scan_delta base scan sc)
    \<and> sr_new_blobs rep = card {c. \<exists>h. scan c = Some h \<and> blobs b h = None}"
proof -
  let ?st = "\<lparr>store_meta = m, store_blob = b\<rparr>"
  obtain a cas where prep: "prepare env wport bport mport ?st w concurrency cpus schedule sc True = (a, cas)" by fastforce
  then obtain r0 where r0: "a = Some r0" "r = bindE r0 (\<lambda>p. Inr (status_of (pr_previous p) (pr_staged p)))"
    using run by (auto simp: status_world_def)
  obtain p where p: "r0 = Inr p" "prepared_for env w m b sc True p cas"
    using prepare_spec [OF w m b ready, of concurrency cpus schedule True r0 cas] prep r0 by blast
  note rows = prepared_rows [OF m p(2), folded scan_def base_def]
  let ?s = "pr_staged p"
  have scope: "scope_contains sc c" if "scan c \<noteq> None" for c using that by (simp add: scan_def world_scan_def split: if_splits)
  have "as_entries ?s = [] \<longleftrightarrow> scan_delta base scan sc = {}" using rows(1) by (metis set_empty)
  also have "\<dots> \<longleftrightarrow> (\<forall>c. scope_contains sc c \<longrightarrow> scan c = present_at base c)"
  proof
    assume e: "scan_delta base scan sc = {}"
    show "\<forall>c. scope_contains sc c \<longrightarrow> scan c = present_at base c"
    proof (intro allI impI)
      fix c
      assume "scope_contains sc c"
      then show "scan c = present_at base c" using e by (cases "scan c") (auto simp: scan_delta_def)
    qed
  next
    assume e: "\<forall>c. scope_contains sc c \<longrightarrow> scan c = present_at base c"
    then show "scan_delta base scan sc = {}" using scope by (fastforce simp: scan_delta_def)
  qed
  finally have empty: "as_entries ?s = [] \<longleftrightarrow> (\<forall>c. scope_contains sc c \<longrightarrow> scan c = present_at base c)" .
  have "as_removed ?s = [] \<longleftrightarrow> set (as_removed ?s) = {}" by simp
  also have "\<dots> \<longleftrightarrow> \<not> (\<exists>c. scope_matches_region sc (region_key_of c) \<and> files w (region_key_of c) = None \<and> present_at base c \<noteq> None)"
    unfolding rows(6) by blast
  finally have removed: "as_removed ?s = [] \<longleftrightarrow>
      \<not> (\<exists>c. scope_matches_region sc (region_key_of c) \<and> files w (region_key_of c) = None \<and> present_at base c \<noteq> None)" .
  have deleted: "length (as_removed ?s) = card {k. scope_matches_region sc k \<and> files w k = None
      \<and> (\<exists>c. region_key_of c = k \<and> present_at base c \<noteq> None)}"
    using distinct_card [OF rows(5)] rows(6) by simp
  have "set (map (\<lambda>e. region_key_of (entry_coord e)) (as_entries ?s)) = (region_key_of \<circ> entry_coord) ` scan_delta base scan sc"
    using rows(1) by (simp add: image_image)
  then have "r = Inr (status_of (pr_previous p) ?s)
    \<and> sr_changed_regions (status_of (pr_previous p) ?s) = card ((region_key_of \<circ> entry_coord) ` scan_delta base scan sc)"
    using r0 p(1) by (simp add: status_of_def)
  then show ?thesis
    using empty removed deleted rows(3,4,7,8) new_chunk_rows [OF rows(1,2)]
    by (intro exI [of _ "status_of (pr_previous p) ?s"]) (auto simp: status_of_def)
qed

end

end
