(* ===== verification/App_Workspace.thy ===== *)
theory App_Workspace
  imports App_Committed
begin

section \<open>A workspace: commit, status and checkout\<close>

text \<open>
  What the operations promise one after the other, for any stores that keep their promises, and the
  interpretation on the host world tree over the SQLite stores.
\<close>

subsection \<open>Commit, status and checkout together\<close>

lemma world_chunk_storable: "world_chunk fs c = Some p \<Longrightarrow> storable p"
proof -
  assume "world_chunk fs c = Some p"
  then obtain bs where bs: "file_chunk (region_key_of c) bs (coord_x c) (coord_z c) = Some p"
    by (auto simp: world_chunk_def bind_eq_Some_conv)
  then obtain img where "key_image (region_key_of c) bs = Inr img" by (auto simp: file_chunk_def split: sum.splits)
  then show "storable p" using file_chunk_storable [OF key_image_loc bs] by blast
qed

context workspace begin

text \<open>
  After a commit a status over the same scope has nothing to record, yet it is clean only where the
  scope covers the whole of every region file that is gone.
\<close>

lemma status_after_commit:
  fixes n :: nat
  assumes w: "wvalid w" and m: "mvalid m" and b: "bvalid b" and ready: "scan_ready env w sc"
    and h: "head m = Some h" and n: "n < 2 ^ 63"
  defines "scan \<equiv> world_scan env (files w) sc" and "base \<equiv> meta.base_state m"
  assumes new: "\<And>es. set es = scan_delta base scan sc \<Longrightarrow> new_id (of_nat n) (parent_list h) es \<notin> set (ids_of (commits m))"
    and run: "commit_world env wport bport mport w concurrency cpus schedule sc (Some n) \<lparr>store_meta = m, store_blob = b\<rparr> = (Some (Inr rep), st)"
    and status: "status_world env wport bport mport w concurrency' cpus' schedule' sc st = Some r"
  shows "\<exists>s. r = Inr s \<and> sr_latest s = Some (rep_commit rep) \<and> sr_new_chunks s = 0 \<and> sr_tombstones s = 0 \<and> sr_new_blobs s = 0
    \<and> (sr_clean s \<longleftrightarrow> \<not> (\<exists>c. scope_matches_region sc (region_key_of c) \<and> \<not> scope_contains sc c
          \<and> files w (region_key_of c) = None \<and> present_at base c \<noteq> None))"
proof -
  obtain m' b' where c: "st = \<lparr>store_meta = m', store_blob = b'\<rparr>" "mvalid m'" "bvalid b'"
      "head m' = Some (Some (rep_commit rep))" "state m' (rep_commit rep) = commit_result base scan sc"
      "\<forall>h. blobs b' h \<noteq> None \<longleftrightarrow> blobs b h \<noteq> None \<or> (\<exists>c. scan c = Some h)"
    using commit_recorded [OF w m b ready h n new [unfolded scan_def base_def] run, folded scan_def base_def] by blast
  have base': "meta.base_state m' = commit_result base scan sc" using c(4,5) by (simp add: meta.base_state_def)
  have scope: "scope_contains sc c" if "scan c \<noteq> None" for c
    using that by (simp add: scan_def world_scan_def split: if_splits)
  have at: "present_at (commit_result base scan sc) c = (if scope_contains sc c then scan c else present_at base c)" for c
    using scope by (intro present_at_result) auto
  have on_disk: "\<exists>bs. files w (region_key_of c) = Some bs" if "scan c = Some h'" for c h'
    using that by (cases "files w (region_key_of c)") (simp_all add: scan_def world_scan_def world_chunk_def split: if_splits)
  obtain s where s: "r = Inr s" "sr_latest s = Option.bind (head m') id"
      "sr_clean s \<longleftrightarrow> (\<forall>c. scope_contains sc c \<longrightarrow> scan c = present_at (commit_result base scan sc) c)
        \<and> \<not> (\<exists>c. scope_matches_region sc (region_key_of c) \<and> files w (region_key_of c) = None
              \<and> present_at (commit_result base scan sc) c \<noteq> None)"
      "sr_new_chunks s = card {c. \<exists>h. scan c = Some h \<and> present_at (commit_result base scan sc) c \<noteq> Some h}"
      "sr_tombstones s = card {c. scope_contains sc c \<and> scan c = None \<and> present_at (commit_result base scan sc) c \<noteq> None}"
      "sr_new_blobs s = card {c. \<exists>h. scan c = Some h \<and> blobs b' h = None}"
    using status_spec [OF w c(2,3) ready status [unfolded c(1)], folded scan_def, unfolded base'] by blast
  have "{c. \<exists>h. scan c = Some h \<and> present_at (commit_result base scan sc) c \<noteq> Some h} = {}"
    "{c. scope_contains sc c \<and> scan c = None \<and> present_at (commit_result base scan sc) c \<noteq> None} = {}"
    "{c. \<exists>h. scan c = Some h \<and> blobs b' h = None} = {}"
    using scope c(6) by (auto simp: at)
  then have "sr_new_chunks s = 0" "sr_tombstones s = 0" "sr_new_blobs s = 0" using s(4-6) by (simp_all only: card.empty)
  moreover have "sr_clean s \<longleftrightarrow> \<not> (\<exists>c. scope_matches_region sc (region_key_of c) \<and> \<not> scope_contains sc c
          \<and> files w (region_key_of c) = None \<and> present_at base c \<noteq> None)"
    unfolding s(3) at by (auto dest: on_disk)
  ultimately show ?thesis using s(1,2) c(4) by simp
qed

text \<open>Committing a world and checking the commit out anywhere gives every chunk back under its key.\<close>

lemma checkout_of_commit:
  fixes n :: nat
  assumes w: "wvalid w" and m: "mvalid m" and b: "bvalid b" and ready: "scan_ready env w World"
    and h: "head m = Some h" and n: "n < 2 ^ 63"
  defines "scan \<equiv> world_scan env (files w) World"
  assumes new: "\<And>es. set es = scan_delta (meta.base_state m) scan World \<Longrightarrow> new_id (of_nat n) (parent_list h) es \<notin> set (ids_of (commits m))"
    and run: "commit_world env wport bport mport w concurrency cpus schedule World (Some n) \<lparr>store_meta = m, store_blob = b\<rparr> = (Some (Inr rep), st)"
    and w2: "wvalid w2" "\<And>c. world_chunk (files w) c \<noteq> None \<Longrightarrow> coord_dim c \<in> dims w2"
    and old: "\<And>h q. blobs b h = Some q \<Longrightarrow> storable q"
  shows "\<exists>crep out. checkout wport bport mport st (rep_commit rep) checkout_options_default World w2 = (Inr crep, out)
    \<and> wvalid (run_world out) \<and> dims (run_world out) = dims w2
    \<and> (\<forall>c. case world_chunk (files w) c of
          None \<Rightarrow> world_chunk (files (run_world out)) c = None
        | Some p \<Rightarrow> \<exists>h q. hash_chunk env (chunk_of c p) = Some (Inr h) \<and> world_chunk (files (run_world out)) c = Some q
            \<and> (blobs b h = Some q \<or> (\<exists>d. world_chunk (files w) d = Some q \<and> hash_chunk env (chunk_of d q) = Some (Inr h))))"
proof -
  obtain m' b' where c: "st = \<lparr>store_meta = m', store_blob = b'\<rparr>" "mvalid m'" "bvalid b'"
      "commits m' = commits m @ [commit_new (rep_commit rep) (of_nat n) (parent_list h)]"
      "state m' (rep_commit rep) = commit_result (meta.base_state m) scan World"
      "\<forall>h. blobs b' h \<noteq> None \<longleftrightarrow> blobs b h \<noteq> None \<or> (\<exists>c. scan c = Some h)"
      "\<forall>h q. blobs b' h = Some q \<longrightarrow> blobs b h = Some q \<or> (\<exists>c. scan_of env (files w) World (c, h, q))"
    using commit_recorded [OF w m b ready h n new [unfolded scan_def] run, folded scan_def] by blast
  have found: "find_record (commits m') (rep_commit rep) = Some (commit_new (rep_commit rep) (of_nat n) (parent_list h))"
    using find_record_Some [OF meta.distinct_commits [OF c(2)]] c(4) by (simp add: commit_new_def)
  have at: "present_at (state m' (rep_commit rep)) d = scan d" for d
    unfolding c(5) by (subst present_at_result) simp_all
  have row: "\<exists>p q. world_chunk (files w) d = Some p \<and> hash_chunk env (chunk_of d p) = Some (Inr g) \<and> blobs b' g = Some q
      \<and> (blobs b g = Some q \<or> (\<exists>e. world_chunk (files w) e = Some q \<and> hash_chunk env (chunk_of e q) = Some (Inr g)))"
    if s: "scan d = Some g" for d g
  proof -
    obtain p where p: "scan_of env (files w) World (d, g, p)" using s unfolding scan_def world_scan_row by blast
    obtain q where "blobs b' g = Some q" using c(6) s by blast
    then show ?thesis using c(7) p by (fastforce simp: scan_of_def)
  qed
  have "\<exists>crep out. checkout wport bport mport \<lparr>store_meta = m', store_blob = b'\<rparr> (rep_commit rep) checkout_options_default World w2
        = (Inr crep, out) \<and> wvalid (run_world out) \<and> dims (run_world out) = dims w2
    \<and> (\<forall>k. \<not> scope_matches_region World k \<longrightarrow> files (run_world out) k = files w2 k)
    \<and> (\<forall>c. scope_matches_region World (region_key_of c) \<longrightarrow> world_chunk (files (run_world out)) c
          = checked_out checkout_options_default (state m' (rep_commit rep)) (blobs b') (files w2) c)
    \<and> (\<forall>k bs. files (run_world out) k = Some bs \<longrightarrow> clean_file k bs \<or> files w2 k = Some bs)
    \<and> (\<forall>k. \<not> (\<exists>c. region_key_of c = k \<and> present_at (state m' (rep_commit rep)) c \<noteq> None)
          \<longrightarrow> files (run_world out) k = None \<or> files (run_world out) k = files w2 k)
    \<and> rpt_files_written crep = card {k. scope_matches_region World k
          \<and> (\<exists>c. region_key_of c = k \<and> present_at (state m' (rep_commit rep)) c \<noteq> None)}"
  proof (rule checkout_restores [OF c(2) w2(1) c(3) found])
    fix d g
    assume "present_at (state m' (rep_commit rep)) d = Some g"
    then obtain q where "blobs b' g = Some q" "storable q"
      using row [of d g] old world_chunk_storable unfolding at by blast
    then show "case blobs b' g of None \<Rightarrow> opt_missing_blob checkout_options_default = SkipChunk | Some p \<Rightarrow> storable p" by simp
  next
    fix d
    assume "present_at (state m' (rep_commit rep)) d \<noteq> None"
    then have "world_chunk (files w) d \<noteq> None" using row [of d] unfolding at by blast
    then show "opt_missing_file checkout_options_default \<noteq> FailOnMissing \<and> coord_dim d \<in> dims w2"
      using w2(2) by (simp add: checkout_options_default_def)
  qed (simp_all add: checkout_options_default_def)
  then obtain crep out where out: "checkout wport bport mport st (rep_commit rep) checkout_options_default World w2 = (Inr crep, out)"
      "wvalid (run_world out)" "dims (run_world out) = dims w2"
      "\<forall>c. world_chunk (files (run_world out)) c
          = checked_out checkout_options_default (state m' (rep_commit rep)) (blobs b') (files w2) c"
    unfolding c(1) by auto
  have same: "world_chunk (files (run_world out)) d = Option.bind (scan d) (blobs b')" for d
  proof -
    have "blobs b' g \<noteq> None" if "present_at (state m' (rep_commit rep)) e = Some g" for e g
      using row [of e g] that unfolding at by auto
    then show ?thesis using out(4) checked_out_default [where st = "state m' (rep_commit rep)" and stored = "blobs b'"] at by simp
  qed
  have "case world_chunk (files w) d of
          None \<Rightarrow> world_chunk (files (run_world out)) d = None
        | Some p \<Rightarrow> \<exists>h q. hash_chunk env (chunk_of d p) = Some (Inr h) \<and> world_chunk (files (run_world out)) d = Some q
            \<and> (blobs b h = Some q \<or> (\<exists>d. world_chunk (files w) d = Some q \<and> hash_chunk env (chunk_of d q) = Some (Inr h)))" for d
  proof (cases "scan d")
    case None
    then have "world_chunk (files w) d = None"
      using ready world_scan_None [of env "files w" World d] by (simp add: scan_def scan_ready_def)
    then show ?thesis using same None by simp
  next
    case (Some g)
    obtain p q where pq: "world_chunk (files w) d = Some p" "hash_chunk env (chunk_of d p) = Some (Inr g)" "blobs b' g = Some q"
        "blobs b g = Some q \<or> (\<exists>e. world_chunk (files w) e = Some q \<and> hash_chunk env (chunk_of e q) = Some (Inr g))"
      using row [OF Some] by blast
    have "world_chunk (files (run_world out)) d = Some q" using same Some pq(3) by simp
    then show ?thesis using pq(2,4) unfolding pq(1) option.case by blast
  qed
  then show ?thesis using out(1-3) by blast
qed

end

subsection \<open>Counting new blobs\<close>

context workspace begin

lemma prepared_finite: "prepared_for env w m b sc dry_run p cas \<Longrightarrow> finite {c. world_scan env (files w) sc c \<noteq> None}"
proof -
  assume "prepared_for env w m b sc dry_run p cas"
  then obtain rows where rows: "scan_rows env w sc rows" unfolding prepared_for_def by blast
  have "{c. world_scan env (files w) sc c \<noteq> None} \<subseteq> fst ` set rows"
  proof
    fix c
    assume "c \<in> {c. world_scan env (files w) sc c \<noteq> None}"
    then obtain h p where "scan_of env (files w) sc (c, h, p)" using world_scan_row by fastforce
    then show "c \<in> fst ` set rows" using rows by (force simp: scan_rows_def)
  qed
  then show ?thesis by (rule finite_subset) simp
qed

text \<open>A status counts the chunks whose key is absent, a commit the absent keys.\<close>

lemma new_blob_counts:
  fixes n :: nat
  assumes w: "wvalid w" and m: "mvalid m" and b: "bvalid b" and ready: "scan_ready env w sc"
    and h: "head m = Some h" and n: "n < 2 ^ 63"
  defines "scan \<equiv> world_scan env (files w) sc"
  assumes new: "\<And>es. set es = scan_delta (meta.base_state m) scan sc \<Longrightarrow> new_id (of_nat n) (parent_list h) es \<notin> set (ids_of (commits m))"
    and run: "commit_world env wport bport mport w concurrency cpus schedule sc (Some n) \<lparr>store_meta = m, store_blob = b\<rparr> = (Some (Inr rep), st)"
    and status: "status_world env wport bport mport w concurrency' cpus' schedule' sc \<lparr>store_meta = m, store_blob = b\<rparr> = Some (Inr s)"
  shows "rep_new_blobs rep \<le> sr_new_blobs s"
    "rep_new_blobs rep = sr_new_blobs s \<longleftrightarrow> (\<forall>c d h. scan c = Some h \<longrightarrow> scan d = Some h \<longrightarrow> blobs b h = None \<longrightarrow> c = d)"
proof -
  let ?C = "{c. \<exists>h. scan c = Some h \<and> blobs b h = None}" and ?H = "{h. blobs b h = None \<and> (\<exists>c. scan c = Some h)}"
  have rep: "rep_new_blobs rep = card ?H"
    using commit_recorded [OF w m b ready h n new [unfolded scan_def] run] by (auto simp: scan_def)
  have s: "sr_new_blobs s = card ?C" using status_spec [OF w m b ready status] by (auto simp: scan_def)
  obtain a cas where prep: "prepare env wport bport mport \<lparr>store_meta = m, store_blob = b\<rparr> w concurrency' cpus' schedule' sc True = (a, cas)"
    by fastforce
  then obtain r0 where "a = Some r0" using status by (cases a) (simp_all add: status_world_def)
  then obtain p where "prepared_for env w m b sc True p cas" using prepare_spec [OF w m b ready, of concurrency' cpus' schedule' True r0 cas] prep by blast
  then have "finite {c. scan c \<noteq> None}" unfolding scan_def by (rule prepared_finite)
  then have fin: "finite ?C" by (rule rev_finite_subset) auto
  have img: "?H = (\<lambda>c. the (scan c)) ` ?C" by force
  show "rep_new_blobs rep \<le> sr_new_blobs s" unfolding rep s img by (rule card_image_le [OF fin])
  have "rep_new_blobs rep = sr_new_blobs s \<longleftrightarrow> inj_on (\<lambda>c. the (scan c)) ?C"
    unfolding rep s img by (rule inj_on_iff_eq_card [OF fin, symmetric])
  also have "\<dots> \<longleftrightarrow> (\<forall>c d h. scan c = Some h \<longrightarrow> scan d = Some h \<longrightarrow> blobs b h = None \<longrightarrow> c = d)"
    by (fastforce simp: inj_on_def)
  finally show "rep_new_blobs rep = sr_new_blobs s \<longleftrightarrow> (\<forall>c d h. scan c = Some h \<longrightarrow> scan d = Some h \<longrightarrow> blobs b h = None \<longrightarrow> c = d)" .
qed

end

text \<open>The host world tree over the SQLite stores.\<close>

interpretation ws: workspace host_port host_valid host_dims host_files host_names sqlite_blob wf_blobs blobs_view
    "sqlite_port H" wf_db commits_view chunk_view fresh_view head_view "\<lambda>t ps es. commit_hash H ps t es" for H
  by unfold_locales

end
