(* ===== verification/App_Diff.thy ===== *)
theory App_Diff
  imports App_Workspace
begin

section \<open>Differences between commits and worlds\<close>

text \<open>
  \<open>crates/app/src/diff.rs\<close>. A side answers the key it holds for a chunk: a commit from its metadata,
  a world by reading the region file and hashing the payload as a commit would have. \<open>diff_coords\<close>
  asks both sides for every coordinate; the theorems say which keys a diff compares, and that a world
  has no difference to the commit it was just recorded in. \<open>None\<close> is a payload whose decompression
  never returns; timings and locks are left out.
\<close>

record chunk_diff =
  cd_coord :: chunk_coord
  cd_entries :: payload_diff

record diff_progress =
  dp_chunks_done :: usize
  dp_chunks_total :: usize

type_synonym side = "(app_error, chunk_hash option) result"

subsection \<open>The sides\<close>

definition digest_failure :: "chunk_coord \<Rightarrow> chunk_hash_error \<Rightarrow> app_error" where
  "digest_failure coord e =
     (let rx = region_x coord; rz = region_z coord in
      case e of
        Decompress source \<Rightarrow> AeAnvil source
      | Invalid source \<Rightarrow>
          if is_truncated e then AeTruncatedChunk coord rx rz source else AeUnhashableChunk coord rx rz e
      | _ \<Rightarrow> AeUnhashableChunk coord rx rz e)"

definition app_chunk_digest ::
  "('d, 'x) chunk_env \<Rightarrow> chunk_coord \<Rightarrow> bytes \<Rightarrow> (app_error, chunk_hash) result option" where
  "app_chunk_digest env coord payload =
     map_option (map_err (digest_failure coord))
       (hash_chunk env (chunk_new (coord_kind coord) (coord_x coord) (coord_z coord) payload))"

definition read_world_chunk ::
  "('d, 'x) chunk_env \<Rightarrow> ('w, 'r) world_port \<Rightarrow> 'w \<Rightarrow> (region_key, 'r) omap \<Rightarrow> chunk_coord \<Rightarrow> side option" where
  "read_world_chunk env wp w regions coord =
     (let key = region_key_of coord in
      case om_get key regions of
        None \<Rightarrow> Some (Inr None)
      | Some region \<Rightarrow>
          (case wp_read wp w region key of
             Inl e \<Rightarrow> Some (Inl (AeWorld e))
           | Inr img \<Rightarrow>
               (case wi_payload img (coord_x coord) (coord_z coord) of
                  Inl e \<Rightarrow> Some (Inl (AeWorld e))
                | Inr None \<Rightarrow> Some (Inr None)
                | Inr (Some payload) \<Rightarrow>
                    map_option (\<lambda>r. bindE r (\<lambda>h. Inr (Some h))) (app_chunk_digest env coord payload))))"

definition commit_chunk_hash ::
  "('m, storage_error) meta_port \<Rightarrow> 'm \<Rightarrow> commit_id \<Rightarrow> chunk_coord \<Rightarrow> side" where
  "commit_chunk_hash mp m i coord =
     bindE (map_err AeStorage (mp_lookup_chunk mp m i coord)) (\<lambda>entry.
       Inr (case entry of None \<Rightarrow> None | Some e \<Rightarrow> he_blob e))"

definition commit_side ::
  "('m, storage_error) meta_port \<Rightarrow> 'm \<Rightarrow> commit_id \<Rightarrow> chunk_coord \<Rightarrow> side option" where
  "commit_side mp m i coord = Some (commit_chunk_hash mp m i coord)"

text \<open>Both sides are asked before either failure is reported; the calls of the callback come along.\<close>

fun diff_coords_from ::
  "usize \<Rightarrow> usize \<Rightarrow> (chunk_coord \<Rightarrow> side option) \<Rightarrow> (chunk_coord \<Rightarrow> side option) \<Rightarrow> chunk_coord list
     \<Rightarrow> chunk_diff list \<Rightarrow> diff_progress list
     \<Rightarrow> (app_error, chunk_diff list) result option \<times> diff_progress list" where
  "diff_coords_from index len_all old new [] out prog = (Some (Inr out), prog)"
| "diff_coords_from index len_all old new (coord # coords) out prog =
     (case (old coord, new coord) of
        (Some old_side, Some new_side) \<Rightarrow>
          (case bindE old_side (\<lambda>o'. bindE new_side (\<lambda>n. Inr (from_sides o' n))) of
             Inl e \<Rightarrow> (Some (Inl e), prog)
           | Inr entries \<Rightarrow>
               diff_coords_from (Suc index) len_all old new coords
                 (out @ [\<lparr>cd_coord = coord, cd_entries = entries\<rparr>])
                 (prog @ [\<lparr>dp_chunks_done = Suc index, dp_chunks_total = len_all\<rparr>]))
      | _ \<Rightarrow> (None, prog))"

definition diff_coords ::
  "chunk_coord list \<Rightarrow> (chunk_coord \<Rightarrow> side option) \<Rightarrow> (chunk_coord \<Rightarrow> side option)
     \<Rightarrow> (app_error, chunk_diff list) result option \<times> diff_progress list" where
  "diff_coords coords old new = diff_coords_from 0 (length coords) old new coords [] []"

subsection \<open>The operations\<close>

definition app_diff_blobs ::
  "('d, 'x) chunk_env \<Rightarrow> ('b, storage_error) blob_port \<Rightarrow> 'b \<Rightarrow> chunk_hash \<Rightarrow> chunk_hash
     \<Rightarrow> (app_error, payload_diff) result option" where
  "app_diff_blobs env bp b old_hash new_hash =
     (case bp_fetch_into bp b old_hash [] of
        (_, Inl e) \<Rightarrow> Some (Inl (AeStorage e))
      | (old_payload, Inr _) \<Rightarrow>
          (case bp_fetch_into bp b new_hash [] of
             (_, Inl e) \<Rightarrow> Some (Inl (AeStorage e))
           | (new_payload, Inr _) \<Rightarrow>
               Option.bind (hash_chunk env (chunk_new Region (I32 0) (I32 0) old_payload)) (\<lambda>old.
                 case map_err AeChunkHash old of
                   Inl e \<Rightarrow> Some (Inl e)
                 | Inr old' \<Rightarrow>
                     map_option (\<lambda>new. bindE (map_err AeChunkHash new) (\<lambda>new'. Inr (from_sides (Some old') (Some new'))))
                       (hash_chunk env (chunk_new Region (I32 0) (I32 0) new_payload)))))"

definition diff_chunks ::
  "('m, storage_error) meta_port \<Rightarrow> 'm \<Rightarrow> commit_id \<Rightarrow> commit_id \<Rightarrow> chunk_coord list
     \<Rightarrow> (app_error, chunk_diff list) result option \<times> diff_progress list" where
  "diff_chunks mp m old_commit new_commit coords =
     diff_coords coords (commit_side mp m old_commit) (commit_side mp m new_commit)"

definition first_diff :: "chunk_diff list \<Rightarrow> payload_diff" where
  "first_diff diffs = (case diffs of [] \<Rightarrow> from_sides None None | diff # _ \<Rightarrow> cd_entries diff)"

definition diff_chunk ::
  "('m, storage_error) meta_port \<Rightarrow> 'm \<Rightarrow> commit_id \<Rightarrow> commit_id \<Rightarrow> chunk_coord
     \<Rightarrow> (app_error, payload_diff) result option" where
  "diff_chunk mp m old_commit new_commit coord =
     map_option (\<lambda>r. bindE r (\<lambda>diffs. Inr (first_diff diffs))) (fst (diff_chunks mp m old_commit new_commit [coord]))"

definition commit_chunk_coords ::
  "('m, storage_error) meta_port \<Rightarrow> 'm \<Rightarrow> commit_id \<Rightarrow> (app_error, chunk_coord list) result" where
  "commit_chunk_coords mp m i =
     map_err AeStorage (visit_each (\<lambda>coords e. coords @ [he_coord e]) (mp_visit_commit_chunks mp m i) [])"

definition visit_coords ::
  "('w, 'r) world_port \<Rightarrow> 'w \<Rightarrow> region_key \<times> 'r \<Rightarrow> chunk_coord list \<Rightarrow> (app_error, chunk_coord list) result" where
  "visit_coords wp w = (\<lambda>(key, region) coords.
     bindE (map_err AeWorld (wp_read wp w region key)) (\<lambda>img.
       map_err AeWorld (visit_each (\<lambda>cs ch. cs @ [ChunkCoord (key_dim key) (key_kind key) (ch_x ch) (ch_z ch)])
         (wi_chunks img) coords)))"

definition world_chunk_coords :: "('w, 'r) world_port \<Rightarrow> 'w \<Rightarrow> (app_error, chunk_coord list) result" where
  "world_chunk_coords wp w =
     bindE (discover_regions wp w) (\<lambda>regions.
     bindE (foldE (visit_coords wp w) regions []) (\<lambda>coords. Inr (sort_dedup coords)))"

text \<open>\<open>current_commit_id\<close>: the target of the active ref.\<close>

definition current_commit_id :: "('m, storage_error) meta_port \<Rightarrow> 'm \<Rightarrow> (app_error, commit_id option) result" where
  "current_commit_id mp m =
     bindE (map_err AeCommit (active_ref_uc mp m)) (\<lambda>active. Inr (Option.bind active cr_commit))"

definition diff_world_chunks ::
  "('d, 'x) chunk_env \<Rightarrow> ('w, 'r) world_port \<Rightarrow> ('m, storage_error) meta_port \<Rightarrow> 'w \<Rightarrow> 'm \<Rightarrow> commit_id option
     \<Rightarrow> chunk_coord list \<Rightarrow> (app_error, chunk_diff list) result option \<times> diff_progress list" where
  "diff_world_chunks env wp mp w m commit coords =
     (case bindE (case commit of
              Some i \<Rightarrow> Inr i
            | None \<Rightarrow> bindE (current_commit_id mp m) (ok_or AeNoCommits)) (\<lambda>i.
           bindE (discover_regions wp w) (\<lambda>regions. Inr (i, regions))) of
        Inl e \<Rightarrow> (Some (Inl e), [])
      | Inr (i, regions) \<Rightarrow> diff_coords coords (commit_side mp m i) (read_world_chunk env wp w regions))"

definition diff_world_chunk ::
  "('d, 'x) chunk_env \<Rightarrow> ('w, 'r) world_port \<Rightarrow> ('m, storage_error) meta_port \<Rightarrow> 'w \<Rightarrow> 'm \<Rightarrow> commit_id option
     \<Rightarrow> chunk_coord \<Rightarrow> (app_error, payload_diff) result option" where
  "diff_world_chunk env wp mp w m commit coord =
     map_option (\<lambda>r. bindE r (\<lambda>diffs. Inr (first_diff diffs))) (fst (diff_world_chunks env wp mp w m commit [coord]))"

subsection \<open>What a diff compares\<close>

definition diff_of :: "(chunk_coord \<Rightarrow> chunk_hash option) \<Rightarrow> (chunk_coord \<Rightarrow> chunk_hash option) \<Rightarrow> chunk_coord \<Rightarrow> chunk_diff" where
  "diff_of old new c = \<lparr>cd_coord = c, cd_entries = from_sides (old c) (new c)\<rparr>"

lemma diff_coords_ok:
  assumes "\<And>c. c \<in> set coords \<Longrightarrow> old c = Some (Inr (old_key c)) \<and> new c = Some (Inr (new_key c))"
  shows "fst (diff_coords coords old new) = Some (Inr (map (diff_of old_key new_key) coords))"
proof -
  have "fst (diff_coords_from i n old new cs out prog) = Some (Inr (out @ map (diff_of old_key new_key) cs))"
    if "set cs \<subseteq> set coords" for i n cs out prog
    using that assms by (induction cs arbitrary: i out prog) (simp_all add: diff_of_def)
  then show ?thesis by (simp add: diff_coords_def)
qed

context workspace begin

lemma commit_side_key: "mvalid m \<Longrightarrow> commit_side mport m i c = Some (Inr (present_at (state m i) c))"
proof -
  assume m: "mvalid m"
  obtain x where x: "mp_lookup_chunk mport m i c = Inr x" "map_option he_blob x = state m i c"
    using meta.lookup_chunk [OF m] by blast
  have "(case x of None \<Rightarrow> None | Some e \<Rightarrow> he_blob e) = present_at (state m i) c"
    using x(2) by (cases x) (auto simp: present_at_def split: option.splits)
  then show ?thesis using x(1) by (simp add: commit_side_def commit_chunk_hash_def)
qed

lemma diff_chunks_ok:
  assumes "mvalid m"
  shows "fst (diff_chunks mport m i j coords)
    = Some (Inr (map (diff_of (present_at (state m i)) (present_at (state m j))) coords))"
  unfolding diff_chunks_def by (rule diff_coords_ok) (simp add: commit_side_key [OF assms])

text \<open>A world answers the keys a commit of it would record.\<close>

lemma world_side_key:
  assumes w: "wvalid w" and obs: "observed w regions" and ready: "scan_ready env w World"
  shows "read_world_chunk env wport w regions c = Some (Inr (world_scan env (files w) World c))"
proof (cases "files w (region_key_of c)")
  case None
  then have "om_get (region_key_of c) regions = None" using obs by (simp add: observed_def)
  then show ?thesis using None by (simp add: read_world_chunk_def world_scan_def world_chunk_def)
next
  case (Some bs)
  let ?k = "region_key_of c"
  obtain r where r: "om_get ?k regions = Some r" "names w ?k r" using obs Some unfolding observed_def by (metis not_Some_eq option.distinct(1))
  have clean: "clean_file ?k bs" using ready Some by (simp add: scan_ready_def)
  then obtain img where img: "key_image ?k bs = Inr img" "clean_image img" by (auto simp: clean_file_def split: sum.splits)
  obtain p where read: "wp_read wport w r ?k = Inr (image_answers p img)" using read_ok [OF w r(2) Some img(1)] by blast
  have ok: "is_ok (chunk_payload img (coord_x c) (coord_z c))"
    using clean_walk [of bs "key_rx ?k" "key_rz ?k" "key_kind ?k" img] img by (auto simp: key_image_def)
  then obtain q where q: "chunk_payload img (coord_x c) (coord_z c) = Inr q" by (auto simp: is_ok_def split: sum.splits)
  then have chunk: "world_chunk (files w) c = q" using Some img(1) by (simp add: world_chunk_def file_chunk_def)
  show ?thesis
  proof (cases q)
    case None
    then show ?thesis using r(1) read q chunk
      by (simp add: read_world_chunk_def image_answers_def world_scan_def Let_def)
  next
    case (Some payload)
    have "scope_contains World c" by simp
    then obtain h where h: "hash_chunk env (chunk_of c payload) = Some (Inr h)"
      using ready chunk Some unfolding scan_ready_def hashable_def by blast
    then show ?thesis using r(1) read q chunk Some
      by (simp add: read_world_chunk_def image_answers_def world_scan_def Let_def app_chunk_digest_def chunk_of_def)
  qed
qed

lemma current_commit: "mvalid m \<Longrightarrow> current_commit_id mport m = Inr (Option.bind (head m) id)"
proof -
  assume m: "mvalid m"
  obtain x where x: "mp_active_ref mport m = Inr x" "map_option cr_commit x = head m" using meta.active_head [OF m] by blast
  then have "Option.bind x cr_commit = Option.bind (head m) id" by (cases x) (auto simp: x(2) [symmetric])
  then show ?thesis using x(1) by (simp add: current_commit_id_def active_ref_uc_def)
qed

lemma diff_world_ok:
  assumes w: "wvalid w" and m: "mvalid m" and ready: "scan_ready env w World"
    and i: "commit = Some i \<or> commit = None \<and> head m = Some (Some i)"
  shows "fst (diff_world_chunks env wport mport w m commit coords)
    = Some (Inr (map (diff_of (present_at (state m i)) (world_scan env (files w) World)) coords))"
proof -
  obtain regions where regions: "discover_regions wport w = Inr regions" "observed w regions" using discovers [OF w] by blast
  have "fst (diff_coords coords (commit_side mport m i) (read_world_chunk env wport w regions))
      = Some (Inr (map (diff_of (present_at (state m i)) (world_scan env (files w) World)) coords))"
    by (rule diff_coords_ok) (simp add: commit_side_key [OF m] world_side_key [OF w regions(2) ready])
  then show ?thesis using i regions(1) current_commit [OF m] by (auto simp: diff_world_chunks_def)
qed

text \<open>Without an active commit there is nothing to compare with.\<close>

lemma diff_world_unborn:
  assumes "mvalid m" "Option.bind (head m) id = None"
  shows "fst (diff_world_chunks env wport mport w m None coords) = Some (Inl AeNoCommits)"
  using assms current_commit [of m] by (simp add: diff_world_chunks_def)

text \<open>After a commit of the world no chunk differs from it.\<close>

lemma diff_after_commit:
  fixes n :: nat
  assumes w: "wvalid w" and m: "mvalid m" and b: "bvalid b" and ready: "scan_ready env w World"
    and h: "head m = Some h" and n: "n < 2 ^ 63"
    and new: "\<And>es. set es = scan_delta (meta.base_state m) (world_scan env (files w) World) World
      \<Longrightarrow> new_id (of_nat n) (parent_list h) es \<notin> set (ids_of (commits m))"
    and run: "commit_world env wport bport mport w concurrency cpus schedule World (Some n) \<lparr>store_meta = m, store_blob = b\<rparr> = (Some (Inr rep), st)"
  shows "\<exists>ds. fst (diff_world_chunks env wport mport w (store_meta st) None coords) = Some (Inr ds)
    \<and> map cd_coord ds = coords \<and> (\<forall>d \<in> set ds. diff_is_empty (cd_entries d))"
proof -
  let ?scan = "world_scan env (files w) World"
  obtain m' b' where c: "st = \<lparr>store_meta = m', store_blob = b'\<rparr>" "mvalid m'"
      "head m' = Some (Some (rep_commit rep))"
      "state m' (rep_commit rep) = commit_result (meta.base_state m) ?scan World"
    using commit_recorded [OF w m b ready h n new run] by blast
  have at: "present_at (state m' (rep_commit rep)) = ?scan"
    unfolding c(4) by (rule ext, subst present_at_result) simp_all
  have "fst (diff_world_chunks env wport mport w m' None coords) = Some (Inr (map (diff_of ?scan ?scan) coords))"
    using diff_world_ok [OF w c(2) ready, of None "rep_commit rep" coords] c(3) by (simp add: at)
  then show ?thesis unfolding c(1)
    by (intro exI [of _ "map (diff_of ?scan ?scan) coords"]) (simp add: diff_of_def comp_def from_sides_def diff_is_empty_def)
qed

end

end
