(* ===== verification/App_Store.thy ===== *)
theory App_Store
  imports App_Diff
begin

section \<open>Operations on the store of an instance\<close>

text \<open>
  \<open>crates/app/src/refs.rs\<close>, \<open>scopes.rs\<close>, \<open>gc.rs\<close>, \<open>prune.rs\<close> and the listings of \<open>instance.rs\<close>: the
  policies of this layer over the ports. A ref or scope that exists is only moved with \<open>force\<close>, and
  keeps its creation time; a delete of the active ref is refused with its name. Timings are left out.
\<close>

subsection \<open>Refs\<close>

definition set_ref_failure :: "storage_error \<Rightarrow> app_error" where
  "set_ref_failure e = (case e of StUnknownCommit i \<Rightarrow> AeCommitRef (ReUnknownCommit i) | _ \<Rightarrow> AeStorage e)"

definition create_ref ::
  "('m, storage_error) meta_port \<Rightarrow> nat option \<Rightarrow> ref_name \<Rightarrow> commit_id option \<Rightarrow> bool \<Rightarrow> 'm
     \<Rightarrow> (app_error, commit_ref \<times> 'm) result" where
  "create_ref mp clock name commit force m =
     bindE (case commit of
              None \<Rightarrow> Inr ()
            | Some i \<Rightarrow>
                bindE (map_err AeStorage (mp_lookup_commit mp m i)) (\<lambda>found.
                  if found = None then Inl (AeCommitRef (ReUnknownCommit i)) else Inr ())) (\<lambda>_.
     bindE (map_err AeStorage (mp_lookup_ref mp m name)) (\<lambda>existing.
     if existing \<noteq> None \<and> \<not> force then Inl (AeRefExists (ref_str name))
     else
       bindE (case existing of
                Some record_ref \<Rightarrow> Inr (cr_active record_ref, cr_created_at_ms record_ref)
              | None \<Rightarrow> bindE (app_now_ms clock) (\<lambda>t. Inr (False, t))) (\<lambda>(active, created_at_ms).
       bindE (map_err set_ref_failure (mp_set_ref mp name commit created_at_ms m)) (\<lambda>m'.
         Inr (commit_ref_new name commit active created_at_ms, m')))))"

definition app_delete_ref ::
  "('m, storage_error) meta_port \<Rightarrow> ref_name \<Rightarrow> 'm \<Rightarrow> (app_error, bool \<times> 'm) result" where
  "app_delete_ref mp name m =
     map_err (\<lambda>e. case e of ActiveRefProtected n \<Rightarrow> AeActiveRef n | _ \<Rightarrow> AeStorage e) (mp_delete_ref mp name m)"

definition app_list_refs :: "('m, storage_error) meta_port \<Rightarrow> 'm \<Rightarrow> (app_error, commit_ref list) result" where
  "app_list_refs mp m = map_err AeCommit (list_refs mp m)"

definition activate_failure :: "storage_error \<Rightarrow> app_error" where
  "activate_failure e =
     (case e of
        UnknownRef n \<Rightarrow> AeUnknownRef n
      | StUnknownCommit i \<Rightarrow> AeCommitRef (ReUnknownCommit i)
      | _ \<Rightarrow> AeStorage e)"

definition app_activate_ref ::
  "('m, storage_error) meta_port \<Rightarrow> ref_name \<Rightarrow> 'm \<Rightarrow> (app_error, commit_ref) result \<times> 'm" where
  "app_activate_ref mp name m =
     (case mp_activate_ref mp name m of
        Inl e \<Rightarrow> (Inl (activate_failure e), m)
      | Inr m' \<Rightarrow>
          (bindE (map_err AeStorage (mp_lookup_ref mp m' name)) (ok_or (AeUnknownRef (ref_str name))), m'))"

definition app_active_ref :: "('m, storage_error) meta_port \<Rightarrow> 'm \<Rightarrow> (app_error, commit_ref option) result" where
  "app_active_ref mp m = map_err AeCommit (active_ref_uc mp m)"

subsection \<open>Scopes\<close>

definition create_scope ::
  "('m, storage_error) meta_port \<Rightarrow> nat option \<Rightarrow> scope_name \<Rightarrow> (dimension \<times> rect) list \<Rightarrow> bool \<Rightarrow> 'm
     \<Rightarrow> (app_error, named_scope \<times> 'm) result" where
  "create_scope mp clock name areas force m =
     bindE (map_err AeInvalidScope (named_scope_new name areas 0)) (\<lambda>placeholder.
     bindE (map_err AeStorage (mp_lookup_scope mp m name)) (\<lambda>found.
     bindE (case found of
              Some existing \<Rightarrow> if force then Inr (ns_created_at_ms existing) else Inl (AeScopeExists (scope_str name))
            | None \<Rightarrow> app_now_ms clock) (\<lambda>created_at_ms.
       let named = placeholder\<lparr>ns_created_at_ms := created_at_ms\<rparr>
       in bindE (map_err AeStorage (mp_set_scope mp named m)) (\<lambda>m'. Inr (named, m')))))"

definition app_delete_scope ::
  "('m, storage_error) meta_port \<Rightarrow> scope_name \<Rightarrow> 'm \<Rightarrow> (app_error, bool \<times> 'm) result" where
  "app_delete_scope mp name m = map_err AeStorage (mp_delete_scope mp name m)"

definition app_list_scopes :: "('m, storage_error) meta_port \<Rightarrow> 'm \<Rightarrow> (app_error, named_scope list) result" where
  "app_list_scopes mp m = map_err AeStorage (list_scopes mp m)"

definition resolve_scope :: "('m, storage_error) meta_port \<Rightarrow> 'm \<Rightarrow> scope_name \<Rightarrow> (app_error, scope) result" where
  "resolve_scope mp m name =
     bindE (map_err AeStorage (mp_lookup_scope mp m name)) (\<lambda>found.
       ok_or (AeUnknownScope (scope_str name)) (map_option to_scope found))"

subsection \<open>Collecting and pruning\<close>

definition gc_plan_within ::
  "('b, storage_error) blob_port \<Rightarrow> ('m, storage_error) meta_port \<Rightarrow> ('m, 'b) store \<Rightarrow> (app_error, gc_plan_rec) result" where
  "gc_plan_within bp mp st = map_err AeGc (gc_plan bp mp (store_blob st) (store_meta st))"

definition gc_apply_within ::
  "('b, storage_error) blob_port \<Rightarrow> ('m, storage_error) meta_port \<Rightarrow> gc_plan_rec \<Rightarrow> ('m, 'b) store
     \<Rightarrow> (app_error, gc_report) result \<times> ('m, 'b) store \<times> (usize \<times> usize) list" where
  "gc_apply_within bp mp plan st =
     (case gc_apply bp mp plan (store_meta st) (store_blob st) of
        (cas, calls, answer) \<Rightarrow> (map_err AeGc answer, st\<lparr>store_blob := cas\<rparr>, calls))"

definition app_gc ::
  "('b, storage_error) blob_port \<Rightarrow> ('m, storage_error) meta_port \<Rightarrow> ('m, 'b) store
     \<Rightarrow> (app_error, gc_report) result \<times> ('m, 'b) store \<times> (usize \<times> usize) list" where
  "app_gc bp mp st =
     (case gc_plan_within bp mp st of
        Inl e \<Rightarrow> (Inl e, st, [])
      | Inr plan \<Rightarrow> gc_apply_within bp mp plan st)"

definition prune_plan_within ::
  "('m, storage_error) meta_port \<Rightarrow> 'm \<Rightarrow> u64 option \<Rightarrow> commit_id option \<Rightarrow> (app_error, prune_plan_rec) result" where
  "prune_plan_within mp m keep_last before =
     bindE (map_err AeCommit (list_commits mp m)) (\<lambda>commits.
       map_err AePrune (prune_plan mp m (select_retained commits keep_last before)))"

definition prune_apply_within ::
  "('m, storage_error) meta_port \<Rightarrow> prune_plan_rec \<Rightarrow> 'm
     \<Rightarrow> (app_error, prune_report) result \<times> 'm \<times> (nat \<times> nat) list" where
  "prune_apply_within mp plan m =
     (case prune_apply mp plan m of (answer, m', calls) \<Rightarrow> (map_err AePrune answer, m', calls))"

definition app_prune ::
  "('m, storage_error) meta_port \<Rightarrow> u64 option \<Rightarrow> commit_id option \<Rightarrow> 'm
     \<Rightarrow> (app_error, prune_report) result \<times> 'm \<times> (nat \<times> nat) list" where
  "app_prune mp keep_last before m =
     (case prune_plan_within mp m keep_last before of
        Inl e \<Rightarrow> (Inl e, m, [])
      | Inr plan \<Rightarrow> prune_apply_within mp plan m)"

subsection \<open>Listings\<close>

definition app_list_commits :: "('m, storage_error) meta_port \<Rightarrow> 'm \<Rightarrow> (app_error, commit list) result" where
  "app_list_commits mp m = map_err AeCommit (list_commits mp m)"

definition app_commit_parents :: "('m, storage_error) meta_port \<Rightarrow> 'm \<Rightarrow> commit_id \<Rightarrow> (app_error, commit_id list) result" where
  "app_commit_parents mp m i = map_err AeCommit (commit_parents_uc mp m i)"

definition app_commit_ancestors :: "('m, storage_error) meta_port \<Rightarrow> 'm \<Rightarrow> commit_id \<Rightarrow> (app_error, commit_id list) result" where
  "app_commit_ancestors mp m i = map_err AeCommit (commit_ancestors mp m i)"

definition app_commit_history :: "('m, storage_error) meta_port \<Rightarrow> 'm \<Rightarrow> commit_id \<Rightarrow> (app_error, commit list) result" where
  "app_commit_history mp m i = map_err AeCommit (commit_history mp m i)"

definition app_latest_commit_id :: "('m, storage_error) meta_port \<Rightarrow> 'm \<Rightarrow> (app_error, commit_id) result" where
  "app_latest_commit_id mp m = bindE (map_err AeCommit (latest_commit_id mp m)) (ok_or AeNoCommits)"

definition app_resolve_commit_ref :: "('m, storage_error) meta_port \<Rightarrow> 'm \<Rightarrow> rstr \<Rightarrow> (app_error, commit_id) result" where
  "app_resolve_commit_ref mp m s = map_err AeCommitRef (resolve_commit_ref mp m s)"

definition app_commit_stats :: "('m, storage_error) meta_port \<Rightarrow> 'm \<Rightarrow> commit_id \<Rightarrow> (app_error, commit_stats_rec) result" where
  "app_commit_stats mp m i = map_err AeCommit (commit_stats mp m i)"

subsection \<open>What they promise\<close>

text \<open>A ref store that also answers which commits it holds.\<close>

locale app_refs = ref_store port valid refs ok_ref
  for port :: "('m, storage_error) meta_port" and valid refs ok_ref +
  fixes known :: "'m \<Rightarrow> commit_id \<Rightarrow> bool"
  assumes known: "valid m \<Longrightarrow> \<exists>x. mp_lookup_commit port m i = Inr x \<and> (x \<noteq> None \<longleftrightarrow> known m i)"
begin

definition target_known :: "'m \<Rightarrow> commit_id option \<Rightarrow> bool" where
  "target_known m c \<longleftrightarrow> (\<forall>i. c = Some i \<longrightarrow> known m i)"

lemma target_check:
  assumes "valid m"
  shows "(case c of None \<Rightarrow> Inr () | Some i \<Rightarrow> bindE (map_err AeStorage (mp_lookup_commit port m i)) (\<lambda>found.
      if found = None then Inl (AeCommitRef (ReUnknownCommit i)) else Inr ()))
    = (if target_known m c then Inr () else Inl (AeCommitRef (ReUnknownCommit (the c))))"
proof (cases c)
  case (Some i)
  obtain x where "mp_lookup_commit port m i = Inr x" "x \<noteq> None \<longleftrightarrow> known m i" using known [OF assms] by blast
  then show ?thesis using Some by (cases x) (auto simp: target_known_def)
qed (simp add: target_known_def)

text \<open>A ref that was created or moved is the one the store holds; nothing else moved.\<close>

lemma create_ref_ok:
  assumes m: "valid m" and n: "ok_ref n" and run: "create_ref port clock n c force m = Inr (r, m')"
  shows "valid m' \<and> refs m' = (refs m)(n := Some r) \<and> target_known m c \<and> cr_name r = n \<and> cr_commit r = c
    \<and> (case refs m n of
         None \<Rightarrow> \<not> cr_active r \<and> clock = Some (unat (cr_created_at_ms r))
       | Some old \<Rightarrow> force \<and> r = old\<lparr>cr_commit := c\<rparr>)"
proof -
  have target: "target_known m c" using run by (auto simp: create_ref_def target_check [OF m] split: if_splits)
  show ?thesis
  proof (cases "refs m n")
    case None
    obtain t where t: "app_now_ms clock = Inr t" "mp_set_ref port n c t m = Inr m'" "r = commit_ref_new n c False t"
      using run None target lookup_ref [OF m]
      by (auto simp: create_ref_def target_check [OF m] bindE_eq_Inr map_err_eq_Inr)
    show ?thesis
      using set_ref [OF m n t(2)] None target app_now_ms_ok [OF t(1)] by (simp add: t(3) commit_ref_new_def)
  next
    case (Some old)
    have f: "force" "mp_set_ref port n c (cr_created_at_ms old) m = Inr m'"
        "r = commit_ref_new n c (cr_active old) (cr_created_at_ms old)"
      using run Some target lookup_ref [OF m]
      by (auto simp: create_ref_def target_check [OF m] bindE_eq_Inr map_err_eq_Inr split: if_splits)
    have "r = old\<lparr>cr_commit := c\<rparr>" using f(3) ref_named [OF m Some] by (simp add: commit_ref_new_def)
    then show ?thesis using set_ref [OF m n f(2)] Some f(1) target ref_named [OF m Some] by simp
  qed
qed

lemma create_ref_refused:
  assumes "valid m" "refs m n \<noteq> None"
  shows "create_ref port clock n c False m
    = Inl (if target_known m c then AeRefExists (ref_str n) else AeCommitRef (ReUnknownCommit (the c)))"
  using assms(2) lookup_ref [OF assms(1)] by (auto simp: create_ref_def target_check [OF assms(1)])

text \<open>Activation answers the ref it activated, and leaves it the only active one.\<close>

lemma app_activate_ref_ok:
  assumes m: "valid m" and r: "refs m n = Some r"
  shows "\<exists>m'. app_activate_ref port n m = (Inr (r\<lparr>cr_active := True\<rparr>), m') \<and> valid m'
    \<and> (\<forall>k. refs m' k = map_option (\<lambda>r. r\<lparr>cr_active := (k = n)\<rparr>) (refs m k))"
proof -
  obtain m' where m': "mp_activate_ref port n m = Inr m'" using activate_ref_total [OF m, of n] r by blast
  have v: "valid m'" "\<forall>k. refs m' k = map_option (\<lambda>r. r\<lparr>cr_active := (k = n)\<rparr>) (refs m k)"
    using activate_ref_ok [OF m m'] by blast+
  then have "refs m' n = Some (r\<lparr>cr_active := True\<rparr>)" using r by simp
  then have "mp_lookup_ref port m' n = Inr (Some (r\<lparr>cr_active := True\<rparr>))" using lookup_ref [OF v(1)] by simp
  then show ?thesis using v m' by (simp add: app_activate_ref_def ok_or_def)
qed

end

interpretation aref: app_refs "sqlite_port H" wf_db refs_view "\<lambda>n. valid_ref_name (ref_str n)"
    "\<lambda>db i. i \<in> set (ids_of (commits_view db))" for H
proof (unfold_locales, goal_cases)
  case (1 m i)
  then show ?case using sq.lookup_commit [of m H i] find_record_None [of "commits_view m" i] by auto
qed

text \<open>A scope that was created is the one stored, and selects the chunks of its rectangles.\<close>

lemma create_scope_ok:
  assumes db: "wf_db db" "valid_name (scope_str n)" and run: "create_scope (sqlite_port H) clock n areas force db = Inr (s, db')"
  shows "wf_db db' \<and> scopes_view db' = (scopes_view db)(n := Some s) \<and> normal_areas (ns_areas s)
    \<and> (case scopes_view db n of
         None \<Rightarrow> clock = Some (unat (ns_created_at_ms s))
       | Some old \<Rightarrow> force \<and> ns_created_at_ms s = ns_created_at_ms old)
    \<and> resolve_scope (sqlite_port H) db' n = Inr (to_scope s)"
proof -
  obtain s0 where s0: "named_scope_new n areas 0 = Inr s0"
      "(case scopes_view db n of
         Some existing \<Rightarrow> if force then Inr (ns_created_at_ms existing) else Inl (AeScopeExists (scope_str n))
       | None \<Rightarrow> app_now_ms clock) = Inr (ns_created_at_ms s)"
      "s = s0\<lparr>ns_created_at_ms := ns_created_at_ms s\<rparr>" "mp_set_scope (sqlite_port H) s db = Inr db'"
    using run sqs.lookup_scope [OF db(1)]
    by (auto simp: create_scope_def bindE_eq_Inr map_err_eq_Inr Let_def)
  have "areas \<noteq> []" using s0(1) by (auto simp: named_scope_new_def)
  then have normal: "normal_areas (ns_areas s0)" "ns_name s0 = n" using named_scope_new_ok [of areas n 0] s0(1) by auto
  have name: "ns_name s = n" "normal_areas (ns_areas s)" using normal by (subst s0(3), simp)+
  have ok: "storable_scope s" using name db(2) by (simp add: storable_scope_def)
  have time: "case scopes_view db n of
         None \<Rightarrow> clock = Some (unat (ns_created_at_ms s))
       | Some old \<Rightarrow> force \<and> ns_created_at_ms s = ns_created_at_ms old"
    using s0(2) app_now_ms_ok [of clock "ns_created_at_ms s"] by (auto split: option.splits if_splits)
  have "(case scopes_view db n of None \<Rightarrow> s | Some old \<Rightarrow> s\<lparr>ns_created_at_ms := ns_created_at_ms old\<rparr>) = s"
    using time by (auto split: option.splits)
  then have db': "wf_db db'" "scopes_view db' = (scopes_view db)(n := Some s)"
    using sqs.set_scope [OF db(1) ok s0(4)] name(1) by simp_all
  have "resolve_scope (sqlite_port H) db' n = Inr (to_scope s)"
    using sqs.lookup_scope [OF db'(1)] db'(2) by (simp add: resolve_scope_def ok_or_def)
  then show ?thesis using db' name(2) time by blast
qed

end
