(* ===== verification/App_Clone.thy ===== *)
theory App_Clone
  imports App_Store
begin

section \<open>Cloning a commit into an empty world\<close>

text \<open>
  \<open>crates/app/src/clone.rs\<close>. The images of the region files are built one after the other, and each is
  queued as a write of its own as soon as it is built: how many queued writes are through before the
  next file starts is up to the runtime, so it is an argument (\<open>drains\<close>). Every queued write runs to
  its end, even when a later file fails; the results are collected in plan order.
\<close>

record clone_report =
  clr_files_written :: usize
  clr_chunks_restored :: usize

record ('w, 'r) clone_run =
  cn_world :: 'w
  cn_pending :: "('r \<times> bytes) list"
  cn_steps :: "(world_error, unit) result list"
  cn_buf :: bytes
  cn_restored :: usize

subsection \<open>Building\<close>

definition clone_row ::
  "('b, storage_error) blob_port \<Rightarrow> 'b \<Rightarrow> missing_blob_policy \<Rightarrow> chunk_coord \<times> chunk_hash
     \<Rightarrow> bytes \<times> region_builder \<times> usize \<Rightarrow> (app_error, bytes \<times> region_builder \<times> usize) result" where
  "clone_row bp cas policy = (\<lambda>(coord, hash) (buf, writer, n).
     (case fetch_or_skip bp cas hash policy buf of
        (buf', fetched) \<Rightarrow>
          bindE fetched (\<lambda>found.
            if \<not> found then Inr (buf', writer, n)
            else bindE (map_err AeAnvil (stage_chunk (coord_x coord) (coord_z coord) buf' writer)) (\<lambda>writer'.
                   Inr (buf', writer', n + 1)))))"

definition clone_key ::
  "('w, 'r) world_port \<Rightarrow> ('b, storage_error) blob_port \<Rightarrow> 'b \<Rightarrow> missing_blob_policy \<Rightarrow> u32
     \<Rightarrow> region_key \<times> (chunk_coord \<times> chunk_hash) list \<Rightarrow> ('w, 'r) clone_run
     \<Rightarrow> (app_error, ('w, 'r) clone_run) result" where
  "clone_key wp bp cas policy ts = (\<lambda>(key, rows) run.
     bindE (map_err AeWorld (wp_derive_region wp (cn_world run) key)) (\<lambda>region.
     bindE (map_err AeAnvil (builder_new (key_rx key) (key_rz key) ts)) (\<lambda>writer.
     bindE (foldE (clone_row bp cas policy) rows (cn_buf run, writer, cn_restored run)) (\<lambda>(buf, writer', n).
     bindE (map_err AeAnvil (builder_image writer')) (\<lambda>bs.
       Inr (run\<lparr>cn_pending := cn_pending run @ [(region, bs)], cn_buf := buf, cn_restored := n\<rparr>))))))"

subsection \<open>Queued writes\<close>

definition run_step :: "('w, 'r) world_port \<Rightarrow> ('w, 'r) clone_run \<Rightarrow> ('w, 'r) clone_run" where
  "run_step wp run =
     (case cn_pending run of
        [] \<Rightarrow> run
      | (region, bs) # rest \<Rightarrow>
          (case wp_write wp region bs (cn_world run) of
             Inl e \<Rightarrow> run\<lparr>cn_pending := rest, cn_steps := cn_steps run @ [Inl e]\<rparr>
           | Inr w \<Rightarrow> run\<lparr>cn_world := w, cn_pending := rest, cn_steps := cn_steps run @ [Inr ()]\<rparr>))"

definition drain_steps :: "('w, 'r) world_port \<Rightarrow> nat \<Rightarrow> ('w, 'r) clone_run \<Rightarrow> ('w, 'r) clone_run" where
  "drain_steps wp n run = (run_step wp ^^ n) run"

fun clone_groups ::
  "('w, 'r) world_port \<Rightarrow> ('b, storage_error) blob_port \<Rightarrow> 'b \<Rightarrow> missing_blob_policy \<Rightarrow> u32 \<Rightarrow> (nat \<Rightarrow> nat)
     \<Rightarrow> (region_key \<times> (chunk_coord \<times> chunk_hash) list) list \<Rightarrow> ('w, 'r) clone_run
     \<Rightarrow> (app_error, unit) result \<times> ('w, 'r) clone_run" where
  "clone_groups wp bp cas policy ts drains [] run = (Inr (), run)"
| "clone_groups wp bp cas policy ts drains (g # gs) run =
     (let run1 = drain_steps wp (drains (length gs)) run in
      case clone_key wp bp cas policy ts g run1 of
        Inl e \<Rightarrow> (Inl e, run1)
      | Inr run2 \<Rightarrow> clone_groups wp bp cas policy ts drains gs run2)"

text \<open>Collecting the results in plan order: the report, and the calls of the callback.\<close>

fun collect_steps ::
  "usize \<Rightarrow> (world_error, unit) result list \<Rightarrow> clone_report \<Rightarrow> file_progress list
     \<Rightarrow> (app_error, clone_report) result \<times> file_progress list" where
  "collect_steps files_total [] rep prog = (Inr rep, prog)"
| "collect_steps files_total (Inl e # steps) rep prog = (Inl (AeWorld e), prog)"
| "collect_steps files_total (Inr u # steps) rep prog =
     (let rep' = rep\<lparr>clr_files_written := clr_files_written rep + 1\<rparr> in
      collect_steps files_total steps rep'
        (prog @ [\<lparr>pg_files_done = clr_files_written rep', pg_files_total = files_total,
                  pg_chunks_done = clr_chunks_restored rep\<rparr>]))"

definition clone_files ::
  "('w, 'r) world_port \<Rightarrow> ('b, storage_error) blob_port \<Rightarrow> 'b \<Rightarrow> missing_blob_policy \<Rightarrow> u32 \<Rightarrow> (nat \<Rightarrow> nat)
     \<Rightarrow> (region_key, (chunk_coord \<times> chunk_hash) list) omap \<Rightarrow> 'w
     \<Rightarrow> ((app_error, clone_report) result \<times> file_progress list) \<times> 'w" where
  "clone_files wp bp cas policy ts drains groups out =
     (case clone_groups wp bp cas policy ts drains groups
             \<lparr>cn_world = out, cn_pending = [], cn_steps = [], cn_buf = [], cn_restored = 0\<rparr> of
        (planned, run) \<Rightarrow>
          let run' = drain_steps wp (length (cn_pending run)) run in
          (case planned of
             Inl e \<Rightarrow> (Inl e, [])
           | Inr _ \<Rightarrow>
               collect_steps (length groups) (cn_steps run')
                 \<lparr>clr_files_written = 0, clr_chunks_restored = cn_restored run'\<rparr> [],
           cn_world run'))"

definition clone_to ::
  "('w, 'r) world_port \<Rightarrow> ('b, storage_error) blob_port \<Rightarrow> ('m, storage_error) meta_port \<Rightarrow> ('m, 'b) store
     \<Rightarrow> commit_id \<Rightarrow> missing_blob_policy \<Rightarrow> scope \<Rightarrow> (nat \<Rightarrow> nat) \<Rightarrow> 'w
     \<Rightarrow> ((app_error, clone_report) result \<times> file_progress list) \<times> 'w" where
  "clone_to wp bp mp st commit policy sc drains out =
     (case bindE (map_err AeWorld (wp_is_empty wp out)) (\<lambda>empty.
           if \<not> empty then Inl (AeIo DirectoryNotEmpty)
           else map_err AeCheckout (plan_checkout mp (store_meta st) commit)) of
        Inl e \<Rightarrow> ((Inl e, []), out)
      | Inr plan \<Rightarrow>
          clone_files wp bp (store_blob st) policy (stamp_of (co_created_at_ms plan)) drains
            (om_retain (scope_matches_region sc) (co_groups plan)) out)"

subsection \<open>What a clone builds\<close>

context cas_store begin

lemma clone_rows:
  assumes b: "bvalid b" and w: "wf_builder w" "region_loc_new (key_rx k) (key_rz k) = Inr (rb_loc w)"
    and rows: "rows_ready b policy k rows"
  shows "\<exists>buf' w'. foldE (clone_row bport b policy) rows (buf, w, n)
      = Inr (buf', w', n + length (filter (\<lambda>(c, h). blobs b h \<noteq> None) rows))
    \<and> wf_builder w' \<and> rb_loc w' = rb_loc w
    \<and> (\<forall>xz. staged_at w' xz = (case row_payload b rows xz of Some p \<Rightarrow> Some p | None \<Rightarrow> staged_at w xz))"
proof -
  have same: "clone_row bport b policy e (buf, w, n)
      = (case restore_row bport b policy e (buf, w, R, n) of Inl x \<Rightarrow> Inl x | Inr (buf', w', R', n') \<Rightarrow> Inr (buf', w', n'))" for e buf w R n
    by (simp add: clone_row_def restore_row_def bindE_def split: prod.split sum.split)
  have "foldE (clone_row bport b policy) rows (buf, w, n)
      = (case foldE (restore_row bport b policy) rows (buf, w, R, n) of Inl x \<Rightarrow> Inl x | Inr (buf', w', R', n') \<Rightarrow> Inr (buf', w', n'))" for R
  proof (induction rows arbitrary: buf w R n)
    case (Cons e rows)
    show ?case
    proof (cases "restore_row bport b policy e (buf, w, R, n)")
      case (Inr x)
      then show ?thesis using Cons.IH same [of e buf w n R] by (cases x) simp
    qed (use same [of e buf w n R] in simp)
  qed simp
  from this [of "{}"] show ?thesis using restore_rows [OF b w rows, of buf "{}" n] by (elim exE conjE) simp
qed

end

subsection \<open>The queue\<close>

text \<open>The first \<open>d\<close> of the queued writes are through; what is left writes handles that still name their files.\<close>

context rebuilding begin

definition clone_inv :: "'w \<Rightarrow> (region_key \<times> 'r \<times> bytes) list \<Rightarrow> nat \<Rightarrow> ('w, 'r) clone_run \<Rightarrow> bool" where
  "clone_inv w0 qs d run \<longleftrightarrow> d \<le> length qs \<and> distinct (map fst qs) \<and> wvalid (cn_world run) \<and> dims (cn_world run) = dims w0
     \<and> cn_pending run = map snd (drop d qs) \<and> cn_steps run = replicate d (Inr ())
     \<and> (\<forall>(k, r, bs) \<in> set (drop d qs). names (cn_world run) k r)
     \<and> files (cn_world run) = (\<lambda>k. case map_of (take d qs) k of Some (r, bs) \<Rightarrow> Some bs | None \<Rightarrow> files w0 k)"

lemma run_step_inv:
  assumes inv: "clone_inv w0 qs d run" and d: "d < length qs"
  shows "clone_inv w0 qs (Suc d) (run_step wport run)"
proof -
  obtain k r bs where q: "qs ! d = (k, r, bs)" by (cases "qs ! d")
  have drop_d: "drop d qs = (k, r, bs) # drop (Suc d) qs" using Cons_nth_drop_Suc [OF d] q by simp
  have take_d: "take (Suc d) qs = take d qs @ [(k, r, bs)]" using take_Suc_conv_app_nth [OF d] q by simp
  have i: "wvalid (cn_world run)" "names (cn_world run) k r" "distinct (map fst qs)" "dims (cn_world run) = dims w0"
      "cn_pending run = (r, bs) # map snd (drop (Suc d) qs)" "cn_steps run = replicate d (Inr ())"
      "files (cn_world run) = (\<lambda>k. case map_of (take d qs) k of Some (r, bs) \<Rightarrow> Some bs | None \<Rightarrow> files w0 k)"
      "\<forall>(j, s, cs) \<in> set (drop (Suc d) qs). names (cn_world run) j s"
    using inv by (simp_all add: clone_inv_def drop_d)
  obtain w' where w': "wp_write wport r bs (cn_world run) = Inr w'" "wvalid w'" "dims w' = dims (cn_world run)"
      "files w' = (files (cn_world run))(k \<mapsto> bs)" "\<forall>j s. names (cn_world run) j s \<longrightarrow> j \<noteq> k \<or> s = r \<longrightarrow> names w' j s"
    using write_ok [OF i(1,2)] by blast
  have dist: "distinct (map fst (take d qs @ (k, r, bs) # drop (Suc d) qs))"
    using i(3) append_take_drop_id [of d qs] drop_d by metis
  have "map_of (take d qs) k = None" using dist by (auto simp: map_of_eq_None_iff)
  then have fs: "files w' = (\<lambda>k. case map_of (take (Suc d) qs) k of Some (r, bs) \<Rightarrow> Some bs | None \<Rightarrow> files w0 k)"
    using w'(4) i(7) by (auto simp: take_d map_add_def fun_eq_iff split: option.split)
  have nm: "names w' j s" if "(j, s, cs) \<in> set (drop (Suc d) qs)" for j s cs
  proof -
    have "j \<noteq> k" using dist that by force
    then show ?thesis using w'(5) i(8) that by blast
  qed
  have step: "run_step wport run = run\<lparr>cn_world := w', cn_pending := map snd (drop (Suc d) qs), cn_steps := replicate (Suc d) (Inr ())\<rparr>"
    using w'(1) i(5,6) by (simp add: run_step_def replicate_append_same)
  show ?thesis
    unfolding clone_inv_def step using d i(3,4) w'(2,3) fs nm by auto
qed

lemma drain_inv:
  assumes "clone_inv w0 qs d run"
  shows "\<exists>d'. clone_inv w0 qs d' (drain_steps wport n run) \<and> (length qs - d \<le> n \<longrightarrow> d' = length qs)"
  using assms
proof (induction n arbitrary: d run)
  case 0
  then show ?case by (intro exI [of _ d]) (auto simp: drain_steps_def clone_inv_def)
next
  case (Suc n)
  have shift: "drain_steps wport (Suc n) run = drain_steps wport n (run_step wport run)"
    by (simp add: drain_steps_def funpow_swap1)
  show ?case
  proof (cases "d < length qs")
    case True
    show ?thesis using Suc.IH [OF run_step_inv [OF Suc.prems True]] unfolding shift by (elim exE conjE) (rule exI, auto)
  next
    case False
    then have "cn_pending run = []" using Suc.prems by (simp add: clone_inv_def)
    then have "run_step wport run = run" by (simp add: run_step_def)
    then show ?thesis using Suc.IH [OF Suc.prems] False unfolding shift by (elim exE conjE) (rule exI, auto)
  qed
qed

lemma drain_keeps: "cn_restored (drain_steps wport n run) = cn_restored run" "cn_buf (drain_steps wport n run) = cn_buf run"
proof -
  have "cn_restored (run_step wport r) = cn_restored r \<and> cn_buf (run_step wport r) = cn_buf r" for r
    by (simp add: run_step_def split: list.split prod.split sum.split)
  then have "cn_restored ((run_step wport ^^ n) run) = cn_restored run \<and> cn_buf ((run_step wport ^^ n) run) = cn_buf run"
    by (induction n) simp_all
  then show "cn_restored (drain_steps wport n run) = cn_restored run" "cn_buf (drain_steps wport n run) = cn_buf run"
    by (simp_all add: drain_steps_def)
qed

text \<open>What was built for a file: exactly the payloads of its rows.\<close>

definition built_for :: "'b \<Rightarrow> (chunk_coord \<times> chunk_hash) list \<Rightarrow> region_key \<Rightarrow> bytes \<Rightarrow> bool" where
  "built_for b rows k bs \<longleftrightarrow> clean_file k bs \<and> (\<forall>x z. file_chunk k bs x z = cas.row_payload b rows (x, z))"

definition group_ready :: "'w \<Rightarrow> 'b \<Rightarrow> missing_blob_policy \<Rightarrow> region_key \<times> (chunk_coord \<times> chunk_hash) list \<Rightarrow> bool" where
  "group_ready w0 b policy g \<longleftrightarrow> snd g \<noteq> [] \<and> cas.rows_ready b policy (fst g) (snd g)
     \<and> files w0 (fst g) = None \<and> key_dim (fst g) \<in> dims w0"

lemma clone_key_ok:
  assumes inv: "clone_inv w0 qs d run" and b: "bvalid b" and g: "group_ready w0 b policy (k, rows)" and new: "k \<notin> fst ` set qs"
  shows "\<exists>run' r bs. clone_key wport bport b policy ts (k, rows) run = Inr run' \<and> clone_inv w0 (qs @ [(k, r, bs)]) d run'
    \<and> built_for b rows k bs"
proof -
  have i: "wvalid (cn_world run)" "dims (cn_world run) = dims w0" "d \<le> length qs"
      "files (cn_world run) = (\<lambda>k. case map_of (take d qs) k of Some (r, bs) \<Rightarrow> Some bs | None \<Rightarrow> files w0 k)"
    using inv by (simp_all add: clone_inv_def)
  have "map_of (take d qs) k = None" using new by (auto simp: map_of_eq_None_iff dest: in_set_takeD)
  then have "files (cn_world run) k = None" using i(4) g by (simp add: group_ready_def)
  then obtain r where r: "wp_derive_region wport (cn_world run) k = Inr r" "names (cn_world run) k r"
    using derive_ok [OF i(1), of k] g i(2) by (auto simp: group_ready_def)
  obtain c h where "(c, h) \<in> set rows" using g by (cases rows) (auto simp: group_ready_def)
  then have "k = region_key_of c" using g by (auto simp: group_ready_def cas.rows_ready_def)
  then have "region_fits (key_rx k)" "region_fits (key_rz k)" using region_fits_of by simp_all
  then obtain w1 where w1: "builder_new (key_rx k) (key_rz k) ts = Inr w1" using builder_new_ok by blast
  note w1' = builder_new_staged [OF w1]
  obtain buf' w2 where w2: "foldE (clone_row bport b policy) rows (cn_buf run, w1, cn_restored run)
      = Inr (buf', w2, cn_restored run + length (filter (\<lambda>(c, h). blobs b h \<noteq> None) rows))"
      "wf_builder w2" "rb_loc w2 = rb_loc w1"
      "\<forall>xz. staged_at w2 xz = (case cas.row_payload b rows xz of Some p \<Rightarrow> Some p | None \<Rightarrow> staged_at w1 xz)"
    using cas.clone_rows [OF b, of w1 k policy rows "cn_buf run" "cn_restored run"] w1' g by (auto simp: group_ready_def)
  have "staged_at w2 xz = cas.row_payload b rows xz" for xz using w2(4) [rule_format, of xz] w1' by (simp split: option.split)
  then obtain bs where bs: "builder_image w2 = Inr bs" "built_for b rows k bs"
    using built_file [OF w2(2), of k] w1' w2(3) by (auto simp: built_for_def)
  let ?run = "run\<lparr>cn_pending := cn_pending run @ [(r, bs)], cn_buf := buf',
      cn_restored := cn_restored run + length (filter (\<lambda>(c, h). blobs b h \<noteq> None) rows)\<rparr>"
  have "clone_key wport bport b policy ts (k, rows) run = Inr ?run"
    using r(1) w1 w2(1) bs(1) by (simp add: clone_key_def)
  moreover have "clone_inv w0 (qs @ [(k, r, bs)]) d ?run"
    using inv new r(2) i(3) by (simp add: clone_inv_def)
  ultimately show ?thesis using bs(2) by blast
qed

lemma clone_groups_ok:
  assumes inv: "clone_inv w0 qs d run" and b: "bvalid b" and gs: "\<And>g. g \<in> set gs \<Longrightarrow> group_ready w0 b policy g"
    and new: "distinct (map fst gs)" "fst ` set gs \<inter> fst ` set qs = {}"
  shows "\<exists>qs' d' run'. clone_groups wport bport b policy ts drains gs run = (Inr (), run') \<and> clone_inv w0 (qs @ qs') d' run'
    \<and> list_all2 (\<lambda>(k, rows) (k', r, bs). k' = k \<and> built_for b rows k bs) gs qs'"
  using assms
proof (induction gs arbitrary: qs d run)
  case Nil
  then show ?case by (intro exI [of _ "[]"]) auto
next
  case (Cons g gs)
  obtain k rows where g: "g = (k, rows)" by (cases g)
  let ?run = "drain_steps wport (drains (length gs)) run"
  obtain d1 where d1: "clone_inv w0 qs d1 ?run" using drain_inv [OF Cons.prems(1)] by blast
  have "k \<notin> fst ` set qs" using Cons.prems(5) by (auto simp: g)
  then obtain run2 r bs where run2: "clone_key wport bport b policy ts g ?run = Inr run2"
      "clone_inv w0 (qs @ [(k, r, bs)]) d1 run2" "built_for b rows k bs"
    using clone_key_ok [OF d1 b, of policy k rows ts] Cons.prems(3) [of g] by (auto simp: g)
  have "fst ` set gs \<inter> fst ` set (qs @ [(k, r, bs)]) = {}" using Cons.prems(4,5) by (auto simp: g)
  then obtain qs' d' run' where rest: "clone_groups wport bport b policy ts drains gs run2 = (Inr (), run')"
      "clone_inv w0 ((qs @ [(k, r, bs)]) @ qs') d' run'"
      "list_all2 (\<lambda>(k, rows) (k', r, bs). k' = k \<and> built_for b rows k bs) gs qs'"
    using Cons.IH [OF run2(2) b] Cons.prems(3,4) by fastforce
  then show ?case using run2 by (intro exI [of _ "(k, r, bs) # qs'"] exI [of _ d'] exI [of _ run']) (simp add: g Let_def)
qed

end

lemma collect_ok:
  "fst (collect_steps n (replicate k (Inr ())) rep prog) = Inr (rep\<lparr>clr_files_written := clr_files_written rep + k\<rparr>)
   \<and> length (snd (collect_steps n (replicate k (Inr ())) rep prog)) = length prog + k"
  by (induction k arbitrary: rep prog) (simp_all add: Let_def)

context rebuilding begin

lemma clone_files_ok:
  assumes gs: "om_ok gs" "\<And>g. g \<in> set gs \<Longrightarrow> group_ready out b policy g" and w: "wvalid out" and b: "bvalid b"
  shows "\<exists>rep prog out'. clone_files wport bport b policy ts drains gs out = ((Inr rep, prog), out')
    \<and> wvalid out' \<and> dims out' = dims out
    \<and> (\<forall>k. case om_get k gs of None \<Rightarrow> files out' k = files out k
          | Some rows \<Rightarrow> \<exists>bs. files out' k = Some bs \<and> built_for b rows k bs)
    \<and> clr_files_written rep = length gs \<and> length prog = length gs"
proof -
  have dist: "distinct (map fst gs)" using gs(1) by (simp add: om_ok_def strict_sorted_iff)
  let ?run = "\<lparr>cn_world = out, cn_pending = [], cn_steps = [], cn_buf = [], cn_restored = 0\<rparr> :: ('w, 'r) clone_run"
  have "clone_inv out [] 0 ?run" using w by (simp add: clone_inv_def)
  then obtain qs d run where run: "clone_groups wport bport b policy ts drains gs ?run = (Inr (), run)"
      "clone_inv out ([] @ qs) d run"
      "list_all2 (\<lambda>(k, rows) (k', r, bs). k' = k \<and> built_for b rows k bs) gs qs"
    using clone_groups_ok [OF _ b gs(2) dist, of "[]" 0 ?run ts drains] by auto
  let ?last = "drain_steps wport (length (cn_pending run)) run"
  have "length (cn_pending run) = length qs - d" using run(2) by (simp add: clone_inv_def)
  then have inv: "clone_inv out qs (length qs) ?last"
    using drain_inv [of out qs d run "length (cn_pending run)"] run(2) by auto
  then have out': "wvalid (cn_world ?last)" "dims (cn_world ?last) = dims out" "cn_steps ?last = replicate (length qs) (Inr ())"
      "files (cn_world ?last) = (\<lambda>k. case map_of qs k of Some (r, bs) \<Rightarrow> Some bs | None \<Rightarrow> files out k)"
    by (simp_all add: clone_inv_def)
  have len: "length gs = length qs" by (rule list_all2_lengthD [OF run(3)])
  have found: "map_of gs k = None \<and> map_of qs k = None
      \<or> (\<exists>rows r bs. map_of gs k = Some rows \<and> map_of qs k = Some (r, bs) \<and> built_for b rows k bs)" for k
    using run(3) by (induction rule: list_all2_induct) auto
  have files: "case om_get k gs of None \<Rightarrow> files (cn_world ?last) k = files out k
      | Some rows \<Rightarrow> \<exists>bs. files (cn_world ?last) k = Some bs \<and> built_for b rows k bs" for k
    unfolding om_get_def out'(4) by (rule disjE [OF found [of k]]) auto
  define answer where "answer = collect_steps (length gs) (cn_steps ?last) \<lparr>clr_files_written = 0, clr_chunks_restored = cn_restored ?last\<rparr> []"
  have "fst answer = Inr \<lparr>clr_files_written = length gs, clr_chunks_restored = cn_restored ?last\<rparr>" "length (snd answer) = length gs"
    unfolding answer_def out'(3) by (simp_all add: collect_ok len)
  then obtain rep prog where ans: "answer = (Inr rep, prog)" "clr_files_written rep = length gs" "length prog = length gs"
    by (cases answer) auto
  have "clone_files wport bport b policy ts drains gs out = (answer, cn_world ?last)"
    using run(1) by (simp add: clone_files_def answer_def Let_def)
  then show ?thesis using ans out'(1,2) files by blast
qed

end

subsection \<open>The cloned world\<close>

context checkout_stores begin

lemma clone_group_ready:
  assumes plan: "checkout_of plan (state m i)" and g: "g \<in> set (om_retain (scope_matches_region sc) (co_groups plan))"
    and empty: "\<And>k. scope_matches_region sc k \<Longrightarrow> files out k = None"
    and stored: "\<And>c h. scope_matches_region sc (region_key_of c) \<Longrightarrow> present_at (state m i) c = Some h
      \<Longrightarrow> (case blobs b h of None \<Rightarrow> policy = SkipChunk | Some p \<Rightarrow> storable p)"
    and place: "\<And>c. scope_matches_region sc (region_key_of c) \<Longrightarrow> present_at (state m i) c \<noteq> None \<Longrightarrow> coord_dim c \<in> dims out"
  shows "group_ready out b policy g"
proof -
  obtain k rows where kr: "g = (k, rows)" by (cases g)
  have "distinct (map fst (co_groups plan))" using plan by (simp add: checkout_of_def om_ok_def strict_sorted_iff)
  then have k: "scope_matches_region sc k" "om_get k (co_groups plan) = Some rows"
    using g by (auto simp: kr om_retain_def om_get_def)
  note rows = rows_of_state [OF plan k(2)]
  have row: "region_key_of d = k \<and> (case blobs b h of None \<Rightarrow> policy = SkipChunk | Some p \<Rightarrow> storable p)
      \<and> key_dim k \<in> dims out" if "(d, h) \<in> set rows" for d h
    using stored [of d h] place [of d] rows(3) [of d h] that k by (auto simp: present_at_Some)
  obtain d h where "(d, h) \<in> set rows" using rows(1) by (cases rows) auto
  then have "key_dim k \<in> dims out" using row by blast
  then show ?thesis using rows(1,2) row empty [OF k(1)] by (auto simp: group_ready_def cas.rows_ready_def kr)
qed

lemma clone_restores:
  assumes m: "mvalid m" and w: "wvalid out" "wp_is_empty wport out = Inr True" and b: "bvalid b"
    and c: "find_record (commits m) i = Some rec"
    and empty: "\<And>k. scope_matches_region sc k \<Longrightarrow> files out k = None"
    and stored: "\<And>c h. scope_matches_region sc (region_key_of c) \<Longrightarrow> present_at (state m i) c = Some h
      \<Longrightarrow> (case blobs b h of None \<Rightarrow> policy = SkipChunk | Some p \<Rightarrow> storable p)"
    and place: "\<And>c. scope_matches_region sc (region_key_of c) \<Longrightarrow> present_at (state m i) c \<noteq> None \<Longrightarrow> coord_dim c \<in> dims out"
  shows "\<exists>rep prog out'. clone_to wport bport mport \<lparr>store_meta = m, store_blob = b\<rparr> i policy sc drains out = ((Inr rep, prog), out')
    \<and> wvalid out' \<and> dims out' = dims out
    \<and> (\<forall>c. scope_matches_region sc (region_key_of c)
          \<longrightarrow> world_chunk (files out') c = Option.bind (present_at (state m i) c) (blobs b))
    \<and> (\<forall>k. \<not> scope_matches_region sc k \<longrightarrow> files out' k = files out k)
    \<and> clr_files_written rep = card {k. scope_matches_region sc k \<and> (\<exists>c. region_key_of c = k \<and> present_at (state m i) c \<noteq> None)}
    \<and> length prog = clr_files_written rep"
proof -
  obtain plan where plan: "plan_checkout mport m i = Inr plan" "co_created_at_ms plan = c_created_at_ms rec"
      "checkout_of plan (state m i)" using meta.plan_checkout_spec [OF m c] by blast
  let ?gs = "om_retain (scope_matches_region sc) (co_groups plan)"
  have ok: "om_ok ?gs" using plan(3) by (simp add: checkout_of_def)
  have ready: "group_ready out b policy g" if "g \<in> set ?gs" for g
    using plan(3) that empty stored place by (rule clone_group_ready)
  obtain rep prog out' where r: "clone_files wport bport b policy (stamp_of (c_created_at_ms rec)) drains ?gs out = ((Inr rep, prog), out')"
      "wvalid out'" "dims out' = dims out" "clr_files_written rep = length ?gs" "length prog = length ?gs"
      "\<forall>k. case om_get k ?gs of None \<Rightarrow> files out' k = files out k
          | Some rows \<Rightarrow> \<exists>bs. files out' k = Some bs \<and> built_for b rows k bs"
    using clone_files_ok [OF ok ready w(1) b] by blast
  have chunk: "world_chunk (files out') e = Option.bind (present_at (state m i) e) (blobs b)"
    if e: "scope_matches_region sc (region_key_of e)" for e
  proof (cases "om_get (region_key_of e) (co_groups plan)")
    case None
    then have "present_at (state m i) e = None" using groups_present [OF plan(3), of "region_key_of e"] by blast
    then show ?thesis using r(6) [rule_format, of "region_key_of e"] None e empty [OF e] by (simp add: world_chunk_def)
  next
    case (Some rows)
    then show ?thesis using r(6) [rule_format, of "region_key_of e"] e rows_of_state(4) [OF plan(3) Some refl, of b]
      by (auto simp: world_chunk_def built_for_def)
  qed
  have rest: "files out' k = files out k" if "\<not> scope_matches_region sc k" for k
    using r(6) [rule_format, of k] that by simp
  have "length ?gs = card (fst ` set ?gs)"
    using ok distinct_card [of "map fst ?gs"] by (simp add: om_ok_def strict_sorted_iff)
  also have "fst ` set ?gs = {k. scope_matches_region sc k \<and> om_get k (co_groups plan) \<noteq> None}"
    by (rule set_eqI) (simp add: om_keys_image)
  finally have count: "length ?gs = card {k. scope_matches_region sc k \<and> (\<exists>c. region_key_of c = k \<and> present_at (state m i) c \<noteq> None)}"
    unfolding groups_present [OF plan(3)] .
  have "clone_to wport bport mport \<lparr>store_meta = m, store_blob = b\<rparr> i policy sc drains out = ((Inr rep, prog), out')"
    using r(1) by (simp add: clone_to_def w(2) plan(1,2))
  then show ?thesis
    using r(2-5) chunk rest count by (intro exI [of _ rep] exI [of _ prog] exI [of _ out']) simp
qed

end

end
