(* ===== verification/App_Refused.thy ===== *)
theory App_Refused
  imports App_Clone
begin

section \<open>Commits that are refused\<close>

text \<open>
  A commit that fails leaves the metadata as it was, and a chunk of the scope without a key fails it:
  whatever the schedule, a commit only succeeds when every file of its groups was staged
  (\<open>worker_staged\<close>), and a file with such a chunk cannot be.
\<close>

subsection \<open>Groups that are staged\<close>

definition staged_ok ::
  "('d, 'x) chunk_env \<Rightarrow> ('w, 'r) world_port \<Rightarrow> 'w \<Rightarrow> scope \<Rightarrow> 'r planned_file \<Rightarrow> bool" where
  "staged_ok env wp w sc f \<longleftrightarrow> (\<exists>sg. stage_file env wp w (pf_region f) (pf_key f) sc = Some (Inr sg))"

definition worker_staged ::
  "('d, 'x) chunk_env \<Rightarrow> ('w, 'r) world_port \<Rightarrow> 'w \<Rightarrow> scope \<Rightarrow> 'r planned_file list \<Rightarrow> 'r worker \<Rightarrow> bool" where
  "worker_staged env wp w sc g wk \<longleftrightarrow>
     (\<exists>D. g = D @ wk_files wk \<and> (\<forall>f \<in> set D. staged_ok env wp w sc f))
     \<and> (\<forall>os. wk_ended wk = Some (Inr os) \<longrightarrow> wk_files wk = [])"

lemma worker_step_staged:
  assumes inv: "worker_staged env wp w sc g wk" and step: "worker_step env wp w bp sc dry_run (wk, cas) = (wk', cas')"
  shows "worker_staged env wp w sc g wk'"
proof (cases "wk_ended wk = None \<and> wk_open wk = None \<and> wk_files wk \<noteq> []")
  case True
  then obtain f fs where fs: "wk_files wk = f # fs" by (cases "wk_files wk") simp_all
  obtain D where D: "g = D @ f # fs" "\<forall>f \<in> set D. staged_ok env wp w sc f" using inv fs by (auto simp: worker_staged_def)
  show ?thesis
  proof (cases "staged_ok env wp w sc f")
    case True
    then have "\<exists>D. g = D @ fs \<and> (\<forall>f \<in> set D. staged_ok env wp w sc f)"
      using D by (intro exI [of _ "D @ [f]"]) auto
    then show ?thesis
      using True \<open>wk_ended wk = None \<and> _\<close> step fs
      by (auto simp: worker_step_def worker_staged_def staged_ok_def)
  next
    case False
    then have "wk' = wk \<or> (\<exists>e. wk' = wk\<lparr>wk_ended := Some (Inl e)\<rparr>)"
      using \<open>wk_ended wk = None \<and> _\<close> step fs
      by (auto simp: worker_step_def staged_ok_def split: option.splits sum.splits)
    then show ?thesis using inv by (auto simp: worker_staged_def)
  qed
next
  case False
  then have "wk_files wk' = wk_files wk \<and> (wk_ended wk' = wk_ended wk \<or> wk_files wk = [] \<or> (\<exists>e. wk_ended wk' = Some (Inl e)))"
    using step by (auto simp: worker_step_def split: option.splits sum.splits list.splits prod.splits if_splits)
  then show ?thesis using inv by (auto simp: worker_staged_def)
qed

definition run_staged ::
  "('d, 'x) chunk_env \<Rightarrow> ('w, 'r) world_port \<Rightarrow> 'w \<Rightarrow> scope \<Rightarrow> 'r planned_file list list \<Rightarrow> ('r, 'b) ingest_run
     \<Rightarrow> nat list \<Rightarrow> bool" where
  "run_staged env wp w sc gs run js \<longleftrightarrow> length (ig_workers run) = length gs
     \<and> (\<forall>i < length gs. worker_staged env wp w sc (gs ! i) (ig_workers run ! i))
     \<and> distinct js \<and> set js = {i. i < length gs \<and> wk_ended (ig_workers run ! i) \<noteq> None}
     \<and> ig_joined run = map (\<lambda>i. the (wk_ended (ig_workers run ! i))) js"

lemma run_staged_start: "run_staged env wp w sc gs (ingest_start gs cas) []"
  by (auto simp: run_staged_def ingest_start_def worker_staged_def worker_start_def)

lemma ingest_turn_staged:
  assumes inv: "run_staged env wp w sc gs run js"
  shows "\<exists>js'. run_staged env wp w sc gs (ingest_turn env wp w bp sc dry_run i run) js'"
proof (cases "i < length gs \<and> wk_ended (ig_workers run ! i) = None")
  case False
  then have "ingest_turn env wp w bp sc dry_run i run = run" using inv by (auto simp: run_staged_def ingest_turn_def)
  then show ?thesis using inv by auto
next
  case True
  note r = inv [unfolded run_staged_def]
  obtain wk' cas' where step: "worker_step env wp w bp sc dry_run (ig_workers run ! i, ig_cas run) = (wk', cas')" by fastforce
  have wk': "worker_staged env wp w sc (gs ! i) wk'" using worker_step_staged [OF _ step] r True by blast
  let ?ws = "(ig_workers run)[i := wk']"
  have run': "ingest_turn env wp w bp sc dry_run i run = \<lparr>ig_workers = ?ws, ig_cas = cas',
      ig_joined = ig_joined run @ (case wk_ended wk' of None \<Rightarrow> [] | Some r \<Rightarrow> [r])\<rparr>"
    using True r step by (simp add: ingest_turn_def)
  define js' where "js' = (if wk_ended wk' = None then js else js @ [i])"
  have "i \<notin> set js" using r True by auto
  then have "distinct js'" "set js' = {j. j < length gs \<and> wk_ended (?ws ! j) \<noteq> None}"
    "ig_joined run @ (case wk_ended wk' of None \<Rightarrow> [] | Some r \<Rightarrow> [r]) = map (\<lambda>j. the (wk_ended (?ws ! j))) js'"
    using r True by (auto simp: js'_def nth_list_update split: option.split)
  moreover have "worker_staged env wp w sc (gs ! j) (?ws ! j)" if "j < length gs" for j
    using r wk' that by (cases "j = i") simp_all
  ultimately show ?thesis using r by (intro exI [of _ js']) (simp add: run_staged_def run')
qed

lemma schedule_staged:
  "run_staged env wp w sc gs run js
     \<Longrightarrow> \<exists>js'. run_staged env wp w sc gs (fold (ingest_turn env wp w bp sc dry_run) schedule run) js'"
proof (induction schedule arbitrary: run js)
  case (Cons i schedule)
  then show ?case using ingest_turn_staged [OF Cons.prems, of bp dry_run i] by auto
qed auto

lemma join_all_ok:
  "join_workers planned n joined walk = Some (Inr out) \<Longrightarrow> n \<le> length joined \<and> (\<forall>r \<in> set (take n joined). \<exists>os. r = Inr os)"
  by (induction planned n joined walk rule: join_workers.induct) auto

text \<open>An ingest that succeeds staged every file.\<close>

lemma ingest_staged:
  assumes run: "ingest_changed env wp w bp sc dry_run concurrency cpus schedule changed cas = (Some (Inr walk), cas')"
    and f: "f \<in> set changed"
  shows "staged_ok env wp w sc f"
proof -
  let ?n = "worker_count concurrency cpus (length changed)"
  let ?gs = "partition_groups changed ?n"
  let ?run = "fold (ingest_turn env wp w bp sc dry_run) schedule (ingest_start ?gs cas)"
  have "0 < ?n" by (simp add: worker_count_def)
  note gs = partition_groups_files [OF this, of changed]
  have join: "join_workers (length (concat ?gs)) (length ?gs) (ig_joined ?run) walk_start = Some (Inr walk)"
    using run f by (auto simp: ingest_changed_def Let_def split: if_splits)
  have start: "run_staged env wp w sc ?gs (ingest_start ?gs cas) []" by (rule run_staged_start)
  obtain js where js: "run_staged env wp w sc ?gs ?run js" using schedule_staged [OF start, of bp dry_run schedule] by blast
  note r = js [unfolded run_staged_def]
  have sub: "set js \<subseteq> {..<length ?gs}" and dist: "distinct js" and len: "length (ig_joined ?run) = length js" using r by auto
  have "length js \<le> length ?gs" using card_mono [OF _ sub] distinct_card [OF dist] by simp
  then have n: "length js = length ?gs" and ok: "\<forall>r \<in> set (ig_joined ?run). \<exists>os. r = Inr os"
    using join_all_ok [OF join] len by simp_all
  have "set js = {..<length ?gs}" using card_subset_eq [OF _ sub] distinct_card [OF dist] n by simp
  moreover have "set (concat ?gs) = set changed" by (rule mset_eq_setD [OF gs(1)])
  then obtain i where i: "i < length ?gs" "f \<in> set (?gs ! i)" using f by (metis UN_iff in_set_conv_nth set_concat)
  ultimately have "i \<in> set js" by simp
  then have "the (wk_ended (ig_workers ?run ! i)) \<in> set (ig_joined ?run)" "wk_ended (ig_workers ?run ! i) \<noteq> None"
    using r by auto
  then obtain os where "wk_ended (ig_workers ?run ! i) = Some (Inr os)" using ok by fastforce
  then show ?thesis using r i by (fastforce simp: worker_staged_def)
qed

subsection \<open>A chunk without a key\<close>

lemma stage_visit_keys:
  assumes "run_rows (stage_visitor env k sc) None cs (Some (sg, None)) = (Inr (Some (sg', None)) :: ('e, _) result)" "ch \<in> set cs"
    and "scope_contains sc (coord_in k ch)"
  shows "\<exists>h. hash_chunk env ch = Some (Inr h)"
  using assms
proof (induction cs arbitrary: sg)
  case (Cons c cs)
  have "(scope_contains sc (coord_in k c) \<longrightarrow> (\<exists>h. hash_chunk env c = Some (Inr h)))
    \<and> (\<exists>sg1. stage_visitor env k sc (Some (sg, None)) c = (True, Some (sg1, None)))"
  proof (cases "scope_contains sc (coord_in k c)")
    case True
    show ?thesis
    proof (cases "hash_chunk env c")
      case (Some r)
      then show ?thesis using Cons.prems(1) True
        by (cases r) (auto simp: stage_visitor_def stage_row_def coord_in_def Let_def)
    qed (use Cons.prems(1) True in \<open>simp add: stage_visitor_def stage_row_def coord_in_def Let_def\<close>)
  qed (simp add: stage_visitor_def stage_row_def coord_in_def Let_def)
  then obtain sg1 where key: "scope_contains sc (coord_in k c) \<Longrightarrow> \<exists>h. hash_chunk env c = Some (Inr h)"
      and sg1: "stage_visitor env k sc (Some (sg, None)) c = (True, Some (sg1, None))" by blast
  show ?case
  proof (cases "ch = c")
    case True
    then show ?thesis using key Cons.prems(3) by simp
  next
    case False
    then show ?thesis using Cons.IH [of sg1] Cons.prems sg1 by simp
  qed
qed simp

text \<open>Rows are about the chunks of the file and the scope, one per payload, whatever the image holds.\<close>

definition staged_wf :: "region_key \<Rightarrow> scope \<Rightarrow> staged_file \<Rightarrow> bool" where
  "staged_wf k sc sg \<longleftrightarrow> map (Some \<circ> fst) (sg_writes sg) = map entry_blob (sg_entries sg)
     \<and> sg_present sg = entry_coord ` set (sg_entries sg) \<and> sg_chunks sg = length (sg_entries sg)
     \<and> (\<forall>e \<in> set (sg_entries sg). coord_dim (entry_coord e) = key_dim k \<and> coord_kind (entry_coord e) = key_kind k
          \<and> scope_contains sc (entry_coord e))"

lemma stage_row_wf:
  assumes "staged_wf k sc sg" "stage_row env k sc ch sg = Some (Inr (go, sg'))"
  shows "staged_wf k sc sg'"
proof (cases "scope_contains sc (coord_in k ch)")
  case True
  then obtain h where "hash_chunk env ch = Some (Inr h)"
    using assms(2) by (auto simp: stage_row_def coord_in_def Let_def bindE_eq_Inr map_err_eq_Inr)
  then show ?thesis using assms True by (auto simp: stage_row_def coord_in_def Let_def staged_wf_def)
qed (use assms in \<open>simp add: stage_row_def coord_in_def Let_def\<close>)

lemma stage_visit_wf:
  assumes "run_rows (stage_visitor env k sc) err cs st = (Inr (Some (sg', f)) :: ('e, _) result)"
    and "\<And>sg f. st = Some (sg, f) \<Longrightarrow> staged_wf k sc sg"
  shows "staged_wf k sc sg'"
  using assms
proof (induction cs arbitrary: st)
  case (Cons ch cs)
  obtain go st1 where st1: "stage_visitor env k sc st ch = (go, st1)" by fastforce
  have "staged_wf k sc sg" if "st1 = Some (sg, f)" for sg f
    using st1 that Cons.prems(2) stage_row_wf
    by (fastforce simp: stage_visitor_def split: option.splits sum.splits prod.splits)
  then show ?case using Cons.IH [of st1] Cons.prems(1) st1 by (auto split: if_splits)
qed (auto split: option.splits)

lemma stage_file_wf:
  assumes "stage_file env wp w r k sc = Some (Inr sg)"
  shows "staged_wf k sc sg"
proof -
  obtain img :: world_image where "run_rows (stage_visitor env k sc) (snd (wi_chunks img)) (fst (wi_chunks img)) (Some (staged_none, None))
      = (Inr (Some (sg, None)) :: (world_error, _) result)"
    using assms by (auto simp: stage_file_def run_visit_def split: sum.splits option.splits)
  then show ?thesis by (rule stage_visit_wf) (auto simp: staged_none_def staged_wf_def)
qed

context rebuilding begin

lemma staged_file_keys:
  assumes w: "wvalid w" "names w k r" "files w k = Some bs" and clean: "clean_file k bs"
    and staged: "stage_file env wport w r k sc = Some (Inr sg)"
    and c: "region_key_of c = k" "scope_contains sc c" "world_chunk (files w) c = Some p"
  shows "\<exists>h. hash_chunk env (chunk_of c p) = Some (Inr h)"
proof -
  obtain img where img: "key_image k bs = Inr img" using clean by (auto simp: clean_file_def split: sum.splits)
  obtain q where rd: "wp_read wport w r k = Inr (image_answers q img)" using read_ok [OF w img] by blast
  obtain img' cs where cs: "key_image k bs = Inr img'" "wi_chunks (image_answers q img') = (cs, None)"
      "\<forall>c \<in> set cs. ch_kind c = key_kind k"
      "\<forall>x z p. (\<exists>c \<in> set cs. ch_x c = x \<and> ch_z c = z \<and> ch_payload c = p) \<longleftrightarrow> file_chunk k bs x z = Some p"
    using clean_file_chunks [OF clean, of q] by (elim exE conjE)
  have "file_chunk k bs (coord_x c) (coord_z c) = Some p" using c(1,3) w(3) by (simp add: world_chunk_def)
  then obtain ch where ch: "ch \<in> set cs" "ch_x ch = coord_x c" "ch_z ch = coord_z c" "ch_payload ch = p" using cs(4) by blast
  have at: "coord_in k ch = c" using coord_split [OF c(1)] ch by (simp add: coord_in_def)
  have "chunk_of c p = ch" using ch cs(3) c(1) by (auto simp: chunk_of_def chunk_new_def)
  moreover have visit: "run_rows (stage_visitor env k sc) None cs (Some (staged_none, None)) = (Inr (Some (sg, None)) :: (world_error, _) result)"
    using staged rd cs(1,2) img
    by (auto simp: stage_file_def run_visit_def split: sum.splits option.splits)
  ultimately show ?thesis using stage_visit_keys [OF visit ch(1)] at c(2) by simp
qed

end

text \<open>A commit that does not succeed leaves the metadata alone.\<close>

lemma failed_commit_meta:
  assumes "commit_world env wp bp mp w concurrency cpus schedule sc clock st = (a, st')" "\<And>rep. a \<noteq> Some (Inr rep)"
  shows "store_meta st' = store_meta st"
  using assms by (auto simp: commit_world_def split: prod.splits option.splits sum.splits)

lemma prepared_changed:
  assumes "prepare env wp bp mp st w concurrency cpus schedule sc dry_run = (Some (Inr p), cas)"
  shows "\<exists>regions plan changed walk. discover_regions wp w = Inr regions
    \<and> plan_commit mp (store_meta st) (map fst regions) sc = Inr (pr_previous p, plan)
    \<and> size_planned wp w (remove_entries (cp_ingest plan) regions) = Inr changed
    \<and> ingest_changed env wp w bp sc dry_run concurrency cpus schedule changed (store_blob st) = (Some (Inr walk), cas)"
proof -
  let ?plan = "bindE (discover_regions wp w) (\<lambda>regions.
      bindE (map_err AeStorage (plan_commit mp (store_meta st) (map fst regions) sc)) (\<lambda>(previous, plan).
      bindE (size_planned wp w (remove_entries (cp_ingest plan) regions)) (\<lambda>changed. Inr (previous, plan, changed))))"
  obtain previous plan changed where plan: "?plan = Inr (previous, plan, changed)"
    using assms by (cases ?plan) (auto simp: prepare_def)
  obtain answer cas' where ig: "ingest_changed env wp w bp sc dry_run concurrency cpus schedule changed (store_blob st) = (answer, cas')"
    by fastforce
  obtain walk where "answer = Some (Inr walk)" "cas' = cas" "pr_previous p = previous"
    using assms plan ig by (cases answer) (auto simp: prepare_def bindE_eq_Inr)
  then show ?thesis using plan ig by (auto simp: bindE_eq_Inr map_err_eq_Inr)
qed


lemma planned_of_size:
  assumes "size_planned wp w planned = Inr changed" "(k, r) \<in> set planned"
  shows "\<exists>f \<in> set changed. pf_key f = k \<and> pf_region f = r"
proof -
  have "list_all2 (\<lambda>(k, r) f. pf_key f = k \<and> pf_region f = r) planned changed"
    using assms(1) unfolding size_planned_def mapE_eq_Inr
    by (rule list_all2_mono) (auto simp: bindE_eq_Inr)
  then show ?thesis using assms(2) by (induction rule: list_all2_induct) auto
qed

context workspace begin

text \<open>A chunk of the scope without a key: the commit fails, and the metadata is as it was.\<close>

lemma keyless_chunk_refused:
  assumes w: "wvalid w" and m: "mvalid m"
    and c: "scope_contains sc c" "world_chunk (files w) c = Some p" "\<nexists>h. hash_chunk env (chunk_of c p) = Some (Inr h)"
    and clean: "\<And>bs. files w (region_key_of c) = Some bs \<Longrightarrow> clean_file (region_key_of c) bs"
    and run: "commit_world env wport bport mport w concurrency cpus schedule sc clock \<lparr>store_meta = m, store_blob = b\<rparr> = (a, st)"
  shows "(\<forall>rep. a \<noteq> Some (Inr rep)) \<and> store_meta st = m"
proof -
  let ?st = "\<lparr>store_meta = m, store_blob = b\<rparr>" and ?k = "region_key_of c"
  have "a \<noteq> Some (Inr rep)" for rep
  proof
    assume "a = Some (Inr rep)"
    then obtain pr cas where pr: "prepare env wport bport mport ?st w concurrency cpus schedule sc False = (Some (Inr pr), cas)"
      using run by (auto simp: commit_world_def split: prod.splits option.splits sum.splits)
    obtain regions plan changed walk where x: "discover_regions wport w = Inr regions"
        "plan_commit mport m (map fst regions) sc = Inr (pr_previous pr, plan)"
        "size_planned wport w (remove_entries (cp_ingest plan) regions) = Inr changed"
        "ingest_changed env wport w bport sc False concurrency cpus schedule changed b = (Some (Inr walk), cas)"
      using prepared_changed [OF pr] by auto
    have obs: "observed w regions" using discovers [OF w] x(1) by auto
    obtain bs where bs: "files w ?k = Some bs" using c(2) by (cases "files w ?k") (simp_all add: world_chunk_def)
    have plan: "cp_ingest plan = filter (scope_matches_region sc) (map fst regions)"
      using meta.plan_commit_spec [OF m, of "map fst regions" sc] x(2) by auto
    have k: "?k \<in> set (cp_ingest plan)"
      unfolding plan set_filter using observed_keys [OF obs, of ?k] bs scope_contains_matches [OF c(1)] by auto
    have ok: "om_ok regions" "distinct (cp_ingest plan)" using obs plan by (simp_all add: observed_def om_ok_def strict_sorted_iff)
    have found: "om_get j regions \<noteq> None" if "j \<in> set (cp_ingest plan)" for j
      using that plan om_keys_get [OF ok(1), of j] by simp
    have "map fst (remove_entries (cp_ingest plan) regions) = cp_ingest plan" by (rule remove_entries_found(1) [OF ok found])
    then have "?k \<in> fst ` set (remove_entries (cp_ingest plan) regions)" using k by (metis set_map)
    then obtain r where r: "(?k, r) \<in> set (remove_entries (cp_ingest plan) regions)" by auto
    have "om_get ?k regions = Some r" by (rule remove_entries_found(2) [OF ok found r])
    then have nm: "names w ?k r" using obs by (simp add: observed_def)
    obtain f where f: "f \<in> set changed" "pf_key f = ?k" "pf_region f = r" using planned_of_size [OF x(3) r] by blast
    obtain sg where "stage_file env wport w r ?k sc = Some (Inr sg)"
      using ingest_staged [OF x(4) f(1)] f(2,3) by (auto simp: staged_ok_def)
    then show False using staged_file_keys [OF w nm bs clean [OF bs] _ refl c(1,2)] c(3) by blast
  qed
  then show ?thesis using failed_commit_meta [OF run] by auto
qed

end

end
