(* ===== verification/App_Host.thy ===== *)
theory App_Host
  imports App_Refused Usecase_Properties
begin

section \<open>Commits of a host world into the SQLite stores\<close>

text \<open>
  The promises of \<open>App_Workspace\<close> on the host world tree over the SQLite stores: what they ask for,
  stated over the model's definitions, and the operations' facts in that form.
\<close>

subsection \<open>What a commit of a host world asks for\<close>

text \<open>Every chunk of the scope has a key, and its files read back; the id is not taken, whatever the
  order of the rows; the workers get enough turns.\<close>

definition host_ready :: "('d, 'x) chunk_env \<Rightarrow> host_world \<Rightarrow> scope \<Rightarrow> bool" where
  "host_ready env w sc \<longleftrightarrow> hashable env (host_files w) sc
     \<and> (\<forall>k bs. scope_matches_region sc k \<longrightarrow> host_files w k = Some bs \<longrightarrow> clean_file k bs)"

definition id_unused :: "(bytes \<Rightarrow> hash32) \<Rightarrow> meta_db \<Rightarrow> nat \<Rightarrow> commit_id list \<Rightarrow> commit_entry set \<Rightarrow> bool" where
  "id_unused H db n parents delta \<longleftrightarrow>
     (\<forall>es. set es = delta \<longrightarrow> commit_hash H parents (of_nat n) es \<notin> set (ids_of (commits_view db)))"

definition host_turns :: "host_world \<Rightarrow> nat \<Rightarrow> nat option \<Rightarrow> scope \<Rightarrow> nat list \<Rightarrow> bool" where
  "host_turns w concurrency cpus sc schedule \<longleftrightarrow>
     (let n = card {k. scope_matches_region sc k \<and> host_files w k \<noteq> None} in
      \<forall>i < worker_count concurrency cpus n.
        1 + 2 * n + card {c. scope_contains sc c \<and> world_chunk (host_files w) c \<noteq> None} \<le> count_list schedule i)"

lemma host_ready_scan: "host_ready env w sc \<Longrightarrow> hw.scan_ready env w sc"
  by (simp add: host_ready_def hw.scan_ready_def)

lemma host_turns_enough: "host_turns w concurrency cpus sc schedule \<Longrightarrow> ws.enough_turns w concurrency cpus sc schedule"
  by (simp add: host_turns_def ws.enough_turns_def)

lemma id_unusedD:
  "id_unused H db n parents delta \<Longrightarrow> set es = delta \<Longrightarrow> commit_hash H parents (of_nat n) es \<notin> set (ids_of (commits_view db))"
  by (simp add: id_unused_def)

text \<open>The id of a commit depends on the set of its rows alone.\<close>

lemma commit_hash_rows: "set es = set es' \<Longrightarrow> commit_hash H parents t es = commit_hash H parents t es'"
  using commit_preimage_cong [of parents parents es es' t] by (simp add: commit_hash_def)

lemma id_unused_list:
  assumes "commit_hash H parents (of_nat n) es \<notin> set (ids_of (commits_view db))"
  shows "id_unused H db n parents (set es)"
  unfolding id_unused_def
proof (intro allI impI)
  fix es'
  assume "set es' = set es"
  then have "commit_hash H parents (of_nat n) es' = commit_hash H parents (of_nat n) es" by (rule commit_hash_rows)
  then show "commit_hash H parents (of_nat n) es' \<notin> set (ids_of (commits_view db))" using assms by (simp only:) simp
qed

subsection \<open>The operations\<close>

text \<open>What a commit of \<open>w\<close> over \<open>db\<close> and \<open>bs\<close> that answers \<open>rep\<close> leaves behind.\<close>

definition host_recorded ::
  "('d, 'x) chunk_env \<Rightarrow> (bytes \<Rightarrow> hash32) \<Rightarrow> host_world \<Rightarrow> scope \<Rightarrow> nat \<Rightarrow> commit_id option \<Rightarrow> meta_db \<Rightarrow> blob_db
     \<Rightarrow> commit_report \<Rightarrow> meta_db \<Rightarrow> blob_db \<Rightarrow> bool" where
  "host_recorded env H w sc n h db bs rep db' bs' \<longleftrightarrow>
     (let base = head_state db h; scan = world_scan env (host_files w) sc in
      wf_db db' \<and> wf_blobs bs' \<and> head_view db' = Some (Some (rep_commit rep))
      \<and> (\<exists>es. set es = scan_delta base scan sc \<and> rep_commit rep = commit_hash H (parent_list h) (of_nat n) es)
      \<and> commits_view db' = commits_view db @ [commit_new (rep_commit rep) (of_nat n) (parent_list h)]
      \<and> chunk_view db' (rep_commit rep) = commit_result base scan sc
      \<and> (\<forall>i \<in> set (ids_of (commits_view db)). chunk_view db' i = chunk_view db i)
      \<and> rep_chunks rep = card {c. scope_contains sc c \<and> world_chunk (host_files w) c \<noteq> None}
      \<and> rep_new_blobs rep = card {h. blobs_view bs h = None \<and> (\<exists>c. scan c = Some h)}
      \<and> rep_tombstones rep = card {c. scope_contains sc c \<and> scan c = None \<and> present_at base c \<noteq> None}
      \<and> (\<forall>h. blobs_view bs' h \<noteq> None \<longleftrightarrow> blobs_view bs h \<noteq> None \<or> (\<exists>c. scan c = Some h))
      \<and> (\<forall>h q. blobs_view bs h = Some q \<longrightarrow> blobs_view bs' h = Some q)
      \<and> (\<forall>h q. blobs_view bs' h = Some q \<longrightarrow> blobs_view bs h = Some q \<or> (\<exists>c. scan_of env (host_files w) sc (c, h, q))))"

lemma host_recordedD:
  assumes "host_recorded env H w sc n h db bs rep db' bs'"
  shows "wf_db db'" "wf_blobs bs'" "head_view db' = Some (Some (rep_commit rep))"
    "commits_view db' = commits_view db @ [commit_new (rep_commit rep) (of_nat n) (parent_list h)]"
    "chunk_view db' (rep_commit rep) = commit_result (head_state db h) (world_scan env (host_files w) sc) sc"
    "\<forall>i \<in> set (ids_of (commits_view db)). chunk_view db' i = chunk_view db i"
    "\<forall>k. blobs_view bs' k \<noteq> None \<longleftrightarrow> blobs_view bs k \<noteq> None \<or> (\<exists>c. world_scan env (host_files w) sc c = Some k)"
  using assms unfolding host_recorded_def Let_def by blast+

lemma host_commit_recorded:
  assumes w: "host_valid w" and db: "wf_db db" and bs: "wf_blobs bs" and ready: "host_ready env w sc"
    and h: "head_view db = Some h" and n: "n < 2 ^ 63"
    and new: "id_unused H db n (parent_list h) (scan_delta (head_state db h) (world_scan env (host_files w) sc) sc)"
    and run: "commit_world env host_port sqlite_blob (sqlite_port H) w concurrency cpus schedule sc (Some n)
      \<lparr>store_meta = db, store_blob = bs\<rparr> = (Some r, st)"
  shows "\<exists>rep db' bs'. r = Inr rep \<and> st = \<lparr>store_meta = db', store_blob = bs'\<rparr>
    \<and> host_recorded env H w sc n h db bs rep db' bs'"
  using ws.commit_recorded [OF w db bs host_ready_scan [OF ready] h n _ run] new head_state_base [OF h]
  by (simp add: host_recorded_def Let_def id_unused_def)

lemma host_commit_answers:
  assumes "host_valid w" "wf_db db" "wf_blobs bs" "host_ready env w sc" "host_turns w concurrency cpus sc schedule"
  shows "fst (commit_world env host_port sqlite_blob (sqlite_port H) w concurrency cpus schedule sc clock \<lparr>store_meta = db, store_blob = bs\<rparr>) \<noteq> None"
    "status_world env host_port sqlite_blob (sqlite_port H) w concurrency cpus schedule sc \<lparr>store_meta = db, store_blob = bs\<rparr> \<noteq> None"
  using ws.commit_answers [OF assms(1-3) host_ready_scan [OF assms(4)] host_turns_enough [OF assms(5)]] by blast+

text \<open>Enough turns: the commit succeeds.\<close>

lemma host_commit_succeeds:
  assumes "host_valid w" "wf_db db" "wf_blobs bs" "host_ready env w sc" "head_view db = Some h" "n < 2 ^ 63"
    and "id_unused H db n (parent_list h) (scan_delta (head_state db h) (world_scan env (host_files w) sc) sc)"
    and turns: "host_turns w concurrency cpus sc schedule"
  shows "\<exists>rep db' bs'. commit_world env host_port sqlite_blob (sqlite_port H) w concurrency cpus schedule sc (Some n)
      \<lparr>store_meta = db, store_blob = bs\<rparr> = (Some (Inr rep), \<lparr>store_meta = db', store_blob = bs'\<rparr>)
    \<and> host_recorded env H w sc n h db bs rep db' bs'"
proof -
  let ?run = "commit_world env host_port sqlite_blob (sqlite_port H) w concurrency cpus schedule sc (Some n) \<lparr>store_meta = db, store_blob = bs\<rparr>"
  obtain a st where run: "?run = (a, st)" by fastforce
  then obtain r where r: "a = Some r" using host_commit_answers(1) [OF assms(1-4) turns, of H "Some n"] by auto
  show ?thesis using host_commit_recorded [OF assms(1-7) run [unfolded r]] run r by blast
qed

end
