(* ===== verification/App_Examples.thy ===== *)
theory App_Examples
  imports App_Host Anvil_Properties
begin

section \<open>A world to look at\<close>

text \<open>
  The inputs of the witnesses of the application layer: an empty world, the world a checkout of
  commit 13 of \<open>demo_db\<close> writes into it, which holds one region file with one chunk, and the
  environment that gives that chunk a key.
\<close>

definition demo_empty :: host_world where
  "demo_empty = \<lparr>hw_root = [lit ''world''], hw_dirs = [(coord_dim (demo_coord 0), [lit ''world''])], hw_root_is_dir = True, hw_files = []\<rparr>"

definition demo_store :: "(meta_db, blob_db) store" where
  "demo_store = \<lparr>store_meta = demo_db, store_blob = demo_blobs\<rparr>"

definition demo_checkout :: "(app_error, checkout_report) result \<times> host_world checkout_run" where
  "demo_checkout = checkout host_port sqlite_blob (sqlite_port demo_H) demo_store 13 checkout_options_default World demo_empty"

definition demo_world :: host_world where
  "demo_world = run_world (snd demo_checkout)"

definition demo_env :: "(unit, unit) chunk_env" where
  "demo_env = \<lparr>env_digest = demo_H, env_codec = demo_codec, env_nbt = demo_nbt\<rparr>"

subsection \<open>The store and the empty world\<close>

lemma demo_empty_valid: "host_valid demo_empty" "host_dims demo_empty = {coord_dim (demo_coord 0)}" "host_files demo_empty k = None"
  by (simp_all add: host_valid_def host_dims_def host_files_def host_find_def demo_empty_def om_ok_def om_get_def)

lemma demo_present: "present_at (chunk_view demo_db 13) c = (if c = demo_coord 0 then Some 7 else None)"
proof -
  have "map_option he_blob (om_get c (pv_state demo_prev)) = map_option Some (present_at (head_state demo_db (Some 13)) c)"
    using sqa.plan_commit_spec [OF demo_wf, of demo_H "[region_key_of (demo_coord 0)]" World]
      demo_commit(1) head_state_base [OF demo_commit(2)] by auto
  then have "map_option Some (present_at (chunk_view demo_db 13) c) = (if c = demo_coord 0 then Some (Some 7) else None)"
    using demo_prev_at [of c] by (simp add: head_state_def)
  then show ?thesis by (auto split: if_splits)
qed

lemma demo_head_state: "head_state demo_db (Some 13) = chunk_view demo_db 13"
  by (simp add: head_state_def)

lemma demo_found: "find_record (commits_view demo_db) 13 = Some (commit_new 13 300 [12])"
  by code_simp

lemma demo_stored:
  assumes "present_at (chunk_view demo_db 13) c = Some h"
  shows "case blobs_view demo_blobs h of None \<Rightarrow> policy = SkipChunk | Some p \<Rightarrow> storable p"
proof -
  have "h = 7" using assms by (simp add: demo_present split: if_splits)
  then show ?thesis by (simp add: demo_blobs_view storable_def)
qed

lemma demo_blobs_storable: "blobs_view demo_blobs h = Some q \<Longrightarrow> storable q"
  by (auto simp: blobs_view_def find_blob_def demo_blobs_def storable_def split: if_splits)

lemma demo_regions: "{k. (\<exists>c. region_key_of c = k \<and> present_at (chunk_view demo_db 13) c \<noteq> None)} = {region_key_of (demo_coord 0)}"
  by (auto simp: demo_present split: if_splits)

lemma demo_one_region:
  "card {k. scope_matches_region World k \<and> (\<exists>c. region_key_of c = k \<and> present_at (chunk_view demo_db 13) c \<noteq> None)} = 1"
  using demo_regions by simp

subsection \<open>The world of commit 13\<close>

lemma demo_world_is:
  "host_valid demo_world" "host_dims demo_world = {coord_dim (demo_coord 0)}"
  "world_chunk (host_files demo_world) c = (if c = demo_coord 0 then Some [3, 4] else None)"
  "host_files demo_world k = Some bs \<Longrightarrow> clean_file k bs"
  "host_files demo_world k \<noteq> None \<longleftrightarrow> k = region_key_of (demo_coord 0)"
proof -
  have "\<exists>rep run. demo_checkout = (Inr rep, run)
    \<and> host_valid (run_world run) \<and> host_dims (run_world run) = host_dims demo_empty
    \<and> (\<forall>k. \<not> scope_matches_region World k \<longrightarrow> host_files (run_world run) k = host_files demo_empty k)
    \<and> (\<forall>c. scope_matches_region World (region_key_of c) \<longrightarrow> world_chunk (host_files (run_world run)) c
          = checked_out checkout_options_default (chunk_view demo_db 13) (blobs_view demo_blobs) (host_files demo_empty) c)
    \<and> (\<forall>k bs. host_files (run_world run) k = Some bs \<longrightarrow> clean_file k bs \<or> host_files demo_empty k = Some bs)
    \<and> (\<forall>k. \<not> (\<exists>c. region_key_of c = k \<and> present_at (chunk_view demo_db 13) c \<noteq> None)
          \<longrightarrow> host_files (run_world run) k = None \<or> host_files (run_world run) k = host_files demo_empty k)
    \<and> rpt_files_written rep = card {k. scope_matches_region World k
          \<and> (\<exists>c. region_key_of c = k \<and> present_at (chunk_view demo_db 13) c \<noteq> None)}"
    unfolding demo_checkout_def demo_store_def
  proof (rule hc.checkout_restores [OF demo_wf demo_empty_valid(1) demo_blobs_wf demo_found])
    show "opt_missing_file checkout_options_default \<noteq> FailOnMissing \<and> coord_dim c \<in> host_dims demo_empty"
      if "present_at (chunk_view demo_db 13) c \<noteq> None" for c
      using that by (simp add: demo_present demo_empty_valid checkout_options_default_def split: if_splits)
  qed (simp_all add: demo_stored demo_empty_valid)
  then obtain rep run where run: "demo_checkout = (Inr rep, run)" "host_valid (run_world run)"
      "host_dims (run_world run) = host_dims demo_empty"
      "\<forall>c. world_chunk (host_files (run_world run)) c
          = checked_out checkout_options_default (chunk_view demo_db 13) (blobs_view demo_blobs) (host_files demo_empty) c"
      "\<forall>k bs. host_files (run_world run) k = Some bs \<longrightarrow> clean_file k bs"
      "\<forall>k. \<not> (\<exists>c. region_key_of c = k \<and> present_at (chunk_view demo_db 13) c \<noteq> None) \<longrightarrow> host_files (run_world run) k = None"
    by (auto simp: demo_empty_valid(3))
  have world: "demo_world = run_world run" by (simp add: demo_world_def run(1))
  have stored: "blobs_view demo_blobs h \<noteq> None" if "present_at (chunk_view demo_db 13) c = Some h" for c h
    using that by (auto simp: demo_present demo_blobs_view split: if_splits)
  show chunk: "world_chunk (host_files demo_world) c = (if c = demo_coord 0 then Some [3, 4] else None)" for c
    unfolding world run(4) [rule_format] using stored by (subst checked_out_default) (simp_all add: demo_present demo_blobs_view)
  show "host_valid demo_world" "host_dims demo_world = {coord_dim (demo_coord 0)}"
    using run(2,3) by (simp_all add: world demo_empty_valid(2))
  show "host_files demo_world k = Some bs \<Longrightarrow> clean_file k bs" using run(5) by (simp add: world)
  show "host_files demo_world k \<noteq> None \<longleftrightarrow> k = region_key_of (demo_coord 0)"
  proof
    assume "host_files demo_world k \<noteq> None"
    then have some: "host_files (run_world run) k \<noteq> None" by (simp only: world not_False_eq_True)
    have "\<exists>d. region_key_of d = k \<and> present_at (chunk_view demo_db 13) d \<noteq> None"
    proof (rule ccontr)
      assume none: "\<not> (\<exists>d. region_key_of d = k \<and> present_at (chunk_view demo_db 13) d \<noteq> None)"
      have "host_files (run_world run) k = None" by (rule run(6) [rule_format, OF none])
      then show False by (rule notE [OF some])
    qed
    then obtain d where d: "region_key_of d = k" "present_at (chunk_view demo_db 13) d \<noteq> None" by blast
    have "d = demo_coord 0" using d(2) unfolding demo_present by (rule contrapos_np) simp
    then show "k = region_key_of (demo_coord 0)" using d(1) by (simp only:)
  next
    assume k: "k = region_key_of (demo_coord 0)"
    show "host_files demo_world k \<noteq> None"
      using chunk [of "demo_coord 0"] unfolding k by (cases "host_files demo_world (region_key_of (demo_coord 0))") (simp_all add: world_chunk_def)
  qed
qed

subsection \<open>Its scan\<close>

lemma demo_raw: "compression_of 3 = Inr Raw"
  by code_simp

lemma demo_decompress: "decompress_into lib [3, 4] [] = Some ([4], Inr Raw)"
  by (simp add: decompress_into_def demo_raw MAX_DECOMPRESSED_def)

lemma demo_key: "chunk_key demo_H demo_nbt Region [4] = Inr 2"
  using demo_normalize [of "Suc 0"]
  by (simp add: chunk_key_def parse_nbt_def nbt_chunk_hash_def modern_hash_def demo_nbt_def demo_H_def)

lemma demo_hash: "hash_chunk demo_env (chunk_of (demo_coord 0) [3, 4]) = Some (Inr 2)"
  by (simp add: hash_chunk_def demo_env_def normalized_hash_def chunk_of_def chunk_new_def demo_decompress)
    (simp add: demo_coord_def demo_key)

lemma demo_ready: "host_ready demo_env demo_world sc"
  unfolding host_ready_def hashable_def using demo_hash by (auto simp: demo_world_is split: if_splits)

lemma demo_world_scan: "world_scan demo_env (host_files demo_world) World c = (if c = demo_coord 0 then Some 2 else None)"
  by (simp add: world_scan_def demo_world_is demo_hash)

lemma demo_delta:
  "scan_delta (head_state demo_db (Some 13)) (world_scan demo_env (host_files demo_world) World) World
    = set [CommitEntry (demo_coord 0) (Some 2)]"
  by (auto simp: scan_delta_def demo_head_state demo_present demo_world_scan split: if_splits)

lemma demo_unused:
  "id_unused demo_H demo_db 400 (parent_list (Some 13))
     (scan_delta (head_state demo_db (Some 13)) (world_scan demo_env (host_files demo_world) World) World)"
  unfolding demo_delta
  by (rule id_unused_list, unfold demo_commit(3))
    (simp add: parent_list_def commit_hash_def demo_H_def commit_preimage_def sort_dedup_def
      entry_bytes_def optional_blob_bytes_def DOMAIN_def Let_def)

lemma demo_turns:
  assumes "4 \<le> count_list schedule 0"
  shows "host_turns demo_world concurrency cpus World schedule"
proof -
  have "{k. scope_matches_region World k \<and> host_files demo_world k \<noteq> None} = {region_key_of (demo_coord 0)}"
    unfolding demo_world_is(5) by auto
  moreover have "{c. scope_contains World c \<and> world_chunk (host_files demo_world) c \<noteq> None} = {demo_coord 0}"
    by (auto simp: demo_world_is(3) split: if_splits)
  ultimately show ?thesis using assms by (auto simp: host_turns_def worker_count_def Let_def)
qed

end
