(* ===== verification/App_Properties.thy ===== *)
theory App_Properties
  imports App_Examples Store_Properties
begin

section \<open>Properties of the application layer\<close>

text \<open>
  The operations of \<open>crates/app\<close> on a host world over the SQLite stores: each property is a fact of the
  locale its operation is proved in, read through an interpretation, with the statement written out
  over the model's definitions. \<open>App_Examples\<close> holds the inputs of the witnesses.
\<close>

subsection \<open>Checkout\<close>

text \<open>C3: A checkout whose blobs are stored and whose missing files have a place succeeds, whatever the
  options: every chunk of the scope then is what the options make of the commit and of the world before,
  no file outside the scope has changed, and the report counts the files that hold a chunk of the commit.\<close>

theorem checkout_contract:
  assumes "wf_db db" "host_valid w" "wf_blobs bs" "find_record (commits_view db) i = Some rec"
    and "\<forall>c h. scope_matches_region sc (region_key_of c) \<longrightarrow> present_at (chunk_view db i) c = Some h
      \<longrightarrow> (case blobs_view bs h of None \<Rightarrow> opt_missing_blob options = SkipChunk | Some p \<Rightarrow> storable p)"
    and "\<forall>c. scope_matches_region sc (region_key_of c) \<longrightarrow> present_at (chunk_view db i) c \<noteq> None
      \<longrightarrow> host_files w (region_key_of c) = None \<longrightarrow> opt_missing_file options \<noteq> FailOnMissing \<and> coord_dim c \<in> host_dims w"
    and "\<forall>k f. opt_keep_chunks options \<or> opt_keep_tombstoned options \<longrightarrow> scope_matches_region sc k
      \<longrightarrow> host_files w k = Some f \<longrightarrow> clean_file k f"
  shows "\<exists>rep run. checkout host_port sqlite_blob (sqlite_port H) \<lparr>store_meta = db, store_blob = bs\<rparr> i options sc w = (Inr rep, run)
    \<and> host_valid (run_world run) \<and> host_dims (run_world run) = host_dims w
    \<and> (\<forall>k. \<not> scope_matches_region sc k \<longrightarrow> host_files (run_world run) k = host_files w k)
    \<and> (\<forall>c. scope_matches_region sc (region_key_of c) \<longrightarrow> world_chunk (host_files (run_world run)) c
          = checked_out options (chunk_view db i) (blobs_view bs) (host_files w) c)
    \<and> (\<forall>k f. host_files (run_world run) k = Some f \<longrightarrow> clean_file k f \<or> host_files w k = Some f)
    \<and> (\<forall>k. \<not> (\<exists>c. region_key_of c = k \<and> present_at (chunk_view db i) c \<noteq> None)
          \<longrightarrow> host_files (run_world run) k = None \<or> host_files (run_world run) k = host_files w k)
    \<and> rpt_files_written rep = card {k. scope_matches_region sc k
          \<and> (\<exists>c. region_key_of c = k \<and> present_at (chunk_view db i) c \<noteq> None)}"
  by (rule hc.checkout_restores [OF assms(1-4)]) (use assms(5-7) in blast)+

theorem checkout_contract_witness:
  "\<exists>rep run. checkout host_port sqlite_blob (sqlite_port demo_H) \<lparr>store_meta = demo_db, store_blob = demo_blobs\<rparr> 13
      checkout_options_default World demo_empty = (Inr rep, run) \<and> rpt_files_written rep = 1"
proof -
  have stored: "\<forall>c h. scope_matches_region World (region_key_of c) \<longrightarrow> present_at (chunk_view demo_db 13) c = Some h
      \<longrightarrow> (case blobs_view demo_blobs h of None \<Rightarrow> opt_missing_blob checkout_options_default = SkipChunk | Some p \<Rightarrow> storable p)"
    using demo_stored by blast
  have place: "\<forall>c. scope_matches_region World (region_key_of c) \<longrightarrow> present_at (chunk_view demo_db 13) c \<noteq> None
      \<longrightarrow> host_files demo_empty (region_key_of c) = None
      \<longrightarrow> opt_missing_file checkout_options_default \<noteq> FailOnMissing \<and> coord_dim c \<in> host_dims demo_empty"
    by (simp add: demo_present demo_empty_valid checkout_options_default_def)
  have clean: "\<forall>k f. opt_keep_chunks checkout_options_default \<or> opt_keep_tombstoned checkout_options_default \<longrightarrow> scope_matches_region World k
      \<longrightarrow> host_files demo_empty k = Some f \<longrightarrow> clean_file k f"
    by (simp add: demo_empty_valid)
  show ?thesis
    using checkout_contract [OF demo_wf demo_empty_valid(1) demo_blobs_wf demo_found stored place clean, of demo_H]
    unfolding demo_one_region by blast
qed

text \<open>C8: However a checkout ends, the world stays valid, its dimensions stay, and no file outside the
  scope has changed.\<close>

theorem checkout_stays_in_scope:
  assumes "wf_db db" "host_valid w"
    and "checkout host_port sqlite_blob (sqlite_port H) \<lparr>store_meta = db, store_blob = bs\<rparr> i options sc w = (ended, run)"
  shows "host_valid (run_world run) \<and> host_dims (run_world run) = host_dims w
    \<and> (\<forall>k. \<not> scope_matches_region sc k \<longrightarrow> host_files (run_world run) k = host_files w k)"
  by (rule hc.checkout_keeps_rest [OF assms])

theorem checkout_stays_in_scope_witness:
  "\<exists>ended run. checkout host_port sqlite_blob (sqlite_port demo_H) \<lparr>store_meta = demo_db, store_blob = demo_blobs\<rparr> 11
      checkout_options_default (Kinds [Poi]) demo_world = (ended, run)
    \<and> host_files (run_world run) (region_key_of (demo_coord 0)) \<noteq> None"
proof -
  obtain ended run where r: "checkout host_port sqlite_blob (sqlite_port demo_H) \<lparr>store_meta = demo_db, store_blob = demo_blobs\<rparr> 11
      checkout_options_default (Kinds [Poi]) demo_world = (ended, run)" by fastforce
  have "\<not> scope_matches_region (Kinds [Poi]) (region_key_of (demo_coord 0))" by (simp add: demo_coord_def)
  then have "host_files (run_world run) (region_key_of (demo_coord 0)) = host_files demo_world (region_key_of (demo_coord 0))"
    using checkout_stays_in_scope [OF demo_wf demo_world_is(1) r] by blast
  moreover have "host_files demo_world (region_key_of (demo_coord 0)) \<noteq> None" using demo_world_is(5) by blast
  ultimately show ?thesis using r by metis
qed

text \<open>C9: Cloning a commit into an empty world writes every chunk of the scope under its key and nothing
  else, whatever part of the writes has been done when the next file is built.\<close>

theorem clone_writes_commit:
  assumes "wf_db db" "host_valid out" "wp_is_empty host_port out = Inr True" "wf_blobs bs"
    and "find_record (commits_view db) i = Some rec"
    and "\<forall>k. scope_matches_region sc k \<longrightarrow> host_files out k = None"
    and "\<forall>c h. scope_matches_region sc (region_key_of c) \<longrightarrow> present_at (chunk_view db i) c = Some h
      \<longrightarrow> (case blobs_view bs h of None \<Rightarrow> policy = SkipChunk | Some p \<Rightarrow> storable p)"
    and "\<forall>c. scope_matches_region sc (region_key_of c) \<longrightarrow> present_at (chunk_view db i) c \<noteq> None \<longrightarrow> coord_dim c \<in> host_dims out"
  shows "\<exists>rep prog out'. clone_to host_port sqlite_blob (sqlite_port H) \<lparr>store_meta = db, store_blob = bs\<rparr> i policy sc drains out
      = ((Inr rep, prog), out')
    \<and> host_valid out' \<and> host_dims out' = host_dims out
    \<and> (\<forall>c. scope_matches_region sc (region_key_of c)
          \<longrightarrow> world_chunk (host_files out') c = Option.bind (present_at (chunk_view db i) c) (blobs_view bs))
    \<and> (\<forall>k. \<not> scope_matches_region sc k \<longrightarrow> host_files out' k = host_files out k)
    \<and> clr_files_written rep = card {k. scope_matches_region sc k \<and> (\<exists>c. region_key_of c = k \<and> present_at (chunk_view db i) c \<noteq> None)}
    \<and> length prog = clr_files_written rep"
  by (rule hc.clone_restores [OF assms(1-5)]) (use assms(6-8) in blast)+

theorem clone_writes_commit_witness:
  "\<exists>rep prog out'. clone_to host_port sqlite_blob (sqlite_port demo_H) \<lparr>store_meta = demo_db, store_blob = demo_blobs\<rparr> 13
      AbortOnMissing World (\<lambda>_. 0) demo_empty = ((Inr rep, prog), out')
    \<and> world_chunk (host_files out') (demo_coord 0) = Some [3, 4] \<and> length prog = 1"
proof -
  have empty: "wp_is_empty host_port demo_empty = Inr True"
    by (simp add: host_port_def host_is_empty_def demo_empty_def)
  have none: "\<forall>k. scope_matches_region World k \<longrightarrow> host_files demo_empty k = None" by (simp add: demo_empty_valid)
  have stored: "\<forall>c h. scope_matches_region World (region_key_of c) \<longrightarrow> present_at (chunk_view demo_db 13) c = Some h
      \<longrightarrow> (case blobs_view demo_blobs h of None \<Rightarrow> AbortOnMissing = SkipChunk | Some p \<Rightarrow> storable p)"
    using demo_stored by blast
  have place: "\<forall>c. scope_matches_region World (region_key_of c) \<longrightarrow> present_at (chunk_view demo_db 13) c \<noteq> None
      \<longrightarrow> coord_dim c \<in> host_dims demo_empty"
    by (simp add: demo_present demo_empty_valid)
  obtain rep prog out' where out: "clone_to host_port sqlite_blob (sqlite_port demo_H) \<lparr>store_meta = demo_db, store_blob = demo_blobs\<rparr> 13
        AbortOnMissing World (\<lambda>_. 0) demo_empty = ((Inr rep, prog), out')"
      "\<forall>c. scope_matches_region World (region_key_of c)
          \<longrightarrow> world_chunk (host_files out') c = Option.bind (present_at (chunk_view demo_db 13) c) (blobs_view demo_blobs)"
      "clr_files_written rep = 1" "length prog = clr_files_written rep"
    using clone_writes_commit [OF demo_wf demo_empty_valid(1) empty demo_blobs_wf demo_found none stored place, of demo_H "\<lambda>_. 0"]
    unfolding demo_one_region by blast
  have "world_chunk (host_files out') (demo_coord 0) = Some [3, 4]"
    using out(2) by (simp add: demo_present demo_blobs_view)
  then show ?thesis using out(1,3,4) by simp
qed

subsection \<open>Staging\<close>

text \<open>C11: What staging a file hands to the blob store and to the history fits together, whatever the file
  holds: one row with a key and one payload with the same key per chunk, every row about a chunk of the
  file's dimension and kind that the scope holds, and the set of chunks present those of the rows.\<close>

theorem staged_rows_typed:
  assumes "stage_file env wp w r k sc = Some (Inr sg)"
  shows "map (Some \<circ> fst) (sg_writes sg) = map entry_blob (sg_entries sg)
     \<and> sg_present sg = entry_coord ` set (sg_entries sg) \<and> sg_chunks sg = length (sg_entries sg)
     \<and> (\<forall>e \<in> set (sg_entries sg). coord_dim (entry_coord e) = key_dim k \<and> coord_kind (entry_coord e) = key_kind k
          \<and> scope_contains sc (entry_coord e))"
  using stage_file_wf [OF assms] unfolding staged_wf_def .

theorem staged_rows_typed_witness:
  "\<exists>r sg. stage_file demo_env host_port demo_world r (region_key_of (demo_coord 0)) World = Some (Inr sg)
    \<and> sg_chunks sg = length (sg_entries sg)"
proof -
  let ?k = "region_key_of (demo_coord 0)"
  obtain bs where bs: "host_files demo_world ?k = Some bs" using demo_world_is(5) [of ?k] by blast
  then obtain r where r: "host_find demo_world ?k = Some r" by (auto simp: host_files_def bind_eq_Some_conv)
  then have "spells demo_world ?k r" unfolding host_find_def find_Some_iff by blast
  then have nm: "host_names demo_world ?k r" using r by (simp add: host_names_def)
  have hash: "hashable demo_env (host_files demo_world) World" using demo_ready [of World] by (simp add: host_ready_def)
  obtain sg where sg: "stage_file demo_env host_port demo_world r ?k World = Some (Inr sg)"
    using hw.stage_file_rows [OF demo_world_is(1) nm bs demo_world_is(4) [OF bs] hash] by blast
  show ?thesis using sg staged_rows_typed [OF sg] by blast
qed

subsection \<open>Refs and scopes\<close>

text \<open>Creating a ref: the unknown target is reported first, then the name in use without \<open>force\<close>. A
  ref that was created or moved is the one the store then holds; a moved ref keeps its activity and
  its creation time, and every other ref stays.\<close>

lemma create_ref_outcome:
  fixes c :: "commit_id option"
  assumes "wf_db db" "valid_ref_name (ref_str n)"
  defines "target_ok \<equiv> \<forall>i. c = Some i \<longrightarrow> i \<in> set (ids_of (commits_view db))"
  shows "(\<not> target_ok \<longrightarrow> create_ref (sqlite_port H) clock n c force db = Inl (AeCommitRef (ReUnknownCommit (the c))))
    \<and> (target_ok \<longrightarrow> refs_view db n \<noteq> None \<longrightarrow> \<not> force
        \<longrightarrow> create_ref (sqlite_port H) clock n c force db = Inl (AeRefExists (ref_str n)))
    \<and> (\<forall>r db'. create_ref (sqlite_port H) clock n c force db = Inr (r, db') \<longrightarrow>
        wf_db db' \<and> refs_view db' = (refs_view db)(n := Some r) \<and> target_ok \<and> cr_name r = n \<and> cr_commit r = c
        \<and> (case refs_view db n of
             None \<Rightarrow> \<not> cr_active r \<and> clock = Some (unat (cr_created_at_ms r))
           | Some old \<Rightarrow> force \<and> r = old\<lparr>cr_commit := c\<rparr>))"
proof -
  have known: "target_ok \<longleftrightarrow> aref.target_known db c" by (simp add: target_ok_def aref.target_known_def)
  have "create_ref (sqlite_port H) clock n c force db = Inl (AeCommitRef (ReUnknownCommit (the c)))" if "\<not> target_ok"
    using that aref.target_check [OF assms(1), of H c] by (simp add: create_ref_def known)
  moreover have "create_ref (sqlite_port H) clock n c force db = Inl (AeRefExists (ref_str n))"
    if "target_ok" "refs_view db n \<noteq> None" "\<not> force"
    using that aref.create_ref_refused [OF assms(1) that(2), of H clock c] by (simp add: known)
  ultimately show ?thesis using aref.create_ref_ok [OF assms(1,2)] unfolding known by blast
qed

text \<open>A scope that was created is stored under its name with its areas in canonical order, resolves to
  the selection of its rectangles, and replaces an older one only with \<open>force\<close>, keeping its creation time.\<close>

lemma created_scope_resolves:
  assumes "wf_db db" "valid_name (scope_str n)" "create_scope (sqlite_port H) clock n areas force db = Inr (s, db')"
  shows "wf_db db' \<and> scopes_view db' = (scopes_view db)(n := Some s) \<and> normal_areas (ns_areas s)
    \<and> (case scopes_view db n of
         None \<Rightarrow> clock = Some (unat (ns_created_at_ms s))
       | Some old \<Rightarrow> force \<and> ns_created_at_ms s = ns_created_at_ms old)
    \<and> resolve_scope (sqlite_port H) db' n = Inr (to_scope s)"
  by (rule create_scope_ok [OF assms])

end
