(* ===== verification/Workspace_Properties.thy ===== *)
theory Workspace_Properties
  imports App_Examples
begin

section \<open>Properties of commit, status and diff\<close>

text \<open>
  Commits of a host world into the SQLite stores, with any number of workers under any schedule, and
  what status, checkout and diff answer afterwards. The worlds, scopes and runs of the witnesses come
  first.
\<close>

subsection \<open>Runs to look at\<close>

lemma demo_run:
  assumes "4 \<le> count_list schedule 0"
  shows "\<exists>rep db' bs'. commit_world demo_env host_port sqlite_blob (sqlite_port demo_H) demo_world concurrency cpus schedule World (Some 400)
      \<lparr>store_meta = demo_db, store_blob = demo_blobs\<rparr> = (Some (Inr rep), \<lparr>store_meta = db', store_blob = bs'\<rparr>)
    \<and> host_recorded demo_env demo_H demo_world World 400 (Some 13) demo_db demo_blobs rep db' bs'"
  by (rule host_commit_succeeds [OF demo_world_is(1) demo_wf demo_blobs_wf demo_ready demo_commit(2) _ demo_unused demo_turns [OF assms]]) simp

text \<open>A scope of one chunk whose region file also holds another, and a world without that file.\<close>

definition demo_part :: scope where
  "demo_part = Select [Region] [(coord_dim (demo_coord 1), AreaChunks [demo_coord 1])]"

lemma demo_part_scan:
  "scope_contains demo_part c \<longleftrightarrow> c = demo_coord 1"
  "world_scan env (host_files demo_empty) sc c = None"
  by (auto simp: demo_part_def demo_coord_def world_scan_def world_chunk_def demo_empty_valid(3) split: option.splits)

lemma demo_part_new: "id_unused demo_H demo_db 400 (parent_list (Some 13))
    (scan_delta (head_state demo_db (Some 13)) (world_scan env (host_files demo_empty) demo_part) demo_part)"
proof -
  have "demo_coord 1 \<noteq> demo_coord 0" by code_simp
  then have "scan_delta (head_state demo_db (Some 13)) (world_scan env (host_files demo_empty) demo_part) demo_part = set []"
    by (auto simp: scan_delta_def demo_part_scan demo_head_state demo_present)
  moreover have "id_unused demo_H demo_db 400 (parent_list (Some 13)) (set [])"
    by (rule id_unused_list, unfold demo_commit(3))
      (simp add: parent_list_def commit_hash_def demo_H_def commit_preimage_def sort_dedup_def DOMAIN_def Let_def)
  ultimately show ?thesis by simp
qed

lemma demo_part_ready: "host_ready env demo_empty sc"
  by (simp add: host_ready_def hashable_def world_chunk_def demo_empty_valid(3))

lemma demo_part_turns: "host_turns demo_empty 1 None sc [0]"
  by (simp add: host_turns_def worker_count_def demo_empty_valid(3) world_chunk_def)

lemma demo_part_run:
  "\<exists>rep db' bs' s. commit_world demo_env host_port sqlite_blob (sqlite_port demo_H) demo_empty 1 None [0] demo_part (Some 400)
      \<lparr>store_meta = demo_db, store_blob = demo_blobs\<rparr> = (Some (Inr rep), \<lparr>store_meta = db', store_blob = bs'\<rparr>)
    \<and> status_world demo_env host_port sqlite_blob (sqlite_port demo_H) demo_empty 1 None [0] demo_part \<lparr>store_meta = db', store_blob = bs'\<rparr> = Some s"
proof -
  have n: "(400 :: nat) < 2 ^ 63" by simp
  obtain rep db' bs' where run: "commit_world demo_env host_port sqlite_blob (sqlite_port demo_H) demo_empty 1 None [0] demo_part (Some 400)
        \<lparr>store_meta = demo_db, store_blob = demo_blobs\<rparr> = (Some (Inr rep), \<lparr>store_meta = db', store_blob = bs'\<rparr>)"
      "host_recorded demo_env demo_H demo_empty demo_part 400 (Some 13) demo_db demo_blobs rep db' bs'"
    using host_commit_succeeds [OF demo_empty_valid(1) demo_wf demo_blobs_wf demo_part_ready demo_commit(2) n demo_part_new demo_part_turns]
    by blast
  note wf = host_recordedD(1,2) [OF run(2)]
  show ?thesis
    using run(1) host_commit_answers(2) [OF demo_empty_valid(1) wf demo_part_ready demo_part_turns, of demo_env demo_H] by blast
qed

subsection \<open>Commit\<close>

text \<open>C1: A commit of a world whose chunks of the scope all have keys records, once its workers have
  answered, exactly the scan of the scope over the commit of the active ref: it becomes that ref's
  commit, older commits keep their states, the report counts what was found, and the blob store has
  gained the missing payloads and nothing else.\<close>

theorem commit_captures_world:
  assumes "host_valid w" "wf_db db" "wf_blobs bs" "host_ready env w sc" "head_view db = Some h" "n < 2 ^ 63"
    and "id_unused H db n (parent_list h) (scan_delta (head_state db h) (world_scan env (host_files w) sc) sc)"
    and "commit_world env host_port sqlite_blob (sqlite_port H) w concurrency cpus schedule sc (Some n)
      \<lparr>store_meta = db, store_blob = bs\<rparr> = (Some r, st)"
  shows "\<exists>rep db' bs'. r = Inr rep \<and> st = \<lparr>store_meta = db', store_blob = bs'\<rparr>
    \<and> host_recorded env H w sc n h db bs rep db' bs'"
  by (rule host_commit_recorded [OF assms])

theorem commit_captures_world_witness:
  "\<exists>rep db' bs'. commit_world demo_env host_port sqlite_blob (sqlite_port demo_H) demo_world 1 None [0, 0, 0, 0] World (Some 400)
      \<lparr>store_meta = demo_db, store_blob = demo_blobs\<rparr> = (Some (Inr rep), \<lparr>store_meta = db', store_blob = bs'\<rparr>)
    \<and> chunk_view db' (rep_commit rep) (demo_coord 0) = Some (Some 2)"
proof -
  obtain rep st where run: "commit_world demo_env host_port sqlite_blob (sqlite_port demo_H) demo_world 1 None [0, 0, 0, 0] World (Some 400)
      \<lparr>store_meta = demo_db, store_blob = demo_blobs\<rparr> = (Some (Inr rep), st)"
    using demo_run [of "[0, 0, 0, 0]" 1 None] by auto
  have "(400 :: nat) < 2 ^ 63" by simp
  then obtain db' bs' where "st = \<lparr>store_meta = db', store_blob = bs'\<rparr>"
      "host_recorded demo_env demo_H demo_world World 400 (Some 13) demo_db demo_blobs rep db' bs'"
    using commit_captures_world [OF demo_world_is(1) demo_wf demo_blobs_wf demo_ready demo_commit(2) _ demo_unused run] by auto
  then show ?thesis using run by (simp add: host_recorded_def Let_def commit_result_def demo_world_scan)
qed

text \<open>C6: A commit and a status end and succeed as soon as every worker has had as many turns as the
  files and chunks of the scope can need, however the turns are interleaved.\<close>

theorem commit_ends:
  assumes "host_valid w" "wf_db db" "wf_blobs bs" "host_ready env w sc" "head_view db = Some h" "n < 2 ^ 63"
    and "id_unused H db n (parent_list h) (scan_delta (head_state db h) (world_scan env (host_files w) sc) sc)"
    and "host_turns w concurrency cpus sc schedule"
  shows "(\<exists>rep st. commit_world env host_port sqlite_blob (sqlite_port H) w concurrency cpus schedule sc (Some n)
      \<lparr>store_meta = db, store_blob = bs\<rparr> = (Some (Inr rep), st))
    \<and> (\<exists>s. status_world env host_port sqlite_blob (sqlite_port H) w concurrency cpus schedule sc
      \<lparr>store_meta = db, store_blob = bs\<rparr> = Some (Inr s))"
proof -
  obtain r where r: "status_world env host_port sqlite_blob (sqlite_port H) w concurrency cpus schedule sc
      \<lparr>store_meta = db, store_blob = bs\<rparr> = Some r"
    using host_commit_answers(2) [OF assms(1-4,8), of H] by blast
  then have "\<exists>s. r = Inr s" using ws.status_spec [OF assms(1-3) host_ready_scan [OF assms(4)] r] by blast
  then show ?thesis using r host_commit_succeeds [OF assms] by blast
qed

theorem commit_ends_witness:
  "\<exists>rep st. commit_world demo_env host_port sqlite_blob (sqlite_port demo_H) demo_world 0 None [1, 0, 0, 2, 0, 0] World (Some 400)
      \<lparr>store_meta = demo_db, store_blob = demo_blobs\<rparr> = (Some (Inr rep), st)"
proof -
  have turns: "host_turns demo_world 0 None World [1, 0, 0, 2, 0, 0]" by (rule demo_turns) simp
  show ?thesis
    using commit_ends [OF demo_world_is(1) demo_wf demo_blobs_wf demo_ready demo_commit(2) _ demo_unused turns] by simp
qed

text \<open>C5: Two commits of the same world into the same store at the same time answer the same report, with
  the same id, and leave the same history, the same states and the same stored keys, whatever the
  numbers of workers and the schedules.\<close>

theorem commit_ignores_schedule:
  assumes "host_valid w" "wf_db db" "wf_blobs bs" "host_ready env w sc" "head_view db = Some h" "n < 2 ^ 63"
    and "id_unused H db n (parent_list h) (scan_delta (head_state db h) (world_scan env (host_files w) sc) sc)"
    and "commit_world env host_port sqlite_blob (sqlite_port H) w concurrency cpus schedule sc (Some n)
      \<lparr>store_meta = db, store_blob = bs\<rparr> = (Some r, \<lparr>store_meta = db1, store_blob = bs1\<rparr>)"
    and "commit_world env host_port sqlite_blob (sqlite_port H) w concurrency' cpus' schedule' sc (Some n)
      \<lparr>store_meta = db, store_blob = bs\<rparr> = (Some r', \<lparr>store_meta = db2, store_blob = bs2\<rparr>)"
  shows "r = r' \<and> commits_view db1 = commits_view db2 \<and> head_view db1 = head_view db2
    \<and> (\<forall>i \<in> set (ids_of (commits_view db1)). chunk_view db1 i = chunk_view db2 i)
    \<and> (\<forall>k. blobs_view bs1 k = None \<longleftrightarrow> blobs_view bs2 k = None)"
proof -
  obtain rep where a: "r = Inr rep" "host_recorded env H w sc n h db bs rep db1 bs1"
    using host_commit_recorded [OF assms(1-8)] by auto
  obtain rep' where b: "r' = Inr rep'" "host_recorded env H w sc n h db bs rep' db2 bs2"
    using host_commit_recorded [OF assms(1-7,9)] by auto
  have id: "rep_commit rep = rep_commit rep'"
    using a(2) b(2) unfolding host_recorded_def Let_def by (metis commit_hash_rows)
  have same: "rep = rep'"
    using a(2) b(2) id unfolding host_recorded_def Let_def by (intro commit_report.equality) simp_all
  note x = host_recordedD [OF a(2)] and y = host_recordedD [OF b(2), folded same]
  have "chunk_view db1 i = chunk_view db2 i" if "i \<in> set (ids_of (commits_view db1))" for i
    using that x(4,5,6) y(5,6) by (auto simp: ids_of_def commit_new_def)
  moreover have "blobs_view bs1 k = None \<longleftrightarrow> blobs_view bs2 k = None" for k using x(7) y(7) by blast
  ultimately show ?thesis using same a(1) b(1) x(3,4) y(3,4) by simp
qed

theorem commit_ignores_schedule_witness:
  "\<exists>rep st st'. commit_world demo_env host_port sqlite_blob (sqlite_port demo_H) demo_world 1 None [0, 0, 0, 0] World (Some 400)
      \<lparr>store_meta = demo_db, store_blob = demo_blobs\<rparr> = (Some (Inr rep), st)
    \<and> commit_world demo_env host_port sqlite_blob (sqlite_port demo_H) demo_world 3 None [1, 0, 0, 0, 0] World (Some 400)
      \<lparr>store_meta = demo_db, store_blob = demo_blobs\<rparr> = (Some (Inr rep), st')"
proof -
  obtain rep db1 bs1 where a: "commit_world demo_env host_port sqlite_blob (sqlite_port demo_H) demo_world 1 None [0, 0, 0, 0] World (Some 400)
      \<lparr>store_meta = demo_db, store_blob = demo_blobs\<rparr> = (Some (Inr rep), \<lparr>store_meta = db1, store_blob = bs1\<rparr>)"
    using demo_run [of "[0, 0, 0, 0]" 1 None] by auto
  obtain rep' db2 bs2 where b: "commit_world demo_env host_port sqlite_blob (sqlite_port demo_H) demo_world 3 None [1, 0, 0, 0, 0] World (Some 400)
      \<lparr>store_meta = demo_db, store_blob = demo_blobs\<rparr> = (Some (Inr rep'), \<lparr>store_meta = db2, store_blob = bs2\<rparr>)"
    using demo_run [of "[1, 0, 0, 0, 0]" 3 None] by auto
  have "(400 :: nat) < 2 ^ 63" by simp
  then have "rep = rep'"
    using commit_ignores_schedule [OF demo_world_is(1) demo_wf demo_blobs_wf demo_ready demo_commit(2) _ demo_unused a b] by blast
  then show ?thesis using a b by blast
qed

text \<open>C2: Committing a world and checking the commit out into any valid world with its dimensions gives
  every chunk back under its key: the payload read is one that was stored for that key, and no chunk
  appears that was not committed.\<close>

theorem commit_then_checkout:
  assumes "host_valid w" "wf_db db" "wf_blobs bs" "host_ready env w World" "head_view db = Some h" "n < 2 ^ 63"
    and "id_unused H db n (parent_list h) (scan_delta (head_state db h) (world_scan env (host_files w) World) World)"
    and "commit_world env host_port sqlite_blob (sqlite_port H) w concurrency cpus schedule World (Some n)
      \<lparr>store_meta = db, store_blob = bs\<rparr> = (Some (Inr rep), st)"
    and "host_valid w2" "\<forall>c. world_chunk (host_files w) c \<noteq> None \<longrightarrow> coord_dim c \<in> host_dims w2"
    and "\<forall>h q. blobs_view bs h = Some q \<longrightarrow> storable q"
  shows "\<exists>crep out. checkout host_port sqlite_blob (sqlite_port H) st (rep_commit rep) checkout_options_default World w2 = (Inr crep, out)
    \<and> host_valid (run_world out) \<and> host_dims (run_world out) = host_dims w2
    \<and> (\<forall>c. case world_chunk (host_files w) c of
          None \<Rightarrow> world_chunk (host_files (run_world out)) c = None
        | Some p \<Rightarrow> \<exists>h q. hash_chunk env (chunk_of c p) = Some (Inr h) \<and> world_chunk (host_files (run_world out)) c = Some q
            \<and> (blobs_view bs h = Some q
              \<or> (\<exists>d. world_chunk (host_files w) d = Some q \<and> hash_chunk env (chunk_of d q) = Some (Inr h))))"
  by (rule ws.checkout_of_commit [OF assms(1-3) host_ready_scan [OF assms(4)] assms(5,6) _ assms(8,9)])
    (use id_unusedD [OF assms(7)] head_state_base [OF assms(5)] assms(10,11) in auto)

theorem commit_then_checkout_witness:
  "\<exists>rep st crep out. commit_world demo_env host_port sqlite_blob (sqlite_port demo_H) demo_world 1 None [0, 0, 0, 0] World (Some 400)
      \<lparr>store_meta = demo_db, store_blob = demo_blobs\<rparr> = (Some (Inr rep), st)
    \<and> checkout host_port sqlite_blob (sqlite_port demo_H) st (rep_commit rep) checkout_options_default World demo_empty = (Inr crep, out)
    \<and> world_chunk (host_files (run_world out)) (demo_coord 0) = Some [3, 4]"
proof -
  obtain rep st where run: "commit_world demo_env host_port sqlite_blob (sqlite_port demo_H) demo_world 1 None [0, 0, 0, 0] World (Some 400)
      \<lparr>store_meta = demo_db, store_blob = demo_blobs\<rparr> = (Some (Inr rep), st)"
    using demo_run [of "[0, 0, 0, 0]" 1 None] by auto
  have n: "(400 :: nat) < 2 ^ 63" by simp
  have dims: "\<forall>c. world_chunk (host_files demo_world) c \<noteq> None \<longrightarrow> coord_dim c \<in> host_dims demo_empty"
    by (simp add: demo_world_is demo_empty_valid)
  have stored: "\<forall>h q. blobs_view demo_blobs h = Some q \<longrightarrow> storable q" using demo_blobs_storable by blast
  obtain crep out where out: "checkout host_port sqlite_blob (sqlite_port demo_H) st (rep_commit rep) checkout_options_default World demo_empty = (Inr crep, out)"
      "\<forall>c. case world_chunk (host_files demo_world) c of
          None \<Rightarrow> world_chunk (host_files (run_world out)) c = None
        | Some p \<Rightarrow> \<exists>h q. hash_chunk demo_env (chunk_of c p) = Some (Inr h) \<and> world_chunk (host_files (run_world out)) c = Some q
            \<and> (blobs_view demo_blobs h = Some q
              \<or> (\<exists>d. world_chunk (host_files demo_world) d = Some q \<and> hash_chunk demo_env (chunk_of d q) = Some (Inr h)))"
    using commit_then_checkout [OF demo_world_is(1) demo_wf demo_blobs_wf demo_ready demo_commit(2) n demo_unused run
        demo_empty_valid(1) dims stored] by blast
  have "blobs_view demo_blobs 2 = None" by (simp add: blobs_view_def find_blob_def demo_blobs_def)
  then have "world_chunk (host_files (run_world out)) (demo_coord 0) = Some [3, 4]"
    using out(2) [rule_format, of "demo_coord 0"] by (auto simp: demo_world_is(3) demo_hash split: if_splits)
  then show ?thesis using run out(1) by blast
qed

subsection \<open>Status\<close>

text \<open>C10: After a commit of a scope, a status over it finds no chunk to record, no tombstone and no missing
  blob, and its latest commit is the one recorded. It is clean exactly when no region file that the
  scope meets is gone whose commit still holds a chunk outside the scope.\<close>

theorem status_sees_no_change:
  assumes "host_valid w" "wf_db db" "wf_blobs bs" "host_ready env w sc" "head_view db = Some h" "n < 2 ^ 63"
    and "id_unused H db n (parent_list h) (scan_delta (head_state db h) (world_scan env (host_files w) sc) sc)"
    and "commit_world env host_port sqlite_blob (sqlite_port H) w concurrency cpus schedule sc (Some n)
      \<lparr>store_meta = db, store_blob = bs\<rparr> = (Some (Inr rep), st)"
    and "status_world env host_port sqlite_blob (sqlite_port H) w concurrency' cpus' schedule' sc st = Some r"
  shows "\<exists>s. r = Inr s \<and> sr_latest s = Some (rep_commit rep) \<and> sr_new_chunks s = 0 \<and> sr_tombstones s = 0 \<and> sr_new_blobs s = 0
    \<and> (sr_clean s \<longleftrightarrow> \<not> (\<exists>c. scope_matches_region sc (region_key_of c) \<and> \<not> scope_contains sc c
          \<and> host_files w (region_key_of c) = None \<and> present_at (head_state db h) c \<noteq> None))"
  using ws.status_after_commit [OF assms(1-3) host_ready_scan [OF assms(4)] assms(5,6) _ assms(8,9)]
    id_unusedD [OF assms(7)] unfolding head_state_base [OF assms(5)] by blast

theorem status_sees_no_change_witness:
  "\<exists>rep st s. commit_world demo_env host_port sqlite_blob (sqlite_port demo_H) demo_empty 1 None [0] demo_part (Some 400)
      \<lparr>store_meta = demo_db, store_blob = demo_blobs\<rparr> = (Some (Inr rep), st)
    \<and> status_world demo_env host_port sqlite_blob (sqlite_port demo_H) demo_empty 1 None [0] demo_part st = Some (Inr s)
    \<and> sr_new_chunks s = 0 \<and> \<not> sr_clean s"
proof -
  obtain rep st r where run: "commit_world demo_env host_port sqlite_blob (sqlite_port demo_H) demo_empty 1 None [0] demo_part (Some 400)
        \<lparr>store_meta = demo_db, store_blob = demo_blobs\<rparr> = (Some (Inr rep), st)"
      "status_world demo_env host_port sqlite_blob (sqlite_port demo_H) demo_empty 1 None [0] demo_part st = Some r"
    using demo_part_run by blast
  have n: "(400 :: nat) < 2 ^ 63" by simp
  obtain s where s: "r = Inr s" "sr_new_chunks s = 0"
      "sr_clean s \<longleftrightarrow> \<not> (\<exists>c. scope_matches_region demo_part (region_key_of c) \<and> \<not> scope_contains demo_part c
          \<and> host_files demo_empty (region_key_of c) = None \<and> present_at (head_state demo_db (Some 13)) c \<noteq> None)"
    using status_sees_no_change [OF demo_empty_valid(1) demo_wf demo_blobs_wf demo_part_ready demo_commit(2) n demo_part_new run] by blast
  have "scope_matches_region demo_part (region_key_of (demo_coord 0))"
    by code_simp
  moreover have "\<not> scope_contains demo_part (demo_coord 0)" by code_simp
  ultimately have "\<not> sr_clean s"
    unfolding s(3) by (auto simp: demo_empty_valid(3) demo_head_state demo_present intro!: exI [of _ "demo_coord 0"])
  then show ?thesis using run s(1,2) by blast
qed

text \<open>C24: A status counts the chunks whose blob is missing, the commit that follows it the blobs it stores:
  the commit never reports more, and both agree exactly when no two chunks of the scope share a missing blob.\<close>

theorem status_counts_chunks:
  assumes "host_valid w" "wf_db db" "wf_blobs bs" "host_ready env w sc" "head_view db = Some h" "n < 2 ^ 63"
    and "id_unused H db n (parent_list h) (scan_delta (head_state db h) (world_scan env (host_files w) sc) sc)"
    and "commit_world env host_port sqlite_blob (sqlite_port H) w concurrency cpus schedule sc (Some n)
      \<lparr>store_meta = db, store_blob = bs\<rparr> = (Some (Inr rep), st)"
    and "status_world env host_port sqlite_blob (sqlite_port H) w concurrency' cpus' schedule' sc
      \<lparr>store_meta = db, store_blob = bs\<rparr> = Some (Inr s)"
  shows "rep_new_blobs rep \<le> sr_new_blobs s
    \<and> (rep_new_blobs rep = sr_new_blobs s \<longleftrightarrow>
        (\<forall>c d k. world_scan env (host_files w) sc c = Some k \<longrightarrow> world_scan env (host_files w) sc d = Some k
          \<longrightarrow> blobs_view bs k = None \<longrightarrow> c = d))"
  using ws.new_blob_counts [OF assms(1-3) host_ready_scan [OF assms(4)] assms(5,6) _ assms(8,9)]
    id_unusedD [OF assms(7)] unfolding head_state_base [OF assms(5)] by blast

theorem status_counts_chunks_witness:
  "\<exists>rep st s. commit_world demo_env host_port sqlite_blob (sqlite_port demo_H) demo_world 1 None [0, 0, 0, 0] World (Some 400)
      \<lparr>store_meta = demo_db, store_blob = demo_blobs\<rparr> = (Some (Inr rep), st)
    \<and> status_world demo_env host_port sqlite_blob (sqlite_port demo_H) demo_world 1 None [0, 0, 0, 0] World
      \<lparr>store_meta = demo_db, store_blob = demo_blobs\<rparr> = Some (Inr s)
    \<and> rep_new_blobs rep = sr_new_blobs s"
proof -
  obtain rep st where run: "commit_world demo_env host_port sqlite_blob (sqlite_port demo_H) demo_world 1 None [0, 0, 0, 0] World (Some 400)
      \<lparr>store_meta = demo_db, store_blob = demo_blobs\<rparr> = (Some (Inr rep), st)"
    using demo_run [of "[0, 0, 0, 0]" 1 None] by auto
  have turns: "host_turns demo_world 1 None World [0, 0, 0, 0]" by (rule demo_turns) simp
  obtain r where r: "status_world demo_env host_port sqlite_blob (sqlite_port demo_H) demo_world 1 None [0, 0, 0, 0] World
      \<lparr>store_meta = demo_db, store_blob = demo_blobs\<rparr> = Some r"
    using host_commit_answers(2) [OF demo_world_is(1) demo_wf demo_blobs_wf demo_ready turns] by fast
  then obtain s where s: "r = Inr s" using ws.status_spec [OF demo_world_is(1) demo_wf demo_blobs_wf host_ready_scan [OF demo_ready]] by blast
  have n: "(400 :: nat) < 2 ^ 63" by simp
  have "rep_new_blobs rep = sr_new_blobs s"
    using status_counts_chunks [OF demo_world_is(1) demo_wf demo_blobs_wf demo_ready demo_commit(2) n demo_unused run r [unfolded s]]
    by (simp add: demo_world_scan)
  then show ?thesis using run r s by blast
qed

subsection \<open>Diff\<close>

text \<open>A diff against a world succeeds and answers one entry per chunk asked for, in order: the blob the
  commit holds against the key of the chunk in the world. Without a commit named it is the active ref's.\<close>

lemma diff_compares_world:
  assumes "host_valid w" "wf_db db" "host_ready env w World"
    and "commit = Some i \<or> commit = None \<and> head_view db = Some (Some i)"
  shows "fst (diff_world_chunks env host_port (sqlite_port H) w db commit coords)
      = Some (Inr (map (\<lambda>c. \<lparr>cd_coord = c,
          cd_entries = from_sides (present_at (chunk_view db i) c) (world_scan env (host_files w) World c)\<rparr>) coords))"
  using ws.diff_world_ok [OF assms(1,2) host_ready_scan [OF assms(3)] assms(4)] by (simp add: diff_of_def)

text \<open>Right after a commit of the whole world, a diff of any chunks against the world shows no difference.\<close>

lemma diff_empty_after_commit:
  assumes "host_valid w" "wf_db db" "wf_blobs bs" "host_ready env w World" "head_view db = Some h" "n < 2 ^ 63"
    and "id_unused H db n (parent_list h) (scan_delta (head_state db h) (world_scan env (host_files w) World) World)"
    and "commit_world env host_port sqlite_blob (sqlite_port H) w concurrency cpus schedule World (Some n)
      \<lparr>store_meta = db, store_blob = bs\<rparr> = (Some (Inr rep), st)"
  shows "\<exists>ds. fst (diff_world_chunks env host_port (sqlite_port H) w (store_meta st) None coords) = Some (Inr ds)
    \<and> map cd_coord ds = coords \<and> (\<forall>d \<in> set ds. diff_is_empty (cd_entries d))"
  by (rule ws.diff_after_commit [OF assms(1-3) host_ready_scan [OF assms(4)] assms(5,6) _ assms(8)])
    (use id_unusedD [OF assms(7)] head_state_base [OF assms(5)] in simp)

subsection \<open>Chunks without a key\<close>

text \<open>C7: A chunk of the scope that has no key makes the commit fail, whatever the schedule, and the
  metadata is as it was: nothing is recorded in its place.\<close>

theorem keyless_chunk_fails_commit:
  assumes "host_valid w" "wf_db db"
    and "scope_contains sc c" "world_chunk (host_files w) c = Some p" "\<nexists>h. hash_chunk env (chunk_of c p) = Some (Inr h)"
    and "\<forall>bs. host_files w (region_key_of c) = Some bs \<longrightarrow> clean_file (region_key_of c) bs"
    and "commit_world env host_port sqlite_blob (sqlite_port H) w concurrency cpus schedule sc clock
      \<lparr>store_meta = db, store_blob = bs\<rparr> = (a, st)"
  shows "(\<forall>rep. a \<noteq> Some (Inr rep)) \<and> store_meta st = db"
  by (rule ws.keyless_chunk_refused [OF assms(1-5) _ assms(7)]) (use assms(6) in blast)

definition demo_bad_env :: "(unit, unit) chunk_env" where
  "demo_bad_env = demo_env\<lparr>env_nbt := demo_nbt\<lparr>nbt_modern := \<lambda>bs. Inl UnexpectedEof\<rparr>\<rparr>"

theorem keyless_chunk_fails_commit_witness:
  "\<exists>a st. commit_world demo_bad_env host_port sqlite_blob (sqlite_port demo_H) demo_world 1 None [0, 0, 0, 0] World (Some 400)
      \<lparr>store_meta = demo_db, store_blob = demo_blobs\<rparr> = (a, st) \<and> (\<forall>rep. a \<noteq> Some (Inr rep)) \<and> store_meta st = demo_db"
proof -
  obtain a st where run: "commit_world demo_bad_env host_port sqlite_blob (sqlite_port demo_H) demo_world 1 None [0, 0, 0, 0] World (Some 400)
      \<lparr>store_meta = demo_db, store_blob = demo_blobs\<rparr> = (a, st)" by fastforce
  have scope: "scope_contains World (demo_coord 0)" by simp
  have chunk: "world_chunk (host_files demo_world) (demo_coord 0) = Some [3, 4]" by (simp add: demo_world_is)
  have kind: "coord_kind (demo_coord 0) = Region" by (simp add: demo_coord_def)
  have bad: "\<nexists>h. hash_chunk demo_bad_env (chunk_of (demo_coord 0) [3, 4]) = Some (Inr h)"
    by (simp add: hash_chunk_def demo_bad_env_def demo_env_def normalized_hash_def chunk_of_def chunk_new_def demo_decompress
        kind chunk_key_def parse_nbt_def demo_nbt_def)
  have clean: "\<forall>bs. host_files demo_world (region_key_of (demo_coord 0)) = Some bs \<longrightarrow> clean_file (region_key_of (demo_coord 0)) bs"
    using demo_world_is(4) by blast
  show ?thesis using run keyless_chunk_fails_commit [OF demo_world_is(1) demo_wf scope chunk bad clean run] by blast
qed

end
