(* ===== verification/World_Lock.thy ===== *)
theory World_Lock
  imports World_Host
begin

section \<open>The lock of a host world\<close>

text \<open>
  \<open>crates/world/src/lock.rs\<close> and \<open>crates/world/src/tree/hostworld/lock.rs\<close> on Unix: the modes and answers
  of locking a world, the file lock of a host world, and \<open>HostWorldTree::lock\<close>. The operating system is
  outside: what its two attempts to open the lock file answer is an argument, and its locks on that
  file are the table of the open handles that hold one, under the documented rule that an exclusive
  lock excludes every other and shared locks exclude exclusive ones only.
\<close>

subsection \<open>Modes and answers\<close>

datatype lock_mode = SharedLock | ExclusiveLock

datatype unguarded_reason = NothingToProtect | ReadOnlyWorld

datatype 'l lock_state = Guarded 'l | Unguarded unguarded_reason

definition lock_guard :: "'l lock_state \<Rightarrow> (unguarded_reason, 'l) result" where
  "lock_guard st = (case st of Guarded l \<Rightarrow> Inr l | Unguarded reason \<Rightarrow> Inl reason)"

definition lock_unguarded_reason :: "'l lock_state \<Rightarrow> unguarded_reason option" where
  "lock_unguarded_reason st = (case st of Guarded l \<Rightarrow> None | Unguarded reason \<Rightarrow> Some reason)"

definition is_guarded :: "'l lock_state \<Rightarrow> bool" where
  "is_guarded st = (case st of Guarded l \<Rightarrow> True | Unguarded reason \<Rightarrow> False)"

subsection \<open>Opening the lock file\<close>

text \<open>An error of the operating system: its kind, and whether its number is \<open>ELOOP\<close>.\<close>

datatype io_kind = KindNotFound | KindPermissionDenied | KindReadOnlyFilesystem | KindInvalidInput | KindOther nat

record os_error =
  oe_kind :: io_kind
  oe_loop :: bool

definition symlink_error :: os_error where
  "symlink_error = \<lparr>oe_kind = KindInvalidInput, oe_loop = False\<rparr>"

definition normalize_symlink :: "os_error \<Rightarrow> os_error" where
  "normalize_symlink source = (if oe_loop source then symlink_error else source)"

definition is_read_only :: "os_error \<Rightarrow> bool" where
  "is_read_only e \<longleftrightarrow> oe_kind e = KindPermissionDenied \<or> oe_kind e = KindReadOnlyFilesystem"

text \<open>The steps an annotated error names.\<close>

datatype lock_stage = OpenStage | ReopenStage | CreateStage | TakeStage

datatype host_lock_error = Contended | LockIo lock_stage io_kind

definition annotate_lock :: "lock_stage \<Rightarrow> os_error \<Rightarrow> host_lock_error" where
  "annotate_lock stage source = LockIo stage (oe_kind source)"

datatype lock_file = LockOpen | LockAbsent os_error

text \<open>What the open that may create the file and the read-only open answer, \<open>None\<close> for an open file.\<close>

record lock_opens =
  lo_create :: "os_error option"
  lo_read_only :: "os_error option"

definition opened :: "os_error option \<Rightarrow> (os_error, unit) result" where
  "opened answer = map_err normalize_symlink (case answer of None \<Rightarrow> Inr () | Some e \<Rightarrow> Inl e)"

definition open_lock_file :: "lock_opens \<Rightarrow> (host_lock_error, lock_file) result" where
  "open_lock_file os =
     (case opened (lo_create os) of
        Inr _ \<Rightarrow> Inr LockOpen
      | Inl source \<Rightarrow>
          if oe_kind source = KindInvalidInput then Inl (annotate_lock OpenStage source)
          else if is_read_only source then
            (case opened (lo_read_only os) of
               Inr _ \<Rightarrow> Inr LockOpen
             | Inl missing \<Rightarrow>
                 if oe_kind missing = KindNotFound then Inr (LockAbsent source)
                 else Inl (annotate_lock ReopenStage missing))
          else Inl (annotate_lock CreateStage source))"

subsection \<open>Taking and dropping the lock\<close>

type_synonym lock_table = "(nat \<times> lock_mode) set"

datatype try_lock_error = WouldBlock | TryFailed os_error

text \<open>\<open>fault\<close> is a failure of the system call itself.\<close>

definition try_lock ::
  "os_error option \<Rightarrow> nat \<Rightarrow> lock_mode \<Rightarrow> lock_table \<Rightarrow> (try_lock_error, lock_table) result" where
  "try_lock fault fd mode table =
     (case fault of
        Some e \<Rightarrow> Inl (TryFailed e)
      | None \<Rightarrow>
          if \<exists>e \<in> table. mode = ExclusiveLock \<or> snd e = ExclusiveLock then Inl WouldBlock
          else Inr (insert (fd, mode) table))"

record host_world_lock =
  hl_file :: nat
  hl_mode :: lock_mode

definition lock_acquire ::
  "lock_opens \<Rightarrow> os_error option \<Rightarrow> nat \<Rightarrow> lock_mode \<Rightarrow> lock_table
     \<Rightarrow> (host_lock_error, host_world_lock lock_state \<times> lock_table) result" where
  "lock_acquire os fault fd mode table =
     bindE (open_lock_file os) (\<lambda>opened_file.
       case opened_file of
         LockAbsent source \<Rightarrow>
           (case mode of
              SharedLock \<Rightarrow> Inr (Unguarded ReadOnlyWorld, table)
            | ExclusiveLock \<Rightarrow> Inl (annotate_lock CreateStage source))
       | LockOpen \<Rightarrow>
           (case try_lock fault fd mode table of
              Inr table' \<Rightarrow> Inr (Guarded \<lparr>hl_file = fd, hl_mode = mode\<rparr>, table')
            | Inl WouldBlock \<Rightarrow> Inl Contended
            | Inl (TryFailed source) \<Rightarrow> Inl (annotate_lock TakeStage source)))"

definition LOCK_FILE_NAME :: rstr where
  "LOCK_FILE_NAME = lit ''.sekai.lock''"

definition host_lock ::
  "host_world \<Rightarrow> lock_opens \<Rightarrow> os_error option \<Rightarrow> nat \<Rightarrow> lock_mode \<Rightarrow> lock_table
     \<Rightarrow> (world_error, host_world_lock lock_state \<times> lock_table) result" where
  "host_lock w os fault fd mode table =
     bindE (check_root w) (\<lambda>_.
       let path = hw_root w @ [LOCK_FILE_NAME] in
       map_err (\<lambda>e. case e of Contended \<Rightarrow> WeWorldLocked path | LockIo _ _ \<Rightarrow> WeIo path)
         (lock_acquire os fault fd mode table))"

definition drop_lock :: "host_world_lock \<Rightarrow> lock_table \<Rightarrow> lock_table" where
  "drop_lock l table = {e \<in> table. fst e \<noteq> hl_file l}"

subsection \<open>What locking answers\<close>

text \<open>A lock file that can be opened one way or the other, and one whose absence is known.\<close>

definition lock_file_opens :: "lock_opens \<Rightarrow> bool" where
  "lock_file_opens os \<longleftrightarrow> lo_create os = None
     \<or> (\<exists>e. lo_create os = Some e \<and> \<not> oe_loop e \<and> is_read_only e \<and> lo_read_only os = None)"

definition lock_file_absent :: "lock_opens \<Rightarrow> bool" where
  "lock_file_absent os \<longleftrightarrow> (\<exists>e missing. lo_create os = Some e \<and> \<not> oe_loop e \<and> is_read_only e
     \<and> lo_read_only os = Some missing \<and> \<not> oe_loop missing \<and> oe_kind missing = KindNotFound)"

lemma opened_simps [simp]:
  "opened None = Inr ()"
  "opened (Some e) = Inl (normalize_symlink e)"
  by (simp_all add: opened_def)

lemma open_lock_file_spec:
  "(lock_file_opens os \<longrightarrow> open_lock_file os = Inr LockOpen)
    \<and> (lock_file_absent os \<longrightarrow> (\<exists>e. open_lock_file os = Inr (LockAbsent e)))
    \<and> (\<not> lock_file_opens os \<longrightarrow> \<not> lock_file_absent os \<longrightarrow> (\<exists>stage kind. open_lock_file os = Inl (LockIo stage kind)))"
  by (cases "lo_create os"; cases "lo_read_only os")
    (auto simp: lock_file_opens_def lock_file_absent_def open_lock_file_def normalize_symlink_def symlink_error_def
      is_read_only_def annotate_lock_def)

lemma not_exclusive: "(m :: lock_mode) \<noteq> ExclusiveLock \<longleftrightarrow> m = SharedLock"
  by (cases m) simp_all

lemma try_lock_ok:
  assumes "try_lock fault fd mode table = Inr table'"
  shows "table' = insert (fd, mode) table \<and> (\<forall>e \<in> table. mode = SharedLock \<and> snd e = SharedLock)"
proof -
  have none: "fault = None" using assms by (cases fault) (simp_all add: try_lock_def)
  have free: "\<not> (\<exists>e \<in> table. mode = ExclusiveLock \<or> snd e = ExclusiveLock)"
  proof
    assume ex: "\<exists>e \<in> table. mode = ExclusiveLock \<or> snd e = ExclusiveLock"
    have "try_lock fault fd mode table = Inl WouldBlock" unfolding try_lock_def none option.case if_P [OF ex] ..
    then show False using assms by (simp only: sum.distinct)
  qed
  have "try_lock fault fd mode table = Inr (insert (fd, mode) table)"
    unfolding try_lock_def none option.case if_not_P [OF free] ..
  then have "table' = insert (fd, mode) table" using assms by (simp only: sum.inject)
  moreover have "\<forall>e \<in> table. mode = SharedLock \<and> snd e = SharedLock"
  proof
    fix e
    assume "e \<in> table"
    then have "mode \<noteq> ExclusiveLock" "snd e \<noteq> ExclusiveLock" using free by blast+
    then show "mode = SharedLock \<and> snd e = SharedLock" by (simp only: not_exclusive simp_thms)
  qed
  ultimately show ?thesis by (rule conjI)
qed

lemma lock_acquire_ok:
  assumes "lock_acquire os fault fd mode table = Inr (st, table')"
  shows "st = Guarded \<lparr>hl_file = fd, hl_mode = mode\<rparr> \<and> table' = insert (fd, mode) table
      \<and> (\<forall>e \<in> table. mode = SharedLock \<and> snd e = SharedLock)
    \<or> st = Unguarded ReadOnlyWorld \<and> mode = SharedLock \<and> table' = table"
proof -
  obtain f where f: "open_lock_file os = Inr f" using assms by (auto simp: lock_acquire_def bindE_eq_Inr)
  show ?thesis
  proof (cases f)
    case LockOpen
    then show ?thesis
      using assms f try_lock_ok [of fault fd mode table]
      by (cases "try_lock fault fd mode table") (auto simp: lock_acquire_def split: try_lock_error.splits)
  next
    case (LockAbsent e)
    then show ?thesis using assms f by (cases mode) (simp_all add: lock_acquire_def)
  qed
qed

text \<open>Every answer, when the system call does not fail.\<close>

lemma lock_acquire_answer:
  "lock_acquire os None fd mode table
    = (if lock_file_opens os then
         (if \<exists>e \<in> table. mode = ExclusiveLock \<or> snd e = ExclusiveLock then Inl Contended
          else Inr (Guarded \<lparr>hl_file = fd, hl_mode = mode\<rparr>, insert (fd, mode) table))
       else if lock_file_absent os \<and> mode = SharedLock then Inr (Unguarded ReadOnlyWorld, table)
       else lock_acquire os None fd mode table)"
  using open_lock_file_spec [of os] by (auto simp: lock_acquire_def try_lock_def)

lemma lock_acquire_fails:
  assumes "\<not> lock_file_opens os" "\<not> (lock_file_absent os \<and> mode = SharedLock)"
  shows "\<exists>stage kind. lock_acquire os None fd mode table = Inl (LockIo stage kind)"
proof (cases "lock_file_absent os")
  case True
  then obtain e where "open_lock_file os = Inr (LockAbsent e)" using open_lock_file_spec by blast
  then show ?thesis using assms(2) True by (cases mode) (simp_all add: lock_acquire_def annotate_lock_def)
next
  case False
  then obtain stage kind where "open_lock_file os = Inl (LockIo stage kind)" using open_lock_file_spec assms(1) by blast
  then show ?thesis by (simp add: lock_acquire_def)
qed

end
