(* ===== verification/App_Lock.thy ===== *)
theory App_Lock
  imports World_Lock
begin

section \<open>World locks held across cancelled operations\<close>

text \<open>
  The guards of \<open>crates/app/src/instance.rs\<close> and the file steps of \<open>crates/app/src/checkout.rs\<close>: an
  operation locks the world, hands a clone of its guard to every blocking step it starts, and may be
  cancelled at any time, which ends its asynchronous half but no step that has started. The guard
  is given up when the last clone is dropped, or by a checkout that ends with no step left working.
  Steps of all operations interleave freely.
\<close>

subsection \<open>An operation and its guard\<close>

text \<open>
  What the guard holds, whether the asynchronous half is alive, the steps whose work has not ended
  (\<open>pending\<close>) and the steps that still hold a clone of the guard.
\<close>

record world_guard =
  wg_mode :: lock_mode
  wg_state :: "host_world_lock lock_state option"
  wg_alive :: bool
  wg_pending :: nat
  wg_clones :: nat

definition guard_new :: "lock_mode \<Rightarrow> host_world_lock lock_state \<Rightarrow> world_guard" where
  "guard_new mode st = \<lparr>wg_mode = mode, wg_state = Some st, wg_alive = True, wg_pending = 0, wg_clones = 0\<rparr>"

text \<open>\<open>WorldGuard::release\<close>: the lock is taken out and dropped; later calls find nothing.\<close>

definition guard_release :: "world_guard \<times> lock_table \<Rightarrow> world_guard \<times> lock_table" where
  "guard_release = (\<lambda>(g, table).
     (g\<lparr>wg_state := None\<rparr>, case wg_state g of Some (Guarded l) \<Rightarrow> drop_lock l table | _ \<Rightarrow> table))"

definition release_if_idle :: "world_guard \<times> lock_table \<Rightarrow> world_guard \<times> lock_table" where
  "release_if_idle = (\<lambda>(g, table). if wg_pending g = 0 then guard_release (g, table) else (g, table))"

text \<open>Dropping a clone: the last one drops the guard, and the lock it may still hold.\<close>

definition guard_dropped :: "world_guard \<times> lock_table \<Rightarrow> world_guard \<times> lock_table" where
  "guard_dropped = (\<lambda>(g, table). if \<not> wg_alive g \<and> wg_clones g = 0 then guard_release (g, table) else (g, table))"

definition start_step :: "world_guard \<Rightarrow> world_guard" where
  "start_step g = g\<lparr>wg_pending := wg_pending g + 1, wg_clones := wg_clones g + 1\<rparr>"

definition end_work :: "world_guard \<Rightarrow> world_guard" where
  "end_work g = g\<lparr>wg_pending := wg_pending g - 1\<rparr>"

definition drop_step :: "world_guard \<times> lock_table \<Rightarrow> world_guard \<times> lock_table" where
  "drop_step = (\<lambda>(g, table). guard_dropped (g\<lparr>wg_clones := wg_clones g - 1\<rparr>, table))"

definition drop_future :: "world_guard \<times> lock_table \<Rightarrow> world_guard \<times> lock_table" where
  "drop_future = (\<lambda>(g, table). guard_dropped (g\<lparr>wg_alive := False\<rparr>, table))"

definition finish_pass :: "world_guard \<times> lock_table \<Rightarrow> world_guard \<times> lock_table" where
  "finish_pass x = drop_future (release_if_idle x)"

subsection \<open>Operations side by side\<close>

record lock_sys =
  ls_table :: lock_table
  ls_ops :: "world_guard list"
  ls_fresh :: nat

definition lock_sys_start :: lock_sys where
  "lock_sys_start = \<lparr>ls_table = {}, ls_ops = [], ls_fresh = 0\<rparr>"

definition set_op :: "nat \<Rightarrow> world_guard \<times> lock_table \<Rightarrow> lock_sys \<Rightarrow> lock_sys" where
  "set_op i x s = s\<lparr>ls_ops := (ls_ops s)[i := fst x], ls_table := snd x\<rparr>"

inductive lock_step :: "lock_sys \<Rightarrow> lock_sys \<Rightarrow> bool" where
  begin_op: "lock_acquire os fault (ls_fresh s) mode (ls_table s) = Inr (st, table) \<Longrightarrow>
     lock_step s \<lparr>ls_table = table, ls_ops = ls_ops s @ [guard_new mode st], ls_fresh = Suc (ls_fresh s)\<rparr>"
| start_op: "i < length (ls_ops s) \<Longrightarrow> wg_alive (ls_ops s ! i) \<Longrightarrow>
     lock_step s (set_op i (start_step (ls_ops s ! i), ls_table s) s)"
| work_op: "i < length (ls_ops s) \<Longrightarrow> 0 < wg_pending (ls_ops s ! i) \<Longrightarrow>
     lock_step s (set_op i (end_work (ls_ops s ! i), ls_table s) s)"
| drop_op: "i < length (ls_ops s) \<Longrightarrow> wg_pending (ls_ops s ! i) < wg_clones (ls_ops s ! i) \<Longrightarrow>
     lock_step s (set_op i (drop_step (ls_ops s ! i, ls_table s)) s)"
| cancel_op: "i < length (ls_ops s) \<Longrightarrow> wg_alive (ls_ops s ! i) \<Longrightarrow>
     lock_step s (set_op i (drop_future (ls_ops s ! i, ls_table s)) s)"
| finish_op: "i < length (ls_ops s) \<Longrightarrow> wg_alive (ls_ops s ! i) \<Longrightarrow> wg_mode (ls_ops s ! i) = ExclusiveLock \<Longrightarrow>
     lock_step s (set_op i (finish_pass (ls_ops s ! i, ls_table s)) s)"

abbreviation lock_reaches :: "lock_sys \<Rightarrow> lock_sys \<Rightarrow> bool" where
  "lock_reaches \<equiv> lock_step\<^sup>*\<^sup>*"

subsection \<open>The invariant\<close>

definition held :: "world_guard \<Rightarrow> (nat \<times> lock_mode) option" where
  "held g = (case wg_state g of Some (Guarded l) \<Rightarrow> Some (hl_file l, hl_mode l) | _ \<Rightarrow> None)"

text \<open>An operation whose asynchronous half or any step is at work has not given its guard up.\<close>

definition guard_ok :: "world_guard \<Rightarrow> bool" where
  "guard_ok g \<longleftrightarrow> wg_pending g \<le> wg_clones g
     \<and> (wg_alive g \<or> 0 < wg_pending g \<longrightarrow> wg_state g \<noteq> None)
     \<and> (\<not> wg_alive g \<longrightarrow> wg_clones g = 0 \<longrightarrow> wg_state g = None)
     \<and> (case wg_state g of
          None \<Rightarrow> True
        | Some (Guarded l) \<Rightarrow> hl_mode l = wg_mode g
        | Some (Unguarded r) \<Rightarrow> wg_mode g = SharedLock \<and> r = ReadOnlyWorld)"

definition lock_inv :: "lock_sys \<Rightarrow> bool" where
  "lock_inv s \<longleftrightarrow> (\<forall>g \<in> set (ls_ops s). guard_ok g)
     \<and> (\<forall>i < length (ls_ops s). \<forall>e. held (ls_ops s ! i) = Some e \<longrightarrow> e \<in> ls_table s)
     \<and> (\<forall>e \<in> ls_table s. fst e < ls_fresh s \<and> (\<exists>i < length (ls_ops s). held (ls_ops s ! i) = Some e))
     \<and> (\<forall>i < length (ls_ops s). \<forall>j < length (ls_ops s). \<forall>e f. held (ls_ops s ! i) = Some e \<longrightarrow>
          held (ls_ops s ! j) = Some f \<longrightarrow> fst e = fst f \<longrightarrow> i = j)
     \<and> (\<forall>e \<in> ls_table s. snd e = ExclusiveLock \<longrightarrow> ls_table s = {e})"

text \<open>What a step does to one operation: it keeps its lock, or gives it up.\<close>

definition guard_moves :: "world_guard \<times> lock_table \<Rightarrow> world_guard \<times> lock_table \<Rightarrow> bool" where
  "guard_moves x y \<longleftrightarrow> guard_ok (fst y)
     \<and> (held (fst y) = held (fst x) \<and> snd y = snd x
        \<or> held (fst y) = None
          \<and> snd y = (case held (fst x) of None \<Rightarrow> snd x | Some e \<Rightarrow> {d \<in> snd x. fst d \<noteq> fst e}))"

lemma guard_steps:
  assumes "guard_ok g"
  shows "wg_alive g \<Longrightarrow> guard_moves (g, table) (start_step g, table)"
    "0 < wg_pending g \<Longrightarrow> guard_moves (g, table) (end_work g, table)"
    "wg_pending g < wg_clones g \<Longrightarrow> guard_moves (g, table) (drop_step (g, table))"
    "guard_moves (g, table) (drop_future (g, table))"
    "guard_moves (g, table) (finish_pass (g, table))"
  using assms
  by (auto simp: guard_moves_def guard_ok_def held_def start_step_def end_work_def drop_step_def drop_future_def finish_pass_def
      guard_dropped_def release_if_idle_def guard_release_def drop_lock_def split: option.splits lock_state.splits)

lemma set_op_simps [simp]:
  "ls_ops (set_op i y s) = (ls_ops s)[i := fst y]" "ls_table (set_op i y s) = snd y" "ls_fresh (set_op i y s) = ls_fresh s"
  by (simp_all add: set_op_def)

lemma set_op_inv:
  assumes inv: "lock_inv s" and i: "i < length (ls_ops s)" and y: "guard_moves (ls_ops s ! i, ls_table s) y"
  shows "lock_inv (set_op i y s)"
proof -
  let ?gs = "ls_ops s" and ?T = "ls_table s" and ?g = "ls_ops s ! i"
  have ok: "\<And>g. g \<in> set ?gs \<Longrightarrow> guard_ok g"
    and at: "\<And>j e. j < length ?gs \<Longrightarrow> held (?gs ! j) = Some e \<Longrightarrow> e \<in> ?T"
    and owner: "\<And>e. e \<in> ?T \<Longrightarrow> fst e < ls_fresh s \<and> (\<exists>j < length ?gs. held (?gs ! j) = Some e)"
    and one: "\<And>j k e f. j < length ?gs \<Longrightarrow> k < length ?gs \<Longrightarrow> held (?gs ! j) = Some e \<Longrightarrow> held (?gs ! k) = Some f
      \<Longrightarrow> fst e = fst f \<Longrightarrow> j = k"
    and excl: "\<And>e. e \<in> ?T \<Longrightarrow> snd e = ExclusiveLock \<Longrightarrow> ?T = {e}"
    using inv unfolding lock_inv_def by blast+
  have good: "guard_ok (fst y)" using y by (simp add: guard_moves_def)
  have guards: "guard_ok g" if "g \<in> set (?gs[i := fst y])" for g
    using that ok good set_update_subset_insert [of ?gs i "fst y"] by blast
  show ?thesis
  proof (cases "held (fst y) = held ?g \<and> snd y = ?T")
    case True
    have same: "held (?gs[i := fst y] ! j) = held (?gs ! j)" if "j < length ?gs" for j
      using True that by (cases "j = i") simp_all
    show ?thesis
      unfolding lock_inv_def set_op_simps length_list_update
    proof (intro conjI ballI allI impI)
      show "guard_ok g" if "g \<in> set (?gs[i := fst y])" for g using that by (rule guards)
    next
      fix j e
      assume "j < length ?gs" "held (?gs[i := fst y] ! j) = Some e"
      then show "e \<in> snd y" using same at True by simp
    next
      fix e
      assume "e \<in> snd y"
      then show "fst e < ls_fresh s" using owner True by simp
    next
      fix e
      assume "e \<in> snd y"
      then have "e \<in> ?T" using True by simp
      then obtain j where "j < length ?gs" "held (?gs ! j) = Some e" using owner by blast
      then show "\<exists>j < length ?gs. held (?gs[i := fst y] ! j) = Some e" using same by auto
    next
      fix j k e f
      assume "j < length ?gs" "k < length ?gs" "held (?gs[i := fst y] ! j) = Some e" "held (?gs[i := fst y] ! k) = Some f" "fst e = fst f"
      then show "j = k" using same one by simp
    next
      fix e
      assume "e \<in> snd y" "snd e = ExclusiveLock"
      then show "snd y = {e}" using excl True by simp
    qed
  next
    case False
    then have gone: "held (fst y) = None" "snd y = (case held ?g of None \<Rightarrow> ?T | Some e \<Rightarrow> {d \<in> ?T. fst d \<noteq> fst e})"
      using y unfolding guard_moves_def fst_conv snd_conv by blast+
    have now: "held (?gs[i := fst y] ! j) = (if j = i then None else held (?gs ! j))" if "j < length ?gs" for j
      using gone(1) that by (simp add: nth_list_update)
    have left: "e \<in> snd y \<longleftrightarrow> e \<in> ?T \<and> (\<exists>j < length ?gs. j \<noteq> i \<and> held (?gs ! j) = Some e)" for e
    proof (cases "held ?g")
      case None
      then have "held (?gs ! j) = Some e \<Longrightarrow> j \<noteq> i" for j by auto
      then show ?thesis using gone(2) None owner [of e] by auto
    next
      case (Some d)
      have other: "j \<noteq> i \<longleftrightarrow> fst e \<noteq> fst d" if "j < length ?gs" "held (?gs ! j) = Some e" for j
        using one [OF that(1) i that(2) Some] that Some by auto
      have y: "e \<in> snd y \<longleftrightarrow> e \<in> ?T \<and> fst e \<noteq> fst d" using gone(2) Some by simp
      show ?thesis unfolding y using other owner [of e] by blast
    qed
    have rest: "e \<in> snd y" if "j < length ?gs" "j \<noteq> i" "held (?gs ! j) = Some e" for j e
      using left at that by blast
    show ?thesis
      unfolding lock_inv_def set_op_simps length_list_update
    proof (intro conjI ballI allI impI)
      show "guard_ok g" if "g \<in> set (?gs[i := fst y])" for g using that by (rule guards)
    next
      fix j e
      assume "j < length ?gs" "held (?gs[i := fst y] ! j) = Some e"
      then show "e \<in> snd y" using now rest by (auto split: if_splits)
    next
      fix e
      assume "e \<in> snd y"
      then show "fst e < ls_fresh s" using left owner by blast
    next
      fix e
      assume "e \<in> snd y"
      then obtain j where "j < length ?gs" "j \<noteq> i" "held (?gs ! j) = Some e" using left by blast
      then show "\<exists>j < length ?gs. held (?gs[i := fst y] ! j) = Some e" using now by auto
    next
      fix j k e f
      assume "j < length ?gs" "k < length ?gs" "held (?gs[i := fst y] ! j) = Some e" "held (?gs[i := fst y] ! k) = Some f" "fst e = fst f"
      then show "j = k" using now one by (auto split: if_splits)
    next
      fix e
      assume e: "e \<in> snd y" "snd e = ExclusiveLock"
      then have "?T = {e}" using left excl by blast
      then show "snd y = {e}" using left e(1) by blast
    qed
  qed
qed

lemma begin_inv:
  assumes inv: "lock_inv s" and acq: "lock_acquire os fault (ls_fresh s) mode (ls_table s) = Inr (st, table)"
  shows "lock_inv \<lparr>ls_table = table, ls_ops = ls_ops s @ [guard_new mode st], ls_fresh = Suc (ls_fresh s)\<rparr>"
proof -
  let ?gs = "ls_ops s" and ?T = "ls_table s" and ?g = "guard_new mode st"
  have ok: "\<And>g. g \<in> set ?gs \<Longrightarrow> guard_ok g"
    and at: "\<And>j e. j < length ?gs \<Longrightarrow> held (?gs ! j) = Some e \<Longrightarrow> e \<in> ?T"
    and owner: "\<And>e. e \<in> ?T \<Longrightarrow> fst e < ls_fresh s \<and> (\<exists>j < length ?gs. held (?gs ! j) = Some e)"
    and one: "\<And>j k e f. j < length ?gs \<Longrightarrow> k < length ?gs \<Longrightarrow> held (?gs ! j) = Some e \<Longrightarrow> held (?gs ! k) = Some f
      \<Longrightarrow> fst e = fst f \<Longrightarrow> j = k"
    and excl: "\<And>e. e \<in> ?T \<Longrightarrow> snd e = ExclusiveLock \<Longrightarrow> ?T = {e}"
    using inv unfolding lock_inv_def by blast+
  have fresh: "fst e < ls_fresh s" if "e \<in> ?T" for e using owner [OF that] by blast
  have old: "fst e < ls_fresh s" if "j < length ?gs" "held (?gs ! j) = Some e" for j e using at [OF that] fresh by blast
  have now: "held ((?gs @ [?g]) ! j) = (if j < length ?gs then held (?gs ! j) else held ?g)" if "j < Suc (length ?gs)" for j
    using that by (cases "j = length ?gs") (simp_all add: nth_append)
  consider (guarded) "st = Guarded \<lparr>hl_file = ls_fresh s, hl_mode = mode\<rparr>" "table = insert (ls_fresh s, mode) ?T"
      "\<forall>e \<in> ?T. mode = SharedLock \<and> snd e = SharedLock"
    | (unguarded) "st = Unguarded ReadOnlyWorld" "mode = SharedLock" "table = ?T"
    using lock_acquire_ok [OF acq] by blast
  then show ?thesis
  proof cases
    case guarded
    have g: "held ?g = Some (ls_fresh s, mode)" "guard_ok ?g"
      using guarded(1) by (simp_all add: held_def guard_new_def guard_ok_def)
    have key: "fst e = ls_fresh s \<longleftrightarrow> j = length ?gs" if "j < Suc (length ?gs)" "held ((?gs @ [?g]) ! j) = Some e" for j e
      using now [OF that(1)] that g(1) old [of j e] by (cases "j < length ?gs") auto
    have only: "table = {e}" if "e \<in> table" "snd e = ExclusiveLock" for e
      using that guarded(2,3) excl by (cases "?T = {}") auto
    show ?thesis
      unfolding lock_inv_def lock_sys.simps length_append_singleton
    proof (intro conjI ballI allI impI)
      show "guard_ok h" if "h \<in> set (?gs @ [?g])" for h using that ok g(2) by auto
    next
      fix j e
      assume "j < Suc (length ?gs)" "held ((?gs @ [?g]) ! j) = Some e"
      then show "e \<in> table" using now at g(1) guarded(2) by (auto split: if_splits)
    next
      fix e
      assume "e \<in> table"
      then have "e = (ls_fresh s, mode) \<or> e \<in> ?T" using guarded(2) by blast
      then show "fst e < Suc (ls_fresh s)" using fresh [of e] by (elim disjE) simp_all
    next
      fix e
      assume "e \<in> table"
      then consider "e = (ls_fresh s, mode)" | "e \<in> ?T" using guarded(2) by blast
      then show "\<exists>j < Suc (length ?gs). held ((?gs @ [?g]) ! j) = Some e"
      proof cases
        case 1
        then show ?thesis using g(1) now [of "length ?gs"] by (intro exI [of _ "length ?gs"]) simp
      next
        case 2
        then obtain j where "j < length ?gs" "held (?gs ! j) = Some e" using owner by blast
        then show ?thesis using now [of j] by (intro exI [of _ j]) simp
      qed
    next
      fix j k e f
      assume jk: "j < Suc (length ?gs)" "k < Suc (length ?gs)" "held ((?gs @ [?g]) ! j) = Some e" "held ((?gs @ [?g]) ! k) = Some f"
        "fst e = fst f"
      show "j = k"
      proof (cases "fst e = ls_fresh s")
        case True
        then show ?thesis using key [OF jk(1,3)] key [OF jk(2,4)] jk(5) by simp
      next
        case False
        then have "j < length ?gs" "k < length ?gs" using key [OF jk(1,3)] key [OF jk(2,4)] jk(1,2,5) by simp_all
        then show ?thesis using now [OF jk(1)] now [OF jk(2)] jk(3-5) by (intro one [of j k e f]) simp_all
      qed
    next
      show "table = {e}" if "e \<in> table" "snd e = ExclusiveLock" for e using that by (rule only)
    qed
  next
    case unguarded
    have g: "held ?g = None" "guard_ok ?g"
      using unguarded(1,2) by (simp_all add: held_def guard_new_def guard_ok_def)
    show ?thesis
      unfolding lock_inv_def lock_sys.simps length_append_singleton unguarded(3)
    proof (intro conjI ballI allI impI)
      show "guard_ok h" if "h \<in> set (?gs @ [?g])" for h using that ok g(2) by auto
    next
      fix j e
      assume "j < Suc (length ?gs)" "held ((?gs @ [?g]) ! j) = Some e"
      then show "e \<in> ?T" using now at g(1) by (auto split: if_splits)
    next
      fix e
      assume "e \<in> ?T"
      then show "fst e < Suc (ls_fresh s)" by (intro less_SucI fresh)
    next
      fix e
      assume "e \<in> ?T"
      then obtain j where "j < length ?gs" "held (?gs ! j) = Some e" using owner by blast
      then show "\<exists>j < Suc (length ?gs). held ((?gs @ [?g]) ! j) = Some e" using now [of j] by (intro exI [of _ j]) simp
    next
      fix j k e f
      assume "j < Suc (length ?gs)" "k < Suc (length ?gs)" "held ((?gs @ [?g]) ! j) = Some e" "held ((?gs @ [?g]) ! k) = Some f"
        "fst e = fst f"
      then show "j = k" using now g(1) one by (auto split: if_splits)
    next
      show "?T = {e}" if "e \<in> ?T" "snd e = ExclusiveLock" for e using that by (rule excl)
    qed
  qed
qed

lemma lock_inv_step: "lock_step s t \<Longrightarrow> lock_inv s \<Longrightarrow> lock_inv t"
proof (induction rule: lock_step.induct)
  case (begin_op os fault s mode st table)
  then show ?case by (intro begin_inv)
next
  case (start_op i s)
  then have "guard_ok (ls_ops s ! i)" by (simp add: lock_inv_def)
  then show ?case using start_op guard_steps(1) by (intro set_op_inv)
next
  case (work_op i s)
  then have "guard_ok (ls_ops s ! i)" by (simp add: lock_inv_def)
  then show ?case using work_op guard_steps(2) by (intro set_op_inv)
next
  case (drop_op i s)
  then have "guard_ok (ls_ops s ! i)" by (simp add: lock_inv_def)
  then show ?case using drop_op guard_steps(3) by (intro set_op_inv)
next
  case (cancel_op i s)
  then have "guard_ok (ls_ops s ! i)" by (simp add: lock_inv_def)
  then show ?case using cancel_op guard_steps(4) by (intro set_op_inv)
next
  case (finish_op i s)
  then have "guard_ok (ls_ops s ! i)" by (simp add: lock_inv_def)
  then show ?case using finish_op guard_steps(5) by (intro set_op_inv)
qed

lemma lock_inv_start: "lock_inv lock_sys_start"
  by (simp add: lock_inv_def lock_sys_start_def)

lemma lock_inv_reaches: "lock_reaches s t \<Longrightarrow> lock_inv s \<Longrightarrow> lock_inv t"
  by (induction rule: rtranclp_induct) (auto intro: lock_inv_step)

subsection \<open>Exclusion and release\<close>

lemma working_excludes:
  assumes inv: "lock_inv s" and i: "i < length (ls_ops s)" and j: "j < length (ls_ops s)" "i \<noteq> j"
    and mode: "wg_mode (ls_ops s ! i) = ExclusiveLock"
    and work: "wg_alive (ls_ops s ! i) \<or> 0 < wg_pending (ls_ops s ! i)"
    and other: "wg_alive (ls_ops s ! j) \<or> 0 < wg_pending (ls_ops s ! j)"
  shows "wg_state (ls_ops s ! j) = Some (Unguarded ReadOnlyWorld)"
proof -
  have ok: "guard_ok (ls_ops s ! i)" "guard_ok (ls_ops s ! j)" using inv i j(1) by (simp_all add: lock_inv_def)
  obtain l where l: "wg_state (ls_ops s ! i) = Some (Guarded l)" "hl_mode l = ExclusiveLock"
    using ok(1) work mode by (auto simp: guard_ok_def split: option.splits lock_state.splits)
  have hi: "held (ls_ops s ! i) = Some (hl_file l, ExclusiveLock)" by (simp add: held_def l)
  then have "(hl_file l, ExclusiveLock) \<in> ls_table s" using inv i by (auto simp: lock_inv_def)
  then have all: "ls_table s = {(hl_file l, ExclusiveLock)}" using inv unfolding lock_inv_def by (metis snd_conv)
  have "held (ls_ops s ! j) = None"
  proof (cases "held (ls_ops s ! j)")
    case (Some e)
    then have "e \<in> ls_table s" using inv j(1) unfolding lock_inv_def by blast
    then have "fst e = fst (hl_file l, ExclusiveLock)" using all by simp
    then have "i = j" using inv i j(1) hi Some unfolding lock_inv_def by metis
    then show ?thesis using j(2) by blast
  qed simp
  then show ?thesis using ok(2) other by (auto simp: held_def guard_ok_def split: option.splits lock_state.splits)
qed

lemma nothing_held:
  assumes inv: "lock_inv s" and idle: "\<forall>g \<in> set (ls_ops s). \<not> wg_alive g \<and> wg_clones g = 0"
  shows "ls_table s = {}"
proof -
  have "held g = None" if "g \<in> set (ls_ops s)" for g
    using inv idle that by (auto simp: lock_inv_def guard_ok_def held_def)
  then have "held (ls_ops s ! i) = None" if "i < length (ls_ops s)" for i using that by simp
  then show ?thesis using inv unfolding lock_inv_def by (metis equals0I option.distinct(1))
qed

text \<open>Once every asynchronous half is gone, each step that is left makes the rest smaller.\<close>

definition left_over :: "lock_sys \<Rightarrow> nat" where
  "left_over s = sum_list (map (\<lambda>g. wg_pending g + wg_clones g) (ls_ops s))"

lemma left_over_set:
  assumes "i < length (ls_ops s)" "wg_pending (fst y) + wg_clones (fst y) < wg_pending (ls_ops s ! i) + wg_clones (ls_ops s ! i)"
  shows "left_over (set_op i y s) < left_over s"
proof -
  let ?f = "\<lambda>g. wg_pending g + wg_clones g"
  have "?f (ls_ops s ! i) \<le> sum_list (map ?f (ls_ops s))" using elem_le_sum_list [of i "map ?f (ls_ops s)"] assms(1) by simp
  then show ?thesis
    using assms by (simp add: left_over_def map_update sum_list_update)
qed

lemma work_goes_on:
  assumes inv: "lock_inv s" and dead: "\<forall>g \<in> set (ls_ops s). \<not> wg_alive g" and g: "g \<in> set (ls_ops s)" "0 < wg_clones g"
  shows "\<exists>t. lock_step s t \<and> left_over t < left_over s \<and> (\<forall>g \<in> set (ls_ops t). \<not> wg_alive g)"
proof -
  obtain i where i: "i < length (ls_ops s)" "ls_ops s ! i = g" using g(1) by (auto simp: in_set_conv_nth)
  have ok: "wg_pending g \<le> wg_clones g" using inv g(1) by (simp add: lock_inv_def guard_ok_def)
  have alive: "\<not> wg_alive h" if "h \<in> set ((ls_ops s)[i := x])" "\<not> wg_alive x" for h x
    using that dead set_update_subset_insert [of "ls_ops s" i x] by blast
  show ?thesis
  proof (cases "0 < wg_pending g")
    case True
    let ?y = "(end_work g, ls_table s)"
    have "lock_step s (set_op i ?y s)" using lock_step.work_op [of i s] i True by simp
    moreover have "left_over (set_op i ?y s) < left_over s"
      using True i by (intro left_over_set) (simp_all add: end_work_def)
    moreover have "\<not> wg_alive (end_work g)" using dead g(1) by (simp add: end_work_def)
    ultimately show ?thesis using alive by (intro exI [of _ "set_op i ?y s"]) auto
  next
    case False
    let ?y = "drop_step (g, ls_table s)"
    have y: "wg_pending (fst ?y) = wg_pending g" "wg_clones (fst ?y) = wg_clones g - 1" "wg_alive (fst ?y) = wg_alive g"
      by (simp_all add: drop_step_def guard_dropped_def guard_release_def)
    have "lock_step s (set_op i ?y s)" using lock_step.drop_op [of i s] i False g(2) by simp
    moreover have "left_over (set_op i ?y s) < left_over s"
      using g(2) i y by (intro left_over_set) simp_all
    moreover have "\<not> wg_alive (fst ?y)" using dead g(1) y by simp
    ultimately show ?thesis using alive by (intro exI [of _ "set_op i ?y s"]) auto
  qed
qed

lemma world_freed:
  assumes "lock_inv s" "\<forall>g \<in> set (ls_ops s). \<not> wg_alive g"
  shows "\<exists>t. lock_reaches s t \<and> ls_table t = {} \<and> (\<forall>g \<in> set (ls_ops t). \<not> wg_alive g \<and> wg_clones g = 0)"
  using assms
proof (induction "left_over s" arbitrary: s rule: less_induct)
  case less
  show ?case
  proof (cases "\<forall>g \<in> set (ls_ops s). wg_clones g = 0")
    case True
    then show ?thesis using less.prems nothing_held [of s] by (intro exI [of _ s]) simp
  next
    case False
    then obtain g where "g \<in> set (ls_ops s)" "0 < wg_clones g" by auto
    then obtain u where u: "lock_step s u" "left_over u < left_over s" "\<forall>g \<in> set (ls_ops u). \<not> wg_alive g"
      using work_goes_on less.prems by blast
    obtain t where "lock_reaches u t" "ls_table t = {}" "\<forall>g \<in> set (ls_ops t). \<not> wg_alive g \<and> wg_clones g = 0"
      using less.hyps [OF u(2) lock_inv_step [OF u(1) less.prems(1)] u(3)] by blast
    then show ?thesis using u(1) by (meson converse_rtranclp_into_rtranclp)
  qed
qed

end
