(* ===== verification/Lock_Properties.thy ===== *)
theory Lock_Properties
  imports App_Lock
begin

section \<open>Properties of world locks\<close>

text \<open>
  Which answer locking a world gives, that a checkout's steps never overlap another guarded operation
  even when its future is cancelled, and that every lock is given up in the end.
\<close>

text \<open>C14: Locking a host world whose root is a directory, when the lock itself does not fail: a lock file
  that opens is taken unless another handle conflicts, which is reported as the world being in use; a
  file known to be absent in a world that cannot be written leaves a reader unguarded; anything else
  is an I/O error. A writer is never unguarded.\<close>

theorem host_lock_answers:
  "hw_root_is_dir w \<Longrightarrow> host_lock w os None fd mode table
    = (if lock_file_opens os then
         (if \<exists>e \<in> table. mode = ExclusiveLock \<or> snd e = ExclusiveLock then Inl (WeWorldLocked (hw_root w @ [LOCK_FILE_NAME]))
          else Inr (Guarded \<lparr>hl_file = fd, hl_mode = mode\<rparr>, insert (fd, mode) table))
       else if lock_file_absent os \<and> mode = SharedLock then Inr (Unguarded ReadOnlyWorld, table)
       else Inl (WeIo (hw_root w @ [LOCK_FILE_NAME])))"
proof -
  assume "hw_root_is_dir w"
  then have root: "check_root w = Inr ()" by (simp add: check_root_def)
  show ?thesis
  proof (cases "lock_file_opens os \<or> lock_file_absent os \<and> mode = SharedLock")
    case True
    then show ?thesis
      by (subst host_lock_def, subst root, subst lock_acquire_answer) (auto simp: Let_def)
  next
    case False
    then obtain stage kind where "lock_acquire os None fd mode table = Inl (LockIo stage kind)"
      using lock_acquire_fails [of os mode fd table] by blast
    then show ?thesis using False root by (auto simp: host_lock_def Let_def)
  qed
qed

theorem host_lock_answers_witness:
  "host_lock \<lparr>hw_root = [lit ''world''], hw_dirs = [], hw_root_is_dir = True, hw_files = []\<rparr>
      \<lparr>lo_create = None, lo_read_only = None\<rparr> None 1 ExclusiveLock {(0, SharedLock)}
    = Inl (WeWorldLocked [lit ''world'', LOCK_FILE_NAME])"
  using host_lock_answers [of "\<lparr>hw_root = [lit ''world''], hw_dirs = [], hw_root_is_dir = True, hw_files = []\<rparr>"
      "\<lparr>lo_create = None, lo_read_only = None\<rparr>" 1 ExclusiveLock "{(0, SharedLock)}"]
  by (simp add: lock_file_opens_def)

text \<open>A checkout that was cancelled while its step still works, and a reader that tries to begin.\<close>

definition demo_cancelled :: lock_sys where
  "demo_cancelled =
     \<lparr>ls_table = {(0, ExclusiveLock)},
      ls_ops = [\<lparr>wg_mode = ExclusiveLock, wg_state = Some (Guarded \<lparr>hl_file = 0, hl_mode = ExclusiveLock\<rparr>), wg_alive = False,
                 wg_pending = 1, wg_clones = 1\<rparr>,
                \<lparr>wg_mode = SharedLock, wg_state = Some (Unguarded ReadOnlyWorld), wg_alive = True, wg_pending = 0, wg_clones = 0\<rparr>],
      ls_fresh = Suc (Suc 0)\<rparr>"

definition demo_absent :: lock_opens where
  "demo_absent = \<lparr>lo_create = Some \<lparr>oe_kind = KindReadOnlyFilesystem, oe_loop = False\<rparr>,
     lo_read_only = Some \<lparr>oe_kind = KindNotFound, oe_loop = False\<rparr>\<rparr>"

lemma demo_cancelled_reached: "lock_reaches lock_sys_start demo_cancelled"
proof -
  let ?l = "\<lparr>hl_file = 0, hl_mode = ExclusiveLock\<rparr>"
  let ?g = "\<lambda>a n. \<lparr>wg_mode = ExclusiveLock, wg_state = Some (Guarded ?l), wg_alive = a, wg_pending = n, wg_clones = n\<rparr>"
  let ?s = "\<lambda>a n. \<lparr>ls_table = {(0, ExclusiveLock)}, ls_ops = [?g a n], ls_fresh = 1\<rparr>"
  have a: "lock_step lock_sys_start (?s True 0)"
    using lock_step.begin_op [of "\<lparr>lo_create = None, lo_read_only = None\<rparr>" None lock_sys_start ExclusiveLock]
    by (simp add: lock_sys_start_def lock_acquire_def open_lock_file_def try_lock_def guard_new_def)
  have b: "lock_step (?s True 0) (?s True 1)"
    using lock_step.start_op [of 0 "?s True 0"] by (simp add: start_step_def set_op_def)
  have c: "lock_step (?s True 1) (?s False 1)"
    using lock_step.cancel_op [of 0 "?s True 1"] by (simp add: drop_future_def guard_dropped_def set_op_def)
  have d: "lock_step (?s False 1) demo_cancelled"
    using lock_step.begin_op [of demo_absent None "?s False 1" SharedLock]
    by (simp add: demo_cancelled_def demo_absent_def lock_acquire_def open_lock_file_def normalize_symlink_def is_read_only_def guard_new_def)
  note go = converse_rtranclp_into_rtranclp [where r = lock_step]
  show ?thesis by (rule go, rule a, rule go, rule b, rule go, rule c, rule r_into_rtranclp, rule d)
qed

text \<open>C12: While a checkout is under way, or a file step of it still works after its future was cancelled,
  every other operation at work on the world runs unguarded, which only a reader of a world that
  cannot be written does.\<close>

theorem checkout_excludes:
  assumes "lock_reaches lock_sys_start s" "i < length (ls_ops s)" "j < length (ls_ops s)" "i \<noteq> j"
    and "wg_mode (ls_ops s ! i) = ExclusiveLock"
    and "wg_alive (ls_ops s ! i) \<or> 0 < wg_pending (ls_ops s ! i)"
    and "wg_alive (ls_ops s ! j) \<or> 0 < wg_pending (ls_ops s ! j)"
  shows "wg_state (ls_ops s ! j) = Some (Unguarded ReadOnlyWorld)"
  by (rule working_excludes [OF lock_inv_reaches [OF assms(1) lock_inv_start] assms(2-7)])

theorem checkout_excludes_witness:
  "wg_state (ls_ops demo_cancelled ! 1) = Some (Unguarded ReadOnlyWorld)"
  using checkout_excludes [OF demo_cancelled_reached, of 0 1] by (simp add: demo_cancelled_def)

text \<open>C13: When every future is gone, whatever was cancelled and when, the steps that have started can run to
  their end, and then no handle holds the lock: a writer that can open the lock file gets it.\<close>

theorem lock_is_given_up:
  assumes "lock_reaches lock_sys_start s" "\<forall>g \<in> set (ls_ops s). \<not> wg_alive g"
  shows "\<exists>t. lock_reaches s t \<and> ls_table t = {}
    \<and> (\<forall>os fd. lock_file_opens os \<longrightarrow> (\<exists>st. lock_acquire os None fd ExclusiveLock (ls_table t) = Inr (Guarded st, {(fd, ExclusiveLock)})))"
proof -
  obtain t where t: "lock_reaches s t" "ls_table t = {}"
    using world_freed [OF lock_inv_reaches [OF assms(1) lock_inv_start] assms(2)] by blast
  have "\<exists>st. lock_acquire os None fd ExclusiveLock (ls_table t) = Inr (Guarded st, {(fd, ExclusiveLock)})" if "lock_file_opens os" for os fd
    using lock_acquire_answer [of os fd ExclusiveLock "{}"] that t(2) by simp
  then show ?thesis using t by blast
qed

theorem lock_is_given_up_witness:
  "\<exists>s t. lock_reaches demo_cancelled s \<and> lock_reaches s t \<and> ls_table s \<noteq> {} \<and> ls_table t = {}"
proof -
  let ?s = "set_op 1 (drop_future (ls_ops demo_cancelled ! 1, ls_table demo_cancelled)) demo_cancelled"
  have step: "lock_step demo_cancelled ?s" by (rule lock_step.cancel_op) (simp_all add: demo_cancelled_def)
  then have reach: "lock_reaches lock_sys_start ?s" using demo_cancelled_reached by (meson rtranclp.rtrancl_into_rtrancl)
  have dead: "\<forall>g \<in> set (ls_ops ?s). \<not> wg_alive g"
    by (simp add: demo_cancelled_def drop_future_def guard_dropped_def guard_release_def)
  have "ls_table ?s \<noteq> {}"
    by (simp add: demo_cancelled_def drop_future_def guard_dropped_def guard_release_def)
  then show ?thesis using lock_is_given_up [OF reach dead] step by (meson r_into_rtranclp)
qed

end
