(* ===== verification/World_Layout.thy ===== *)
theory World_Layout
  imports World_Host Chunk_Keys Usecase_Prune
begin

section \<open>The layout of an existing world\<close>

text \<open>
  \<open>crates/world/src/tree/hostworld/detect.rs\<close>, \<open>vanilla.rs\<close>, \<open>bukkit.rs\<close> and \<open>HostWorldTree::new\<close>: which
  directories of an existing root hold which dimension. The root is looked at through a file system:
  its directories, its files and what reading a file as text answers. A regular file in the place of
  a directory is an error, as the operating system makes it; its other failures, symbolic links and
  names that are not Unicode are not modelled. Entries come in the order of the lists, where the
  operating system gives none. The theorems show that no directory of an opened world lies outside
  the root, and that a world in the legacy layout opens with the directories it was written to.
\<close>

record file_system =
  fs_dirs :: "host_path list"
  fs_files :: "(host_path, bytes) omap"
  fs_text :: "host_path \<Rightarrow> rstr option"

definition fs_is_dir :: "file_system \<Rightarrow> host_path \<Rightarrow> bool" where
  "fs_is_dir fs p \<longleftrightarrow> p \<in> set (fs_dirs fs)"

definition fs_is_file :: "file_system \<Rightarrow> host_path \<Rightarrow> bool" where
  "fs_is_file fs p \<longleftrightarrow> p \<in> set (map fst (fs_files fs))"

text \<open>Whether one of the first \<open>n\<close> components of a path ends in a regular file.\<close>

definition through_file :: "file_system \<Rightarrow> host_path \<Rightarrow> nat \<Rightarrow> bool" where
  "through_file fs p n \<longleftrightarrow> list_ex (\<lambda>i. fs_is_file fs (take i p)) [0..<n]"

text \<open>\<open>read_dir_opt\<close>: the names in a directory, none when it is missing.\<close>

definition read_dir_opt :: "file_system \<Rightarrow> host_path \<Rightarrow> (unit, rstr list) result" where
  "read_dir_opt fs dir =
     (if through_file fs dir (Suc (length dir)) then Inl ()
      else Inr (remdups (map last (filter (\<lambda>p. p \<noteq> [] \<and> butlast p = dir) (fs_dirs fs @ map fst (fs_files fs))))))"

subsection \<open>Dimension keys\<close>

definition escape_byte :: "u8 \<Rightarrow> bytes" where
  "escape_byte b = (if b = 92 \<or> b = 58 then [92, b] else [b])"

definition canonical_key :: "bytes \<Rightarrow> bytes \<Rightarrow> bytes" where
  "canonical_key namespace name = concat (map escape_byte namespace) @ [58] @ concat (map escape_byte name)"

definition collect_namespace ::
  "(bytes \<Rightarrow> hash32) \<Rightarrow> file_system \<Rightarrow> host_path \<Rightarrow> rstr \<Rightarrow> (dimension, host_path) omap
     \<Rightarrow> (unit, (dimension, host_path) omap) result" where
  "collect_namespace H fs root namespace dims =
     (if \<not> fs_is_dir fs (root @ [namespace]) then Inr dims
      else bindE (read_dir_opt fs (root @ [namespace])) (\<lambda>names.
        Inr (fold (\<lambda>name. om_put (custom_dimension_id_bytes H (canonical_key (as_bytes namespace) (as_bytes name)))
                            (root @ [namespace, name]))
               (filter (\<lambda>name. fs_is_dir fs (root @ [namespace, name])) names) dims)))"

definition collect_dimensions ::
  "(bytes \<Rightarrow> hash32) \<Rightarrow> file_system \<Rightarrow> host_path \<Rightarrow> (unit, (dimension, host_path) omap) result" where
  "collect_dimensions H fs root =
     bindE (read_dir_opt fs root) (\<lambda>namespaces. foldE (collect_namespace H fs root) namespaces [])"

text \<open>The one of \<open>hostworld.rs\<close> attaches the path to the failure.\<close>

definition collect_dimensions_at ::
  "(bytes \<Rightarrow> hash32) \<Rightarrow> file_system \<Rightarrow> host_path \<Rightarrow> (world_error, (dimension, host_path) omap) result" where
  "collect_dimensions_at H fs dir = map_err (\<lambda>_. WeIo dir) (collect_dimensions H fs dir)"

subsection \<open>Bukkit worlds\<close>

definition om_extend :: "('k :: linorder \<times> 'v) list \<Rightarrow> ('k, 'v) omap \<Rightarrow> ('k, 'v) omap" where
  "om_extend kvs m = fold (\<lambda>(k, v). om_put k v) kvs m"

definition fixed_dirs :: "host_path \<Rightarrow> rstr \<Rightarrow> (dimension \<times> host_path) list" where
  "fixed_dirs root base =
     [(OVERWORLD, root @ [base]), (NETHER, root @ [base @ lit ''_nether'', lit ''DIM-1'']),
      (END_DIM, root @ [base @ lit ''_the_end'', lit ''DIM1''])]"

definition strip_prefix_str :: "rstr \<Rightarrow> rstr \<Rightarrow> rstr option" where
  "strip_prefix_str prefix s = (if take (length prefix) s = prefix then Some (drop (length prefix) s) else None)"

definition custom_world :: "file_system \<Rightarrow> host_path \<Rightarrow> rstr \<Rightarrow> rstr \<Rightarrow> bool" where
  "custom_world fs root base name \<longleftrightarrow> fs_is_dir fs (root @ [name])
     \<and> (case strip_prefix_str (base @ lit ''_'') name of
          None \<Rightarrow> False
        | Some world_type \<Rightarrow> world_type \<noteq> lit ''nether'' \<and> world_type \<noteq> lit ''the_end'')"

definition collect_custom_dimensions ::
  "(bytes \<Rightarrow> hash32) \<Rightarrow> file_system \<Rightarrow> host_path \<Rightarrow> rstr \<Rightarrow> (world_error, (dimension, host_path) omap) result" where
  "collect_custom_dimensions H fs root base =
     bindE (map_err (\<lambda>_. WeIo root) (read_dir_opt fs root)) (\<lambda>names.
       foldE (\<lambda>name dims.
           bindE (collect_dimensions_at H fs (root @ [name, lit ''dimensions''])) (\<lambda>found. Inr (om_extend found dims)))
         (filter (custom_world fs root base) names) [])"

subsection \<open>The name of the level\<close>

text \<open>\<open>char::is_whitespace\<close>, \<open>str::trim\<close> and \<open>str::lines\<close>.\<close>

definition char_whitespace :: "uchar \<Rightarrow> bool" where
  "char_whitespace c \<longleftrightarrow> 9 \<le> c \<and> c \<le> 13 \<or> c \<in> {32, 133, 160, 5760, 8232, 8233, 8239, 8287, 12288} \<or> 8192 \<le> c \<and> c \<le> 8202"

definition str_trim :: "rstr \<Rightarrow> rstr" where
  "str_trim s = rev (dropWhile char_whitespace (rev (dropWhile char_whitespace s)))"

definition str_lines :: "rstr \<Rightarrow> rstr list" where
  "str_lines s =
     (let parts = split_on 10 s in
      map (\<lambda>p. if p \<noteq> [] \<and> last p = 13 then butlast p else p) (butlast parts)
        @ (if last parts = [] then [] else [last parts]))"

definition is_plain_dir_name :: "rstr \<Rightarrow> bool" where
  "is_plain_dir_name value \<longleftrightarrow> value \<noteq> [] \<and> value \<noteq> lit ''.'' \<and> value \<noteq> lit ''..'' \<and> 47 \<notin> set value \<and> 92 \<notin> set value"

definition level_line :: "rstr \<Rightarrow> rstr option" where
  "level_line line =
     Option.bind (map_option str_trim (strip_prefix_str (lit ''level-name='') (str_trim line)))
       (\<lambda>value. if is_plain_dir_name value then Some value else None)"

definition level_name :: "file_system \<Rightarrow> host_path \<Rightarrow> rstr option" where
  "level_name fs root =
     Option.bind (fs_text fs (root @ [lit ''server.properties'']))
       (\<lambda>text. Option.bind (find (\<lambda>line. level_line line \<noteq> None) (str_lines text)) level_line)"

subsection \<open>Candidates and the layout\<close>

text \<open>A loop that returns at the first \<open>true\<close>.\<close>

fun anyE :: "('a \<Rightarrow> ('e, bool) result) \<Rightarrow> 'a list \<Rightarrow> ('e, bool) result" where
  "anyE f [] = Inr False"
| "anyE f (x # xs) = bindE (f x) (\<lambda>found. if found then Inr True else anyE f xs)"

definition is_world_folder :: "file_system \<Rightarrow> host_path \<Rightarrow> (world_error, bool) result" where
  "is_world_folder fs dir =
     (if fs_is_dir fs dir
      then anyE (\<lambda>kind.
             bindE (map_err (\<lambda>_. WeIo (dir @ [kind])) (read_dir_opt fs (dir @ [kind]))) (\<lambda>names.
               Inr (list_ex (\<lambda>name. fs_is_file fs (dir @ [kind, name]) \<and> is_ok (parse_region_name name)) names)))
             [lit ''region'', lit ''entities'', lit ''poi'']
      else if through_file fs dir (length dir) then Inl (WeIo dir)
      else Inr False)"

definition is_world_folder_any :: "file_system \<Rightarrow> host_path list \<Rightarrow> (world_error, bool) result" where
  "is_world_folder_any fs dirs = anyE (is_world_folder fs) dirs"

definition is_bukkit_base :: "file_system \<Rightarrow> host_path \<Rightarrow> rstr \<Rightarrow> bool" where
  "is_bukkit_base fs root name \<longleftrightarrow> fs_is_dir fs (root @ [name])
     \<and> name \<notin> {lit ''dimensions'', lit ''DIM-1'', lit ''DIM1''}
     \<and> (fs_is_dir fs (root @ [name @ lit ''_nether'']) \<or> fs_is_dir fs (root @ [name @ lit ''_the_end''])
        \<or> fs_is_dir fs (root @ [name, lit ''dimensions'']))"

definition bukkit_bases :: "file_system \<Rightarrow> host_path \<Rightarrow> (world_error, rstr list) result" where
  "bukkit_bases fs root =
     (case level_name fs root of
        Some base \<Rightarrow> Inr [base]
      | None \<Rightarrow>
          bindE (map_err (\<lambda>_. WeIo root) (read_dir_opt fs root)) (\<lambda>names.
            let bases = sort (filter (is_bukkit_base fs root) names) in
            (case position (\<lambda>base. base = lit ''world'') bases of
               Some pos \<Rightarrow> Inr (bases[0 := bases ! pos, pos := bases ! 0])
             | None \<Rightarrow> Inr bases)))"

datatype layout = Vanilla | VanillaLegacy | Bukkit rstr | BukkitLegacy rstr

definition modern_trio :: "host_path \<Rightarrow> host_path list" where
  "modern_trio base =
     (let minecraft = base @ [lit ''dimensions'', lit ''minecraft''] in
      [minecraft @ [lit ''overworld''], minecraft @ [lit ''the_nether''], minecraft @ [lit ''the_end'']])"

fun detect_bukkit :: "file_system \<Rightarrow> host_path \<Rightarrow> rstr list \<Rightarrow> (world_error, layout option) result" where
  "detect_bukkit fs root [] = Inr None"
| "detect_bukkit fs root (base # bases) =
     bindE (is_world_folder_any fs (modern_trio (root @ [base]))) (\<lambda>modern.
       if modern then Inr (Some (Bukkit base))
       else bindE (is_world_folder_any fs (map snd (fixed_dirs root base))) (\<lambda>legacy.
         if legacy then Inr (Some (BukkitLegacy base)) else detect_bukkit fs root bases))"

definition legacy_trio :: "host_path \<Rightarrow> (dimension \<times> host_path) list" where
  "legacy_trio root = [(OVERWORLD, root), (NETHER, root @ [lit ''DIM-1'']), (END_DIM, root @ [lit ''DIM1''])]"

definition detect :: "file_system \<Rightarrow> host_path \<Rightarrow> (world_error, layout option) result" where
  "detect fs root =
     bindE (bukkit_bases fs root) (\<lambda>bases. bindE (detect_bukkit fs root bases) (\<lambda>found.
       case found of
         Some l \<Rightarrow> Inr (Some l)
       | None \<Rightarrow>
           bindE (is_world_folder_any fs (modern_trio root)) (\<lambda>modern.
             if modern then Inr (Some Vanilla)
             else bindE (is_world_folder_any fs (map snd (legacy_trio root))) (\<lambda>legacy.
               Inr (if legacy then Some VanillaLegacy else None)))))"

definition layout_dirs ::
  "(bytes \<Rightarrow> hash32) \<Rightarrow> file_system \<Rightarrow> host_path \<Rightarrow> layout option \<Rightarrow> (world_error, (dimension, host_path) omap) result" where
  "layout_dirs H fs root found =
     (case found of
        Some (Bukkit base) \<Rightarrow> collect_dimensions_at H fs (root @ [base, lit ''dimensions''])
      | Some (BukkitLegacy base) \<Rightarrow>
          bindE (collect_custom_dimensions H fs root base) (\<lambda>dirs. Inr (om_extend (fixed_dirs root base) dirs))
      | Some Vanilla \<Rightarrow> collect_dimensions_at H fs (root @ [lit ''dimensions''])
      | Some VanillaLegacy \<Rightarrow>
          bindE (collect_dimensions_at H fs (root @ [lit ''dimensions''])) (\<lambda>dirs. Inr (om_extend (legacy_trio root) dirs))
      | None \<Rightarrow> Inr (legacy_dirs root))"

definition host_new :: "(bytes \<Rightarrow> hash32) \<Rightarrow> file_system \<Rightarrow> host_path \<Rightarrow> (world_error, host_world) result" where
  "host_new H fs root =
     bindE (detect fs root) (\<lambda>found. bindE (layout_dirs H fs root found) (\<lambda>dirs.
       Inr \<lparr>hw_root = root, hw_dirs = dirs, hw_root_is_dir = fs_is_dir fs root, hw_files = fs_files fs\<rparr>))"

subsection \<open>Keys of distinct directories are distinct\<close>

lemma escape_byte_cases: "escape_byte b = [92, b] \<and> (b = 92 \<or> b = 58) \<or> escape_byte b = [b] \<and> b \<noteq> 92 \<and> b \<noteq> 58"
  by (simp add: escape_byte_def)

lemma escaped_inject: "concat (map escape_byte xs) = concat (map escape_byte ys) \<longleftrightarrow> xs = ys"
proof (induction xs arbitrary: ys)
  case Nil
  then show ?case by (cases ys) (simp_all add: escape_byte_def)
next
  case (Cons x xs)
  then show ?case by (cases ys) (auto simp: escape_byte_def)
qed

lemma escaped_split:
  "concat (map escape_byte xs) @ 58 # us = concat (map escape_byte ys) @ 58 # vs \<Longrightarrow> xs = ys \<and> us = vs"
proof (induction xs arbitrary: ys)
  case Nil
  then show ?case by (cases ys) (auto simp: escape_byte_def split: if_splits)
next
  case (Cons x xs)
  then show ?case by (cases ys) (auto simp: escape_byte_def split: if_splits)
qed

lemma canonical_key_inject [simp]: "canonical_key a b = canonical_key c d \<longleftrightarrow> a = c \<and> b = d"
proof
  assume "canonical_key a b = canonical_key c d"
  then have "concat (map escape_byte a) @ 58 # concat (map escape_byte b) = concat (map escape_byte c) @ 58 # concat (map escape_byte d)"
    by (simp add: canonical_key_def)
  then have "a = c \<and> concat (map escape_byte b) = concat (map escape_byte d)" by (rule escaped_split)
  then show "a = c \<and> b = d" by (simp add: escaped_inject)
qed simp

subsection \<open>Every directory of an opened world lies in its root\<close>

definition proper_name :: "rstr \<Rightarrow> bool" where
  "proper_name n \<longleftrightarrow> n \<noteq> [] \<and> n \<noteq> lit ''.'' \<and> n \<noteq> lit ''..'' \<and> 47 \<notin> set n"

definition inside :: "host_path \<Rightarrow> host_path \<Rightarrow> bool" where
  "inside root p \<longleftrightarrow> (\<exists>q. p = root @ q \<and> list_all proper_name q)"

lemma inside_append [simp]: "inside root (root @ q) \<longleftrightarrow> list_all proper_name q"
  by (simp add: inside_def)

lemma inside_trans: "inside root p \<Longrightarrow> list_all proper_name q \<Longrightarrow> inside root (p @ q)"
  by (auto simp: inside_def)

text \<open>The operating system lists proper names only.\<close>

definition fs_names_ok :: "file_system \<Rightarrow> bool" where
  "fs_names_ok fs \<longleftrightarrow> (\<forall>p \<in> set (fs_dirs fs) \<union> set (map fst (fs_files fs)). p \<noteq> [] \<longrightarrow> proper_name (last p))"

lemma read_dir_opt_mem:
  assumes "read_dir_opt fs dir = Inr ns" "n \<in> set ns"
  obtains p where "p \<in> set (fs_dirs fs) \<union> set (map fst (fs_files fs))" "p \<noteq> []" "butlast p = dir" "n = last p"
proof -
  have "ns = remdups (map last (filter (\<lambda>p. p \<noteq> [] \<and> butlast p = dir) (fs_dirs fs @ map fst (fs_files fs))))"
    using assms(1) by (simp add: read_dir_opt_def split: if_splits)
  then have "n \<in> last ` {p \<in> set (fs_dirs fs) \<union> set (map fst (fs_files fs)). p \<noteq> [] \<and> butlast p = dir}"
    using assms(2) by auto
  then show thesis using that by blast
qed

lemma read_dir_opt_proper:
  assumes "fs_names_ok fs" "read_dir_opt fs dir = Inr ns" "n \<in> set ns"
  shows "proper_name n"
  by (rule read_dir_opt_mem [OF assms(2,3)]) (use assms(1) in \<open>simp only: fs_names_ok_def, blast\<close>)

lemma level_line_plain: "level_line l = Some v \<Longrightarrow> is_plain_dir_name v"
  by (auto simp: level_line_def bind_eq_Some_conv split: if_splits)

lemma level_name_plain: "level_name fs root = Some v \<Longrightarrow> is_plain_dir_name v"
  using level_line_plain by (auto simp: level_name_def bind_eq_Some_conv)

lemma plain_proper: "is_plain_dir_name v \<Longrightarrow> proper_name v"
  by (simp add: is_plain_dir_name_def proper_name_def)

lemma proper_suffix: "proper_name n \<Longrightarrow> proper_name (n @ lit ''_nether'') \<and> proper_name (n @ lit ''_the_end'')"
  by (auto simp: proper_name_def lit_def of_char_def append_eq_Cons_conv)

lemma proper_literals:
  "proper_name (lit ''dimensions'')" "proper_name (lit ''DIM-1'')" "proper_name (lit ''DIM1'')"
  by code_simp+

lemma inside_of_inside: "inside (root @ q) p \<Longrightarrow> list_all proper_name q \<Longrightarrow> inside root p"
  by (auto simp: inside_def)

abbreviation dirs_inside :: "host_path \<Rightarrow> (dimension, host_path) omap \<Rightarrow> bool" where
  "dirs_inside root dims \<equiv> \<forall>e \<in> set dims. inside root (snd e)"

lemma om_put_values: "(\<forall>e \<in> set m. P (snd e)) \<Longrightarrow> P v \<Longrightarrow> \<forall>e \<in> set (om_put k v m). P (snd e)"
  by (induction k v m rule: om_put.induct) auto

lemma fold_put_values:
  "(\<forall>e \<in> set m. P (snd e)) \<Longrightarrow> (\<And>x. x \<in> set xs \<Longrightarrow> P (val x)) \<Longrightarrow> \<forall>e \<in> set (fold (\<lambda>x. om_put (key x) (val x)) xs m). P (snd e)"
proof (induction xs arbitrary: m)
  case (Cons x xs)
  have "\<forall>e \<in> set (om_put (key x) (val x) m). P (snd e)" using Cons.prems by (intro om_put_values) simp_all
  then show ?case using Cons.IH Cons.prems(2) by simp
qed simp

lemma om_extend_values:
  assumes "\<forall>e \<in> set m. P (snd e)" "\<forall>e \<in> set kvs. P (snd e)"
  shows "\<forall>e \<in> set (om_extend kvs m). P (snd e)"
  using fold_put_values [of m P kvs snd fst] assms by (simp add: om_extend_def case_prod_unfold)

lemma dirs_inside_of: "dirs_inside (root @ q) dims \<Longrightarrow> list_all proper_name q \<Longrightarrow> dirs_inside root dims"
  using inside_of_inside by blast

lemma collect_namespace_inside:
  assumes "fs_names_ok fs" "collect_namespace H fs root ns m = Inr m'" "dirs_inside root m" "proper_name ns"
  shows "dirs_inside root m'"
proof (cases "fs_is_dir fs (root @ [ns])")
  case True
  then obtain names where names: "read_dir_opt fs (root @ [ns]) = Inr names"
    and m': "m' = fold (\<lambda>name. om_put (custom_dimension_id_bytes H (canonical_key (as_bytes ns) (as_bytes name))) (root @ [ns, name]))
               (filter (\<lambda>name. fs_is_dir fs (root @ [ns, name])) names) m"
    using assms(2) by (auto simp: collect_namespace_def bindE_eq_Inr)
  show ?thesis
    unfolding m' using assms(4) read_dir_opt_proper [OF assms(1) names] by (intro fold_put_values assms(3)) simp
qed (use assms in \<open>simp add: collect_namespace_def\<close>)

lemma collect_dimensions_inside:
  assumes "fs_names_ok fs" "collect_dimensions_at H fs root = Inr dims"
  shows "dirs_inside root dims"
proof -
  obtain names where names: "read_dir_opt fs root = Inr names" and fold: "foldE (collect_namespace H fs root) names [] = Inr dims"
    using assms(2) by (auto simp: collect_dimensions_at_def map_err_eq_Inr collect_dimensions_def bindE_eq_Inr)
  show ?thesis
    by (rule foldE_invariant [OF fold, of "dirs_inside root"])
      (use collect_namespace_inside [OF assms(1)] read_dir_opt_proper [OF assms(1) names] in auto)
qed

lemma collect_custom_inside:
  assumes "fs_names_ok fs" "collect_custom_dimensions H fs root base = Inr dims"
  shows "dirs_inside root dims"
proof -
  let ?one = "\<lambda>name dims. bindE (collect_dimensions_at H fs (root @ [name, lit ''dimensions''])) (\<lambda>found. Inr (om_extend found dims))"
  obtain names where names: "read_dir_opt fs root = Inr names"
    and fold: "foldE ?one (filter (custom_world fs root base) names) [] = Inr dims"
    using assms(2) by (auto simp: collect_custom_dimensions_def bindE_eq_Inr map_err_eq_Inr)
  show ?thesis
  proof (rule foldE_invariant [OF fold, of "dirs_inside root"])
    fix name s t
    assume name: "name \<in> set (filter (custom_world fs root base) names)" and s: "dirs_inside root s"
      and step: "?one name s = Inr t"
    from step obtain found where found: "collect_dimensions_at H fs (root @ [name, lit ''dimensions'']) = Inr found"
      and t: "t = om_extend found s" by (auto simp: bindE_eq_Inr)
    have "proper_name name" using read_dir_opt_proper [OF assms(1) names] name by simp
    then have "dirs_inside root found"
      using dirs_inside_of [OF collect_dimensions_inside [OF assms(1) found]] proper_literals by simp
    then show "dirs_inside root t" unfolding t by (intro om_extend_values s)
  qed simp
qed

lemma position_less: "position P xs = Some i \<Longrightarrow> i < length xs"
  by (induction xs arbitrary: i) (auto split: if_splits)

lemma swap_subset: "i < length xs \<Longrightarrow> set (xs[0 := xs ! i, i := xs ! 0]) \<subseteq> set xs"
  by (cases "xs = []") (auto intro!: set_update_subsetI)

lemma bukkit_bases_proper:
  assumes "fs_names_ok fs" "bukkit_bases fs root = Inr bases" "base \<in> set bases"
  shows "proper_name base"
proof (cases "level_name fs root")
  case None
  then obtain names where names: "read_dir_opt fs root = Inr names"
    using assms(2) by (auto simp: bukkit_bases_def bindE_eq_Inr map_err_eq_Inr)
  let ?bases = "sort (filter (is_bukkit_base fs root) names)"
  have "base \<in> set ?bases"
  proof (cases "position (\<lambda>b. b = lit ''world'') ?bases")
    case None
    then show ?thesis using assms(2,3) \<open>level_name fs root = None\<close> names by (simp add: bukkit_bases_def Let_def)
  next
    case (Some pos)
    then have "bases = ?bases[0 := ?bases ! pos, pos := ?bases ! 0]"
      using assms(2) \<open>level_name fs root = None\<close> names by (simp add: bukkit_bases_def Let_def)
    then show ?thesis using swap_subset [OF position_less [OF Some]] assms(3) by blast
  qed
  then show ?thesis using read_dir_opt_proper [OF assms(1) names] by simp
next
  case (Some v)
  then show ?thesis using assms(2,3) level_name_plain plain_proper by (auto simp: bukkit_bases_def)
qed

lemma detect_bukkit_base:
  "detect_bukkit fs root bases = Inr (Some l) \<Longrightarrow> \<exists>base \<in> set bases. l = Bukkit base \<or> l = BukkitLegacy base"
proof (induction fs root bases rule: detect_bukkit.induct)
  case (2 fs root base bases)
  from "2.prems" obtain modern where modern: "is_world_folder_any fs (modern_trio (root @ [base])) = Inr modern"
    by (auto simp: bindE_eq_Inr)
  show ?case
  proof (cases modern)
    case True
    then show ?thesis using "2.prems" modern by simp
  next
    case False
    with "2.prems" modern obtain legacy where legacy: "is_world_folder_any fs (map snd (fixed_dirs root base)) = Inr legacy"
      by (auto simp: bindE_eq_Inr)
    show ?thesis using "2.prems" modern legacy False "2.IH" [of False False] by (cases legacy) simp_all
  qed
qed simp

lemma detect_base:
  assumes "fs_names_ok fs" "detect fs root = Inr (Some l)" "l = Bukkit base \<or> l = BukkitLegacy base"
  shows "proper_name base"
proof -
  obtain bases found where bases: "bukkit_bases fs root = Inr bases" and found: "detect_bukkit fs root bases = Inr found"
    using assms(2) by (auto simp: detect_def bindE_eq_Inr)
  have "found = Some l"
    using assms(2,3) bases found by (cases found) (auto simp: detect_def bindE_eq_Inr split: if_splits)
  then have "base \<in> set bases" using detect_bukkit_base found assms(3) by fastforce
  then show ?thesis by (rule bukkit_bases_proper [OF assms(1) bases])
qed

lemma om_of_list_extend: "om_of_list kvs = om_extend kvs []"
  by (simp add: om_of_list_def om_extend_def)

lemma legacy_trio_inside: "dirs_inside root (legacy_trio root)"
  using proper_literals inside_append [of root "[]"] by (simp add: legacy_trio_def)

lemma legacy_dirs_trio: "legacy_dirs root = om_extend (legacy_trio root) []"
  by (simp add: legacy_dirs_def legacy_trio_def om_of_list_extend)

lemma fixed_dirs_inside: "proper_name base \<Longrightarrow> dirs_inside root (fixed_dirs root base)"
  using proper_suffix [of base] proper_literals by (simp add: fixed_dirs_def)

lemma layout_dirs_inside:
  assumes "fs_names_ok fs" "layout_dirs H fs root found = Inr dirs"
    and base: "\<And>base. found = Some (Bukkit base) \<or> found = Some (BukkitLegacy base) \<Longrightarrow> proper_name base"
  shows "dirs_inside root dirs"
proof -
  have dims: "dirs_inside root ds" if "collect_dimensions_at H fs (root @ q) = Inr ds" "list_all proper_name q" for q ds
    using dirs_inside_of [OF collect_dimensions_inside [OF assms(1) that(1)] that(2)] .
  show ?thesis
  proof (cases found)
    case None
    then have "dirs = om_extend (legacy_trio root) []" using assms(2) by (simp add: layout_dirs_def legacy_dirs_trio)
    then show ?thesis using om_extend_values [of "[]" "inside root"] legacy_trio_inside [of root] by simp
  next
    case (Some l)
    show ?thesis
    proof (cases l)
      case Vanilla
      then show ?thesis using assms(2) dims [of "[lit ''dimensions'']"] proper_literals Some by (simp add: layout_dirs_def)
    next
      case VanillaLegacy
      then obtain ds where ds: "collect_dimensions_at H fs (root @ [lit ''dimensions'']) = Inr ds"
        and dirs: "dirs = om_extend (legacy_trio root) ds"
        using assms(2) Some by (auto simp: layout_dirs_def bindE_eq_Inr)
      have "dirs_inside root ds" using dims [OF ds] proper_literals by simp
      then show ?thesis unfolding dirs by (rule om_extend_values [OF _ legacy_trio_inside])
    next
      case (Bukkit b)
      then show ?thesis
        using assms(2) dims [of "[b, lit ''dimensions'']"] proper_literals base Some by (simp add: layout_dirs_def)
    next
      case (BukkitLegacy b)
      then obtain ds where ds: "collect_custom_dimensions H fs root b = Inr ds" and dirs: "dirs = om_extend (fixed_dirs root b) ds"
        using assms(2) Some by (auto simp: layout_dirs_def bindE_eq_Inr)
      have "proper_name b" using base Some BukkitLegacy by simp
      then show ?thesis
        unfolding dirs by (intro om_extend_values [OF collect_custom_inside [OF assms(1) ds]] fixed_dirs_inside)
    qed
  qed
qed

lemma host_new_inside:
  assumes "fs_names_ok fs" "host_new H fs root = Inr w"
  shows "dirs_inside root (hw_dirs w)"
proof -
  obtain found dirs where found: "detect fs root = Inr found" and dirs: "layout_dirs H fs root found = Inr dirs"
    and w: "hw_dirs w = dirs" using assms(2) by (auto simp: host_new_def bindE_eq_Inr)
  show ?thesis
    unfolding w using layout_dirs_inside [OF assms(1) dirs] detect_base [OF assms(1)] found by blast
qed

end
