(* ===== verification/Layout_Properties.thy ===== *)
theory Layout_Properties
  imports World_Layout
begin

section \<open>Opening a world\<close>

text \<open>
  Two properties of \<open>HostWorldTree::new\<close>: the directories it maps dimensions to lie in the root, and a
  world whose files are where the legacy layout puts them opens as the world that wrote them. The
  second is stated over \<open>fs_of\<close>, the file system that holds the files of a world and their directories.
\<close>

definition fs_of :: "host_world \<Rightarrow> file_system" where
  "fs_of w =
     \<lparr>fs_dirs = (if hw_root_is_dir w then [hw_root w] else [])
        @ concat (map (\<lambda>(p, _). map (\<lambda>i. take i p) [length (hw_root w)..<length p]) (hw_files w)),
      fs_files = hw_files w, fs_text = (\<lambda>_. None)\<rparr>"

definition kind_names :: "rstr set" where
  "kind_names = {lit ''region'', lit ''entities'', lit ''poi''}"

definition dim_names :: "rstr set" where
  "dim_names = {lit ''DIM-1'', lit ''DIM1''}"

text \<open>Where a file of the legacy layout lies under the root, and the directories above it.\<close>

definition legacy_file :: "host_path \<Rightarrow> bool" where
  "legacy_file t \<longleftrightarrow>
     (case t of [k, _] \<Rightarrow> k \<in> kind_names | [d, k, _] \<Rightarrow> d \<in> dim_names \<and> k \<in> kind_names | _ \<Rightarrow> False)"

definition legacy_place :: "host_path \<Rightarrow> bool" where
  "legacy_place t \<longleftrightarrow>
     (case t of [] \<Rightarrow> True | [a] \<Rightarrow> a \<in> kind_names \<union> dim_names | [d, k] \<Rightarrow> d \<in> dim_names \<and> k \<in> kind_names | _ \<Rightarrow> False)"

definition legacy_world :: "host_path \<Rightarrow> host_world \<Rightarrow> bool" where
  "legacy_world root w \<longleftrightarrow> hw_root w = root \<and> hw_root_is_dir w \<and> hw_dirs w = legacy_dirs root
     \<and> (\<forall>p \<in> set (map fst (hw_files w)). \<exists>t. p = root @ t \<and> legacy_file t)"

lemma legacy_fileE:
  assumes "legacy_file t"
  obtains k n where "t = [k, n]" "k \<in> kind_names"
  | d k n where "t = [d, k, n]" "d \<in> dim_names" "k \<in> kind_names"
  using assms by (auto simp: legacy_file_def split: list.splits)

lemma legacy_placeE:
  assumes "legacy_place t"
  obtains "t = []" | a where "t = [a]" "a \<in> kind_names \<union> dim_names"
  | d k where "t = [d, k]" "d \<in> dim_names" "k \<in> kind_names"
  using assms by (auto simp: legacy_place_def split: list.splits)

lemma layout_names:
  "lit ''dimensions'' \<notin> kind_names" "lit ''dimensions'' \<notin> dim_names"
  "k \<in> kind_names \<Longrightarrow> k @ lit ''_nether'' \<notin> kind_names \<union> dim_names"
  "k \<in> kind_names \<Longrightarrow> k @ lit ''_the_end'' \<notin> kind_names \<union> dim_names"
  "d \<in> dim_names \<Longrightarrow> d \<notin> kind_names"
  by (auto simp: kind_names_def dim_names_def lit_def of_char_def)

lemma kind_dir_names: "kind_dir k \<in> kind_names"
  by (cases k) (simp_all add: kind_names_def)

subsection \<open>The file system of a legacy world\<close>

lemma legacy_place_take: "legacy_file t \<Longrightarrow> i < length t \<Longrightarrow> legacy_place (take i t)"
  by (erule legacy_fileE) (auto simp: legacy_place_def less_Suc_eq take_Cons')

lemma fs_of_file:
  assumes "legacy_world root w" "fs_is_file (fs_of w) p"
  obtains t where "p = root @ t" "legacy_file t"
  using assms by (auto simp: legacy_world_def fs_is_file_def fs_of_def)

lemma fs_of_dir:
  assumes "legacy_world root w" "fs_is_dir (fs_of w) p"
  obtains t where "p = root @ t" "legacy_place t"
proof -
  consider "p = root" | q x i where "(q, x) \<in> set (hw_files w)" "length root \<le> i" "i < length q" "p = take i q"
    using assms by (auto simp: fs_of_def fs_is_dir_def legacy_world_def split: if_splits)
  then show thesis
  proof cases
    case 1
    then show thesis using that [of "[]"] by (simp add: legacy_place_def)
  next
    case 2
    then obtain t where t: "q = root @ t" "legacy_file t" using assms(1) by (force simp: legacy_world_def)
    then show thesis using that [of "take (i - length root) t"] 2 legacy_place_take [OF t(2), of "i - length root"] by simp
  qed
qed

lemma fs_of_not_dir: "legacy_world root w \<Longrightarrow> \<not> legacy_place t \<Longrightarrow> \<not> fs_is_dir (fs_of w) (root @ t)"
  using fs_of_dir by fastforce

lemma not_through:
  assumes "legacy_world root w" "\<And>i. i \<le> length t \<Longrightarrow> \<not> legacy_file (take i t)" "n \<le> Suc (length (root @ t))"
  shows "\<not> through_file (fs_of w) (root @ t) n"
proof
  assume "through_file (fs_of w) (root @ t) n"
  then obtain i where i: "i < n" "fs_is_file (fs_of w) (take i (root @ t))" by (auto simp: through_file_def list_ex_iff)
  then obtain s where s: "take i (root @ t) = root @ s" "legacy_file s" using fs_of_file [OF assms(1)] by metis
  have "length root \<le> i"
    using arg_cong [OF s(1), of length] s(2) by (auto elim: legacy_fileE)
  then have "s = take (i - length root) t" using s(1) by simp
  then show False using assms(2) [of "i - length root"] i(1) assms(3) s(2) by simp
qed

lemma short_no_file: "length t \<le> 1 \<Longrightarrow> \<not> legacy_file (take i t)"
  by (auto elim!: legacy_fileE dest: arg_cong [of _ _ length])

lemma dimensions_no_file: "\<not> legacy_file (take i (lit ''dimensions'' # t))"
  using layout_names(1,2) by (cases i) (auto elim!: legacy_fileE)

lemma place_no_file: "legacy_place t \<Longrightarrow> \<not> legacy_file (take i t)"
  using layout_names(5)
  by (elim legacy_placeE) (auto elim!: legacy_fileE simp: take_Cons' split: if_splits)

lemma read_place:
  assumes "legacy_world root w" "legacy_place t"
  shows "\<exists>names. read_dir_opt (fs_of w) (root @ t) = Inr names"
  using not_through [OF assms(1) place_no_file [OF assms(2)]] by (simp add: read_dir_opt_def)

lemma read_dimensions:
  assumes "legacy_world root w"
  shows "read_dir_opt (fs_of w) (root @ [lit ''dimensions'']) = Inr []"
proof -
  have none: False if p: "p \<in> set (fs_dirs (fs_of w) @ map fst (fs_files (fs_of w)))" "p \<noteq> []" "butlast p = root @ [lit ''dimensions'']" for p
  proof -
    have p': "p = root @ [lit ''dimensions'', last p]" using p(2,3) append_butlast_last_id by fastforce
    from p(1) have "fs_is_dir (fs_of w) p \<or> fs_is_file (fs_of w) p" by (simp add: fs_is_dir_def fs_is_file_def)
    then obtain t where "p = root @ t" "legacy_place t \<or> legacy_file t"
      using fs_of_dir [OF assms] fs_of_file [OF assms] by metis
    then have "legacy_place [lit ''dimensions'', last p] \<or> legacy_file [lit ''dimensions'', last p]" using p' by auto
    then show False using layout_names(1,2) by (simp add: legacy_place_def legacy_file_def)
  qed
  have "filter (\<lambda>p. p \<noteq> [] \<and> butlast p = root @ [lit ''dimensions'']) (fs_dirs (fs_of w) @ map fst (fs_files (fs_of w))) = []"
    unfolding filter_empty_conv using none by blast
  then show ?thesis
    using not_through [OF assms, of "[lit ''dimensions'']"] dimensions_no_file [of _ "[]"] by (simp add: read_dir_opt_def)
qed

subsection \<open>Detection\<close>

lemma no_bukkit_base:
  assumes "legacy_world root w"
  shows "\<not> is_bukkit_base (fs_of w) root name"
proof
  assume base: "is_bukkit_base (fs_of w) root name"
  then have "legacy_place [name]" "name \<notin> dim_names"
    using fs_of_not_dir [OF assms] by (auto simp: is_bukkit_base_def dim_names_def)
  then have name: "name \<in> kind_names" by (simp add: legacy_place_def)
  have "\<not> legacy_place [name @ lit ''_nether'']" "\<not> legacy_place [name @ lit ''_the_end'']" "\<not> legacy_place [name, lit ''dimensions'']"
    using layout_names(1,3,4) name by (auto simp: legacy_place_def)
  then show False using base fs_of_not_dir [OF assms] by (auto simp: is_bukkit_base_def)
qed

lemma no_bukkit_bases:
  assumes "legacy_world root w"
  shows "bukkit_bases (fs_of w) root = Inr []"
proof -
  have "level_name (fs_of w) root = None" by (simp add: level_name_def fs_of_def)
  moreover obtain names where "read_dir_opt (fs_of w) root = Inr names"
    using read_place [OF assms, of "[]"] by (auto simp: legacy_place_def)
  moreover have "filter (is_bukkit_base (fs_of w) root) names = []" using no_bukkit_base [OF assms] by simp
  ultimately show ?thesis by (simp add: bukkit_bases_def)
qed

lemma anyE_none: "(\<And>x. x \<in> set xs \<Longrightarrow> f x = Inr False) \<Longrightarrow> anyE f xs = Inr False"
  by (induction xs) simp_all

lemma anyE_answers: "(\<And>x. x \<in> set xs \<Longrightarrow> \<exists>b. f x = Inr b) \<Longrightarrow> \<exists>b. anyE f xs = Inr b"
  by (induction xs) force+

lemma no_modern_trio:
  assumes "legacy_world root w"
  shows "is_world_folder_any (fs_of w) (modern_trio root) = Inr False"
  unfolding is_world_folder_any_def
proof (rule anyE_none)
  fix dir assume "dir \<in> set (modern_trio root)"
  then obtain t where dir: "dir = root @ lit ''dimensions'' # t" by (auto simp: modern_trio_def Let_def)
  have "\<not> legacy_place (lit ''dimensions'' # t)" using layout_names(1,2) by (auto elim!: legacy_placeE)
  then show "is_world_folder (fs_of w) dir = Inr False"
    using fs_of_not_dir [OF assms] not_through [OF assms dimensions_no_file] by (simp add: dir is_world_folder_def)
qed

lemma legacy_trio_answers:
  assumes "legacy_world root w"
  shows "\<exists>b. is_world_folder_any (fs_of w) (map snd (legacy_trio root)) = Inr b"
  unfolding is_world_folder_any_def
proof (rule anyE_answers)
  fix dir assume "dir \<in> set (map snd (legacy_trio root))"
  then obtain t where dir: "dir = root @ t" and t: "t = [] \<or> (\<exists>d \<in> dim_names. t = [d])"
    by (auto simp: legacy_trio_def dim_names_def)
  then have place: "legacy_place t" by (auto simp: legacy_place_def)
  have kinds: "\<exists>names. read_dir_opt (fs_of w) (root @ t @ [k]) = Inr names" if "k \<in> kind_names" for k
    using read_place [OF assms, of "t @ [k]"] t that by (auto simp: legacy_place_def)
  have "\<not> through_file (fs_of w) (root @ t) (length (root @ t))"
    by (rule not_through [OF assms place_no_file [OF place]]) simp
  moreover have "\<exists>b. anyE (\<lambda>kind.
      bindE (map_err (\<lambda>_. WeIo ((root @ t) @ [kind])) (read_dir_opt (fs_of w) ((root @ t) @ [kind]))) (\<lambda>names.
        Inr (list_ex (\<lambda>name. fs_is_file (fs_of w) ((root @ t) @ [kind, name]) \<and> is_ok (parse_region_name name)) names)))
      [lit ''region'', lit ''entities'', lit ''poi''] = Inr b"
  proof (rule anyE_answers)
    fix kind assume "kind \<in> set [lit ''region'', lit ''entities'', lit ''poi'']"
    then obtain names where "read_dir_opt (fs_of w) (root @ t @ [kind]) = Inr names"
      using kinds by (auto simp: kind_names_def)
    then show "\<exists>b. bindE (map_err (\<lambda>_. WeIo ((root @ t) @ [kind])) (read_dir_opt (fs_of w) ((root @ t) @ [kind]))) (\<lambda>names.
        Inr (list_ex (\<lambda>name. fs_is_file (fs_of w) ((root @ t) @ [kind, name]) \<and> is_ok (parse_region_name name)) names)) = Inr b"
      by simp
  qed
  ultimately show "\<exists>b. is_world_folder (fs_of w) dir = Inr b"
    unfolding dir is_world_folder_def by (cases "fs_is_dir (fs_of w) (root @ t)") (simp_all del: anyE.simps, blast)
qed

lemma legacy_dirs_found:
  assumes "legacy_world root w"
  shows "\<exists>found. detect (fs_of w) root = Inr found \<and> layout_dirs H (fs_of w) root found = Inr (legacy_dirs root)"
proof -
  obtain b where "is_world_folder_any (fs_of w) (map snd (legacy_trio root)) = Inr b"
    using legacy_trio_answers [OF assms] by blast
  then have "detect (fs_of w) root = Inr (if b then Some VanillaLegacy else None)"
    using no_bukkit_bases [OF assms] no_modern_trio [OF assms] by (simp add: detect_def)
  moreover have "collect_dimensions_at H (fs_of w) (root @ [lit ''dimensions'']) = Inr []"
    using read_dimensions [OF assms] by (simp add: collect_dimensions_at_def collect_dimensions_def)
  ultimately show ?thesis by (cases b) (simp_all add: layout_dirs_def legacy_dirs_trio)
qed

lemma legacy_opens:
  assumes "legacy_world root w"
  shows "host_new H (fs_of w) root = Inr w"
proof -
  have "fs_is_dir (fs_of w) root" "fs_files (fs_of w) = hw_files w"
    using assms by (simp_all add: fs_is_dir_def fs_of_def legacy_world_def)
  then show ?thesis
    using legacy_dirs_found [OF assms, of H] assms by (auto simp: host_new_def legacy_world_def)
qed

subsection \<open>A Bukkit server\<close>

text \<open>A Paper server whose \<open>server.properties\<close> first names a directory outside the root.\<close>

definition demo_server :: file_system where
  "demo_server =
     \<lparr>fs_dirs = [[lit ''s''], [lit ''s'', lit ''hub''], [lit ''s'', lit ''hub'', lit ''region'']],
      fs_files = [([lit ''s'', lit ''hub'', lit ''region'', lit ''r.0.0.mca''], [])],
      fs_text = (\<lambda>_. Some (lit ''level-name=../out'' @ [10] @ lit '' level-name= hub ''))\<rparr>"

lemma demo_server_name: "level_name demo_server [lit ''s''] = Some (lit ''hub'')"
  by (simp add: level_name_def demo_server_def str_lines_def split_on_append Let_def level_line_def str_trim_def
      char_whitespace_def strip_prefix_str_def is_plain_dir_name_def lit_def of_char_def)
lemma demo_server_modern: "is_world_folder_any demo_server (modern_trio [lit ''s'', lit ''hub'']) = Inr False"
  by code_simp
lemma demo_server_legacy: "is_world_folder_any demo_server (map snd (fixed_dirs [lit ''s''] (lit ''hub''))) = Inr True"
  by code_simp
lemma demo_server_custom: "collect_custom_dimensions (\<lambda>_. 0) demo_server [lit ''s''] (lit ''hub'') = Inr []"
  by code_simp

lemma demo_server_opens:
  "host_new (\<lambda>_. 0) demo_server [lit ''s''] =
     Inr \<lparr>hw_root = [lit ''s''], hw_dirs = om_extend (fixed_dirs [lit ''s''] (lit ''hub'')) [], hw_root_is_dir = True,
       hw_files = fs_files demo_server\<rparr>"
proof -
  have "bukkit_bases demo_server [lit ''s''] = Inr [lit ''hub'']"
    by (simp add: bukkit_bases_def demo_server_name)
  then have "detect demo_server [lit ''s''] = Inr (Some (BukkitLegacy (lit ''hub'')))"
    using demo_server_modern demo_server_legacy by (simp add: detect_def)
  moreover have "fs_is_dir demo_server [lit ''s'']" by code_simp
  ultimately show ?thesis by (simp add: host_new_def layout_dirs_def demo_server_custom)
qed

lemma demo_server_nether:
  "om_get NETHER (om_extend (fixed_dirs [lit ''s''] (lit ''hub'')) []) = Some [lit ''s'', lit ''hub_nether'', lit ''DIM-1'']"
  by code_simp

text \<open>Electing \<open>world\<close> swaps it with the first base, which leaves the rest out of lexical order.\<close>

definition demo_bases :: file_system where
  "demo_bases =
     \<lparr>fs_dirs = [[lit ''a''], [lit ''a'', lit ''dimensions''], [lit ''b''], [lit ''b'', lit ''dimensions''],
        [lit ''world''], [lit ''world'', lit ''dimensions'']], fs_files = [], fs_text = (\<lambda>_. None)\<rparr>"

lemma elected_bases_out_of_order: "bukkit_bases demo_bases [] = Inr [lit ''world'', lit ''b'', lit ''a'']"
proof -
  have "read_dir_opt demo_bases [] = Inr [lit ''a'', lit ''b'', lit ''world'']"
    "filter (is_bukkit_base demo_bases []) [lit ''a'', lit ''b'', lit ''world''] = [lit ''a'', lit ''b'', lit ''world'']"
    by code_simp+
  moreover have "sort [lit ''a'', lit ''b'', lit ''world''] = [lit ''a'', lit ''b'', lit ''world'']"
    by (rule sort_key_id_if_sorted) (simp add: lit_def of_char_def)
  moreover have "position (\<lambda>base. base = lit ''world'') [lit ''a'', lit ''b'', lit ''world''] = Some 2" by code_simp
  moreover have "level_name demo_bases [] = None" by (simp add: level_name_def demo_bases_def)
  ultimately show ?thesis by (simp add: bukkit_bases_def numeral_2_eq_2)
qed

subsection \<open>The properties\<close>

text \<open>C16: A world in the legacy layout, the one a clone into a fresh root writes, opens again as itself: detection
  answers, no directory of it passes for another layout, and every dimension has the directory it had.\<close>

theorem legacy_world_reopens:
  assumes "legacy_world root w"
  shows "host_new H (fs_of w) root = Inr w"
  by (rule legacy_opens [OF assms])

theorem legacy_world_reopens_witness:
  "host_new (\<lambda>_. 0) (fs_of \<lparr>hw_root = [lit ''w''], hw_dirs = legacy_dirs [lit ''w''], hw_root_is_dir = True,
       hw_files = [([lit ''w'', lit ''DIM1'', lit ''region'', lit ''r.0.0.mca''], [])]\<rparr>) [lit ''w'']
    = Inr \<lparr>hw_root = [lit ''w''], hw_dirs = legacy_dirs [lit ''w''], hw_root_is_dir = True,
       hw_files = [([lit ''w'', lit ''DIM1'', lit ''region'', lit ''r.0.0.mca''], [])]\<rparr>"
  by (rule legacy_world_reopens) (simp add: legacy_world_def legacy_file_def kind_names_def dim_names_def)

text \<open>C15: However a root looks and whatever its \<open>server.properties\<close> says, the directories an opened world reads
  and writes lie in the root: each is the root extended by ordinary names, none of them empty, a dot, two
  dots or with a slash in it.\<close>

theorem opened_world_inside_root:
  assumes "fs_names_ok fs" "host_new H fs root = Inr w"
  shows "\<forall>dim dir. om_get dim (hw_dirs w) = Some dir \<longrightarrow> (\<exists>t. dir = root @ t \<and> list_all proper_name t)"
proof (intro allI impI)
  fix dim dir assume "om_get dim (hw_dirs w) = Some dir"
  then have "(dim, dir) \<in> set (hw_dirs w)" by (auto simp: om_get_def dest: map_of_SomeD)
  then show "\<exists>t. dir = root @ t \<and> list_all proper_name t"
    using host_new_inside [OF assms] by (auto simp: inside_def)
qed

theorem opened_world_inside_root_witness:
  "\<exists>w. host_new (\<lambda>_. 0) demo_server [lit ''s''] = Inr w
    \<and> om_get NETHER (hw_dirs w) = Some [lit ''s'', lit ''hub_nether'', lit ''DIM-1'']
    \<and> (\<exists>t. [lit ''s'', lit ''hub_nether'', lit ''DIM-1''] = [lit ''s''] @ t \<and> list_all proper_name t)"
proof -
  have "fs_names_ok demo_server" by code_simp
  then show ?thesis
    using opened_world_inside_root [OF _ demo_server_opens] demo_server_opens demo_server_nether by fastforce
qed

end
