(* ===== verification/World_Swap.thy ===== *)
theory World_Swap
  imports World_Host
begin

section \<open>Replacing a file atomically\<close>

text \<open>
  \<open>crates/world/src/swap.rs\<close>: reading a whole file and \<open>atomic_swap\<close>, which writes a temporary file
  next to the target and renames it over the target. Every system call of the operating system may
  fail as its record of faults says; the states a crash can leave behind are the files after each
  call, the pieces of a write included. A directory has no contents here, so that creating the parent
  only fails or succeeds; the counter of temporary names is a \<open>nat\<close>, as \<open>2 ^ 64\<close> swaps do not happen.
  \<open>open\<close> gives a new file the mode asked for without the bits of the process's umask.
\<close>

record file_node =
  fn_bytes :: bytes
  fn_mode :: u32

type_synonym disk = "(host_path, file_node) omap"

record os_calls =
  os_pid :: nat
  os_umask :: u32
  os_mkdir_fails :: bool
  os_open_fails :: "host_path \<Rightarrow> bool"
  os_pieces :: "nat list"
  os_write_fails :: bool
  os_sync_fails :: bool
  os_rename_fails :: bool
  os_remove_fails :: bool
  os_dir_sync_fails :: bool

definition open_image :: "disk \<Rightarrow> host_path \<Rightarrow> (world_error, bytes) result" where
  "open_image d path = ok_or (WeIo path) (map_option fn_bytes (om_get path d))"

subsection \<open>The temporary file\<close>

definition tmp_path :: "nat \<Rightarrow> host_path \<Rightarrow> nat \<Rightarrow> host_path" where
  "tmp_path pid target n =
     butlast target @ [(if target = [] then lit ''region.mca'' else last target) @ lit ''.tmp-'' @ show_nat pid @ lit ''-'' @ show_nat n]"

lemma show_nat_inject [simp]: "show_nat a = show_nat b \<longleftrightarrow> a = b"
proof
  assume "show_nat a = show_nat b"
  then have "parse_digits (show_nat a) = parse_digits (show_nat b)" by (rule arg_cong)
  then show "a = b" by (simp only: parse_digits_show_nat option.inject)
qed simp

lemma tmp_path_inject [simp]: "tmp_path pid target m = tmp_path pid target n \<longleftrightarrow> m = n"
  by (simp add: tmp_path_def)

lemma tmp_path_other: "tmp_path pid target n \<noteq> target"
proof
  assume eq: "tmp_path pid target n = target"
  then have "target \<noteq> []" by (auto simp: tmp_path_def)
  then have "last (tmp_path pid target n) = last target @ lit ''.tmp-'' @ show_nat pid @ lit ''-'' @ show_nat n"
    by (simp add: tmp_path_def)
  then have "last target = last target @ lit ''.tmp-'' @ show_nat pid @ lit ''-'' @ show_nat n" unfolding eq .
  then show False by (simp add: lit_def)
qed

text \<open>The loop ends: the files that are there are finitely many, and every round tries another name.\<close>

function open_tmp :: "os_calls \<Rightarrow> host_path \<Rightarrow> u32 \<Rightarrow> nat \<Rightarrow> disk \<Rightarrow> (world_error, host_path) result \<times> nat \<times> disk" where
  "open_tmp os target mode counter d =
     (let candidate = tmp_path (os_pid os) target counter in
      if om_get candidate d \<noteq> None then open_tmp os target mode (Suc counter) d
      else if os_open_fails os candidate then (Inl (WeIo candidate), Suc counter, d)
      else (Inr candidate, Suc counter, om_put candidate \<lparr>fn_bytes = [], fn_mode = mode AND NOT (os_umask os)\<rparr> d))"
  by pat_completeness auto
termination
proof (relation "measure (\<lambda>(os, target, mode, counter, d). card {n. counter \<le> n \<and> om_get (tmp_path (os_pid os) target n) d \<noteq> None})")
  fix os target counter candidate and d :: disk
  assume c: "candidate = tmp_path (os_pid os) target counter" "om_get candidate d \<noteq> None"
  let ?taken = "\<lambda>counter. {n. counter \<le> n \<and> om_get (tmp_path (os_pid os) target n) d \<noteq> None}"
  have "tmp_path (os_pid os) target ` ?taken counter \<subseteq> fst ` set d"
    by (auto simp: om_get_def dest: map_of_SomeD intro: rev_image_eqI)
  then have "finite (tmp_path (os_pid os) target ` ?taken counter)" by (rule finite_subset) simp
  then have "finite (?taken counter)" by (rule finite_imageD) (simp add: inj_on_def)
  moreover have "counter \<in> ?taken counter" "counter \<notin> ?taken (Suc counter)" "?taken (Suc counter) \<subseteq> ?taken counter"
    using c by simp_all (use Suc_leD in blast)
  then have "?taken (Suc counter) \<subset> ?taken counter" by blast
  ultimately have "card (?taken (Suc counter)) < card (?taken counter)" by (rule psubset_card_mono)
  then show "((os, target, mode, Suc counter, d), (os, target, mode, counter, d))
      \<in> measure (\<lambda>(os, target, mode, counter, d). card {n. counter \<le> n \<and> om_get (tmp_path (os_pid os) target n) d \<noteq> None})" for mode
    by simp
qed simp

declare open_tmp.simps [simp del]

subsection \<open>The swap\<close>

text \<open>Where each piece of a write ends.\<close>

fun piece_ends :: "nat \<Rightarrow> nat list \<Rightarrow> nat list" where
  "piece_ends written [] = []"
| "piece_ends written (n # ns) = (written + n) # piece_ends (written + n) ns"

definition remove_tmp :: "os_calls \<Rightarrow> host_path \<Rightarrow> disk \<Rightarrow> disk" where
  "remove_tmp os tmp d = (if os_remove_fails os then d else om_del tmp d)"

text \<open>The answer, the counter and the disk after each call that changed it.\<close>

definition fill_tmp ::
  "os_calls \<Rightarrow> host_path \<Rightarrow> bytes \<Rightarrow> host_path \<Rightarrow> u32 \<Rightarrow> disk \<Rightarrow> (world_error, unit) result \<times> disk list" where
  "fill_tmp os target img tmp mode d =
     (let put = (\<lambda>bs. om_put tmp \<lparr>fn_bytes = bs, fn_mode = mode\<rparr> d);
          partly = map (\<lambda>n. put (take n img)) (piece_ends 0 (os_pieces os));
          full = put img
      in if os_write_fails os then (Inl (WeIo tmp), partly @ [remove_tmp os tmp (last (d # partly))])
         else if os_sync_fails os then (Inl (WeIo tmp), partly @ [full, remove_tmp os tmp full])
         else if os_rename_fails os then (Inl (WeIo target), partly @ [full, remove_tmp os tmp full])
         else
           let renamed = om_put target \<lparr>fn_bytes = img, fn_mode = mode\<rparr> (om_del tmp full)
           in (if os_dir_sync_fails os then Inl (WeIo (butlast target)) else Inr (), partly @ [full, renamed]))"

definition atomic_swap ::
  "os_calls \<Rightarrow> host_path \<Rightarrow> bytes \<Rightarrow> nat \<Rightarrow> disk \<Rightarrow> (world_error, unit) result \<times> nat \<times> disk list" where
  "atomic_swap os target img counter d =
     (if os_mkdir_fails os then (Inl (WeIo (butlast target)), counter, [])
      else
        let mode = (case om_get target d of None \<Rightarrow> 438 | Some node \<Rightarrow> fn_mode node) in
        case open_tmp os target mode counter d of
          (Inl e, counter', d') \<Rightarrow> (Inl e, counter', [])
        | (Inr tmp, counter', d') \<Rightarrow>
            (case fill_tmp os target img tmp (mode AND NOT (os_umask os)) d' of
               (answer, disks) \<Rightarrow> (answer, counter', d' # disks)))"

subsection \<open>What every crash leaves behind\<close>

lemma open_tmp_answers:
  assumes "open_tmp os target mode counter d = (r, counter', d')"
  shows "counter < counter' \<and> (case r of
      Inl e \<Rightarrow> d' = d
    | Inr tmp \<Rightarrow> (\<exists>n. tmp = tmp_path (os_pid os) target n) \<and> om_get tmp d = None
        \<and> d' = om_put tmp \<lparr>fn_bytes = [], fn_mode = mode AND NOT (os_umask os)\<rparr> d)"
  using assms
proof (induction os target mode counter d rule: open_tmp.induct)
  case (1 os target mode counter d)
  show ?case
  proof (cases "om_get (tmp_path (os_pid os) target counter) d = None")
    case True
    then show ?thesis using "1.prems" by (auto simp: open_tmp.simps [of os target mode counter d] Let_def split: if_splits)
  next
    case False
    then have "open_tmp os target mode (Suc counter) d = (r, counter', d')"
      using "1.prems" by (simp add: open_tmp.simps [of os target mode counter d])
    then show ?thesis using "1.IH" [OF refl False] by auto
  qed
qed

text \<open>A disk on which nothing but the target and the temporary file may differ, and the target is whole.\<close>

definition whole :: "host_path \<Rightarrow> bytes \<Rightarrow> host_path \<Rightarrow> disk \<Rightarrow> disk \<Rightarrow> bool" where
  "whole target img tmp d d' \<longleftrightarrow>
     (om_get target d' = om_get target d \<or> map_option fn_bytes (om_get target d') = Some img)
     \<and> (\<forall>p. p \<noteq> target \<longrightarrow> p \<noteq> tmp \<longrightarrow> om_get p d' = om_get p d)"

lemma whole_put: "om_ok d \<Longrightarrow> tmp \<noteq> target \<Longrightarrow> whole target img tmp d (om_put tmp node d)"
  by (simp add: whole_def om_get_put)

lemma whole_remove: "whole target img tmp d d' \<Longrightarrow> tmp \<noteq> target \<Longrightarrow> whole target img tmp d (remove_tmp os tmp d')"
  by (simp add: whole_def remove_tmp_def om_get_del)

lemma fill_tmp_whole:
  assumes d: "om_ok d" "om_get tmp d = None" and tmp: "tmp \<noteq> target"
    and run: "fill_tmp os target img tmp mode (om_put tmp node d) = (answer, disks)"
  shows "\<forall>d' \<in> set disks. whole target img tmp d d'"
    and "answer = Inr () \<Longrightarrow> om_get target (last disks) = Some \<lparr>fn_bytes = img, fn_mode = mode\<rparr> \<and> om_get tmp (last disks) = None"
    and "answer = Inl e \<Longrightarrow> \<not> os_dir_sync_fails os \<Longrightarrow> om_get target (last disks) = om_get target d"
    and "answer = Inl e \<Longrightarrow> \<not> os_remove_fails os \<Longrightarrow> om_get tmp (last disks) = None"
proof -
  let ?put = "\<lambda>bs. om_put tmp \<lparr>fn_bytes = bs, fn_mode = mode\<rparr> (om_put tmp node d)"
  have ok: "om_ok (om_put tmp v d)" for v using d(1) by (rule om_ok_put)
  have put: "whole target img tmp d (?put bs)" for bs using d(1) tmp ok by (simp add: whole_def om_get_put)
  have first: "whole target img tmp d (om_put tmp node d)" using d(1) tmp by (rule whole_put)
  have okp: "om_ok (om_del tmp (?put bs))" for bs by (rule om_ok_del) (rule om_ok_put [OF ok])
  have renamed: "whole target img tmp d (om_put target \<lparr>fn_bytes = img, fn_mode = mode\<rparr> (om_del tmp (?put img)))"
    using okp d(1) ok tmp by (simp add: whole_def om_get_put om_get_del)
  let ?partly = "map (\<lambda>n. ?put (take n img)) (piece_ends 0 (os_pieces os))"
  have partly: "\<forall>d' \<in> set ?partly. whole target img tmp d d'" using put by auto
  have last: "whole target img tmp d (last (om_put tmp node d # ?partly))"
    using partly first by (cases "?partly = []") (simp, metis last_ConsR last_in_set)
  note gone = whole_remove [OF _ tmp]
  show "\<forall>d' \<in> set disks. whole target img tmp d d'"
    using run partly put renamed gone [OF last] gone [OF put]
    by (auto simp: fill_tmp_def Let_def split: if_splits)
  show "answer = Inr () \<Longrightarrow> om_get target (last disks) = Some \<lparr>fn_bytes = img, fn_mode = mode\<rparr> \<and> om_get tmp (last disks) = None"
    using run okp tmp by (auto simp: fill_tmp_def Let_def om_get_put om_get_del split: if_splits)
  have "om_get target d' = om_get target d" if "d' \<in> set (om_put tmp node d # ?partly)" for d'
    using that d(1) tmp ok by (auto simp: om_get_put)
  then have kept: "om_get target (last (om_put tmp node d # ?partly)) = om_get target d" by (meson last_in_set list.discI)
  show "answer = Inl e \<Longrightarrow> \<not> os_dir_sync_fails os \<Longrightarrow> om_get target (last disks) = om_get target d"
    using run kept d(1) ok tmp
    by (auto simp: fill_tmp_def Let_def remove_tmp_def om_get_put om_get_del split: if_splits)
  show "answer = Inl e \<Longrightarrow> \<not> os_remove_fails os \<Longrightarrow> om_get tmp (last disks) = None"
    using run okp tmp
    by (auto simp: fill_tmp_def Let_def remove_tmp_def om_get_put om_get_del split: if_splits)
qed

definition new_mode :: "os_calls \<Rightarrow> file_node option \<Rightarrow> u32" where
  "new_mode os old = (case old of None \<Rightarrow> 438 | Some node \<Rightarrow> fn_mode node) AND NOT (os_umask os)"

lemma swap_outcome:
  assumes d: "om_ok d" and run: "atomic_swap os target img counter d = (answer, counter', disks)"
  shows "\<exists>tmp. tmp \<noteq> target \<and> (\<forall>d' \<in> set disks. whole target img tmp d d')"
    and "case answer of
      Inr _ \<Rightarrow> om_get target (last disks) = Some \<lparr>fn_bytes = img, fn_mode = new_mode os (om_get target d)\<rparr>
        \<and> (\<forall>p. p \<noteq> target \<longrightarrow> om_get p (last disks) = om_get p d)
    | Inl _ \<Rightarrow> (\<not> os_dir_sync_fails os \<longrightarrow> om_get target (last (d # disks)) = om_get target d)
        \<and> (\<not> os_remove_fails os \<longrightarrow> (\<forall>p. p \<noteq> target \<longrightarrow> om_get p (last (d # disks)) = om_get p d))"
proof -
  let ?mode = "case om_get target d of None \<Rightarrow> 438 | Some node \<Rightarrow> fn_mode node"
  obtain r c d1 where opened: "open_tmp os target ?mode counter d = (r, c, d1)" by (cases "open_tmp os target ?mode counter d")
  note tried = open_tmp_answers [OF opened]
  have "(\<exists>tmp. tmp \<noteq> target \<and> (\<forall>d' \<in> set disks. whole target img tmp d d')) \<and> (case answer of
      Inr _ \<Rightarrow> om_get target (last disks) = Some \<lparr>fn_bytes = img, fn_mode = new_mode os (om_get target d)\<rparr>
        \<and> (\<forall>p. p \<noteq> target \<longrightarrow> om_get p (last disks) = om_get p d)
    | Inl _ \<Rightarrow> (\<not> os_dir_sync_fails os \<longrightarrow> om_get target (last (d # disks)) = om_get target d)
        \<and> (\<not> os_remove_fails os \<longrightarrow> (\<forall>p. p \<noteq> target \<longrightarrow> om_get p (last (d # disks)) = om_get p d)))"
  proof (cases "\<not> os_mkdir_fails os \<and> (\<exists>tmp. r = Inr tmp)")
    case False
    then have "disks = [] \<and> (\<exists>e. answer = Inl e)"
      using run opened by (cases r) (auto simp: atomic_swap_def Let_def split: if_splits)
    then show ?thesis using tmp_path_other [of 0 target 0] by auto
  next
    case True
    then obtain tmp where tmp: "r = Inr tmp" by blast
    have t: "om_get tmp d = None" "tmp \<noteq> target" and d1: "d1 = om_put tmp \<lparr>fn_bytes = [], fn_mode = new_mode os (om_get target d)\<rparr> d"
      using tried tmp tmp_path_other by (auto simp: new_mode_def)
    obtain ds where ds: "fill_tmp os target img tmp (new_mode os (om_get target d)) d1 = (answer, ds)" "disks = d1 # ds"
      using run opened tmp True by (auto simp: atomic_swap_def new_mode_def Let_def split: prod.splits)
    have some: "ds \<noteq> []" using ds(1) by (auto simp: fill_tmp_def Let_def split: if_splits)
    note filled = fill_tmp_whole [OF d t ds(1) [unfolded d1]]
    have all: "\<forall>d' \<in> set disks. whole target img tmp d d'" using filled(1) whole_put [OF d t(2)] ds(2) d1 by auto
    have at_end: "last disks = last ds" "last (d # disks) = last ds" using some ds(2) by simp_all
    have rest: "\<forall>p. p \<noteq> target \<longrightarrow> om_get p (last ds) = om_get p d" if "om_get tmp (last ds) = None"
      using that all some t(1) unfolding ds(2) whole_def by (metis last_in_set list.set_intros(2))
    show ?thesis
      using all t(2) filled(2-4) rest unfolding at_end by (cases answer) auto
  qed
  then show "\<exists>tmp. tmp \<noteq> target \<and> (\<forall>d' \<in> set disks. whole target img tmp d d')"
    and "case answer of
      Inr _ \<Rightarrow> om_get target (last disks) = Some \<lparr>fn_bytes = img, fn_mode = new_mode os (om_get target d)\<rparr>
        \<and> (\<forall>p. p \<noteq> target \<longrightarrow> om_get p (last disks) = om_get p d)
    | Inl _ \<Rightarrow> (\<not> os_dir_sync_fails os \<longrightarrow> om_get target (last (d # disks)) = om_get target d)
        \<and> (\<not> os_remove_fails os \<longrightarrow> (\<forall>p. p \<noteq> target \<longrightarrow> om_get p (last (d # disks)) = om_get p d))"
    by blast+
qed

text \<open>A swap that succeeds is the write of \<open>World_Host\<close>.\<close>

lemma swap_is_write:
  assumes "om_ok d" "om_ok (hw_files w)" "atomic_swap os target img counter d = (Inr (), counter', disks)"
    and "\<And>p. map_option fn_bytes (om_get p d) = om_get p (hw_files w)"
  shows "\<exists>w'. host_write target img w = Inr w' \<and> (\<forall>p. map_option fn_bytes (om_get p (last disks)) = om_get p (hw_files w'))"
  using swap_outcome(2) [OF assms(1,3)] assms(2,4) by (simp add: host_write_def om_get_put)

subsection \<open>The property\<close>


definition demo_os :: os_calls where
  "demo_os = \<lparr>os_pid = 7, os_umask = 18, os_mkdir_fails = False, os_open_fails = (\<lambda>_. False), os_pieces = [1],
     os_write_fails = False, os_sync_fails = False, os_rename_fails = False, os_remove_fails = False, os_dir_sync_fails = False\<rparr>"

text \<open>A file with mode 664 comes out with 644 under the umask 022; a stale temporary file stays.\<close>

definition demo_disk :: disk where
  "demo_disk = [([lit ''r''], \<lparr>fn_bytes = [9], fn_mode = 436\<rparr>), (tmp_path 7 [lit ''r''] 0, \<lparr>fn_bytes = [8], fn_mode = 420\<rparr>)]"

lemma demo_swap: "is_ok (fst (atomic_swap demo_os [lit ''r''] [1, 2] 0 demo_disk))"
  by code_simp


end
