(* ===== verification/Cli_Selection.thy ===== *)
theory Cli_Selection
  imports Scopes Hex Names World_Layout
begin

section \<open>Selections and references on the command line\<close>

text \<open>
  \<open>crates/cli/src/cli.rs\<close>: the areas of \<open>--in\<close> and \<open>--region\<close>, the scope they stand for, commit
  references, and \<open>spell_area\<close> of \<open>commands/scopes.rs\<close>, which prints an area. The code's parse errors
  are formatted messages; here each is a constructor with the strings the message shows. Argument
  parsing itself is \<open>clap\<close>. The theorems say which chunks a selection holds and that a printed area
  parses back.
\<close>

text \<open>\<open>str::split_once\<close>: the text before and after the first occurrence of a separator.\<close>

fun split_once :: "rstr \<Rightarrow> rstr \<Rightarrow> (rstr \<times> rstr) option" where
  "split_once sep [] = (if sep = [] then Some ([], []) else None)"
| "split_once sep (c # cs) =
     (if take (length sep) (c # cs) = sep then Some ([], drop (length sep) (c # cs))
      else map_option (\<lambda>(a, b). (c # a, b)) (split_once sep cs))"

subsection \<open>Areas\<close>

record xz =
  xz_x :: i32
  xz_z :: i32

datatype dim_area = DimAll | DimChunk xz | DimRect rect

record area_spec =
  as_dim :: dimension
  as_area :: dim_area

datatype spec_error =
    InvalidDimension rstr rstr rstr
  | ExpectedPair rstr
  | InvalidX rstr rstr
  | InvalidZ rstr rstr
  | WholeDimension rstr
  | ExpectedRegion rstr
  | InvalidRegionDimension rstr rstr

definition parse_pair :: "rstr \<Rightarrow> rstr \<Rightarrow> (spec_error, xz) result" where
  "parse_pair s whole =
     bindE (ok_or (ExpectedPair whole) (split_once (lit '','') s)) (\<lambda>(x, z).
     bindE (ok_or (InvalidX x whole) (parse_i32 (str_trim x))) (\<lambda>x'.
     bindE (ok_or (InvalidZ z whole) (parse_i32 (str_trim z))) (\<lambda>z'.
       Inr \<lparr>xz_x = x', xz_z = z'\<rparr>)))"

definition spec_dimension :: "rstr \<Rightarrow> rstr \<Rightarrow> (spec_error, dimension \<times> rstr) result" where
  "spec_dimension s expected =
     (case split_once (lit '':'') s of
        Some (dim, rest) \<Rightarrow>
          bindE (map_err (\<lambda>_. InvalidDimension dim s expected) (dimension_from_str dim)) (\<lambda>d. Inr (d, rest))
      | None \<Rightarrow>
          bindE (map_err (\<lambda>_. InvalidDimension s s expected) (dimension_from_str s)) (\<lambda>d. Inr (d, [])))"

definition parse_as :: "rstr \<Rightarrow> rstr \<Rightarrow> (spec_error, area_spec) result" where
  "parse_as s expected =
     bindE (spec_dimension s expected) (\<lambda>(dim, rest).
     bindE
       (if rest = [] then Inr DimAll
        else (case split_once (lit ''..'') rest of
            Some (first, second) \<Rightarrow>
              bindE (parse_pair first s) (\<lambda>from_xz. bindE (parse_pair second s) (\<lambda>to_xz.
                Inr (DimRect (rect_new (xz_x from_xz) (xz_z from_xz) (xz_x to_xz) (xz_z to_xz)))))
          | None \<Rightarrow> bindE (parse_pair rest s) (\<lambda>xz. Inr (DimChunk xz))))
       (\<lambda>area. Inr \<lparr>as_dim = dim, as_area = area\<rparr>))"

definition area_spec_from_str :: "rstr \<Rightarrow> (spec_error, area_spec) result" where
  "area_spec_from_str s = parse_as s (lit ''DIM[:X,Z|X0,Z0..X1,Z1]'')"

record scope_area_spec =
  ss_dim :: dimension
  ss_rect :: rect

definition scope_area_from_str :: "rstr \<Rightarrow> (spec_error, scope_area_spec) result" where
  "scope_area_from_str s =
     bindE (parse_as s (lit ''DIM:X,Z or DIM:X0,Z0..X1,Z1'')) (\<lambda>spec.
     bindE
       (case as_area spec of
          DimChunk p \<Rightarrow> Inr (rect_new (xz_x p) (xz_z p) (xz_x p) (xz_z p))
        | DimRect r \<Rightarrow> Inr r
        | DimAll \<Rightarrow> Inl (WholeDimension s))
       (\<lambda>r. Inr \<lparr>ss_dim = as_dim spec, ss_rect = r\<rparr>))"

record region_spec =
  rs_dim :: dimension
  rs_at :: xz

definition region_spec_area :: "region_spec \<Rightarrow> dimension \<times> rect" where
  "region_spec_area r = (rs_dim r, rect_region (xz_x (rs_at r)) (xz_z (rs_at r)))"

definition region_spec_from_str :: "rstr \<Rightarrow> (spec_error, region_spec) result" where
  "region_spec_from_str s =
     bindE (ok_or (ExpectedRegion s) (split_once (lit '':'') s)) (\<lambda>(dim, rest).
     bindE (map_err (\<lambda>_. InvalidRegionDimension dim s) (dimension_from_str dim)) (\<lambda>d.
     bindE (parse_pair rest s) (\<lambda>at. Inr \<lparr>rs_dim = d, rs_at = at\<rparr>)))"

definition spell_area :: "dimension \<Rightarrow> rect \<Rightarrow> rstr" where
  "spell_area dim r =
     dimension_display dim @ lit '':'' @ show_i32 (x0 r) @ lit '','' @ show_i32 (z0 r) @ lit ''..''
       @ show_i32 (x1 r) @ lit '','' @ show_i32 (z1 r)"

definition join_str :: "rstr \<Rightarrow> rstr list \<Rightarrow> rstr" where
  "join_str sep parts = (case parts of [] \<Rightarrow> [] | p # ps \<Rightarrow> p @ concat (map (\<lambda>q. sep @ q) ps))"

definition spell_areas :: "named_scope \<Rightarrow> rstr" where
  "spell_areas s = join_str (lit '' '') (map (\<lambda>(dim, r). spell_area dim r) (ns_areas s))"

subsection \<open>Selections\<close>

record inline_selection =
  is_areas :: "area_spec list"
  is_region :: "region_spec list"
  is_kind :: "region_kind list"

datatype selection = Inline inline_selection | ScopeNamed scope_name

record selection_args =
  sa_inline :: inline_selection
  sa_scope :: "scope_name option"

definition into_selection :: "selection_args \<Rightarrow> selection" where
  "into_selection args = (case sa_scope args of None \<Rightarrow> Inline (sa_inline args) | Some n \<Rightarrow> ScopeNamed n)"

definition sel_kinds :: "inline_selection \<Rightarrow> region_kind list" where
  "sel_kinds s = (if is_kind s = [] then all_kinds else sort_dedup (is_kind s))"

definition kind_summary :: "inline_selection \<Rightarrow> rstr" where
  "kind_summary s = join_str (lit '','') (map region_kind_display (is_kind s))"

definition sel_describe :: "inline_selection \<Rightarrow> rstr" where
  "sel_describe s =
     (if is_areas s = [] \<and> is_region s = []
      then (if is_kind s = [] then lit ''whole world'' else lit ''whole world, kinds '' @ kind_summary s)
      else join_str (lit '', '')
        ((if is_areas s = [] then [] else [show_nat (length (is_areas s)) @ lit '' area(s)''])
         @ (if is_region s = [] then [] else [show_nat (length (is_region s)) @ lit '' region(s)''])
         @ (if is_kind s = [] then [] else [lit ''kinds '' @ kind_summary s])))"

definition selection_describe :: "selection \<Rightarrow> rstr" where
  "selection_describe s =
     (case s of Inline sel \<Rightarrow> sel_describe sel | ScopeNamed (ScopeName n) \<Rightarrow> n)"

definition explicit_chunks :: "inline_selection \<Rightarrow> chunk_coord list" where
  "explicit_chunks s =
     concat (map (\<lambda>(dim, p). map (\<lambda>kind. ChunkCoord dim kind (xz_x p) (xz_z p)) (sel_kinds s))
       (List.map_filter (\<lambda>spec. case as_area spec of DimChunk p \<Rightarrow> Some (as_dim spec, p) | _ \<Rightarrow> None) (is_areas s)))"

definition has_broad_areas :: "inline_selection \<Rightarrow> bool" where
  "has_broad_areas s \<longleftrightarrow> list_ex (\<lambda>spec. case as_area spec of DimChunk _ \<Rightarrow> False | _ \<Rightarrow> True) (is_areas s) \<or> is_region s \<noteq> []"

text \<open>One \<open>--in\<close> entry: the areas so far and the chunks by dimension.\<close>

definition push_chunks ::
  "dimension \<Rightarrow> xz \<Rightarrow> region_kind list \<Rightarrow> (dimension, chunk_coord list) omap \<Rightarrow> (dimension, chunk_coord list) omap" where
  "push_chunks dim p kinds chunks =
     fold (\<lambda>kind. om_upd dim
       (\<lambda>cs. (case cs of None \<Rightarrow> [] | Some cs' \<Rightarrow> cs') @ [ChunkCoord dim kind (xz_x p) (xz_z p)])) kinds chunks"

definition place_area ::
  "region_kind list \<Rightarrow> area_spec \<Rightarrow> (dimension \<times> area) list \<times> (dimension, chunk_coord list) omap
     \<Rightarrow> (dimension \<times> area) list \<times> (dimension, chunk_coord list) omap" where
  "place_area kinds spec = (\<lambda>(areas, chunks).
     case as_area spec of
       DimAll \<Rightarrow> (areas @ [(as_dim spec, AreaAll)], chunks)
     | DimRect r \<Rightarrow> (areas @ [(as_dim spec, AreaRect r)], chunks)
     | DimChunk p \<Rightarrow>
         (areas, push_chunks (as_dim spec) p kinds chunks))"

definition owned_scope :: "inline_selection \<Rightarrow> scope" where
  "owned_scope s =
     (if is_areas s = [] \<and> is_region s = []
      then (if is_kind s = [] then World else Kinds (sel_kinds s))
      else
        let (areas, chunks) = fold (place_area (sel_kinds s)) (is_areas s) ([], []) in
        Select (sel_kinds s)
          (areas @ map (\<lambda>region. (\<lambda>(dim, r). (dim, AreaRect r)) (region_spec_area region)) (is_region s)
            @ map (\<lambda>(dim, coords). (dim, AreaChunks coords)) chunks))"

subsection \<open>Commit references\<close>

text \<open>\<open>None\<close> would be a failure to print an id, which \<open>to_string\<close> turns into a panic.\<close>

datatype cli_ref_error = InvalidReference rstr hex_error ref_name_error

definition cli_ref_from_str :: "rstr \<Rightarrow> (cli_ref_error, rstr) result option" where
  "cli_ref_from_str s =
     (case commit_id_from_str s of
        Inr i \<Rightarrow> map_option Inr (commit_id_display i)
      | Inl id_err \<Rightarrow>
          (case ref_name_parse s of
             Inr _ \<Rightarrow> Some (Inr s)
           | Inl name_err \<Rightarrow> Some (Inl (InvalidReference s id_err name_err))))"

subsection \<open>Printed areas parse back\<close>

lemma split_once_char: "c \<notin> set a \<Longrightarrow> split_once [c] (a @ c # b) = Some (a, b)"
  by (induction a) auto

lemma split_once_dots: "46 \<notin> set a \<Longrightarrow> split_once [46, 46] (a @ 46 # 46 # b) = Some (a, b)"
  by (induction a) auto

definition number_char :: "uchar \<Rightarrow> bool" where
  "number_char c \<longleftrightarrow> is_ascii_digit c \<or> c = 45"

lemma show_i32_number: "c \<in> set (show_i32 a) \<Longrightarrow> number_char c"
  using show_nat_digits by (auto simp: show_i32_def number_char_def split: if_splits)

lemma show_i32_not_mem: "\<not> number_char c \<Longrightarrow> c \<notin> set (show_i32 a)"
  using show_i32_number by blast

lemma number_char_space: "number_char c \<Longrightarrow> \<not> char_whitespace c"
  by (auto simp: number_char_def is_ascii_digit_def char_whitespace_def)

lemma str_trim_number [simp]: "str_trim (show_i32 a) = show_i32 a"
proof -
  have drop: "dropWhile char_whitespace xs = xs" if "\<And>c. c \<in> set xs \<Longrightarrow> number_char c" for xs
    using that number_char_space by (cases xs) auto
  have "dropWhile char_whitespace (show_i32 a) = show_i32 a" "dropWhile char_whitespace (rev (show_i32 a)) = rev (show_i32 a)"
    by (rule drop, simp add: show_i32_number)+
  then show ?thesis by (simp add: str_trim_def)
qed

lemma parse_spelled_pair [simp]: "parse_pair (show_i32 x @ 44 # show_i32 z) s = Inr \<lparr>xz_x = x, xz_z = z\<rparr>"
proof -
  have "split_once [44] (show_i32 x @ 44 # show_i32 z) = Some (show_i32 x, show_i32 z)"
    by (rule split_once_char) (simp add: show_i32_not_mem number_char_def is_ascii_digit_def)
  then show ?thesis by (simp add: parse_pair_def lit_def of_char_def parse_show_i32 ok_or_def)
qed

lemma dimension_display_chars: "58 \<notin> set (dimension_display d)"
  using show_i32_not_mem [of 58 "raw d"]
  by (auto simp: dimension_display_def lit_def of_char_def number_char_def is_ascii_digit_def)

lemma scope_area_spelled:
  assumes "\<not> shadowed_code dim" "x0 r \<le> x1 r" "z0 r \<le> z1 r"
  shows "scope_area_from_str (spell_area dim r) = Inr \<lparr>ss_dim = dim, ss_rect = r\<rparr>"
proof -
  let ?s = "spell_area dim r"
  let ?from = "show_i32 (x0 r) @ 44 # show_i32 (z0 r)" and ?to = "show_i32 (x1 r) @ 44 # show_i32 (z1 r)"
  have s: "?s = dimension_display dim @ 58 # ?from @ 46 # 46 # ?to" by (simp add: spell_area_def lit_def of_char_def)
  have dim: "spec_dimension ?s e = Inr (dim, ?from @ 46 # 46 # ?to)" for e
    using split_once_char [OF dimension_display_chars, of dim "?from @ 46 # 46 # ?to"] assms(1) dimension_display_roundtrip [of dim]
    unfolding s by (simp add: spec_dimension_def lit_def of_char_def)
  have dots: "split_once [46, 46] (?from @ 46 # 46 # ?to) = Some (?from, ?to)"
    by (rule split_once_dots) (simp add: show_i32_not_mem number_char_def is_ascii_digit_def)
  have "parse_as ?s e = Inr \<lparr>as_dim = dim, as_area = DimRect (rect_new (x0 r) (z0 r) (x1 r) (z1 r))\<rparr>" for e
    using dots by (simp add: parse_as_def dim lit_def of_char_def)
  then show ?thesis by (simp add: scope_area_from_str_def rect_new_id assms(2,3))
qed

lemma spell_area_no_space: "32 \<notin> set (spell_area dim r)"
proof -
  have "32 \<notin> set (show_i32 a)" for a by (simp add: show_i32_not_mem number_char_def is_ascii_digit_def)
  then show ?thesis by (auto simp: spell_area_def dimension_display_def lit_def of_char_def)
qed

lemma split_joined:
  assumes "\<And>p. p \<in> set ps \<Longrightarrow> c \<notin> set p" "ps \<noteq> []"
  shows "split_on c (join_str [c] ps) = ps"
proof (cases ps)
  case (Cons p qs)
  have sep: "(@) [c] = (#) c" by (rule ext) simp
  have "split_on c (p @ concat (map ((#) c) qs)) = p # qs"
    if "c \<notin> set p" "\<forall>q \<in> set qs. c \<notin> set q" for p qs
    using that
  proof (induction qs arbitrary: p)
    case Nil
    then show ?case by (simp add: split_on_no_sep)
  next
    case (Cons q qs)
    then show ?case using split_on_append [of c p "q @ concat (map ((#) c) qs)"] by simp
  qed
  then show ?thesis using assms(1) Cons by (simp add: join_str_def sep)
qed (use assms(2) in simp)

lemma spelled_areas_split:
  assumes "normal_areas (ns_areas s)" "\<And>dim r. (dim, r) \<in> set (ns_areas s) \<Longrightarrow> \<not> shadowed_code dim"
  shows "map scope_area_from_str (split_on 32 (spell_areas s))
    = map (\<lambda>(dim, r). Inr \<lparr>ss_dim = dim, ss_rect = r\<rparr>) (ns_areas s)"
proof -
  have space: "lit '' '' = [32]" by (simp add: lit_def of_char_def)
  have "split_on 32 (spell_areas s) = map (\<lambda>(dim, r). spell_area dim r) (ns_areas s)"
    unfolding spell_areas_def space
  proof (rule split_joined)
    show "32 \<notin> set p" if "p \<in> set (map (\<lambda>(dim, r). spell_area dim r) (ns_areas s))" for p
      using that spell_area_no_space by auto
    show "map (\<lambda>(dim, r). spell_area dim r) (ns_areas s) \<noteq> []" using assms(1) by (simp add: normal_areas_def)
  qed
  moreover have "scope_area_from_str (spell_area (fst e) (snd e)) = Inr \<lparr>ss_dim = fst e, ss_rect = snd e\<rparr>"
    if "e \<in> set (ns_areas s)" for e
  proof (rule scope_area_spelled)
    show "\<not> shadowed_code (fst e)" using assms(2) [of "fst e" "snd e"] that by simp
    show "x0 (snd e) \<le> x1 (snd e)" "z0 (snd e) \<le> z1 (snd e)"
      using assms(1) that unfolding normal_areas_def by (metis (no_types, lifting) case_prod_unfold)+
  qed
  ultimately show ?thesis by (simp add: case_prod_unfold)
qed

subsection \<open>What a selection holds\<close>

definition spec_holds :: "area_spec \<Rightarrow> chunk_coord \<Rightarrow> bool" where
  "spec_holds spec c \<longleftrightarrow> as_dim spec = coord_dim c
     \<and> (case as_area spec of
          DimAll \<Rightarrow> True
        | DimRect r \<Rightarrow> rect_contains r (coord_x c) (coord_z c)
        | DimChunk p \<Rightarrow> coord_x c = xz_x p \<and> coord_z c = xz_z p)"

definition region_holds :: "region_spec \<Rightarrow> chunk_coord \<Rightarrow> bool" where
  "region_holds r c \<longleftrightarrow> rs_dim r = coord_dim c
     \<and> rect_contains (rect_region (xz_x (rs_at r)) (xz_z (rs_at r))) (coord_x c) (coord_z c)"

definition kind_selected :: "inline_selection \<Rightarrow> region_kind \<Rightarrow> bool" where
  "kind_selected s k \<longleftrightarrow> is_kind s = [] \<or> k \<in> set (is_kind s)"

lemma sel_kinds_iff: "k \<in> set (sel_kinds s) \<longleftrightarrow> kind_selected s k"
  by (simp add: sel_kinds_def kind_selected_def)

definition held :: "(dimension \<times> area) list \<times> (dimension, chunk_coord list) omap \<Rightarrow> chunk_coord \<Rightarrow> bool" where
  "held st c \<longleftrightarrow> (\<exists>e \<in> set (fst st). fst e = coord_dim c \<and> area_contains (snd e) c)
     \<or> (\<exists>cs. om_get (coord_dim c) (snd st) = Some cs \<and> c \<in> set cs)"

lemma push_chunks:
  assumes "om_ok m"
  shows "om_ok (push_chunks d p kinds m)" and "(\<exists>cs. om_get e (push_chunks d p kinds m) = Some cs \<and> c \<in> set cs)
    \<longleftrightarrow> (\<exists>cs. om_get e m = Some cs \<and> c \<in> set cs) \<or> e = d \<and> c \<in> (\<lambda>kind. ChunkCoord d kind (xz_x p) (xz_z p)) ` set kinds"
  using assms unfolding push_chunks_def
proof (induction kinds arbitrary: m)
  case (Cons kind kinds)
  {
    case 1
    then show ?case using Cons.IH(1) by (simp add: om_ok_upd)
  next
    case 2
    then show ?case
      using Cons.IH(2) [OF om_ok_upd [OF 2]]
      by (auto simp: om_get_upd split: option.splits)
  }
qed simp_all

lemma held_place_area:
  assumes "om_ok (snd st)" "coord_kind c \<in> set kinds"
  shows "om_ok (snd (place_area kinds spec st))" "held (place_area kinds spec st) c \<longleftrightarrow> held st c \<or> spec_holds spec c"
proof -
  obtain A C where st: "st = (A, C)" by (cases st)
  have ok: "om_ok C" using assms(1) st by simp
  show "om_ok (snd (place_area kinds spec st))"
    using ok push_chunks(1) by (cases "as_area spec") (simp_all add: place_area_def st)
  show "held (place_area kinds spec st) c \<longleftrightarrow> held st c \<or> spec_holds spec c"
  proof (cases "as_area spec")
    case (DimChunk p)
    have "c \<in> (\<lambda>kind. ChunkCoord (as_dim spec) kind (xz_x p) (xz_z p)) ` set kinds
        \<longleftrightarrow> as_dim spec = coord_dim c \<and> coord_x c = xz_x p \<and> coord_z c = xz_z p"
      using assms(2) by (cases c) auto
    then show ?thesis
      using push_chunks(2) [OF ok] by (auto simp: place_area_def st held_def spec_holds_def DimChunk)
  qed (auto simp: place_area_def st held_def spec_holds_def)
qed

lemma held_place_areas:
  assumes "om_ok (snd st)" "coord_kind c \<in> set kinds"
  shows "om_ok (snd (fold (place_area kinds) specs st))
    \<and> (held (fold (place_area kinds) specs st) c \<longleftrightarrow> held st c \<or> (\<exists>spec \<in> set specs. spec_holds spec c))"
  using assms(1)
proof (induction specs arbitrary: st)
  case (Cons spec specs)
  then show ?case using held_place_area [OF Cons.prems assms(2)] by simp
qed simp

lemma select_contains:
  "scope_contains (Select ks as) c \<longleftrightarrow> coord_kind c \<in> set ks \<and> (\<exists>e \<in> set as. fst e = coord_dim c \<and> area_contains (snd e) c)"
  by (simp add: case_prod_unfold)

lemma owned_scope_contains:
  "scope_contains (owned_scope s) c \<longleftrightarrow> kind_selected s (coord_kind c)
    \<and> (is_areas s = [] \<and> is_region s = [] \<or> (\<exists>spec \<in> set (is_areas s). spec_holds spec c)
       \<or> (\<exists>r \<in> set (is_region s). region_holds r c))"
proof (cases "is_areas s = [] \<and> is_region s = []")
  case True
  then show ?thesis by (auto simp: owned_scope_def kind_selected_def sel_kinds_iff)
next
  case False
  show ?thesis
  proof (cases "coord_kind c \<in> set (sel_kinds s)")
    case kind: True
    obtain A C where st: "fold (place_area (sel_kinds s)) (is_areas s) ([], []) = (A, C)" by fastforce
    have h: "om_ok C" "held (A, C) c \<longleftrightarrow> (\<exists>spec \<in> set (is_areas s). spec_holds spec c)"
      using held_place_areas [OF _ kind, of "([], [])" "is_areas s"] by (auto simp: st held_def)
    have chunks: "(\<exists>e \<in> set C. fst e = coord_dim c \<and> c \<in> set (snd e)) \<longleftrightarrow> (\<exists>cs. om_get (coord_dim c) C = Some cs \<and> c \<in> set cs)"
      using om.entries_mem [OF h(1)] by (metis fst_conv prod.collapse snd_conv)
    have "(\<exists>e \<in> set (A @ map (\<lambda>region. (\<lambda>(dim, r). (dim, AreaRect r)) (region_spec_area region)) (is_region s)
            @ map (\<lambda>(dim, coords). (dim, AreaChunks coords)) C). fst e = coord_dim c \<and> area_contains (snd e) c)
        \<longleftrightarrow> (\<exists>e \<in> set A. fst e = coord_dim c \<and> area_contains (snd e) c)
          \<or> (\<exists>r \<in> set (is_region s). region_holds r c) \<or> (\<exists>e \<in> set C. fst e = coord_dim c \<and> c \<in> set (snd e))"
      by (simp add: bex_Un region_spec_area_def region_holds_def case_prod_unfold)
    also have "\<dots> \<longleftrightarrow> (\<exists>spec \<in> set (is_areas s). spec_holds spec c) \<or> (\<exists>r \<in> set (is_region s). region_holds r c)"
      using h(2) chunks unfolding held_def by auto
    finally have holds: "scope_contains (owned_scope s) c \<longleftrightarrow> coord_kind c \<in> set (sel_kinds s)
        \<and> ((\<exists>spec \<in> set (is_areas s). spec_holds spec c) \<or> (\<exists>r \<in> set (is_region s). region_holds r c))"
      using False by (simp only: owned_scope_def st if_False Let_def prod.case select_contains)
    show ?thesis using False unfolding holds sel_kinds_iff by blast
  next
    case no_kind: False
    then show ?thesis
      using False by (auto simp: owned_scope_def select_contains sel_kinds_iff case_prod_unfold Let_def simp del: scope_contains.simps)
  qed
qed

text \<open>A selection of chunks alone holds exactly the chunks it spells.\<close>

lemma explicit_chunks_mem:
  "c \<in> set (explicit_chunks s) \<longleftrightarrow> (\<exists>spec \<in> set (is_areas s). \<exists>p. as_area spec = DimChunk p
     \<and> c \<in> (\<lambda>kind. ChunkCoord (as_dim spec) kind (xz_x p) (xz_z p)) ` set (sel_kinds s))"
proof -
  have filtered: "(\<exists>e \<in> set (List.map_filter (\<lambda>spec. case as_area spec of DimChunk p \<Rightarrow> Some (as_dim spec, p) | _ \<Rightarrow> None) specs). Q (fst e) (snd e))
      \<longleftrightarrow> (\<exists>spec \<in> set specs. \<exists>p. as_area spec = DimChunk p \<and> Q (as_dim spec) p)" for specs Q
    by (induction specs) (simp_all add: map_filter_simps split: dim_area.split)
  from filtered [of "is_areas s" "\<lambda>d p. c \<in> (\<lambda>kind. ChunkCoord d kind (xz_x p) (xz_z p)) ` set (sel_kinds s)"]
  show ?thesis by (simp add: explicit_chunks_def case_prod_unfold)
qed

lemma explicit_chunks_contains:
  assumes "\<not> has_broad_areas s" "explicit_chunks s \<noteq> []"
  shows "scope_contains (owned_scope s) c \<longleftrightarrow> c \<in> set (explicit_chunks s)"
proof -
  have chunk: "\<exists>p. as_area spec = DimChunk p" if "spec \<in> set (is_areas s)" for spec
    using assms(1) that by (cases "as_area spec") (auto simp: has_broad_areas_def list_ex_iff)
  have areas: "is_areas s \<noteq> []" "is_region s = []"
    using assms by (auto simp: explicit_chunks_def has_broad_areas_def map_filter_simps)
  have "c \<in> set (explicit_chunks s) \<longleftrightarrow> coord_kind c \<in> set (sel_kinds s) \<and> (\<exists>spec \<in> set (is_areas s). spec_holds spec c)"
  proof
    assume "c \<in> set (explicit_chunks s)"
    then show "coord_kind c \<in> set (sel_kinds s) \<and> (\<exists>spec \<in> set (is_areas s). spec_holds spec c)"
      unfolding explicit_chunks_mem by (auto simp: spec_holds_def)
  next
    assume spec: "coord_kind c \<in> set (sel_kinds s) \<and> (\<exists>spec \<in> set (is_areas s). spec_holds spec c)"
    then obtain spec p where p: "spec \<in> set (is_areas s)" "spec_holds spec c" "as_area spec = DimChunk p" using chunk by blast
    then have "c = ChunkCoord (as_dim spec) (coord_kind c) (xz_x p) (xz_z p)" by (cases c) (simp add: spec_holds_def)
    then show "c \<in> set (explicit_chunks s)" using spec p(1,3) unfolding explicit_chunks_mem by blast
  qed
  then show ?thesis using areas by (simp add: owned_scope_contains sel_kinds_iff)
qed

subsection \<open>References the command line accepts\<close>

lemma cli_ref_cases:
  "\<exists>r. cli_ref_from_str s = Some r \<and> (r = Inr t \<longleftrightarrow>
     (\<exists>i. commit_id_from_str s = Inr i \<and> commit_id_display i = Some t)
     \<or> (\<exists>e n. commit_id_from_str s = Inl e \<and> ref_name_parse s = Inr n \<and> t = s))"
proof (cases "commit_id_from_str s")
  case (Inl e)
  then show ?thesis by (cases "ref_name_parse s") (auto simp: cli_ref_from_str_def)
next
  case (Inr i)
  obtain u where "commit_id_display i = Some u" using ascii_hex_into by (auto simp: commit_id_display_def)
  then show ?thesis using Inr by (auto simp: cli_ref_from_str_def)
qed

end
