(* ===== verification/Cli_Diff.thy ===== *)
theory Cli_Diff
  imports Cli_Selection App_Host
begin

section \<open>The diff command\<close>

text \<open>
  \<open>crates/cli/src/commands/diff.rs\<close> with \<open>DiffArgs::target\<close> and \<open>resolve_selection\<close>: which chunks a diff
  asks for and which it reports. The contexts the command adds to an error, which prefix its message,
  rendering, timings and progress are left out. The theorems say which chunks are reported: between
  two commits, every chunk of the scope that differs; against a world, those among the chunks the
  world holds and the ones spelled out.
\<close>

datatype cli_error = CliApp app_error | CliWorld world_error | NoActiveRef | NoParent commit_id

record diff_args =
  da_world :: "host_path option"
  da_old_commit :: "rstr option"
  da_new_commit :: "rstr option"
  da_selection :: selection

datatype diff_target = TargetWorld host_path "rstr option" | TargetCommits "rstr option" "rstr option"

definition diff_target_of :: "diff_args \<Rightarrow> diff_target" where
  "diff_target_of args =
     (case da_world args of
        None \<Rightarrow> TargetCommits (da_old_commit args) (da_new_commit args)
      | Some world \<Rightarrow> TargetWorld world (da_old_commit args))"

definition resolve_selection :: "('m, storage_error) meta_port \<Rightarrow> 'm \<Rightarrow> selection \<Rightarrow> (cli_error, scope) result" where
  "resolve_selection mp m sel =
     (case sel of
        Inline s \<Rightarrow> Inr (owned_scope s)
      | ScopeNamed name \<Rightarrow> map_err CliApp (resolve_scope mp m name))"

subsection \<open>The pair of commits\<close>

definition cli_resolve :: "('m, storage_error) meta_port \<Rightarrow> 'm \<Rightarrow> rstr \<Rightarrow> (cli_error, commit_id) result" where
  "cli_resolve mp m spelling = map_err CliApp (app_resolve_commit_ref mp m spelling)"

definition active_commit :: "('m, storage_error) meta_port \<Rightarrow> 'm \<Rightarrow> (cli_error, commit_id) result" where
  "active_commit mp m =
     bindE (map_err CliApp (app_active_ref mp m)) (\<lambda>active.
       case active of None \<Rightarrow> Inl NoActiveRef | Some r \<Rightarrow> ok_or (CliApp AeNoCommits) (cr_commit r))"

definition lowest_id_parent :: "('m, storage_error) meta_port \<Rightarrow> 'm \<Rightarrow> commit_id \<Rightarrow> (cli_error, commit_id) result" where
  "lowest_id_parent mp m i =
     bindE (map_err CliApp (app_commit_parents mp m i)) (\<lambda>parents.
       ok_or (NoParent i) (case parents of [] \<Rightarrow> None | p # ps \<Rightarrow> Some (fold min ps p)))"

definition resolve_commit_pair ::
  "('m, storage_error) meta_port \<Rightarrow> 'm \<Rightarrow> rstr option \<Rightarrow> rstr option \<Rightarrow> (cli_error, commit_id \<times> commit_id) result" where
  "resolve_commit_pair mp m old_commit new_commit =
     (case (old_commit, new_commit) of
        (Some old, Some new) \<Rightarrow>
          bindE (cli_resolve mp m old) (\<lambda>i. bindE (cli_resolve mp m new) (\<lambda>j. Inr (i, j)))
      | (Some old, None) \<Rightarrow>
          bindE (active_commit mp m) (\<lambda>j. bindE (cli_resolve mp m old) (\<lambda>i. Inr (i, j)))
      | (None, Some new) \<Rightarrow>
          bindE (cli_resolve mp m new) (\<lambda>j. bindE (lowest_id_parent mp m j) (\<lambda>i. Inr (i, j)))
      | (None, None) \<Rightarrow>
          bindE (active_commit mp m) (\<lambda>j. bindE (lowest_id_parent mp m j) (\<lambda>i. Inr (i, j))))"

subsection \<open>The command\<close>

definition scoped_coords :: "chunk_coord list \<Rightarrow> scope \<Rightarrow> chunk_coord list" where
  "scoped_coords coords sc = sort_dedup (filter (scope_contains sc) coords)"

definition selected_coords :: "selection \<Rightarrow> chunk_coord list \<times> bool" where
  "selected_coords sel =
     (case sel of
        Inline s \<Rightarrow> (explicit_chunks s, has_broad_areas s \<or> explicit_chunks s = [])
      | ScopeNamed _ \<Rightarrow> ([], True))"

definition cli_diff_world ::
  "('d, 'x) chunk_env \<Rightarrow> (bytes \<Rightarrow> hash32) \<Rightarrow> file_system \<Rightarrow> ('m, storage_error) meta_port \<Rightarrow> 'm
     \<Rightarrow> chunk_coord list \<times> bool \<Rightarrow> scope \<Rightarrow> host_path \<Rightarrow> rstr option \<Rightarrow> (cli_error, chunk_diff list) result option" where
  "cli_diff_world env H fs mp m asked sc path commit =
     (case bindE (map_err CliWorld (host_new H fs path)) (\<lambda>w.
           bindE (if snd asked then map_err CliApp (world_chunk_coords host_port w) else Inr []) (\<lambda>found.
           bindE (case commit of None \<Rightarrow> Inr None | Some spelling \<Rightarrow> bindE (cli_resolve mp m spelling) (\<lambda>i. Inr (Some i))) (\<lambda>i.
             Inr (w, scoped_coords (fst asked @ found) sc, i)))) of
        Inl e \<Rightarrow> Some (Inl e)
      | Inr (w, coords, i) \<Rightarrow> map_option (map_err CliApp) (fst (diff_world_chunks env host_port mp w m i coords)))"

definition cli_diff_commits ::
  "('m, storage_error) meta_port \<Rightarrow> 'm \<Rightarrow> chunk_coord list \<times> bool \<Rightarrow> scope \<Rightarrow> rstr option \<Rightarrow> rstr option
     \<Rightarrow> (cli_error, chunk_diff list) result option" where
  "cli_diff_commits mp m asked sc old new =
     (case bindE (resolve_commit_pair mp m old new) (\<lambda>(i, j).
           bindE (if snd asked
                  then map_err CliApp (bindE (commit_chunk_coords mp m i) (\<lambda>of_old.
                         bindE (commit_chunk_coords mp m j) (\<lambda>of_new. Inr (of_old @ of_new))))
                  else Inr []) (\<lambda>found.
             Inr (i, j, scoped_coords (fst asked @ found) sc))) of
        Inl e \<Rightarrow> Some (Inl e)
      | Inr (i, j, coords) \<Rightarrow> map_option (map_err CliApp) (fst (diff_chunks mp m i j coords)))"

definition cli_diff ::
  "('d, 'x) chunk_env \<Rightarrow> (bytes \<Rightarrow> hash32) \<Rightarrow> file_system \<Rightarrow> ('m, storage_error) meta_port \<Rightarrow> 'm \<Rightarrow> diff_args
     \<Rightarrow> (cli_error, chunk_diff list) result option" where
  "cli_diff env H fs mp m args =
     (case resolve_selection mp m (da_selection args) of
        Inl e \<Rightarrow> Some (Inl e)
      | Inr sc \<Rightarrow>
          map_option (\<lambda>answer. bindE answer (\<lambda>diffs. Inr (filter (\<lambda>d. \<not> diff_is_empty (cd_entries d)) diffs)))
            (case diff_target_of args of
               TargetWorld path commit \<Rightarrow> cli_diff_world env H fs mp m (selected_coords (da_selection args)) sc path commit
             | TargetCommits old new \<Rightarrow> cli_diff_commits mp m (selected_coords (da_selection args)) sc old new))"

subsection \<open>The chunks a side lists\<close>

context workspace begin

lemma commit_coords:
  assumes "mvalid m"
  shows "\<exists>cs. commit_chunk_coords mport m i = Inr cs \<and> set cs = {c. state m i c \<noteq> None}"
proof -
  obtain es where es: "mp_visit_commit_chunks mport m i = (es, None)"
    "\<And>k. map_option he_blob (find (\<lambda>e. he_coord e = k) es) = state m i k"
    using meta.visit_chunks [OF assms] by blast
  have push: "foldl (\<lambda>coords e. coords @ [he_coord e]) out es = out @ map he_coord es" for out es
    by (induction es arbitrary: out) simp_all
  have "c \<in> he_coord ` set es \<longleftrightarrow> find (\<lambda>e. he_coord e = c) es \<noteq> None" for c
    by (auto simp: find_None_iff)
  then have "set (map he_coord es) = {c. state m i c \<noteq> None}" by (auto simp flip: es(2))
  then show ?thesis by (simp add: commit_chunk_coords_def es(1) visit_each_eq push)
qed

lemma world_coords:
  assumes w: "wvalid w" and clean: "\<And>k bs. files w k = Some bs \<Longrightarrow> clean_file k bs"
  shows "\<exists>cs. world_chunk_coords wport w = Inr cs \<and> set cs = {c. world_chunk (files w) c \<noteq> None}"
proof -
  obtain regions where regions: "discover_regions wport w = Inr regions" "observed w regions" using discovers [OF w] by blast
  have ok: "om_ok regions" using regions(2) by (simp add: observed_def)
  let ?of = "\<lambda>ks. {c. region_key_of c \<in> ks \<and> world_chunk (files w) c \<noteq> None}"
  have visit: "\<exists>cs'. visit_coords wport w (k, r) cs = Inr cs' \<and> set cs' = set cs \<union> ?of {k}" if kr: "(k, r) \<in> set regions" for k r cs
  proof -
    have r: "om_get k regions = Some r" using om.entries_mem [OF ok] kr by blast
    then obtain bs where bs: "files w k = Some bs" and nm: "names w k r"
      using regions(2) unfolding observed_def by (metis not_Some_eq option.distinct(1))
    obtain img where img: "key_image k bs = Inr img" using clean [OF bs] by (auto simp: clean_file_def split: sum.splits)
    obtain p where read: "wp_read wport w r k = Inr (image_answers p img)" using read_ok [OF w nm bs img] by blast
    obtain chunks where chunks: "wi_chunks (image_answers p img) = (chunks, None)"
      "\<And>x z q. (\<exists>c \<in> set chunks. ch_x c = x \<and> ch_z c = z \<and> ch_payload c = q) \<longleftrightarrow> file_chunk k bs x z = Some q"
      using clean_file_chunks [OF clean [OF bs], of p] img by auto
    let ?coord = "\<lambda>ch. ChunkCoord (key_dim k) (key_kind k) (ch_x ch) (ch_z ch)"
    have push: "foldl (\<lambda>cs ch. cs @ [?coord ch]) out chs = out @ map ?coord chs" for out chs
      by (induction chs arbitrary: out) simp_all
    have "?coord ` set chunks = ?of {k}"
    proof (intro set_eqI iffI)
      fix c assume "c \<in> ?coord ` set chunks"
      then obtain ch where ch: "ch \<in> set chunks" "c = ?coord ch" by blast
      then have f: "file_chunk k bs (ch_x ch) (ch_z ch) = Some (ch_payload ch)" using chunks(2) by blast
      show "c \<in> ?of {k}" using bs f file_chunk_region [OF f] ch(2) by (simp add: world_chunk_def)
    next
      fix c assume "c \<in> ?of {k}"
      then have k: "region_key_of c = k" and "world_chunk (files w) c \<noteq> None" by simp_all
      then obtain q where "file_chunk k bs (coord_x c) (coord_z c) = Some q" using bs by (auto simp: world_chunk_def)
      then obtain ch where "ch \<in> set chunks" "ch_x ch = coord_x c" "ch_z ch = coord_z c" using chunks(2) by blast
      moreover have "c = ?coord ch" using calculation k by (cases c) (auto simp: region_key_of_def)
      ultimately show "c \<in> ?coord ` set chunks" by blast
    qed
    then show ?thesis
      by (simp add: visit_coords_def read chunks(1) visit_each_eq push)
  qed
  have "\<exists>cs'. foldE (visit_coords wport w) rs cs = Inr cs' \<and> set cs' = set cs \<union> ?of (fst ` set rs)"
    if "set rs \<subseteq> set regions" for rs cs
    using that
  proof (induction rs arbitrary: cs)
    case (Cons kr rs)
    obtain k r where kr: "kr = (k, r)" by (cases kr)
    then obtain cs1 where cs1: "visit_coords wport w kr cs = Inr cs1" "set cs1 = set cs \<union> ?of {k}" using visit Cons.prems by force
    obtain cs2 where "foldE (visit_coords wport w) rs cs1 = Inr cs2" "set cs2 = set cs1 \<union> ?of (fst ` set rs)"
      using Cons.IH [of cs1] Cons.prems by auto
    then show ?case using cs1 kr by auto
  qed simp
  then obtain cs where cs: "foldE (visit_coords wport w) regions [] = Inr cs" "set cs = ?of (fst ` set regions)" by force
  have "region_key_of c \<in> fst ` set regions" if "world_chunk (files w) c \<noteq> None" for c
  proof -
    have "files w (region_key_of c) \<noteq> None" using that by (cases "files w (region_key_of c)") (simp_all add: world_chunk_def)
    then have "om_get (region_key_of c) regions \<noteq> None" using regions(2) by (simp add: observed_def)
    then obtain r where "(region_key_of c, r) \<in> set regions" using om.entries_mem [OF ok] by blast
    then show ?thesis by force
  qed
  then have "set cs = {c. world_chunk (files w) c \<noteq> None}" using cs(2) by auto
  then show ?thesis using regions(1) cs(1) by (simp add: world_chunk_coords_def)
qed

end

subsection \<open>What the command reports\<close>

lemma sel_inline_asked:
  "resolve_selection mp m sel = Inr sc \<Longrightarrow> \<not> snd (selected_coords sel) \<Longrightarrow> scope_contains sc c \<Longrightarrow> c \<in> set (fst (selected_coords sel))"
  using explicit_chunks_contains
  by (cases sel) (auto simp: resolve_selection_def selected_coords_def)

lemma scoped_coords_eq: "scoped_coords cs sc = sorted_list_of_set {c \<in> set cs. scope_contains sc c}"
  by (simp add: scoped_coords_def sort_dedup_canonical)

lemma reported_diffs:
  fixes cs :: "chunk_coord set"
  assumes "finite cs" "\<And>c. c \<in> reported \<longleftrightarrow> c \<in> cs \<and> old c \<noteq> new c"
  defines "ds \<equiv> filter (\<lambda>d. \<not> diff_is_empty (cd_entries d)) (map (diff_of old new) (sorted_list_of_set cs))"
  shows "sorted_wrt (<) (map cd_coord ds)" "cd_coord ` set ds = reported" "\<forall>d \<in> set ds. cd_entries d = from_sides (old (cd_coord d)) (new (cd_coord d))"
proof -
  have "map cd_coord ds = filter (\<lambda>c. old c \<noteq> new c) (sorted_list_of_set cs)"
    by (simp add: ds_def filter_map comp_def diff_of_def diff_is_empty_def from_sides_def)
  also have "\<dots> = sorted_list_of_set {c \<in> cs. old c \<noteq> new c}"
    by (rule sorted_distinct_set_unique) (use assms(1) in \<open>simp_all add: sorted_wrt_filter\<close>)
  also have "{c \<in> cs. old c \<noteq> new c} = reported" using assms(2) by blast
  finally have ds: "map cd_coord ds = sorted_list_of_set reported" .
  show "sorted_wrt (<) (map cd_coord ds)" unfolding ds by simp
  have "finite reported" using assms(1) by (rule finite_subset [rotated]) (use assms(2) in blast)
  then show "cd_coord ` set ds = reported" using arg_cong [OF ds, of set] by simp
  show "\<forall>d \<in> set ds. cd_entries d = from_sides (old (cd_coord d)) (new (cd_coord d))"
    by (auto simp: ds_def diff_of_def)
qed

lemma cli_diff_commits_reported:
  assumes db: "wf_db db" and args: "da_world args = None"
    and sc: "resolve_selection (sqlite_port H) db (da_selection args) = Inr sc"
    and pair: "resolve_commit_pair (sqlite_port H) db (da_old_commit args) (da_new_commit args) = Inr (i, j)"
  defines "old \<equiv> present_at (chunk_view db i)" and "new \<equiv> present_at (chunk_view db j)"
  shows "\<exists>ds. cli_diff env H' fs (sqlite_port H) db args = Some (Inr ds)
    \<and> sorted_wrt (<) (map cd_coord ds) \<and> cd_coord ` set ds = {c. scope_contains sc c \<and> old c \<noteq> new c}
    \<and> (\<forall>d \<in> set ds. cd_entries d = from_sides (old (cd_coord d)) (new (cd_coord d)))"
proof -
  obtain asked broad where asked: "selected_coords (da_selection args) = (asked, broad)" by fastforce
  obtain ci cj where ci: "commit_chunk_coords (sqlite_port H) db i = Inr ci" "set ci = {c. chunk_view db i c \<noteq> None}"
    and cj: "commit_chunk_coords (sqlite_port H) db j = Inr cj" "set cj = {c. chunk_view db j c \<noteq> None}"
    using ws.commit_coords [OF db] by metis
  define cs where "cs = asked @ (if broad then ci @ cj else [])"
  have run: "cli_diff_commits (sqlite_port H) db (asked, broad) sc (da_old_commit args) (da_new_commit args)
      = Some (Inr (map (diff_of old new) (scoped_coords cs sc)))"
    using ws.diff_chunks_ok [OF db] pair ci(1) cj(1) by (simp add: cli_diff_commits_def old_def new_def cs_def)
  have reported: "c \<in> {c. scope_contains sc c \<and> old c \<noteq> new c} \<longleftrightarrow> c \<in> {c \<in> set cs. scope_contains sc c} \<and> old c \<noteq> new c" for c
  proof -
    have "c \<in> set ci \<or> c \<in> set cj" if "old c \<noteq> new c"
      using that by (cases "chunk_view db i c"; cases "chunk_view db j c")
        (simp_all add: old_def new_def ci(2) cj(2) present_at_def)
    moreover have "c \<in> set asked" if "\<not> broad" "scope_contains sc c"
      using sel_inline_asked [OF sc] that asked by simp
    ultimately show ?thesis by (auto simp: cs_def)
  qed
  let ?ds = "filter (\<lambda>d. \<not> diff_is_empty (cd_entries d)) (map (diff_of old new) (scoped_coords cs sc))"
  have "cli_diff env H' fs (sqlite_port H) db args = Some (Inr ?ds)"
    unfolding cli_diff_def sc sum.case diff_target_of_def args option.case diff_target.case asked run by simp
  moreover have "finite {c \<in> set cs. scope_contains sc c}" by simp
  note ds = reported_diffs [OF this reported, folded scoped_coords_eq]
  ultimately show ?thesis by (intro exI [of _ ?ds] conjI ds)
qed

lemma cli_diff_world_reported:
  assumes db: "wf_db db" and args: "da_world args = Some path"
    and sc: "resolve_selection (sqlite_port H) db (da_selection args) = Inr sc"
    and w: "host_new H' fs path = Inr w" "host_valid w" "host_ready env w World"
    and i: "(\<exists>s. da_old_commit args = Some s \<and> cli_resolve (sqlite_port H) db s = Inr i)
      \<or> da_old_commit args = None \<and> head_view db = Some (Some i)"
  defines "old \<equiv> present_at (chunk_view db i)" and "new \<equiv> world_scan env (host_files w) World"
  shows "\<exists>ds. cli_diff env H' fs (sqlite_port H) db args = Some (Inr ds)
    \<and> sorted_wrt (<) (map cd_coord ds)
    \<and> cd_coord ` set ds = {c. scope_contains sc c
        \<and> (world_chunk (host_files w) c \<noteq> None \<or> c \<in> set (fst (selected_coords (da_selection args)))) \<and> old c \<noteq> new c}
    \<and> (\<forall>d \<in> set ds. cd_entries d = from_sides (old (cd_coord d)) (new (cd_coord d)))"
proof -
  obtain asked broad where asked: "selected_coords (da_selection args) = (asked, broad)" by fastforce
  have clean: "clean_file k bs" if "host_files w k = Some bs" for k bs using w(3) that by (simp add: host_ready_def)
  obtain cw where cw: "world_chunk_coords host_port w = Inr cw" "set cw = {c. world_chunk (host_files w) c \<noteq> None}"
    using ws.world_coords [OF w(2) clean] by blast
  define cs where "cs = asked @ (if broad then cw else [])"
  let ?found = "case da_old_commit args of None \<Rightarrow> Inr None
      | Some spelling \<Rightarrow> bindE (cli_resolve (sqlite_port H) db spelling) (\<lambda>i. Inr (Some i))"
  obtain commit where commit: "?found = Inr commit" "commit = Some i \<or> commit = None \<and> head_view db = Some (Some i)"
    using i by auto
  have "fst (diff_world_chunks env host_port (sqlite_port H) w db commit (scoped_coords cs sc))
      = Some (Inr (map (diff_of old new) (scoped_coords cs sc)))"
    unfolding old_def new_def by (rule ws.diff_world_ok [OF w(2) db host_ready_scan [OF w(3)] commit(2)])
  then have run: "cli_diff_world env H' fs (sqlite_port H) db (asked, broad) sc path (da_old_commit args)
      = Some (Inr (map (diff_of old new) (scoped_coords cs sc)))"
    using w(1) cw(1) commit(1) by (cases broad) (simp_all add: cli_diff_world_def cs_def)
  let ?reported = "{c. scope_contains sc c \<and> (world_chunk (host_files w) c \<noteq> None \<or> c \<in> set asked) \<and> old c \<noteq> new c}"
  have reported: "c \<in> ?reported \<longleftrightarrow> c \<in> {c \<in> set cs. scope_contains sc c} \<and> old c \<noteq> new c" for c
  proof -
    have "c \<in> set asked" if "\<not> broad" "scope_contains sc c"
      using sel_inline_asked [OF sc] that asked by simp
    then show ?thesis by (auto simp: cs_def cw(2))
  qed
  let ?ds = "filter (\<lambda>d. \<not> diff_is_empty (cd_entries d)) (map (diff_of old new) (scoped_coords cs sc))"
  have "cli_diff env H' fs (sqlite_port H) db args = Some (Inr ?ds)"
    unfolding cli_diff_def sc sum.case diff_target_of_def args option.case diff_target.case asked run by simp
  moreover have "finite {c \<in> set cs. scope_contains sc c}" by simp
  note ds = reported_diffs [OF this reported, folded scoped_coords_eq]
  ultimately show ?thesis unfolding asked fst_conv by (intro exI [of _ ?ds] conjI ds)
qed

end
