(* ===== verification/Cli_Commands.thy ===== *)
theory Cli_Commands
  imports Cli_Diff
begin

section \<open>The commands\<close>

text \<open>
  The \<open>run\<close> functions under \<open>crates/cli/src/commands/\<close>: what each command does to the world and to an
  open store, in the order of its calls, with the mapping of its flags. Each takes the store as it is
  once opened; printing, progress bars and the contexts of errors are left out. A command that fails
  leaves the store and the world as the last call left them.
\<close>

datatype on_missing_blob = Abort | OnSkipChunk

datatype on_missing_file = OnSiblingFirst | OnDerivedOnly | OnError

datatype clone_flavor = Legacy | New | BukkitFlavor

datatype command_error = CmdCli cli_error | UnknownRefName ref_name | UnknownScopeName scope_name

subsection \<open>Checkout\<close>

record checkout_flags =
  cf_keep_post_commit_files :: bool
  cf_keep_post_commit_chunks :: bool
  cf_keep_tombstoned_chunks :: bool
  cf_on_missing_blob :: on_missing_blob
  cf_on_missing_file :: on_missing_file

fun map_missing_blob :: "on_missing_blob \<Rightarrow> missing_blob_policy" where
  "map_missing_blob Abort = AbortOnMissing"
| "map_missing_blob OnSkipChunk = SkipChunk"

definition map_options :: "checkout_flags \<Rightarrow> checkout_options" where
  "map_options flags =
     \<lparr>opt_keep_files = cf_keep_post_commit_files flags, opt_keep_chunks = cf_keep_post_commit_chunks flags,
      opt_keep_tombstoned = cf_keep_tombstoned_chunks flags,
      opt_missing_blob = map_missing_blob (cf_on_missing_blob flags),
      opt_missing_file =
        (case cf_on_missing_file flags of
           OnSiblingFirst \<Rightarrow> SiblingFirst
         | OnDerivedOnly \<Rightarrow> DerivedOnly
         | OnError \<Rightarrow> FailOnMissing)\<rparr>"

definition policy_summary :: "checkout_flags \<Rightarrow> rstr" where
  "policy_summary flags =
     (let parts =
        (if cf_keep_post_commit_files flags then [lit ''keep files''] else [])
        @ (if cf_keep_post_commit_chunks flags then [lit ''keep chunks''] else [])
        @ (if cf_keep_tombstoned_chunks flags then [lit ''keep tombstones''] else [])
        @ (if cf_on_missing_blob flags = OnSkipChunk then [lit ''skip missing blobs''] else [])
        @ (case cf_on_missing_file flags of
             OnSiblingFirst \<Rightarrow> []
           | OnDerivedOnly \<Rightarrow> [lit ''derived-only'']
           | OnError \<Rightarrow> [lit ''missing-file error''])
      in if parts = [] then lit ''strict'' else join_str (lit '', '') parts)"

definition cli_checkout ::
  "(bytes \<Rightarrow> hash32) \<Rightarrow> file_system \<Rightarrow> ('b, storage_error) blob_port \<Rightarrow> ('m, storage_error) meta_port \<Rightarrow> ('m, 'b) store
     \<Rightarrow> host_path \<Rightarrow> rstr \<Rightarrow> selection \<Rightarrow> checkout_flags \<Rightarrow> (cli_error, checkout_report) result \<times> host_world option" where
  "cli_checkout H fs bp mp st path commit sel flags =
     (case map_err CliWorld (host_new H fs path) of
        Inl e \<Rightarrow> (Inl e, None)
      | Inr w \<Rightarrow>
          (case bindE (cli_resolve mp (store_meta st) commit) (\<lambda>i.
                bindE (resolve_selection mp (store_meta st) sel) (\<lambda>sc. Inr (i, sc))) of
             Inl e \<Rightarrow> (Inl e, Some w)
           | Inr (i, sc) \<Rightarrow>
               (case checkout host_port bp mp st i (map_options flags) sc w of
                  (answer, run) \<Rightarrow> (map_err CliApp answer, Some (run_world run)))))"

subsection \<open>Clone\<close>

text \<open>The directories of the output tree; whether the output root is a directory and what lies there is
  the file system's.\<close>

definition output_tree :: "file_system \<Rightarrow> clone_flavor \<Rightarrow> rstr \<Rightarrow> host_path \<Rightarrow> host_world" where
  "output_tree fs flavor base out_dir =
     \<lparr>hw_root = out_dir,
      hw_dirs =
        (case flavor of
           Legacy \<Rightarrow> legacy_dirs out_dir
         | New \<Rightarrow> dimensions_dirs out_dir
         | BukkitFlavor \<Rightarrow> bukkit_dirs out_dir base),
      hw_root_is_dir = fs_is_dir fs out_dir, hw_files = fs_files fs\<rparr>"

definition cli_clone ::
  "file_system \<Rightarrow> ('b, storage_error) blob_port \<Rightarrow> ('m, storage_error) meta_port \<Rightarrow> ('m, 'b) store \<Rightarrow> (nat \<Rightarrow> nat)
     \<Rightarrow> rstr \<Rightarrow> host_path \<Rightarrow> selection \<Rightarrow> clone_flavor \<Rightarrow> rstr \<Rightarrow> on_missing_blob
     \<Rightarrow> (cli_error, clone_report) result \<times> host_world" where
  "cli_clone fs bp mp st drains commit out_dir sel flavor base on_missing =
     (let w = output_tree fs flavor base out_dir in
      case bindE (cli_resolve mp (store_meta st) commit) (\<lambda>i.
           bindE (resolve_selection mp (store_meta st) sel) (\<lambda>sc. Inr (i, sc))) of
        Inl e \<Rightarrow> (Inl e, w)
      | Inr (i, sc) \<Rightarrow>
          (case clone_to host_port bp mp st i (map_missing_blob on_missing) sc drains w of
             ((answer, _), w') \<Rightarrow> (map_err CliApp answer, w')))"

subsection \<open>Commit and status\<close>

definition cli_commit ::
  "('d, 'x) chunk_env \<Rightarrow> (bytes \<Rightarrow> hash32) \<Rightarrow> file_system \<Rightarrow> ('b, storage_error) blob_port \<Rightarrow> ('m, storage_error) meta_port
     \<Rightarrow> ('m, 'b) store \<Rightarrow> host_path \<Rightarrow> nat \<Rightarrow> nat option \<Rightarrow> nat list \<Rightarrow> selection \<Rightarrow> nat option
     \<Rightarrow> (cli_error, commit_report) result option \<times> ('m, 'b) store" where
  "cli_commit env H fs bp mp st path jobs cpus schedule sel clock =
     (case bindE (map_err CliWorld (host_new H fs path)) (\<lambda>w.
           bindE (resolve_selection mp (store_meta st) sel) (\<lambda>sc. Inr (w, sc))) of
        Inl e \<Rightarrow> (Some (Inl e), st)
      | Inr (w, sc) \<Rightarrow>
          (case commit_world env host_port bp mp w jobs cpus schedule sc clock st of
             (answer, st') \<Rightarrow> (map_option (map_err CliApp) answer, st')))"

definition cli_status ::
  "('d, 'x) chunk_env \<Rightarrow> (bytes \<Rightarrow> hash32) \<Rightarrow> file_system \<Rightarrow> ('b, storage_error) blob_port \<Rightarrow> ('m, storage_error) meta_port
     \<Rightarrow> ('m, 'b) store \<Rightarrow> host_path \<Rightarrow> nat \<Rightarrow> nat option \<Rightarrow> nat list \<Rightarrow> selection
     \<Rightarrow> (cli_error, status_report) result option" where
  "cli_status env H fs bp mp st path jobs cpus schedule sel =
     (case bindE (map_err CliWorld (host_new H fs path)) (\<lambda>w.
           bindE (resolve_selection mp (store_meta st) sel) (\<lambda>sc. Inr (w, sc))) of
        Inl e \<Rightarrow> Some (Inl e)
      | Inr (w, sc) \<Rightarrow> map_option (map_err CliApp) (status_world env host_port bp mp w jobs cpus schedule sc st))"

subsection \<open>Refs\<close>

definition cli_ref_create ::
  "('m, storage_error) meta_port \<Rightarrow> nat option \<Rightarrow> ref_name \<Rightarrow> rstr option \<Rightarrow> bool \<Rightarrow> 'm \<Rightarrow> (cli_error, commit_ref \<times> 'm) result" where
  "cli_ref_create mp clock name commit force m =
     bindE (case commit of
              Some reference \<Rightarrow> bindE (cli_resolve mp m reference) (\<lambda>i. Inr (Some i))
            | None \<Rightarrow> map_err CliApp (current_commit_id mp m)) (\<lambda>target.
       map_err CliApp (create_ref mp clock name target force m))"

definition cli_ref_delete ::
  "('m, storage_error) meta_port \<Rightarrow> ref_name \<Rightarrow> 'm \<Rightarrow> (command_error, 'm) result" where
  "cli_ref_delete mp name m =
     bindE (map_err (\<lambda>e. CmdCli (CliApp e)) (app_delete_ref mp name m)) (\<lambda>(removed, m').
       if \<not> removed then Inl (UnknownRefName name) else Inr m')"

definition cli_ref_activate ::
  "('m, storage_error) meta_port \<Rightarrow> ref_name \<Rightarrow> 'm \<Rightarrow> (cli_error, commit_ref) result \<times> 'm" where
  "cli_ref_activate mp name m = (case app_activate_ref mp name m of (answer, m') \<Rightarrow> (map_err CliApp answer, m'))"

subsection \<open>Scopes\<close>

definition cli_scope_create ::
  "('m, storage_error) meta_port \<Rightarrow> nat option \<Rightarrow> scope_name \<Rightarrow> scope_area_spec list \<Rightarrow> region_spec list \<Rightarrow> bool \<Rightarrow> 'm
     \<Rightarrow> (cli_error, named_scope \<times> 'm) result" where
  "cli_scope_create mp clock name areas region force m =
     map_err CliApp (create_scope mp clock name
       (map (\<lambda>spec. (ss_dim spec, ss_rect spec)) areas @ map region_spec_area region) force m)"

definition cli_scope_delete ::
  "('m, storage_error) meta_port \<Rightarrow> scope_name \<Rightarrow> 'm \<Rightarrow> (command_error, 'm) result" where
  "cli_scope_delete mp name m =
     bindE (map_err (\<lambda>e. CmdCli (CliApp e)) (app_delete_scope mp name m)) (\<lambda>(removed, m').
       if \<not> removed then Inl (UnknownScopeName name) else Inr m')"

subsection \<open>Prune and gc\<close>

definition resolve_before :: "('m, storage_error) meta_port \<Rightarrow> 'm \<Rightarrow> rstr option \<Rightarrow> (cli_error, commit_id option) result" where
  "resolve_before mp m before =
     (case before of None \<Rightarrow> Inr None | Some spelling \<Rightarrow> bindE (cli_resolve mp m spelling) (\<lambda>i. Inr (Some i)))"

definition cli_prune_plan ::
  "('m, storage_error) meta_port \<Rightarrow> 'm \<Rightarrow> u64 option \<Rightarrow> rstr option \<Rightarrow> (cli_error, prune_plan_rec) result" where
  "cli_prune_plan mp m keep_last before =
     bindE (resolve_before mp m before) (\<lambda>b. map_err CliApp (prune_plan_within mp m keep_last b))"

definition cli_prune ::
  "('m, storage_error) meta_port \<Rightarrow> u64 option \<Rightarrow> rstr option \<Rightarrow> 'm \<Rightarrow> (cli_error, prune_report) result \<times> 'm" where
  "cli_prune mp keep_last before m =
     (case resolve_before mp m before of
        Inl e \<Rightarrow> (Inl e, m)
      | Inr b \<Rightarrow> (case app_prune mp keep_last b m of (answer, m', _) \<Rightarrow> (map_err CliApp answer, m')))"

definition cli_gc ::
  "('b, storage_error) blob_port \<Rightarrow> ('m, storage_error) meta_port \<Rightarrow> bool \<Rightarrow> ('m, 'b) store
     \<Rightarrow> (cli_error, gc_plan_rec + gc_report) result \<times> ('m, 'b) store" where
  "cli_gc bp mp dry_run st =
     (if dry_run then (bindE (map_err CliApp (gc_plan_within bp mp st)) (\<lambda>plan. Inr (Inl plan)), st)
      else (case app_gc bp mp st of (answer, st', _) \<Rightarrow> (bindE (map_err CliApp answer) (\<lambda>report. Inr (Inr report)), st')))"

subsection \<open>Colours\<close>

datatype color_choice = Auto | Always | Never

fun resolve_color :: "color_choice \<Rightarrow> bool \<Rightarrow> bool \<Rightarrow> bool" where
  "resolve_color Always no_color is_tty = True"
| "resolve_color Never no_color is_tty = False"
| "resolve_color Auto no_color is_tty = (is_tty \<and> \<not> no_color)"

definition paint :: "bool \<Rightarrow> rstr \<Rightarrow> rstr \<Rightarrow> rstr" where
  "paint enabled text code =
     (if \<not> enabled \<or> text = [] then text else [27] @ lit ''['' @ code @ lit ''m'' @ text @ [27] @ lit ''[0m'')"

subsection \<open>Named and inline scopes\<close>

lemma parse_as_expected: "parse_as s e = Inr a \<Longrightarrow> parse_as s e' = Inr a"
proof -
  assume parsed: "parse_as s e = Inr a"
  have "spec_dimension s e = Inr d \<Longrightarrow> spec_dimension s e' = Inr d" for d
    by (auto simp: spec_dimension_def bindE_eq_Inr map_err_eq_Inr split: option.splits)
  moreover obtain d where "spec_dimension s e = Inr d" using parsed by (auto simp: parse_as_def bindE_eq_Inr)
  ultimately show ?thesis using parsed by (simp add: parse_as_def)
qed

definition rect_normal :: "rect \<Rightarrow> bool" where
  "rect_normal r \<longleftrightarrow> x0 r \<le> x1 r \<and> z0 r \<le> z1 r"

lemma point_rect: "rect_contains (rect_new x z x z) u v \<longleftrightarrow> u = x \<and> v = z"
  by (auto simp: rect_new_corners)

lemma rect_normal_new: "rect_normal (rect_new a b c d)"
  by (simp add: rect_normal_def rect_new_normal)

lemma parse_as_rect:
  assumes "parse_as s e = Inr \<lparr>as_dim = d, as_area = DimRect r\<rparr>"
  shows "rect_normal r"
  using assms by (auto simp: parse_as_def bindE_eq_Inr rect_normal_new split: if_splits option.splits)

text \<open>An area of \<open>scope create\<close> is the same text as an \<open>--in\<close> entry, with the same chunks.\<close>

lemma scope_area_inline:
  assumes "scope_area_from_str t = Inr spec"
  shows "\<exists>a. area_spec_from_str t = Inr a \<and> rect_normal (ss_rect spec)
    \<and> (\<forall>c. spec_holds a c \<longleftrightarrow> ss_dim spec = coord_dim c \<and> rect_contains (ss_rect spec) (coord_x c) (coord_z c))"
proof -
  obtain a r where a: "parse_as t (lit ''DIM:X,Z or DIM:X0,Z0..X1,Z1'') = Inr a" "spec = \<lparr>ss_dim = as_dim a, ss_rect = r\<rparr>"
    and r: "(case as_area a of DimChunk p \<Rightarrow> Inr (rect_new (xz_x p) (xz_z p) (xz_x p) (xz_z p))
        | DimRect r \<Rightarrow> Inr r | DimAll \<Rightarrow> Inl (WholeDimension t)) = Inr r"
    using assms by (auto simp: scope_area_from_str_def bindE_eq_Inr)
  have "area_spec_from_str t = Inr a" unfolding area_spec_from_str_def by (rule parse_as_expected [OF a(1)])
  moreover have "rect_normal r"
    using r a(1) parse_as_rect [of t _ "as_dim a"] rect_normal_new
    by (cases a; cases "as_area a") auto
  moreover have "spec_holds a c \<longleftrightarrow> as_dim a = coord_dim c \<and> rect_contains r (coord_x c) (coord_z c)" for c
    using r by (cases "as_area a") (auto simp: spec_holds_def point_rect)
  ultimately show ?thesis using a(2) by auto
qed

lemma rect_region_normal: "rect_normal (rect_region rx rz)"
  by (simp add: rect_normal_def rect_region_def less_eq_i32_def sval_region_first sval_region_last)

lemma create_scope_areas:
  assumes "create_scope mp clock n areas force m = Inr (s, m')"
  shows "areas \<noteq> []" "set (ns_areas s) = (\<lambda>(d, r). (d, rect_new (x0 r) (z0 r) (x1 r) (z1 r))) ` set areas"
proof -
  obtain s0 t where s0: "named_scope_new n areas 0 = Inr s0" "s = s0\<lparr>ns_created_at_ms := t\<rparr>"
    using assms by (auto simp: create_scope_def bindE_eq_Inr map_err_eq_Inr Let_def)
  show nonempty: "areas \<noteq> []" using s0(1) by (auto simp: named_scope_new_def)
  show "set (ns_areas s) = (\<lambda>(d, r). (d, rect_new (x0 r) (z0 r) (x1 r) (z1 r))) ` set areas"
    using named_scope_new_ok [OF nonempty, of n 0] s0 by auto
qed

lemma named_selects:
  assumes db: "wf_db db" "valid_name (scope_str n)"
    and texts: "mapE scope_area_from_str texts = Inr specs"
    and run: "cli_scope_create (sqlite_port H) clock n specs regions force db = Inr (s, db')"
  shows "\<exists>inline sc. mapE area_spec_from_str texts = Inr inline
    \<and> resolve_selection (sqlite_port H) db' (ScopeNamed n) = Inr sc
    \<and> (\<forall>c. scope_contains sc c \<longleftrightarrow> scope_contains (owned_scope \<lparr>is_areas = inline, is_region = regions, is_kind = []\<rparr>) c)"
proof -
  let ?areas = "map (\<lambda>spec. (ss_dim spec, ss_rect spec)) specs @ map region_spec_area regions"
  have create: "create_scope (sqlite_port H) clock n ?areas force db = Inr (s, db')"
    using run by (simp add: cli_scope_create_def map_err_eq_Inr)
  have parsed: "list_all2 (\<lambda>t spec. scope_area_from_str t = Inr spec) texts specs" using texts by (simp add: mapE_eq_Inr)
  have "\<exists>inline. list_all2 (\<lambda>t a. area_spec_from_str t = Inr a) texts inline
      \<and> list_all2 (\<lambda>a spec. rect_normal (ss_rect spec) \<and> (\<forall>c. spec_holds a c \<longleftrightarrow> ss_dim spec = coord_dim c
          \<and> rect_contains (ss_rect spec) (coord_x c) (coord_z c))) inline specs"
    using parsed
  proof (induction rule: list_all2_induct)
    case (Cons t ts spec specs)
    obtain a where "area_spec_from_str t = Inr a" "rect_normal (ss_rect spec)"
      "\<forall>c. spec_holds a c \<longleftrightarrow> ss_dim spec = coord_dim c \<and> rect_contains (ss_rect spec) (coord_x c) (coord_z c)"
      using scope_area_inline [OF Cons(1)] by blast
    moreover obtain inline where "list_all2 (\<lambda>t a. area_spec_from_str t = Inr a) ts inline"
      "list_all2 (\<lambda>a spec. rect_normal (ss_rect spec) \<and> (\<forall>c. spec_holds a c \<longleftrightarrow> ss_dim spec = coord_dim c
          \<and> rect_contains (ss_rect spec) (coord_x c) (coord_z c))) inline specs"
      using Cons.IH by blast
    ultimately show ?case by (intro exI [of _ "a # inline"]) simp
  qed (auto intro: exI [of _ "[]"])
  then obtain inline where inline: "mapE area_spec_from_str texts = Inr inline"
    and same: "list_all2 (\<lambda>a spec. rect_normal (ss_rect spec) \<and> (\<forall>c. spec_holds a c \<longleftrightarrow> ss_dim spec = coord_dim c
          \<and> rect_contains (ss_rect spec) (coord_x c) (coord_z c))) inline specs"
    by (auto simp: mapE_eq_Inr)
  have normal: "rect_normal r" if "(d, r) \<in> set ?areas" for d r
    using that same rect_region_normal by (auto simp: region_spec_area_def list_all2_conv_all_nth in_set_conv_nth)
  have areas: "set (ns_areas s) = set ?areas"
  proof -
    have "(\<lambda>(d, r). (d, rect_new (x0 r) (z0 r) (x1 r) (z1 r))) e = e" if "e \<in> set ?areas" for e
      using normal [of "fst e" "snd e"] that by (cases e) (simp add: rect_normal_def rect_new_id)
    then show ?thesis unfolding create_scope_areas(2) [OF create] by force
  qed
  have held: "(\<exists>a \<in> set inline. spec_holds a c)
      \<longleftrightarrow> (\<exists>spec \<in> set specs. ss_dim spec = coord_dim c \<and> rect_contains (ss_rect spec) (coord_x c) (coord_z c))" for c
    using same by (induction rule: list_all2_induct) auto
  have "scope_contains (to_scope s) c \<longleftrightarrow> (\<exists>e \<in> set ?areas. fst e = coord_dim c \<and> rect_contains (snd e) (coord_x c) (coord_z c))" for c
    unfolding to_scope_contains areas by (simp add: case_prod_unfold)
  then have "scope_contains (to_scope s) c \<longleftrightarrow> (\<exists>a \<in> set inline. spec_holds a c) \<or> (\<exists>r \<in> set regions. region_holds r c)" for c
    unfolding held by (simp add: bex_Un region_spec_area_def region_holds_def)
  moreover have "\<not> (inline = [] \<and> regions = [])"
    using create_scope_areas(1) [OF create] same by auto
  ultimately have "scope_contains (to_scope s) c
      \<longleftrightarrow> scope_contains (owned_scope \<lparr>is_areas = inline, is_region = regions, is_kind = []\<rparr>) c" for c
    unfolding owned_scope_contains by (auto simp: kind_selected_def)
  moreover have "resolve_selection (sqlite_port H) db' (ScopeNamed n) = Inr (to_scope s)"
    using create_scope_ok [OF db create] by (simp add: resolve_selection_def)
  ultimately show ?thesis using inline by blast
qed

end
