(* ===== verification/Cli_Properties.thy ===== *)
theory Cli_Properties
  imports Cli_Commands Value_Properties App_Examples Layout_Properties
begin

section \<open>Properties of the command line\<close>

text \<open>
  What the selections, references and the diff command of \<open>crates/cli/src\<close> mean, over the host world
  and the SQLite store.
\<close>

subsection \<open>Selections\<close>

text \<open>C23: The scope of a selection holds a chunk exactly when its kind is selected and some \<open>--in\<close> or
  \<open>--region\<close> entry covers it, or there is no such entry at all; \<open>--kind\<close> alone narrows the whole world.\<close>

theorem selection_holds:
  "scope_contains (owned_scope s) c \<longleftrightarrow> kind_selected s (coord_kind c)
    \<and> (is_areas s = [] \<and> is_region s = [] \<or> (\<exists>spec \<in> set (is_areas s). spec_holds spec c)
       \<or> (\<exists>r \<in> set (is_region s). region_holds r c))"
  by (rule owned_scope_contains)

text \<open>C21: The areas of a stored scope, as \<open>scope list\<close> prints them on one line, split at the spaces and parse
  back one by one as the areas stored, unless a dimension prints a code that is an alias.\<close>

theorem spelled_scope_reads_back:
  assumes "normal_areas (ns_areas s)" "\<forall>(dim, r) \<in> set (ns_areas s). \<not> shadowed_code dim"
  shows "map scope_area_from_str (split_on 32 (spell_areas s))
    = map (\<lambda>(dim, r). Inr \<lparr>ss_dim = dim, ss_rect = r\<rparr>) (ns_areas s)"
  by (rule spelled_areas_split [OF assms(1)]) (use assms(2) in auto)

definition demo_scope :: named_scope where
  "demo_scope = \<lparr>ns_name = ScopeName (lit ''spawn''),
     ns_areas = [(OVERWORLD, Rect (i32_of 0) (i32_of (- 4)) (i32_of 3) (i32_of 3))], ns_created_at_ms = 70\<rparr>"

theorem spelled_scope_reads_back_witness:
  "map scope_area_from_str (split_on 32 (spell_areas demo_scope))
    = [Inr \<lparr>ss_dim = OVERWORLD, ss_rect = Rect (i32_of 0) (i32_of (- 4)) (i32_of 3) (i32_of 3)\<rparr>]"
proof -
  have "normal_areas (ns_areas demo_scope)"
    by (simp add: demo_scope_def normal_areas_def less_eq_i32_def sval_i32_of in_i32_def)
  moreover have "\<not> shadowed_code OVERWORLD" using dimension_display_roundtrip [of OVERWORLD]
    by (simp add: dimension_display_def dimension_from_str_trio)
  ultimately show ?thesis using spelled_scope_reads_back [of demo_scope] by (simp add: demo_scope_def)
qed

text \<open>C20: A scope created from the texts of some areas and regions and later named by \<open>--scope\<close> selects exactly
  the chunks the same texts select when they are given to \<open>--in\<close> and \<open>--region\<close>.\<close>

theorem named_scope_selects_alike:
  assumes "wf_db db" "valid_name (scope_str n)" "mapE scope_area_from_str texts = Inr specs"
    and "cli_scope_create (sqlite_port H) clock n specs regions force db = Inr (s, db')"
  shows "\<exists>inline sc. mapE area_spec_from_str texts = Inr inline
    \<and> resolve_selection (sqlite_port H) db' (ScopeNamed n) = Inr sc
    \<and> (\<forall>c. scope_contains sc c \<longleftrightarrow> scope_contains (owned_scope \<lparr>is_areas = inline, is_region = regions, is_kind = []\<rparr>) c)"
  by (rule named_selects [OF assms])

definition demo_text :: rstr where
  "demo_text = lit ''overworld:0,-4..3,3''"

definition demo_text_spec :: scope_area_spec where
  "demo_text_spec = \<lparr>ss_dim = OVERWORLD, ss_rect = Rect (i32_of 0) (i32_of (- 4)) (i32_of 3) (i32_of 3)\<rparr>"

theorem named_scope_selects_alike_witness:
  "\<exists>s db' sc inline. cli_scope_create (sqlite_port demo_H) None (ScopeName (lit ''spawn'')) [demo_text_spec] [] True demo_db = Inr (s, db')
    \<and> resolve_selection (sqlite_port demo_H) db' (ScopeNamed (ScopeName (lit ''spawn''))) = Inr sc
    \<and> mapE area_spec_from_str [demo_text] = Inr inline
    \<and> (scope_contains sc (demo_coord 1) \<longleftrightarrow> scope_contains (owned_scope \<lparr>is_areas = inline, is_region = [], is_kind = []\<rparr>) (demo_coord 1))"
proof -
  have v: "valid_name (scope_str (ScopeName (lit ''spawn'')))" by code_simp
  have "spell_area OVERWORLD (ss_rect demo_text_spec) = demo_text"
    by (simp add: demo_text_spec_def spell_area_def dimension_display_def show_i32_def show_nat_small sval_i32_of in_i32_def demo_text_def lit_def of_char_def)
  moreover have "\<not> shadowed_code OVERWORLD" using dimension_display_roundtrip [of OVERWORLD]
    by (simp add: dimension_display_def dimension_from_str_trio)
  ultimately have "scope_area_from_str demo_text = Inr demo_text_spec"
    using scope_area_spelled [of OVERWORLD "ss_rect demo_text_spec"]
    by (simp add: demo_text_spec_def less_eq_i32_def sval_i32_of in_i32_def)
  then have texts: "mapE scope_area_from_str [demo_text] = Inr [demo_text_spec]" by simp
  have "is_ok (cli_scope_create (sqlite_port demo_H) None (ScopeName (lit ''spawn'')) [demo_text_spec] [] True demo_db)" by code_simp
  then obtain s db' where r: "cli_scope_create (sqlite_port demo_H) None (ScopeName (lit ''spawn'')) [demo_text_spec] [] True demo_db = Inr (s, db')"
    by (auto simp: is_ok_iff)
  show ?thesis using r named_scope_selects_alike [OF demo_wf v texts r] by blast
qed

subsection \<open>References\<close>

text \<open>C22: A reference the command line accepts resolves as its spelling would have, since an id is only
  written in its canonical form; one it refuses would not have resolved on any store.\<close>

theorem accepted_reference_resolves_alike:
  "\<exists>parsed. cli_ref_from_str s = Some parsed
    \<and> (case parsed of
         Inr t \<Rightarrow> resolve_commit_ref (sqlite_port H) db t = resolve_commit_ref (sqlite_port H) db s
       | Inl e \<Rightarrow> resolve_commit_ref (sqlite_port H) db s = Inl (ReInvalidRef s))"
proof (cases "commit_id_from_str s")
  case (Inr i)
  obtain t where t: "commit_id_display i = Some t" "commit_id_from_str t = Inr i" using commit_id_print_parse [of i] by blast
  then show ?thesis using Inr by (simp add: cli_ref_from_str_def resolve_commit_ref_def)
next
  case (Inl e)
  then show ?thesis
    by (cases "ref_name_parse s") (simp_all add: cli_ref_from_str_def resolve_commit_ref_def)
qed

subsection \<open>Diffs\<close>

text \<open>C18: A diff of two commits reports, sorted and each once, exactly the chunks of the selection whose
  blobs differ in the two commits, with both blobs, however the selection was spelled.\<close>

theorem commits_diff_complete:
  assumes "wf_db db" "da_world args = None"
    and "resolve_selection (sqlite_port H) db (da_selection args) = Inr sc"
    and "resolve_commit_pair (sqlite_port H) db (da_old_commit args) (da_new_commit args) = Inr (i, j)"
  shows "\<exists>ds. cli_diff env H' fs (sqlite_port H) db args = Some (Inr ds)
    \<and> sorted_wrt (<) (map cd_coord ds)
    \<and> cd_coord ` set ds = {c. scope_contains sc c \<and> present_at (chunk_view db i) c \<noteq> present_at (chunk_view db j) c}
    \<and> (\<forall>d \<in> set ds. cd_entries d
         = from_sides (present_at (chunk_view db i) (cd_coord d)) (present_at (chunk_view db j) (cd_coord d)))"
  by (rule cli_diff_commits_reported [OF assms])

definition demo_args :: "host_path option \<Rightarrow> diff_args" where
  "demo_args world = \<lparr>da_world = world, da_old_commit = None, da_new_commit = None,
     da_selection = Inline \<lparr>is_areas = [], is_region = [], is_kind = []\<rparr>\<rparr>"

lemma demo_pair: "resolve_commit_pair (sqlite_port demo_H) demo_db None None = Inr (12, 13)"
proof -
  have "app_active_ref (sqlite_port demo_H) demo_db = Inr (Some (commit_ref_new (RefName DEFAULT_REF_NAME) (Some 13) True 50))"
    by code_simp
  moreover have "app_commit_parents (sqlite_port demo_H) demo_db 13 = Inr [12]" by code_simp
  ultimately show ?thesis
    by (simp add: resolve_commit_pair_def active_commit_def lowest_id_parent_def commit_ref_new_def ok_or_def)
qed

theorem commits_diff_complete_witness:
  "\<exists>ds. cli_diff demo_env (\<lambda>_. 0) \<lparr>fs_dirs = [], fs_files = [], fs_text = (\<lambda>_. None)\<rparr> (sqlite_port demo_H) demo_db (demo_args None)
      = Some (Inr ds) \<and> demo_coord 1 \<in> cd_coord ` set ds"
proof -
  have "present_at (chunk_view demo_db 12) (demo_coord 1) = Some 6" by code_simp
  moreover have "present_at (chunk_view demo_db 13) (demo_coord 1) = None" by code_simp
  ultimately show ?thesis
    using commits_diff_complete [OF demo_wf, of "demo_args None" demo_H World 12 13 demo_env "\<lambda>_. 0"
        "\<lparr>fs_dirs = [], fs_files = [], fs_text = (\<lambda>_. None)\<rparr>"] demo_pair
    by (auto simp: demo_args_def resolve_selection_def owned_scope_def)
qed

text \<open>C19: A diff against a world reports, sorted and each once, the chunks of the selection whose key in the
  world is not the commit's blob, but only those the world holds or the selection spells one by one: a
  chunk the world has lost is not reported when the selection is the whole world, an area or a region.\<close>

theorem world_diff_reports:
  assumes "wf_db db" "da_world args = Some path"
    and "resolve_selection (sqlite_port H) db (da_selection args) = Inr sc"
    and "host_new H' fs path = Inr w" "host_valid w" "host_ready env w World"
    and "(\<exists>s. da_old_commit args = Some s \<and> cli_resolve (sqlite_port H) db s = Inr i)
      \<or> da_old_commit args = None \<and> head_view db = Some (Some i)"
  shows "\<exists>ds. cli_diff env H' fs (sqlite_port H) db args = Some (Inr ds)
    \<and> sorted_wrt (<) (map cd_coord ds)
    \<and> cd_coord ` set ds = {c. scope_contains sc c
        \<and> (world_chunk (host_files w) c \<noteq> None \<or> c \<in> set (fst (selected_coords (da_selection args))))
        \<and> present_at (chunk_view db i) c \<noteq> world_scan env (host_files w) World c}
    \<and> (\<forall>d \<in> set ds. cd_entries d
         = from_sides (present_at (chunk_view db i) (cd_coord d)) (world_scan env (host_files w) World (cd_coord d)))"
  by (rule cli_diff_world_reported [OF assms])

text \<open>An empty world against a commit that holds a chunk: nothing is reported.\<close>

definition demo_lost :: host_world where
  "demo_lost = \<lparr>hw_root = [lit ''w''], hw_dirs = legacy_dirs [lit ''w''], hw_root_is_dir = True, hw_files = []\<rparr>"

theorem world_diff_reports_witness:
  "cli_diff demo_env (\<lambda>_. 0) (fs_of demo_lost) (sqlite_port demo_H) demo_db (demo_args (Some [lit ''w''])) = Some (Inr [])
    \<and> present_at (chunk_view demo_db 13) (demo_coord 0) = Some 7"
proof -
  have files: "host_files demo_lost k = None" for k
    by (simp add: host_files_def host_find_def demo_lost_def)
  have "legacy_world [lit ''w''] demo_lost" by (simp add: legacy_world_def demo_lost_def)
  then have "host_new (\<lambda>_. 0) (fs_of demo_lost) [lit ''w''] = Inr demo_lost" by (rule legacy_opens)
  moreover have "host_valid demo_lost"
  proof -
    have "distinct (map snd (legacy_dirs [lit ''w'']))" by code_simp
    then show ?thesis by (simp add: host_valid_def demo_lost_def legacy_dirs_def)
  qed
  moreover have "host_ready demo_env demo_lost World" by (simp add: host_ready_def hashable_def world_chunk_def files)
  ultimately show ?thesis
    using world_diff_reports [OF demo_wf, of "demo_args (Some [lit ''w''])" "[lit ''w'']" demo_H World "\<lambda>_. 0" "fs_of demo_lost"
        demo_lost demo_env 13] demo_commit(2) demo_present [of "demo_coord 0"]
    by (auto simp: demo_args_def resolve_selection_def owned_scope_def selected_coords_def explicit_chunks_def
        map_filter_simps world_chunk_def files)
qed

end
