(* ===== verification/Spec2Isabelle.thy ===== *)
theory Spec2Isabelle
  imports World_Host Meta_Steps Meta_Overlay Usecase_Commit Usecase_Gc Anvil_Writer Chunk_Keys Examples
    Value_Properties Anvil_Properties Store_Properties Usecase_Properties
    App_Properties Workspace_Properties Lock_Properties Layout_Properties World_Swap Cli_Properties
begin

text \<open>
  sekai is a version control system for Minecraft worlds: it stores each chunk of a world once, by
  the digest of its normalized content, and a commit as the rows that changed since its parent.
  The model follows the crates under \<open>src/crates/\<close>, bottom up.

  \<^item> \<open>Sekai_Prelude\<close>, \<open>Loops\<close>, \<open>Ordered_Map\<close>: results as sums with the \<open>?\<close> operator as \<open>bindE\<close>, machine
    integers, big-endian bytes, \<open>try_for_each\<close> visits as a list of items and a final error, and the
    locale of ordered maps (\<open>BTreeMap\<close>) with the association list that implements it.
  \<^item> \<open>Codes\<close>, \<open>Coords\<close>, \<open>Names\<close>, \<open>Hex\<close>, \<open>Scopes\<close> (\<open>util/src\<close>): dimensions, region kinds, chunk and region
    coordinates, names, hex codes, rectangles, scopes and the value records, with the orders the
    code derives as instances of \<open>linorder\<close>. \<open>Commit_Hash\<close> (\<open>core/src/commit.rs\<close>) is the preimage of a
    commit id byte by byte; the digest (Blake3, not in the repository) is the parameter \<open>H\<close>.
  \<^item> \<open>Storage_Api\<close> (\<open>storage/src/api.rs\<close>): storage errors and backend URLs. \<open>Meta_Port\<close>
    (\<open>core/src/port/meta.rs\<close>): the trait \<open>MetaStore\<close> as a record of operations, and its promises as the
    locales \<open>history_store\<close>, \<open>folding_store\<close>, \<open>ref_store\<close> and \<open>scope_store\<close>; \<open>recording_store\<close> (in
    \<open>Meta_Apply\<close>) extends the first with recording.
  \<^item> \<open>Meta_Tables\<close>, \<open>Meta_Commits\<close>, \<open>Meta_Reads\<close>, \<open>Meta_Refs\<close>, \<open>Meta_Scopes\<close>, \<open>Meta_Retire\<close>
    (\<open>storage-sqlite/src/meta.rs\<close> and its schema): each operation as its transaction over the
    tables, a list of rows each, with keys, foreign keys and autoincrement counters checked where
    SQLite checks them. \<open>History_Graph\<close> is the recursive query over \<open>commit_parents\<close> as the worklist
    SQLite documents. \<open>Meta_Invariant\<close> is the well-formedness of a database; \<open>Meta_Views\<close> what the tables
    mean; \<open>Meta_Sqlite\<close> the interpretations of the port's locales; \<open>Meta_Steps\<close> the operations as a
    step relation, with the reachable databases; \<open>Meta_Overlay\<close> the reading of a delta history as an
    overlay. \<open>Blob_Store\<close> (\<open>core/src/port/blob.rs\<close>, \<open>storage-sqlite/src/blob.rs\<close>) is the same for blobs.
  \<^item> \<open>Usecase_Commit\<close>, \<open>Usecase_Prune\<close>, \<open>Usecase_Gc\<close>, \<open>Usecase_Graph\<close> (\<open>core/src/usecase\<close>): the use cases over
    any store of the locales: planning and recording commits, checkout plans, pruning, garbage
    collection, walks over the commit graph and the resolution of references.
  \<^item> \<open>Anvil_Layout\<close>, \<open>Anvil_Reader\<close>, \<open>Anvil_Writer\<close>, \<open>Anvil_Codec\<close>, \<open>Chunk_Keys\<close> (\<open>anvil/src\<close>): region files
    byte by byte, the iterator over their chunks, the framing of compressed chunks with inflate,
    LZ4 blocks and the checksums as parameters, and the keys of chunks with the NBT codec as a
    parameter. \<open>Chunk_Keys\<close> also holds the payload diff of \<open>core/src/usecase/diff.rs\<close>.
  \<^item> \<open>World_Port\<close> (\<open>world/src/tree.rs\<close>, \<open>region.rs\<close>, \<open>error.rs\<close>): the trait \<open>WorldTree\<close> and the locale
    \<open>world_tree\<close> of its promises; \<open>World_Host\<close> (\<open>world/src/tree/hostworld.rs\<close>): the host world over files by
    path, and the interpretation \<open>hw\<close>. \<open>World_Lock\<close> (\<open>world/src/lock.rs\<close>, \<open>hostworld/lock.rs\<close>): the file lock.
    \<open>World_Layout\<close> (\<open>hostworld/detect.rs\<close>, \<open>vanilla.rs\<close>, \<open>bukkit.rs\<close>): opening an existing root.
    \<open>World_Swap\<close> (\<open>world/src/swap.rs\<close>): replacing a file, with every disk a crash can leave.
  \<^item> \<open>App_*\<close> (\<open>app/src\<close>): the operations over any world tree and stores. \<open>App_Base\<close>: errors, clock and
    discovery. \<open>App_Checkout\<close> (\<open>checkout.rs\<close>) with \<open>App_Restore\<close> (one file) and \<open>App_Restored\<close> (the whole
    checkout, locale \<open>checkout_stores\<close>); \<open>App_Ingest\<close> (\<open>commit.rs\<close>: staging, groups, workers) with
    \<open>App_Ingested\<close> (what any schedule has done so far) and \<open>App_Scanned\<close> (what it ends with);
    \<open>App_Commit\<close> (commit and status) with \<open>App_Committed\<close> (locale \<open>workspace\<close>), \<open>App_Workspace\<close> (one after
    the other) and \<open>App_Refused\<close> (chunks without a key); \<open>App_Diff\<close>, \<open>App_Clone\<close>, \<open>App_Store\<close> (refs, scopes, prune, gc,
    listings); \<open>App_Lock\<close> (\<open>instance.rs\<close>: guards shared with steps, cancellation, release). \<open>App_Host\<close> states
    the promises over the host world and SQLite, where \<open>hr\<close>, \<open>hc\<close> and \<open>ws\<close> interpret the locales.
  \<^item> \<open>Cli_Selection\<close>, \<open>Cli_Diff\<close>, \<open>Cli_Commands\<close> (\<open>cli/src\<close>): areas, selections and references as the
    command line spells them, the diff command, and the other commands as sequences of operations.

  The claims are in \<open>Workspace_Properties\<close>, \<open>App_Properties\<close>, \<open>Lock_Properties\<close>, \<open>Layout_Properties\<close>, \<open>Cli_Properties\<close>,
  \<open>Value_Properties\<close>, \<open>Anvil_Properties\<close>, \<open>Store_Properties\<close>, \<open>Usecase_Properties\<close>, \<open>World_Swap\<close> and below; each is a short proof over the
  lemmas of its component, and the concrete inputs of the witnesses are in \<open>Examples\<close> and \<open>App_Examples\<close>. The lemma
  groups: invariants preserved by every operation (\<open>wf_db\<close>, \<open>linear_db\<close>, \<open>wf_blobs\<close>, \<open>lock_inv\<close>); what
  each operation answers, errors included, as equations over well-formed databases; the laws of the
  ports; reads of a commit's state against the overlay reading; round trips of region images, names,
  ids, scopes and whole worlds; totality of walks and decoders.

  Bounds and fuel. \<open>usize\<close> is \<open>nat\<close>; \<open>u32\<close>, \<open>u64\<close>, \<open>i32\<close>, \<open>i64\<close> keep their widths wherever the code computes
  with them. The walks over the graph are total functions with the set of unseen ids as measure.
  The decoders of \<open>Anvil_Codec\<close> are partial functions: that they return is a theorem, under the
  documented behaviour of the inflate step that it makes progress or ends. Workers run under a schedule,
  a list of worker numbers that each give one worker one turn, and a commit answers \<open>None\<close> while a worker
  still runs; a worker needs two turns per file, one per chunk and one to end, so that
  \<open>host_turns\<close> gives every worker enough whatever files it was assigned. How many queued writes of a
  clone are done before the next file is built is an argument.

  Not modelled: connection retries, pragmas and I/O failures of SQLite (an operation here either
  commits or answers one of the errors the code itself raises); interleaving inside a transaction,
  since SQLite serialises writers; failures of reading and writing region files on a host world, its
  symbolic links and names that are not Unicode; the fingerprints of region files, which no
  operation consults; opening and creating the store; timings; the declarations of NBT leaf
  types, which are input to a derive macro; argument parsing by clap and the
  rendering of reports; the in-memory backend of the repository's tests.
\<close>

section \<open>Pruning\<close>

text \<open>C4: A plan of \<open>prune_plan\<close> always applies on SQLite, deletes exactly what it lists with one
  progress call per deleted commit, and keeps the chunk state of every retained commit, when
  histories are linear and sequences follow the graph.\<close>

theorem prune_keeps_retained_states:
  assumes "wf_db db" "linear_db db" "prune_plan (sqlite_port H) db R = Inr plan"
  shows "\<exists>report db'. prune_apply (sqlite_port H) plan db
      = (Inr report, db', progress_calls 0 (length (pp_delete plan)) (length (pp_delete plan)))
    \<and> pr_pruned report = length (pp_delete plan) \<and> wf_db db' \<and> linear_db db'
    \<and> ids_of (commits_view db') = pp_retained plan
    \<and> (\<forall>i \<in> R. chunk_view db' i = chunk_view db i)
    \<and> (\<forall>a \<in> R. \<forall>b \<in> R. (a, b) \<in> (graph_of (commits_view db'))\<^sup>* \<longleftrightarrow> (a, b) \<in> (graph_of (commits_view db))\<^sup>*)"
  by (rule sqf.prune_applies [OF assms])

theorem prune_keeps_retained_states_witness:
  "\<exists>report db'. prune_apply (sqlite_port demo_H) \<lparr>pp_delete = [11], pp_retained = [12, 13]\<rparr> demo_db
      = (Inr report, db', [(1, 1)]) \<and> chunk_view db' 12 = chunk_view demo_db 12"
  using prune_keeps_retained_states [OF demo_wf demo_linear demo_plan]
  by (auto simp: progress_calls_def)

end
